(* ===== verification/Kernel_Prelude.thy ===== *)
theory Kernel_Prelude
  imports Main "HOL-Library.Word" "HOL-Library.Monad_Syntax"
begin

text \<open>
  Shared vocabulary of the MagicBox development: the machine integers of
  \<^verbatim>\<open>include/sys/stdint.h\<close>, the reading of \<^verbatim>\<open>ASSERT\<close>, \<^verbatim>\<open>PANIC\<close> and faulting memory
  accesses as the value \<open>None\<close>, the page arithmetic macros of
  \<^verbatim>\<open>include/magicbox/memory.h\<close> and \<^verbatim>\<open>include/arch/global.h\<close>, and the lemmas on
  options, lists and words that the component theories share.
\<close>

unbundle bit_operations_syntax

section \<open>Machine integers and halting computations\<close>

type_synonym u8 = "8 word"
type_synonym u16 = "16 word"
type_synonym u32 = "32 word"

text \<open>
  A kernel operation returns \<open>Some\<close> of its result, or \<open>None\<close> when it stops the machine: an
  \<^verbatim>\<open>ASSERT\<close> that fails, a \<^verbatim>\<open>PANIC\<close>, or an access through a null or unmapped pointer. Error codes
  handed back to a caller are ordinary results.
\<close>

type_synonym 'a halting = "'a option"

definition ASSERT :: "bool \<Rightarrow> unit halting" where
  "ASSERT condition = (if condition then Some () else None)"

text \<open>The error code of \<^verbatim>\<open>include/uapi/errno.h\<close> that components of all kinds return.\<close>

definition EINVAL :: int where
  "EINVAL = 22"

text \<open>Facts that unfold one step of a halting computation.\<close>

named_theorems halting_simps \<open>one step of a halting computation\<close>

text \<open>Facts on page arithmetic, all stated over the natural number a word denotes.\<close>

named_theorems page_simps \<open>page arithmetic on words\<close>

lemma ASSERT_Some [simp]: "ASSERT condition = Some u \<longleftrightarrow> condition"
  by (simp add: ASSERT_def)

lemma ASSERT_None [simp]: "ASSERT condition = None \<longleftrightarrow> \<not> condition"
  by (simp add: ASSERT_def)

lemma ASSERT_True [simp]: "ASSERT True = Some ()"
  by (simp add: ASSERT_def)

lemma ASSERT_False [simp]: "ASSERT False = None"
  by (simp add: ASSERT_def)

lemma bind_Some_iff [halting_simps]:
  "Option.bind m f = Some y \<longleftrightarrow> (\<exists>x. m = Some x \<and> f x = Some y)"
  by (cases m) auto

lemma bind_None_iff [halting_simps]:
  "Option.bind m f = None \<longleftrightarrow> (\<forall>x. m = Some x \<longrightarrow> f x = None)"
  by (cases m) auto

lemma bind_ASSERT [simp]: "Option.bind (ASSERT condition) f = (if condition then f () else None)"
  by (simp add: ASSERT_def)

section \<open>Word lemmas\<close>

lemma and_not_mask_eq: "(x::'a::len word) AND NOT (mask n) = x - take_bit n x"
proof -
  have "x AND NOT (mask n) = push_bit n (drop_bit n x)"
    by (rule bit_word_eqI) (auto simp: bit_simps)
  then show ?thesis
    by (metis bits_ident add_diff_cancel_right')
qed

lemma unat_take_bit_word: "unat (take_bit n (x::'a::len word)) = unat x mod 2 ^ n"
  by (simp add: unsigned_take_bit_eq flip: take_bit_eq_mod)

lemma unat_and_not_mask: "unat ((x::'a::len word) AND NOT (mask n)) = unat x div 2 ^ n * 2 ^ n"
proof -
  have "take_bit n x \<le> x"
    by (metis take_bit_eq_mask word_and_le2)
  then have "unat (x - take_bit n x) = unat x - unat (take_bit n x)"
    by (rule unat_sub)
  then show ?thesis
    by (simp add: and_not_mask_eq unat_take_bit_word minus_mod_eq_div_mult)
qed

lemma unat_and_mask: "unat ((x::'a::len word) AND mask n) = unat x mod 2 ^ n"
  by (simp add: unat_take_bit_word flip: take_bit_eq_mask)

lemma unat_plus_no_wrap:
  "unat (a::'a::len word) + unat b < 2 ^ LENGTH('a) \<Longrightarrow> unat (a + b) = unat a + unat b"
  by (simp add: unat_word_ariths)

lemma unat_minus_no_wrap:
  "unat (b::'a::len word) \<le> unat a \<Longrightarrow> unat (a - b) = unat a - unat b"
  by (simp add: unat_sub word_le_nat_alt)

lemma u32_eqI: "unat (a::u32) = unat b \<Longrightarrow> a = b"
  by (simp add: word_unat_eq_iff)

lemma u32_less [page_simps]: "(a::u32) < b \<longleftrightarrow> unat a < unat b"
  by (rule word_less_nat_alt)

lemma u32_le [page_simps]: "(a::u32) \<le> b \<longleftrightarrow> unat a \<le> unat b"
  by (rule word_le_nat_alt)

lemma unat_u32_bound [simp]: "unat (a::u32) < 4294967296"
  using unsigned_less [of a, where ?'a = nat] by simp

lemma unat_of_nat_small: "n < 2 ^ 32 \<Longrightarrow> unat (of_nat n :: u32) = n"
  by (simp add: unat_of_nat)

section \<open>Page arithmetic\<close>

definition PG_SIZE :: u32 where
  "PG_SIZE = 4096"

definition PAGE_ALIGN_UP :: "u32 \<Rightarrow> u32" where
  "PAGE_ALIGN_UP vaddr = (vaddr + PG_SIZE - 1) AND NOT (PG_SIZE - 1)"

definition PAGE_ALIGN_DOWN :: "u32 \<Rightarrow> u32" where
  "PAGE_ALIGN_DOWN vaddr = vaddr AND NOT (PG_SIZE - 1)"

definition DIV_ROUND_UP :: "u32 \<Rightarrow> u32 \<Rightarrow> u32" where
  "DIV_ROUND_UP X STEP = (X + STEP - 1) div STEP"

lemma PG_SIZE_mask: "PG_SIZE - 1 = mask 12"
  by (simp add: PG_SIZE_def mask_eq_exp_minus_1)

lemma unat_PG_SIZE [simp]: "unat PG_SIZE = 4096"
  by (simp add: PG_SIZE_def)

lemma unat_PAGE_ALIGN_DOWN [page_simps]: "unat (PAGE_ALIGN_DOWN a) = unat a div 4096 * 4096"
  by (simp only: PAGE_ALIGN_DOWN_def PG_SIZE_mask unat_and_not_mask) simp

lemma unat_PAGE_ALIGN_UP_wrap:
  "unat (PAGE_ALIGN_UP a) = ((unat a + 4095) mod 2 ^ 32) div 4096 * 4096"
proof -
  have "unat (a + PG_SIZE - 1) = (unat a + 4095) mod 2 ^ 32"
  proof -
    have "a + PG_SIZE - 1 = a + 4095"
      by (simp add: PG_SIZE_def)
    then have "unat (a + PG_SIZE - 1) = unat (a + 4095)"
      by (rule arg_cong)
    then show ?thesis
      by (simp add: unat_word_ariths)
  qed
  then show ?thesis
    by (simp only: PAGE_ALIGN_UP_def PG_SIZE_mask unat_and_not_mask) simp
qed

lemma unat_PAGE_ALIGN_UP [page_simps]:
  "unat a + 4095 < 2 ^ 32 \<Longrightarrow> unat (PAGE_ALIGN_UP a) = (unat a + 4095) div 4096 * 4096"
  by (simp add: unat_PAGE_ALIGN_UP_wrap)

lemma PAGE_ALIGN_UP_dvd: "4096 dvd unat (PAGE_ALIGN_UP a)"
  by (simp add: unat_PAGE_ALIGN_UP_wrap)

lemma PAGE_ALIGN_UP_id: "4096 dvd unat a \<Longrightarrow> PAGE_ALIGN_UP a = a"
proof (rule u32_eqI)
  assume d: "4096 dvd unat a"
  then obtain k where k: "unat a = 4096 * k"
    by (elim dvdE)
  have "k < 2 ^ 20"
    using k unat_u32_bound [of a] by simp
  then have "unat a + 4095 < 2 ^ 32"
    using k by simp
  then show "unat (PAGE_ALIGN_UP a) = unat a"
    using k by (simp add: unat_PAGE_ALIGN_UP)
qed

lemma unat_DIV_ROUND_UP:
  assumes "0 < unat STEP" "unat X + unat STEP \<le> 2 ^ 32"
  shows "unat (DIV_ROUND_UP X STEP) = (unat X + unat STEP - 1) div unat STEP"
proof -
  have s: "unat (STEP - 1) = unat STEP - 1"
    using assms(1) by (simp add: unat_minus_one unat_gt_0)
  have "unat (X + (STEP - 1)) = unat X + unat (STEP - 1)"
    using assms s by (intro unat_plus_no_wrap) simp
  then have "unat (X + STEP - 1) = unat X + (unat STEP - 1)"
    using s by (simp add: add_diff_eq)
  then show ?thesis
    using assms(1) by (simp add: DIV_ROUND_UP_def unat_div)
qed

section \<open>List lemmas\<close>

lemma nth_eq_append_iff:
  "i < length xs \<Longrightarrow> xs = take i xs @ xs ! i # drop (Suc i) xs"
  by (rule id_take_nth_drop)

lemma find_Some_split:
  "List.find P xs = Some x \<longleftrightarrow> (\<exists>ys zs. xs = ys @ x # zs \<and> P x \<and> (\<forall>y\<in>set ys. \<not> P y))"
proof (induction xs)
  case Nil
  then show ?case by simp
next
  case (Cons a xs)
  show ?case
  proof (cases "P a")
    case True
    then show ?thesis
      by (auto simp: Cons_eq_append_conv)
  next
    case False
    show ?thesis
    proof
      assume "List.find P (a # xs) = Some x"
      then obtain ys zs where "xs = ys @ x # zs" "P x" "\<forall>y\<in>set ys. \<not> P y"
        using False Cons by auto
      then have "a # xs = (a # ys) @ x # zs \<and> P x \<and> (\<forall>y\<in>set (a # ys). \<not> P y)"
        using False by simp
      then show "\<exists>ys zs. a # xs = ys @ x # zs \<and> P x \<and> (\<forall>y\<in>set ys. \<not> P y)"
        by blast
    next
      assume "\<exists>ys zs. a # xs = ys @ x # zs \<and> P x \<and> (\<forall>y\<in>set ys. \<not> P y)"
      then show "List.find P (a # xs) = Some x"
        using False Cons by (auto simp: Cons_eq_append_conv)
    qed
  qed
qed

lemma remove1_distinct_split:
  "distinct (ys @ x # zs) \<Longrightarrow> remove1 x (ys @ x # zs) = ys @ zs"
  by (simp add: remove1_append)

lemma in_set_remove1_distinct:
  "distinct xs \<Longrightarrow> y \<in> set (remove1 x xs) \<longleftrightarrow> y \<in> set xs \<and> y \<noteq> x"
  by auto

text \<open>
  Components other than the list itself keep a \<^verbatim>\<open>struct dlist\<close> as the list of its members. Removing a
  node that is not linked follows null pointers, so it stops the machine.
\<close>

definition unlink :: "'a \<Rightarrow> 'a list \<Rightarrow> 'a list halting" where
  "unlink x xs = do { ASSERT (x \<in> set xs); Some (remove1 x xs) }"

lemma unlink_Some [simp]: "unlink x xs = Some ys \<longleftrightarrow> x \<in> set xs \<and> ys = remove1 x xs"
  by (auto simp: unlink_def)

lemma unlink_member: "x \<in> set xs \<Longrightarrow> unlink x xs = Some (remove1 x xs)"
  by simp

end
