(* ===== verification/Dlist.thy ===== *)
theory Dlist
  imports Kernel_Prelude
begin

text \<open>
  The intrusive doubly linked list of \<^verbatim>\<open>lib/kernel/dlist.c\<close> on an explicit heap. A node is an
  address, \<open>0\<close> is \<^verbatim>\<open>NULL\<close>, and an access to an address that holds no node stops the machine. The
  representation predicate \<open>dl_rep\<close> relates a heap and the two sentinels of a \<^verbatim>\<open>struct dlist\<close> to the
  list of nodes between them. Every operation is shown to return and to act on that list as the
  list function its clients rely on, which justifies the plain lists the other components use for a
  \<^verbatim>\<open>struct dlist\<close>.
\<close>

section \<open>The code\<close>

type_synonym addr = nat

record dlist_elem =
  prev :: addr
  nxt :: addr

record dlist =
  head :: addr
  tail :: addr

type_synonym dheap = "addr \<rightharpoonup> dlist_elem"

abbreviation NULL :: addr where
  "NULL \<equiv> 0"

text \<open>Loads and stores of the two fields; an address without a node faults.\<close>

definition get_prev :: "dheap \<Rightarrow> addr \<Rightarrow> addr halting" where
  "get_prev h a = map_option prev (h a)"

definition get_next :: "dheap \<Rightarrow> addr \<Rightarrow> addr halting" where
  "get_next h a = map_option nxt (h a)"

definition set_prev :: "dheap \<Rightarrow> addr \<Rightarrow> addr \<Rightarrow> dheap halting" where
  "set_prev h a v = map_option (\<lambda>n. h(a \<mapsto> n\<lparr>prev := v\<rparr>)) (h a)"

definition set_next :: "dheap \<Rightarrow> addr \<Rightarrow> addr \<Rightarrow> dheap halting" where
  "set_next h a v = map_option (\<lambda>n. h(a \<mapsto> n\<lparr>nxt := v\<rparr>)) (h a)"

definition dlist_init :: "dheap \<Rightarrow> dlist \<Rightarrow> dheap halting" where
  "dlist_init h plist = do {
     h \<leftarrow> set_prev h (head plist) NULL;
     h \<leftarrow> set_next h (head plist) (tail plist);
     h \<leftarrow> set_prev h (tail plist) (head plist);
     set_next h (tail plist) NULL
   }"

definition dlist_empty :: "dheap \<Rightarrow> dlist \<Rightarrow> bool halting" where
  "dlist_empty h plist = do {
     n \<leftarrow> get_next h (head plist);
     Some (n = tail plist)
   }"

definition dlist_is_linked :: "dheap \<Rightarrow> addr \<Rightarrow> bool halting" where
  "dlist_is_linked h pelem = do {
     p \<leftarrow> get_prev h pelem;
     if p = NULL then Some False else do {
       n \<leftarrow> get_next h pelem;
       if n = NULL then Some False else do {
         pn \<leftarrow> get_next h p;
         if pn \<noteq> pelem then Some False else do {
           np \<leftarrow> get_prev h n;
           Some (np = pelem)
         }
       }
     }
   }"

definition dlist_insert_front :: "dheap \<Rightarrow> addr \<Rightarrow> addr \<Rightarrow> dheap halting" where
  "dlist_insert_front h front elem = do {
     fp \<leftarrow> get_prev h front;
     h \<leftarrow> set_next h fp elem;
     fp \<leftarrow> get_prev h front;
     h \<leftarrow> set_prev h elem fp;
     h \<leftarrow> set_next h elem front;
     set_prev h front elem
   }"

definition dlist_push_front :: "dheap \<Rightarrow> dlist \<Rightarrow> addr \<Rightarrow> dheap halting" where
  "dlist_push_front h plist elem = do {
     n \<leftarrow> get_next h (head plist);
     dlist_insert_front h n elem
   }"

definition dlist_push_back :: "dheap \<Rightarrow> dlist \<Rightarrow> addr \<Rightarrow> dheap halting" where
  "dlist_push_back h plist elem = dlist_insert_front h (tail plist) elem"

definition dlist_remove :: "dheap \<Rightarrow> addr \<Rightarrow> dheap halting" where
  "dlist_remove h pelem = do {
     p \<leftarrow> get_prev h pelem;
     n \<leftarrow> get_next h pelem;
     h \<leftarrow> set_next h p n;
     n \<leftarrow> get_next h pelem;
     p \<leftarrow> get_prev h pelem;
     h \<leftarrow> set_prev h n p;
     h \<leftarrow> set_next h pelem NULL;
     set_prev h pelem NULL
   }"

definition dlist_pop_front :: "dheap \<Rightarrow> dlist \<Rightarrow> (addr \<times> dheap) halting" where
  "dlist_pop_front h plist = do {
     elem \<leftarrow> get_next h (head plist);
     h \<leftarrow> dlist_remove h elem;
     Some (elem, h)
   }"

text \<open>
  \<^verbatim>\<open>dlist_find\<close> and \<^verbatim>\<open>dlist_len\<close> follow the links without a bound, so on a cyclic chain they do not
  return; the loops are partial functions and \<open>None\<close> covers that case.
\<close>

partial_function (option) dlist_find_loop :: "dheap \<Rightarrow> dlist \<Rightarrow> addr \<Rightarrow> addr \<Rightarrow> bool option" where
  "dlist_find_loop h plist obj_elem elem =
     (if elem = tail plist then Some False
      else if elem = obj_elem then Some True
      else do {
        n \<leftarrow> get_next h elem;
        dlist_find_loop h plist obj_elem n
      })"

definition dlist_find :: "dheap \<Rightarrow> dlist \<Rightarrow> addr \<Rightarrow> bool halting" where
  "dlist_find h plist obj_elem = do {
     elem \<leftarrow> get_next h (head plist);
     dlist_find_loop h plist obj_elem elem
   }"

partial_function (option) dlist_len_loop :: "dheap \<Rightarrow> dlist \<Rightarrow> addr \<Rightarrow> u32 \<Rightarrow> u32 option" where
  "dlist_len_loop h plist elem len =
     (if elem = tail plist then Some len
      else do {
        n \<leftarrow> get_next h elem;
        dlist_len_loop h plist n (len + 1)
      })"

definition dlist_len :: "dheap \<Rightarrow> dlist \<Rightarrow> u32 halting" where
  "dlist_len h plist = do {
     elem \<leftarrow> get_next h (head plist);
     dlist_len_loop h plist elem 0
   }"

text \<open>
  \<^verbatim>\<open>dlist_traversal\<close> checks both links of every node it visits and stops the machine after
  \<^verbatim>\<open>TIMEOUT_CNT\<close> nodes, so it is total.
\<close>

definition TIMEOUT_CNT :: nat where
  "TIMEOUT_CNT = 100000000"

function dlist_traversal_loop ::
  "dheap \<Rightarrow> dlist \<Rightarrow> (addr \<Rightarrow> 'arg \<Rightarrow> bool) \<Rightarrow> 'arg \<Rightarrow> addr \<Rightarrow> nat \<Rightarrow> addr halting" where
  "dlist_traversal_loop h plist condition arg elem count =
     (if elem = tail plist then Some NULL
      else do {
        p \<leftarrow> get_prev h elem;
        n \<leftarrow> get_next h elem;
        ASSERT (\<not> (p = NULL \<or> n = NULL));
        np \<leftarrow> get_prev h n;
        pn \<leftarrow> get_next h p;
        ASSERT (\<not> (np \<noteq> elem \<or> pn \<noteq> elem));
        if count > TIMEOUT_CNT then None
        else if condition elem arg then Some elem
        else dlist_traversal_loop h plist condition arg n (count + 1)
      })"
  by pat_completeness auto
termination
  by (relation "measure (\<lambda>(h, plist, condition, arg, elem, count). Suc TIMEOUT_CNT - count)")
    (auto split: if_splits)

declare dlist_traversal_loop.simps [simp del]

definition dlist_traversal ::
  "dheap \<Rightarrow> dlist \<Rightarrow> (addr \<Rightarrow> 'arg \<Rightarrow> bool) \<Rightarrow> 'arg \<Rightarrow> addr halting" where
  "dlist_traversal h plist condition arg = do {
     elem \<leftarrow> get_next h (head plist);
     e \<leftarrow> dlist_empty h plist;
     if e then Some NULL else dlist_traversal_loop h plist condition arg elem 0
   }"

definition dlist_insert_order ::
  "dheap \<Rightarrow> dlist \<Rightarrow> (addr \<Rightarrow> addr \<Rightarrow> bool) \<Rightarrow> addr \<Rightarrow> dheap halting" where
  "dlist_insert_order h plist condition pelem = do {
     ret \<leftarrow> dlist_traversal h plist condition pelem;
     if ret \<noteq> NULL then dlist_insert_front h ret pelem
     else dlist_insert_front h (tail plist) pelem
   }"

definition dlist_move_all :: "dheap \<Rightarrow> dlist \<Rightarrow> dlist \<Rightarrow> dheap halting" where
  "dlist_move_all h dst src = do {
     e \<leftarrow> dlist_empty h src;
     if e then Some h else do {
       sn \<leftarrow> get_next h (head src);
       h \<leftarrow> set_next h (head dst) sn;
       sp \<leftarrow> get_prev h (tail src);
       h \<leftarrow> set_prev h (tail dst) sp;
       dn \<leftarrow> get_next h (head dst);
       h \<leftarrow> set_prev h dn (head dst);
       dp \<leftarrow> get_prev h (tail dst);
       h \<leftarrow> set_next h dp (tail dst);
       h \<leftarrow> set_next h (head src) (tail src);
       set_prev h (tail src) (head src)
     }
   }"

section \<open>The list a heap represents\<close>

fun linked :: "dheap \<Rightarrow> addr list \<Rightarrow> bool" where
  "linked h (a # b # ns) \<longleftrightarrow> get_next h a = Some b \<and> get_prev h b = Some a \<and> linked h (b # ns)"
| "linked h _ \<longleftrightarrow> True"

text \<open>The nodes of a list, sentinels included.\<close>

definition dl_nodes :: "dlist \<Rightarrow> addr list \<Rightarrow> addr list" where
  "dl_nodes l xs = head l # xs @ [tail l]"

definition dl_rep :: "dheap \<Rightarrow> dlist \<Rightarrow> addr list \<Rightarrow> bool" where
  "dl_rep h l xs \<longleftrightarrow>
     distinct (dl_nodes l xs) \<and> NULL \<notin> set (dl_nodes l xs) \<and> set (dl_nodes l xs) \<subseteq> dom h \<and>
     h NULL = None \<and> linked h (dl_nodes l xs) \<and>
     get_prev h (head l) = Some NULL \<and> get_next h (tail l) = Some NULL"

text \<open>A node that may be linked into the list: allocated and not already one of its nodes.\<close>

definition dl_fresh :: "dheap \<Rightarrow> dlist \<Rightarrow> addr list \<Rightarrow> addr \<Rightarrow> bool" where
  "dl_fresh h l xs e \<longleftrightarrow> e \<in> dom h \<and> e \<notin> set (dl_nodes l xs)"

text \<open>An operation on the list leaves every node outside of it and of \<open>e\<close> alone.\<close>

definition dl_frame :: "dheap \<Rightarrow> dheap \<Rightarrow> dlist \<Rightarrow> addr list \<Rightarrow> bool" where
  "dl_frame h h' l ns \<longleftrightarrow> dom h' = dom h \<and> (\<forall>a. a \<notin> set (dl_nodes l ns) \<longrightarrow> h' a = h a)"

lemma linked_append: "linked h (xs @ a # ys) \<longleftrightarrow> linked h (xs @ [a]) \<and> linked h (a # ys)"
proof (induction xs)
  case Nil
  then show ?case by simp
next
  case (Cons x xs)
  then show ?case by (cases xs) auto
qed

lemma linked_cong:
  assumes "\<And>a. a \<in> set (butlast ns) \<Longrightarrow> get_next h' a = get_next h a"
    and "\<And>a. a \<in> set (tl ns) \<Longrightarrow> get_prev h' a = get_prev h a"
  shows "linked h' ns = linked h ns"
  using assms
proof (induction ns rule: induct_list012)
  case (3 a b ns)
  have "linked h' (b # ns) = linked h (b # ns)"
  proof (rule "3.IH"(2))
    fix c
    assume "c \<in> set (butlast (b # ns))"
    then show "get_next h' c = get_next h c"
      using "3.prems"(1) [of c] by simp
  next
    fix c
    assume "c \<in> set (tl (b # ns))"
    then show "get_prev h' c = get_prev h c"
      using "3.prems"(2) [of c] by simp
  qed
  then show ?case
    using "3.prems"(1) [of a] "3.prems"(2) [of b] by simp
qed simp_all


text \<open>The result of linking \<open>e\<close> between \<open>p\<close> and \<open>f\<close>, and of unlinking it.\<close>

definition link_between :: "dheap \<Rightarrow> addr \<Rightarrow> addr \<Rightarrow> addr \<Rightarrow> dheap" where
  "link_between h p e f =
     h(p \<mapsto> (the (h p))\<lparr>nxt := e\<rparr>, e \<mapsto> (the (h e))\<lparr>prev := p, nxt := f\<rparr>, f \<mapsto> (the (h f))\<lparr>prev := e\<rparr>)"

definition unlink_between :: "dheap \<Rightarrow> addr \<Rightarrow> addr \<Rightarrow> addr \<Rightarrow> dheap" where
  "unlink_between h p e f =
     h(p \<mapsto> (the (h p))\<lparr>nxt := f\<rparr>, f \<mapsto> (the (h f))\<lparr>prev := p\<rparr>, e \<mapsto> (the (h e))\<lparr>prev := NULL, nxt := NULL\<rparr>)"

lemmas dl_access_defs = get_prev_def get_next_def set_prev_def set_next_def

lemma insert_front_between:
  assumes "get_prev h f = Some p" "p \<in> dom h" "e \<in> dom h" "distinct [p, e, f]"
  shows "dlist_insert_front h f e = Some (link_between h p e f)"
  using assms
  by (auto simp: dlist_insert_front_def dl_access_defs link_between_def fun_upd_twist)

lemma remove_between:
  assumes "get_prev h e = Some p" "get_next h e = Some f" "p \<in> dom h" "f \<in> dom h"
    "distinct [p, e, f]"
  shows "dlist_remove h e = Some (unlink_between h p e f)"
  using assms
  by (auto simp: dlist_remove_def dl_access_defs unlink_between_def fun_upd_twist intro!: ext)

lemma get_link_between:
  assumes "p \<in> dom h" "f \<in> dom h" "distinct [p, e, f]"
  shows "get_next (link_between h p e f) a = (if a = p then Some e else if a = e then Some f else get_next h a)"
    and "get_prev (link_between h p e f) a = (if a = e then Some p else if a = f then Some e else get_prev h a)"
  using assms by (auto simp: link_between_def dl_access_defs)

lemma get_unlink_between:
  assumes "p \<in> dom h" "f \<in> dom h" "distinct [p, e, f]"
  shows "get_next (unlink_between h p e f) a = (if a = p then Some f else if a = e then Some NULL else get_next h a)"
    and "get_prev (unlink_between h p e f) a = (if a = f then Some p else if a = e then Some NULL else get_prev h a)"
  using assms by (auto simp: unlink_between_def dl_access_defs)

lemma in_set_tlD: "a \<in> set (tl ns) \<Longrightarrow> a \<in> set ns"
  by (cases ns) auto

lemma linked_link_between:
  assumes "linked h (A @ p # f # B)" "distinct (A @ p # f # B)" "e \<notin> set (A @ p # f # B)"
    "set (A @ p # f # B) \<subseteq> dom h"
  shows "linked (link_between h p e f) (A @ p # e # f # B)"
proof -
  let ?h = "link_between h p e f"
  have nodes: "p \<in> dom h" "f \<in> dom h" "distinct [p, e, f]"
    using assms(2-4) by auto
  note get = get_link_between [OF nodes]
  have old: "linked h (A @ [p])" "linked h (f # B)"
    using assms(1) linked_append [of h A p "f # B"] by auto
  have "linked ?h (A @ [p]) = linked h (A @ [p])"
    by (rule linked_cong) (use assms(2,3) in \<open>auto simp: get dest: in_set_tlD\<close>)
  moreover have "linked ?h (f # B) = linked h (f # B)"
    by (rule linked_cong) (use assms(2,3) in \<open>auto simp: get dest: in_set_butlastD split: if_splits\<close>)
  moreover have "get_next ?h p = Some e" "get_prev ?h e = Some p" "get_next ?h e = Some f"
    "get_prev ?h f = Some e"
    using assms(2,3) by (auto simp: link_between_def dl_access_defs)
  ultimately show ?thesis
    using old linked_append [of ?h A p "e # f # B"] by simp
qed

lemma linked_unlink_between:
  assumes "linked h (A @ p # e # f # B)" "distinct (A @ p # e # f # B)"
    "set (A @ p # e # f # B) \<subseteq> dom h"
  shows "linked (unlink_between h p e f) (A @ p # f # B)"
proof -
  let ?h = "unlink_between h p e f"
  have nodes: "p \<in> dom h" "f \<in> dom h" "distinct [p, e, f]"
    using assms(2,3) by auto
  note get = get_unlink_between [OF nodes]
  have old: "linked h (A @ [p])" "linked h (f # B)"
    using assms(1) linked_append [of h A p "e # f # B"] by auto
  have "linked ?h (A @ [p]) = linked h (A @ [p])"
    by (rule linked_cong) (use assms(2) in \<open>auto simp: get dest: in_set_tlD\<close>)
  moreover have "linked ?h (f # B) = linked h (f # B)"
    by (rule linked_cong) (use assms(2) in \<open>auto simp: get dest: in_set_butlastD split: if_splits\<close>)
  moreover have "get_next ?h p = Some f" "get_prev ?h f = Some p"
    using assms(2) by (auto simp: unlink_between_def dl_access_defs)
  ultimately show ?thesis
    using old linked_append [of ?h A p "f # B"] by simp
qed

lemma linked_adjacent:
  assumes "linked h (A @ p # f # B)"
  shows "get_next h p = Some f" "get_prev h f = Some p"
  using assms linked_append [of h A p "f # B"] by auto

text \<open>Every position of a represented list lies between two nodes.\<close>

lemma dl_nodes_split:
  obtains A p f B where "head l # ys = A @ [p]" "zs @ [tail l] = f # B"
    "dl_nodes l (ys @ zs) = A @ p # f # B" "dl_nodes l (ys @ e # zs) = A @ p # e # f # B"
proof -
  obtain A p where A: "head l # ys = A @ [p]"
    by (metis rev_exhaust list.distinct(1))
  obtain f B where B: "zs @ [tail l] = f # B"
    by (cases zs) auto
  have "dl_nodes l (ys @ zs) = (head l # ys) @ (zs @ [tail l])"
    "dl_nodes l (ys @ e # zs) = (head l # ys) @ e # (zs @ [tail l])"
    by (simp_all add: dl_nodes_def)
  then show ?thesis
    using A B by (intro that [of A p f B]) auto
qed

lemma dl_rep_insert:
  assumes rep: "dl_rep h l (ys @ zs)" and fresh: "dl_fresh h l (ys @ zs) e"
  shows "\<exists>h'. dlist_insert_front h (hd (zs @ [tail l])) e = Some h' \<and> dl_rep h' l (ys @ e # zs) \<and>
    dl_frame h h' l (ys @ e # zs)"
proof -
  obtain A p f B where split: "head l # ys = A @ [p]" "zs @ [tail l] = f # B"
      "dl_nodes l (ys @ zs) = A @ p # f # B" "dl_nodes l (ys @ e # zs) = A @ p # e # f # B"
    by (rule dl_nodes_split)
  let ?h = "link_between h p e f"
  have n: "distinct (A @ p # f # B)" "NULL \<notin> set (A @ p # f # B)" "set (A @ p # f # B) \<subseteq> dom h"
    "linked h (A @ p # f # B)" "h NULL = None" "get_prev h (head l) = Some NULL"
    "get_next h (tail l) = Some NULL"
    using rep unfolding dl_rep_def split by auto
  have e: "e \<in> dom h" "e \<notin> set (A @ p # f # B)"
    using fresh unfolding dl_fresh_def split by auto
  have ends: "head l \<in> set (A @ [p])" "tail l \<in> set (f # B)"
    using split(1,2) by (metis list.set_intros(1), metis in_set_conv_decomp)
  have "dlist_insert_front h f e = Some ?h"
    using n e linked_adjacent [OF n(4)] by (intro insert_front_between) auto
  moreover have "linked ?h (A @ p # e # f # B)"
    using n e by (intro linked_link_between) auto
  moreover have "get_prev ?h (head l) = Some NULL"
    using n e ends by (auto simp: link_between_def dl_access_defs)
  moreover have "get_next ?h (tail l) = Some NULL"
    using n e ends by (auto simp: link_between_def dl_access_defs)
  moreover have "dom ?h = dom h" "?h NULL = None"
    using n e by (auto simp: link_between_def)
  ultimately show ?thesis
    using n e split(2,4) unfolding dl_rep_def dl_frame_def split(4)
    by (auto simp: link_between_def)
qed

lemma dl_rep_remove:
  assumes rep: "dl_rep h l (ys @ e # zs)"
  shows "\<exists>h'. dlist_remove h e = Some h' \<and> dl_rep h' l (ys @ zs) \<and>
    dl_frame h h' l (ys @ e # zs) \<and> dl_fresh h' l (ys @ zs) e \<and> dlist_is_linked h' e = Some False"
proof -
  obtain A p f B where split: "head l # ys = A @ [p]" "zs @ [tail l] = f # B"
      "dl_nodes l (ys @ zs) = A @ p # f # B" "dl_nodes l (ys @ e # zs) = A @ p # e # f # B"
    by (rule dl_nodes_split)
  let ?h = "unlink_between h p e f"
  have n: "distinct (A @ p # e # f # B)" "NULL \<notin> set (A @ p # e # f # B)"
    "set (A @ p # e # f # B) \<subseteq> dom h"
    "linked h (A @ p # e # f # B)" "h NULL = None" "get_prev h (head l) = Some NULL"
    "get_next h (tail l) = Some NULL"
    using rep unfolding dl_rep_def split by auto
  have ends: "head l \<in> set (A @ [p])" "tail l \<in> set (f # B)"
    using split(1,2) by (metis list.set_intros(1), metis in_set_conv_decomp)
  have "get_prev h e = Some p" "get_next h e = Some f"
    using linked_adjacent [OF n(4)] linked_adjacent [of h "A @ [p]" e f B] n(4) by auto
  then have "dlist_remove h e = Some ?h"
    using n by (intro remove_between) auto
  moreover have "linked ?h (A @ p # f # B)"
    using n by (intro linked_unlink_between) auto
  moreover have "get_prev ?h (head l) = Some NULL"
    using n ends by (auto simp: unlink_between_def dl_access_defs)
  moreover have "get_next ?h (tail l) = Some NULL"
    using n ends by (auto simp: unlink_between_def dl_access_defs)
  moreover have "dom ?h = dom h" "?h NULL = None"
    using n by (auto simp: unlink_between_def)
  moreover have "dlist_is_linked ?h e = Some False"
    by (simp add: dlist_is_linked_def unlink_between_def dl_access_defs)
  ultimately show ?thesis
    using n unfolding dl_rep_def dl_frame_def dl_fresh_def split(3,4)
    by (auto simp: unlink_between_def)
qed


section \<open>Every operation returns and acts on the represented list\<close>

lemma dl_rep_get_head: "dl_rep h l xs \<Longrightarrow> get_next h (head l) = Some (hd (xs @ [tail l]))"
  by (cases xs) (auto simp: dl_rep_def dl_nodes_def)

lemma dl_rep_push_back:
  assumes "dl_rep h l xs" "dl_fresh h l xs e"
  shows "\<exists>h'. dlist_push_back h l e = Some h' \<and> dl_rep h' l (xs @ [e]) \<and> dl_frame h h' l (xs @ [e])"
  using dl_rep_insert [of h l xs "[]" e] assms by (simp add: dlist_push_back_def)

lemma dl_rep_push_front:
  assumes "dl_rep h l xs" "dl_fresh h l xs e"
  shows "\<exists>h'. dlist_push_front h l e = Some h' \<and> dl_rep h' l (e # xs) \<and> dl_frame h h' l (e # xs)"
  using dl_rep_insert [of h l "[]" xs e] assms dl_rep_get_head [OF assms(1)]
  by (simp add: dlist_push_front_def)

text \<open>
  An element has one pair of links. Pushing it onto a second list while it is still in a first one, which
  \<^verbatim>\<open>thread_unblock\<close> does when it is called for a task that waits in a semaphore, breaks the first list.
\<close>

lemma dl_rep_next:
  assumes "dl_rep h l (xs @ e # ys)"
  shows "get_next h e = Some (hd (ys @ [tail l]))"
proof -
  have "linked h ((head l # xs) @ e # (ys @ [tail l]))"
    using assms by (simp add: dl_rep_def dl_nodes_def)
  then have "linked h (e # (ys @ [tail l]))"
    using linked_append by blast
  then show ?thesis
    by (cases ys) auto
qed

lemma push_front_steals:
  assumes "dl_rep h w (xs @ e # ys)" "dl_rep h r rs" "set (dl_nodes w (xs @ e # ys)) \<inter> set (dl_nodes r rs) = {}"
  shows "\<exists>h'. dlist_push_front h r e = Some h' \<and> dl_rep h' r (e # rs) \<and> \<not> dl_rep h' w (xs @ e # ys)"
proof -
  have "dl_fresh h r rs e"
    using assms(1,3) by (auto simp: dl_fresh_def dl_rep_def dl_nodes_def)
  then obtain h' where h': "dlist_push_front h r e = Some h'" "dl_rep h' r (e # rs)"
    using dl_rep_push_front [OF assms(2)] by blast
  have "hd (rs @ [tail r]) \<in> set (dl_nodes r rs)" "hd (ys @ [tail w]) \<in> set (dl_nodes w (xs @ e # ys))"
    by (cases rs; simp add: dl_nodes_def) (cases ys; simp add: dl_nodes_def)
  then have "hd (rs @ [tail r]) \<noteq> hd (ys @ [tail w])"
    using assms(3) by fastforce
  then have "\<not> dl_rep h' w (xs @ e # ys)"
    using dl_rep_next [of h' r "[]" e rs] dl_rep_next [of h' w xs e ys] h'(2) by auto
  then show ?thesis
    using h' by blast
qed

lemma dl_rep_distinct: "dl_rep h l xs \<Longrightarrow> distinct xs"
  by (simp add: dl_rep_def dl_nodes_def)

lemma dl_rep_remove1:
  assumes "dl_rep h l xs" "e \<in> set xs"
  shows "\<exists>h'. dlist_remove h e = Some h' \<and> dl_rep h' l (remove1 e xs) \<and> dl_frame h h' l xs \<and>
    dl_fresh h' l (remove1 e xs) e \<and> dlist_is_linked h' e = Some False"
proof -
  obtain ys zs where xs: "xs = ys @ e # zs"
    using assms(2) by (meson split_list)
  have "remove1 e xs = ys @ zs"
    using dl_rep_distinct [OF assms(1)] unfolding xs by (rule remove1_distinct_split)
  then show ?thesis
    using dl_rep_remove [of h l ys e zs] assms(1) xs by simp
qed

lemma dl_rep_pop_front:
  assumes "dl_rep h l (x # xs)"
  shows "\<exists>h'. dlist_pop_front h l = Some (x, h') \<and> dl_rep h' l xs \<and> dl_frame h h' l (x # xs) \<and>
    dl_fresh h' l xs x"
  using dl_rep_remove1 [OF assms, of x] dl_rep_get_head [OF assms]
  by (auto simp: dlist_pop_front_def)

lemma dl_rep_empty: "dl_rep h l xs \<Longrightarrow> dlist_empty h l = Some (xs = [])"
  by (cases xs) (auto simp: dlist_empty_def dl_rep_get_head, auto simp: dl_rep_def dl_nodes_def)

lemma dl_rep_suffix:
  assumes "dl_rep h l (ys @ zs)"
  shows "linked h (zs @ [tail l])"
proof -
  have "linked h ((head l # ys) @ hd (zs @ [tail l]) # tl (zs @ [tail l]))"
    using assms by (simp add: dl_rep_def dl_nodes_def)
  then have "linked h (hd (zs @ [tail l]) # tl (zs @ [tail l]))"
    by (subst (asm) linked_append) simp
  then show ?thesis by simp
qed

lemma dl_rep_node:
  assumes "dl_rep h l (ys @ x # zs)"
  shows "\<exists>p. get_prev h x = Some p \<and> p \<noteq> NULL \<and> get_next h p = Some x"
    "get_next h x = Some (hd (zs @ [tail l]))" "hd (zs @ [tail l]) \<noteq> NULL"
    "get_prev h (hd (zs @ [tail l])) = Some x" "x \<noteq> tail l" "x \<noteq> NULL"
proof -
  obtain A p f B where split: "head l # ys = A @ [p]" "zs @ [tail l] = f # B"
      "dl_nodes l (ys @ zs) = A @ p # f # B" "dl_nodes l (ys @ x # zs) = A @ p # x # f # B"
    by (rule dl_nodes_split)
  have n: "linked h (A @ p # x # f # B)" "NULL \<notin> set (A @ p # x # f # B)"
    using assms unfolding dl_rep_def split by auto
  show "\<exists>p. get_prev h x = Some p \<and> p \<noteq> NULL \<and> get_next h p = Some x"
    using linked_adjacent [OF n(1)] n(2) by (intro exI [of _ p]) auto
  show "get_next h x = Some (hd (zs @ [tail l]))" "get_prev h (hd (zs @ [tail l])) = Some x"
    using linked_adjacent [of h "A @ [p]" x f B] n(1) split(2) by auto
  show "hd (zs @ [tail l]) \<noteq> NULL" "x \<noteq> NULL"
    using n(2) split(2) by auto
  show "x \<noteq> tail l"
    using assms by (auto simp: dl_rep_def dl_nodes_def)
qed

lemma dl_rep_is_linked:
  assumes "dl_rep h l xs" "x \<in> set xs"
  shows "dlist_is_linked h x = Some True"
proof -
  obtain ys zs where xs: "xs = ys @ x # zs"
    using assms(2) by (meson split_list)
  obtain p where p: "get_prev h x = Some p" "p \<noteq> NULL" "get_next h p = Some x"
    using dl_rep_node(1) assms(1) unfolding xs by blast
  note n = dl_rep_node(2-4) [OF assms(1) [unfolded xs]]
  show ?thesis
    using p n by (simp add: dlist_is_linked_def)
qed

lemma dlist_find_loop_rep:
  "dl_rep h l (ys @ zs) \<Longrightarrow> dlist_find_loop h l e (hd (zs @ [tail l])) = Some (e \<in> set zs)"
proof (induction zs arbitrary: ys)
  case Nil
  then show ?case by (simp add: dlist_find_loop.simps)
next
  case (Cons x zs)
  have "dlist_find_loop h l e (hd (zs @ [tail l])) = Some (e \<in> set zs)"
    using Cons.IH [of "ys @ [x]"] Cons.prems by simp
  then show ?case
    using dl_rep_node [OF Cons.prems] by (subst dlist_find_loop.simps) auto
qed

lemma dl_rep_find: "dl_rep h l xs \<Longrightarrow> dlist_find h l e = Some (e \<in> set xs)"
  using dlist_find_loop_rep [of h l "[]" xs e] by (simp add: dlist_find_def dl_rep_get_head)

lemma dlist_len_loop_rep:
  "dl_rep h l (ys @ zs) \<Longrightarrow>
    dlist_len_loop h l (hd (zs @ [tail l])) n = Some (n + of_nat (length zs))"
proof (induction zs arbitrary: ys n)
  case Nil
  then show ?case by (simp add: dlist_len_loop.simps)
next
  case (Cons x zs)
  have "dlist_len_loop h l (hd (zs @ [tail l])) (n + 1) = Some (n + 1 + of_nat (length zs))"
    using Cons.IH [of "ys @ [x]"] Cons.prems by simp
  then show ?case
    using dl_rep_node [OF Cons.prems] by (subst dlist_len_loop.simps) (auto simp: algebra_simps)
qed

lemma dl_rep_len: "dl_rep h l xs \<Longrightarrow> dlist_len h l = Some (of_nat (length xs))"
  using dlist_len_loop_rep [of h l "[]" xs 0] by (simp add: dlist_len_def dl_rep_get_head)

text \<open>The node a search returns: the first that satisfies the condition, or \<^verbatim>\<open>NULL\<close>.\<close>

definition first_node :: "(addr \<Rightarrow> bool) \<Rightarrow> addr list \<Rightarrow> addr" where
  "first_node P xs = (case List.find P xs of None \<Rightarrow> NULL | Some x \<Rightarrow> x)"

lemma dlist_traversal_loop_rep:
  "dl_rep h l (ys @ zs) \<Longrightarrow> count + length zs \<le> Suc TIMEOUT_CNT \<Longrightarrow>
    dlist_traversal_loop h l condition arg (hd (zs @ [tail l])) count =
      Some (first_node (\<lambda>x. condition x arg) zs)"
proof (induction zs arbitrary: ys count)
  case Nil
  then show ?case by (simp add: dlist_traversal_loop.simps first_node_def)
next
  case (Cons x zs)
  have "dlist_traversal_loop h l condition arg (hd (zs @ [tail l])) (count + 1) =
      Some (first_node (\<lambda>x. condition x arg) zs)"
    using Cons.IH [of "ys @ [x]" "count + 1"] Cons.prems by simp
  moreover obtain p where "get_prev h x = Some p" "p \<noteq> NULL" "get_next h p = Some x"
    using dl_rep_node(1) [OF Cons.prems(1)] by blast
  ultimately show ?case
    using dl_rep_node [OF Cons.prems(1)] Cons.prems(2)
    by (subst dlist_traversal_loop.simps) (auto simp: first_node_def)
qed

lemma dl_rep_traversal:
  assumes "dl_rep h l xs" "length xs \<le> Suc TIMEOUT_CNT"
  shows "dlist_traversal h l condition arg = Some (first_node (\<lambda>x. condition x arg) xs)"
  using dlist_traversal_loop_rep [of h l "[]" xs 0 condition arg] assms
  by (auto simp: dlist_traversal_def dl_rep_empty dl_rep_get_head first_node_def)

text \<open>\<^verbatim>\<open>dlist_insert_order\<close> as a function on lists: before the first node that satisfies the condition.\<close>

definition insert_order :: "(addr \<Rightarrow> addr \<Rightarrow> bool) \<Rightarrow> addr \<Rightarrow> addr list \<Rightarrow> addr list" where
  "insert_order condition e xs =
     takeWhile (\<lambda>x. \<not> condition x e) xs @ e # dropWhile (\<lambda>x. \<not> condition x e) xs"

lemma dl_rep_insert_order:
  assumes "dl_rep h l xs" "dl_fresh h l xs e" "length xs \<le> Suc TIMEOUT_CNT"
  shows "\<exists>h'. dlist_insert_order h l condition e = Some h' \<and> dl_rep h' l (insert_order condition e xs) \<and>
    dl_frame h h' l (insert_order condition e xs)"
proof -
  let ?P = "\<lambda>x. condition x e"
  let ?ys = "takeWhile (\<lambda>x. \<not> ?P x) xs" and ?zs = "dropWhile (\<lambda>x. \<not> ?P x) xs"
  have "(if first_node ?P xs \<noteq> NULL then first_node ?P xs else tail l) = hd (?zs @ [tail l])"
  proof (cases "List.find ?P xs")
    case None
    then have "?zs = []"
      by (auto simp: find_None_iff)
    then show ?thesis
      using None by (simp add: first_node_def del: dropWhile_eq_Nil_conv)
  next
    case (Some x)
    then obtain as bs where as: "xs = as @ x # bs" "?P x" "\<forall>y\<in>set as. \<not> ?P y"
      using find_Some_split [of ?P xs x] by auto
    then have "?zs = x # bs"
      by (simp add: dropWhile_append2)
    moreover have "x \<noteq> NULL"
      using dl_rep_node(6) assms(1) as(1) by blast
    ultimately show ?thesis
      using Some by (simp add: first_node_def)
  qed
  then have "dlist_insert_order h l condition e = dlist_insert_front h (hd (?zs @ [tail l])) e"
    using dl_rep_traversal [OF assms(1,3), of condition e]
    by (auto simp: dlist_insert_order_def split: if_splits)
  then show ?thesis
    using dl_rep_insert [of h l ?ys ?zs e] assms(1,2) by (simp add: insert_order_def)
qed


lemma dl_rep_init:
  assumes "head l \<in> dom h" "tail l \<in> dom h" "head l \<noteq> tail l" "h NULL = None"
  shows "\<exists>h'. dlist_init h l = Some h' \<and> dl_rep h' l [] \<and> dl_frame h h' l []"
proof -
  obtain a b where "h (head l) = Some a" "h (tail l) = Some b"
    using assms by auto
  moreover have "head l \<noteq> NULL" "tail l \<noteq> NULL"
    using assms by (metis domIff)+
  ultimately show ?thesis
    using assms
    by (auto simp: dlist_init_def dl_rep_def dl_frame_def dl_nodes_def dl_access_defs)
qed

lemma linked_ends:
  "xs \<noteq> [] \<Longrightarrow> linked h (a # xs @ [b]) \<longleftrightarrow>
    get_next h a = Some (hd xs) \<and> get_prev h (hd xs) = Some a \<and> linked h xs \<and>
    get_next h (last xs) = Some b \<and> get_prev h b = Some (last xs)"
proof (induction xs arbitrary: a)
  case (Cons x xs)
  then show ?case by (cases xs) auto
qed simp

lemma get_upd:
  "get_next (h(a \<mapsto> n)) = (get_next h)(a \<mapsto> nxt n)" "get_prev (h(a \<mapsto> n)) = (get_prev h)(a \<mapsto> prev n)"
  by (auto simp: get_next_def get_prev_def)

text \<open>The links after \<^verbatim>\<open>dlist_move_all\<close>, field by field.\<close>

lemma move_all_links:
  assumes "dl_rep h src xs" "xs \<noteq> []" "dl_rep h dst []" "set (dl_nodes src xs) \<inter> {head dst, tail dst} = {}"
  shows "\<exists>h'. dlist_move_all h dst src = Some h' \<and> dom h' = dom h \<and>
    get_next h' = (get_next h)(head dst \<mapsto> hd xs, last xs \<mapsto> tail dst, head src \<mapsto> tail src) \<and>
    get_prev h' = (get_prev h)(tail dst \<mapsto> last xs, hd xs \<mapsto> head dst, tail src \<mapsto> head src)"
proof -
  have mem: "hd xs \<in> set xs" "last xs \<in> set xs"
    using assms(2) by auto
  have r: "get_next h (head src) = Some (hd xs)" "get_prev h (tail src) = Some (last xs)"
    using assms(1,2) by (auto simp: dl_rep_def dl_nodes_def linked_ends)
  have ne: "head src \<noteq> tail src" "head dst \<noteq> tail dst" "hd xs \<noteq> head src" "hd xs \<noteq> tail src"
      "last xs \<noteq> head src" "last xs \<noteq> tail src" "hd xs \<noteq> head dst" "hd xs \<noteq> tail dst"
      "last xs \<noteq> head dst" "last xs \<noteq> tail dst" "head src \<noteq> head dst" "head src \<noteq> tail dst"
      "tail src \<noteq> head dst" "tail src \<noteq> tail dst"
    using assms(1,3,4) mem by (auto simp: dl_rep_def dl_nodes_def)
  have "{head src, tail src, hd xs, last xs, head dst, tail dst} \<subseteq> dom h"
    using assms(1,3) mem by (auto simp: dl_rep_def dl_nodes_def)
  then obtain a b c d e f where nodes: "h (head src) = Some a" "h (tail src) = Some b"
      "h (hd xs) = Some c" "h (last xs) = Some d" "h (head dst) = Some e" "h (tail dst) = Some f"
    by auto
  have "dlist_empty h src = Some False"
    using dl_rep_empty [OF assms(1)] assms(2) by simp
  moreover have "get_next h (last xs) = Some (nxt d)" "get_prev h (hd xs) = Some (prev c)"
      "get_prev h (head src) = Some (prev a)" "get_next h (tail src) = Some (nxt b)"
      "get_prev h (head dst) = Some (prev e)" "get_next h (tail dst) = Some (nxt f)"
      "get_next h (hd xs) = Some (nxt c)" "get_prev h (last xs) = Some (prev d)"
    using nodes by (simp_all add: dl_access_defs)
  ultimately show ?thesis
    using r nodes ne ne [symmetric]
    by (cases "hd xs = last xs")
      (simp_all add: dlist_move_all_def set_next_def set_prev_def get_upd insert_absorb domI,
        (auto simp: fun_eq_iff insert_absorb domI)+)
qed

lemma dl_rep_move_all:
  assumes "dl_rep h src xs" "dl_rep h dst []" "set (dl_nodes src xs) \<inter> {head dst, tail dst} = {}"
  shows "\<exists>h'. dlist_move_all h dst src = Some h' \<and> dl_rep h' dst xs \<and> dl_rep h' src []"
proof (cases "xs = []")
  case True
  then show ?thesis
    using assms dl_rep_empty [OF assms(1)] by (simp add: dlist_move_all_def)
next
  case False
  obtain h' where h': "dlist_move_all h dst src = Some h'" "dom h' = dom h"
    and nx: "get_next h' = (get_next h)(head dst \<mapsto> hd xs, last xs \<mapsto> tail dst, head src \<mapsto> tail src)"
    and pv: "get_prev h' = (get_prev h)(tail dst \<mapsto> last xs, hd xs \<mapsto> head dst, tail src \<mapsto> head src)"
    using move_all_links [OF assms(1) False assms(2,3)] by blast
  have mem: "hd xs \<in> set xs" "last xs \<in> set xs"
    using False by auto
  have ds: "distinct (head src # xs @ [tail src])" "distinct (head dst # xs @ [tail dst])"
      "NULL \<notin> set (head dst # xs @ [tail dst])" "set (head dst # xs @ [tail dst]) \<subseteq> dom h"
      "NULL \<notin> set (head src # xs @ [tail src])" "set (head src # xs @ [tail src]) \<subseteq> dom h"
    using assms by (auto simp: dl_rep_def dl_nodes_def)
  have "linked h xs"
    using assms(1) False by (simp add: dl_rep_def dl_nodes_def linked_ends)
  moreover have "linked h' xs = linked h xs"
  proof (rule linked_cong)
    fix a assume a: "a \<in> set (butlast xs)"
    then have "a \<noteq> last xs"
      using ds(1) False by (metis append_butlast_last_id distinct.simps(2) distinct_append not_distinct_conv_prefix)
    then show "get_next h' a = get_next h a"
      using a ds assms(3) by (auto simp: nx dl_nodes_def dest: in_set_butlastD)
  next
    fix a assume a: "a \<in> set (tl xs)"
    then have "a \<noteq> hd xs"
      using ds(1) False by (cases xs) auto
    then show "get_prev h' a = get_prev h a"
      using a ds assms(3) by (auto simp: pv dl_nodes_def dest: in_set_tlD)
  qed
  ultimately have lx: "linked h' xs"
    by simp
  have "h' NULL = None"
    using h'(2) assms(1) by (auto simp: dl_rep_def)
  moreover have "get_prev h (head src) = Some NULL" "get_next h (tail src) = Some NULL"
      "get_prev h (head dst) = Some NULL" "get_next h (tail dst) = Some NULL"
    using assms(1,2) by (simp_all add: dl_rep_def)
  moreover have ne: "hd xs \<noteq> head src" "hd xs \<noteq> tail src" "hd xs \<noteq> head dst" "hd xs \<noteq> tail dst"
      "last xs \<noteq> head src" "last xs \<noteq> tail src" "last xs \<noteq> head dst" "last xs \<noteq> tail dst"
      "head src \<noteq> head dst" "head src \<noteq> tail dst" "tail src \<noteq> head dst" "tail src \<noteq> tail dst"
      "head src \<noteq> tail src" "head dst \<noteq> tail dst"
    using ds(1,2) mem assms(3) by (auto simp: dl_nodes_def)
  ultimately have "dl_rep h' dst xs" "dl_rep h' src []"
    unfolding dl_rep_def dl_nodes_def
    using ds lx False h'(2) ne [symmetric] by (simp_all add: linked_ends nx pv)
  then show ?thesis
    using h'(1) by blast
qed


section \<open>The queue interface of the list\<close>

text \<open>Pushing a sequence of nodes, popping a number of them, and moving the front to the back.\<close>

fun push_all :: "('s \<Rightarrow> 'e \<Rightarrow> 's option) \<Rightarrow> 's \<Rightarrow> 'e list \<Rightarrow> 's option" where
  "push_all push s [] = Some s"
| "push_all push s (e # es) = do { s \<leftarrow> push s e; push_all push s es }"

fun pop_n :: "('s \<Rightarrow> ('e \<times> 's) option) \<Rightarrow> nat \<Rightarrow> 's \<Rightarrow> ('e list \<times> 's) option" where
  "pop_n pop 0 s = Some ([], s)"
| "pop_n pop (Suc n) s = do { (e, s) \<leftarrow> pop s; (es, s) \<leftarrow> pop_n pop n s; Some (e # es, s) }"

fun requeue_n :: "('s \<Rightarrow> ('e \<times> 's) option) \<Rightarrow> ('s \<Rightarrow> 'e \<Rightarrow> 's option) \<Rightarrow> nat \<Rightarrow> 's \<Rightarrow> 's option" where
  "requeue_n pop push 0 s = Some s"
| "requeue_n pop push (Suc n) s = do { (e, s) \<leftarrow> pop s; s \<leftarrow> push s e; requeue_n pop push n s }"

text \<open>
  What the wait queues, the ready queue and the buffer lists rely on: a list of distinct nodes with
  insertion at the back, removal at the front and removal of any member.
\<close>

locale node_queue =
  fixes rep :: "'s \<Rightarrow> 'e list \<Rightarrow> bool"
    and fresh :: "'s \<Rightarrow> 'e list \<Rightarrow> 'e \<Rightarrow> bool"
    and push :: "'s \<Rightarrow> 'e \<Rightarrow> 's option"
    and pop :: "'s \<Rightarrow> ('e \<times> 's) option"
    and remove :: "'s \<Rightarrow> 'e \<Rightarrow> 's option"
  assumes push_law: "rep s xs \<Longrightarrow> fresh s xs e \<Longrightarrow>
      \<exists>s'. push s e = Some s' \<and> rep s' (xs @ [e]) \<and> (\<forall>d. fresh s xs d \<and> d \<noteq> e \<longrightarrow> fresh s' (xs @ [e]) d)"
    and pop_law: "rep s (x # xs) \<Longrightarrow> \<exists>s'. pop s = Some (x, s') \<and> rep s' xs \<and> fresh s' xs x"
    and remove_law: "rep s xs \<Longrightarrow> e \<in> set xs \<Longrightarrow>
      \<exists>s'. remove s e = Some s' \<and> rep s' (remove1 e xs) \<and> fresh s' (remove1 e xs) e"
begin

lemma push_all_rep:
  "rep s xs \<Longrightarrow> distinct es \<Longrightarrow> \<forall>e\<in>set es. fresh s xs e \<Longrightarrow>
    \<exists>s'. push_all push s es = Some s' \<and> rep s' (xs @ es)"
proof (induction es arbitrary: s xs)
  case (Cons e es)
  obtain s' where s': "push s e = Some s'" "rep s' (xs @ [e])"
      "\<forall>d. fresh s xs d \<and> d \<noteq> e \<longrightarrow> fresh s' (xs @ [e]) d"
    using push_law [of s xs e] Cons.prems by auto
  then have "\<exists>s''. push_all push s' es = Some s'' \<and> rep s'' ((xs @ [e]) @ es)"
    using Cons.prems by (intro Cons.IH) auto
  then show ?case
    using s'(1) by simp
qed simp

lemma pop_n_rep:
  "rep s (xs @ ys) \<Longrightarrow> \<exists>s'. pop_n pop (length xs) s = Some (xs, s') \<and> rep s' ys"
proof (induction xs arbitrary: s)
  case (Cons x xs)
  obtain s' where s': "pop s = Some (x, s')" "rep s' (xs @ ys)"
    using pop_law [of s x "xs @ ys"] Cons.prems by auto
  then obtain s'' where "pop_n pop (length xs) s' = Some (xs, s'')" "rep s'' ys"
    using Cons.IH by blast
  then show ?case
    using s'(1) by simp
qed simp

lemma fifo:
  assumes "rep s xs" "distinct es" "\<forall>e\<in>set es. fresh s xs e"
  shows "\<exists>s' s''. push_all push s es = Some s' \<and>
    pop_n pop (length xs + length es) s' = Some (xs @ es, s'') \<and> rep s'' []"
  using push_all_rep [OF assms] pop_n_rep [of _ "xs @ es" "[]"] by fastforce

lemma requeue_step:
  assumes "rep s (x # xs)"
  shows "\<exists>s' s''. pop s = Some (x, s') \<and> push s' x = Some s'' \<and> rep s'' (xs @ [x])"
  using pop_law [OF assms] push_law by blast

lemma requeue_rep: "rep s xs \<Longrightarrow> xs \<noteq> [] \<Longrightarrow> \<exists>s'. requeue_n pop push n s = Some s' \<and> rep s' (rotate n xs)"
proof (induction n arbitrary: s xs)
  case (Suc n)
  then obtain x ys where xs: "xs = x # ys"
    by (cases xs) auto
  obtain s' s'' where s: "pop s = Some (x, s')" "push s' x = Some s''" "rep s'' (ys @ [x])"
    using requeue_step Suc.prems unfolding xs by blast
  obtain s3 where "requeue_n pop push n s'' = Some s3" "rep s3 (rotate n (ys @ [x]))"
    using Suc.IH [OF s(3)] by auto
  moreover have "rotate (Suc n) xs = rotate n (ys @ [x])"
    by (simp add: xs rotate1_rotate_swap)
  ultimately show ?case
    using s by simp
qed simp

lemma remove_push:
  assumes "rep s xs" "e \<in> set xs"
  shows "\<exists>s' s''. remove s e = Some s' \<and> push s' e = Some s'' \<and> rep s'' (remove1 e xs @ [e])"
  using remove_law [OF assms] push_law by blast

end

lemma dl_fresh_frame:
  "dl_frame h h' l (xs @ [e]) \<Longrightarrow> dl_fresh h l xs d \<Longrightarrow> d \<noteq> e \<Longrightarrow> dl_fresh h' l (xs @ [e]) d"
  by (auto simp: dl_frame_def dl_fresh_def dl_nodes_def)

interpretation dlq: node_queue "\<lambda>h. dl_rep h l" "\<lambda>h. dl_fresh h l" "\<lambda>h. dlist_push_back h l"
    "\<lambda>h. dlist_pop_front h l" dlist_remove for l
proof
  fix h xs e
  assume "dl_rep h l xs" "dl_fresh h l xs e"
  then show "\<exists>h'. dlist_push_back h l e = Some h' \<and> dl_rep h' l (xs @ [e]) \<and>
      (\<forall>d. dl_fresh h l xs d \<and> d \<noteq> e \<longrightarrow> dl_fresh h' l (xs @ [e]) d)"
    using dl_rep_push_back [of h l xs e] dl_fresh_frame [of h _ l xs e] by metis
qed (use dl_rep_pop_front dl_rep_remove1 in blast)+

section \<open>Properties\<close>

text \<open>
  Nodes pushed at the back of a list come out at its front in the order they went in, after the
  nodes that were there before, whatever heap the list lives in: \<^verbatim>\<open>dlist_push_back\<close> and
  \<^verbatim>\<open>dlist_pop_front\<close> never fault and leave the list empty.
\<close>

theorem dlist_fifo:
  assumes "dl_rep h l xs" "distinct es" "\<forall>e\<in>set es. dl_fresh h l xs e"
  shows "\<exists>h' h''. push_all (\<lambda>h. dlist_push_back h l) h es = Some h' \<and>
    pop_n (\<lambda>h. dlist_pop_front h l) (length xs + length es) h' = Some (xs @ es, h'') \<and> dl_rep h'' l []"
  by (rule dlq.fifo [OF assms])

text \<open>
  A concrete heap: sentinels 1 and 2, nodes 3 and 4 linked between them, and two free nodes 5 and 6.
\<close>

definition ex_heap :: dheap where
  "ex_heap = [1 \<mapsto> \<lparr>prev = 0, nxt = 3\<rparr>, 3 \<mapsto> \<lparr>prev = 1, nxt = 4\<rparr>, 4 \<mapsto> \<lparr>prev = 3, nxt = 2\<rparr>,
     2 \<mapsto> \<lparr>prev = 4, nxt = 0\<rparr>, 5 \<mapsto> \<lparr>prev = 0, nxt = 0\<rparr>, 6 \<mapsto> \<lparr>prev = 0, nxt = 0\<rparr>]"

definition ex_list :: dlist where
  "ex_list = \<lparr>head = 1, tail = 2\<rparr>"

lemma ex_heap_rep:
  "dl_rep ex_heap ex_list [3, 4]" "dl_fresh ex_heap ex_list [3, 4] 5" "dl_fresh ex_heap ex_list [3, 4] 6"
  by (simp_all add: dl_rep_def dl_fresh_def dl_nodes_def ex_heap_def ex_list_def get_prev_def get_next_def)

text \<open>
  C40. \<^verbatim>\<open>dlist_remove\<close> takes exactly the given member out of the list and keeps the order of the rest;
  it clears the links of the removed node, so that \<^verbatim>\<open>dlist_is_linked\<close> no longer holds of it, still
  holds of every other member, and no node outside the list is touched.
\<close>

theorem dlist_remove_correct:
  assumes "dl_rep h l xs" "e \<in> set xs"
  shows "\<exists>h'. dlist_remove h e = Some h' \<and> dl_rep h' l (remove1 e xs) \<and> dl_frame h h' l xs \<and>
    dlist_is_linked h' e = Some False \<and> dlist_find h' l e = Some False \<and>
    (\<forall>x \<in> set xs - {e}. dlist_is_linked h' x = Some True \<and> dlist_find h' l x = Some True)"
proof -
  obtain h' where h': "dlist_remove h e = Some h'" "dl_rep h' l (remove1 e xs)" "dl_frame h h' l xs"
      "dlist_is_linked h' e = Some False"
    using dl_rep_remove1 [OF assms] by blast
  then show ?thesis
    using dl_rep_find [OF h'(2)] dl_rep_is_linked [OF h'(2)] dl_rep_distinct [OF assms(1)]
    by (intro exI [of _ h']) auto
qed

theorem dlist_remove_correct_witness:
  "\<exists>h'. dlist_remove ex_heap 3 = Some h' \<and> dl_rep h' ex_list [4] \<and> dlist_find h' ex_list 3 = Some False"
  using dlist_remove_correct [OF ex_heap_rep(1), of 3] by auto

text \<open>
  \<^verbatim>\<open>dlist_insert_order\<close> puts the node before the first member the condition accepts, and so keeps
  a list sorted by a key sorted: here the condition is "the member's key is greater than the new
  node's", the way the timer queue uses it.
\<close>

theorem dlist_insert_order_sorted:
  assumes "dl_rep h l xs" "dl_fresh h l xs e" "length xs \<le> TIMEOUT_CNT" "sorted (map key xs)"
  shows "\<exists>h'. dlist_insert_order h l (\<lambda>x y. key y < (key x :: nat)) e = Some h' \<and>
    dl_rep h' l (insert_order (\<lambda>x y. key y < key x) e xs) \<and>
    sorted (map key (insert_order (\<lambda>x y. key y < key x) e xs))"
proof -
  let ?P = "\<lambda>x. \<not> key e < key x"
  have "sorted (map key (takeWhile ?P xs @ dropWhile ?P xs))"
    using assms(4) by simp
  then have s: "sorted (map key (takeWhile ?P xs))" "sorted (map key (dropWhile ?P xs))"
      "\<forall>a\<in>set (takeWhile ?P xs). \<forall>b\<in>set (dropWhile ?P xs). key a \<le> key b"
    unfolding map_append sorted_append by auto
  have "\<forall>b\<in>set (dropWhile ?P xs). key e \<le> key b"
  proof (cases "dropWhile ?P xs")
    case (Cons a bs)
    then have "key e < key a"
      using hd_dropWhile [of ?P xs] by simp
    then show ?thesis
      using s(2) unfolding Cons by fastforce
  qed (simp del: dropWhile_eq_Nil_conv)
  moreover have "\<forall>a\<in>set (takeWhile ?P xs). key a \<le> key e"
    by (auto dest: set_takeWhileD)
  ultimately have "sorted (map key (insert_order (\<lambda>x y. key y < key x) e xs))"
    using s by (auto simp: insert_order_def sorted_append)
  then show ?thesis
    using dl_rep_insert_order [OF assms(1,2)] assms(3) by fastforce
qed

end
