(* ===== verification/Bitmap.thy ===== *)
theory Bitmap
  imports Kernel_Prelude
begin

text \<open>
  The bitmap of \<^verbatim>\<open>lib/kernel/bitmap.c\<close>. The field \<open>bits\<close> is the memory that starts at the pointer, so
  it may be longer than \<^verbatim>\<open>btmp_bytes_len\<close> (what the allocator placed behind the bitmap), and a read
  or write beyond it faults. C's \<^verbatim>\<open>int\<close> result is kept as a 32-bit word, with \<open>- 1\<close> for failure.
\<close>

section \<open>The code\<close>

record bitmap =
  btmp_bytes_len :: u32
  bits :: "u8 list"

definition BITMAP_MASK :: u8 where
  "BITMAP_MASK = 1"

text \<open>\<^verbatim>\<open>btmp->bits[i]\<close>: a byte of the memory behind the pointer.\<close>

definition bits_at :: "bitmap \<Rightarrow> nat \<Rightarrow> u8 halting" where
  "bits_at btmp i = (if i < length (bits btmp) then Some (bits btmp ! i) else None)"

definition bitmap_init :: "bitmap \<Rightarrow> bitmap halting" where
  "bitmap_init btmp = do {
     ASSERT (unat (btmp_bytes_len btmp) \<le> length (bits btmp));
     Some (btmp\<lparr>bits := replicate (unat (btmp_bytes_len btmp)) 0 @ drop (unat (btmp_bytes_len btmp)) (bits btmp)\<rparr>)
   }"

definition bitmap_bit_check :: "bitmap \<Rightarrow> u32 \<Rightarrow> bool halting" where
  "bitmap_bit_check btmp bit_idx = do {
     byte \<leftarrow> bits_at btmp (unat (bit_idx div 8));
     Some (byte AND push_bit (unat (bit_idx mod 8)) BITMAP_MASK \<noteq> 0)
   }"

text \<open>The three loops of \<^verbatim>\<open>bitmap_scan\<close>: over full bytes, over the bits of one byte, over a run.\<close>

function scan_byte :: "bitmap \<Rightarrow> nat \<Rightarrow> nat halting" where
  "scan_byte btmp idx_byte = do {
     byte \<leftarrow> bits_at btmp idx_byte;
     if byte = 0xff \<and> idx_byte < unat (btmp_bytes_len btmp) then scan_byte btmp (idx_byte + 1)
     else Some idx_byte
   }"
  by pat_completeness auto
termination
  by (relation "measure (\<lambda>(btmp, idx_byte). length (bits btmp) - idx_byte)")
    (auto simp: bits_at_def split: if_splits)

function scan_bit :: "u8 \<Rightarrow> nat \<Rightarrow> nat" where
  "scan_bit byte idx_bit =
     (if push_bit idx_bit BITMAP_MASK AND byte \<noteq> 0 then scan_bit byte (idx_bit + 1) else idx_bit)"
  by pat_completeness auto

primrec scan_run :: "bitmap \<Rightarrow> u32 \<Rightarrow> nat \<Rightarrow> u32 \<Rightarrow> u32 \<Rightarrow> u32 halting" where
  "scan_run btmp cnt 0 next_bit count = Some (- 1)"
| "scan_run btmp cnt (Suc bit_remain) next_bit count = do {
     used \<leftarrow> bitmap_bit_check btmp next_bit;
     let count = (if \<not> used then count + 1 else 0);
     if count = cnt then Some (next_bit - cnt + 1)
     else scan_run btmp cnt bit_remain (next_bit + 1) count
   }"

lemma push_bit_mask_and: "push_bit n BITMAP_MASK AND byte \<noteq> 0 \<longleftrightarrow> bit byte n"
proof -
  have "push_bit n (1::u8) AND byte \<noteq> 0 \<longleftrightarrow> bit byte n"
    by (metis and_exp_eq_0_iff_not_bit and.commute push_bit_of_1)
  then show ?thesis
    by (simp add: BITMAP_MASK_def)
qed

termination scan_bit
  by (relation "measure (\<lambda>(byte, idx_bit). 8 - idx_bit)")
    (auto simp: push_bit_mask_and dest: bit_imp_le_length)

declare scan_byte.simps [simp del] scan_bit.simps [simp del]

definition bitmap_scan :: "bitmap \<Rightarrow> u32 \<Rightarrow> u32 halting" where
  "bitmap_scan btmp cnt = do {
     idx_byte \<leftarrow> scan_byte btmp 0;
     ASSERT (idx_byte < unat (btmp_bytes_len btmp));
     if idx_byte = unat (btmp_bytes_len btmp) then Some (- 1)
     else do {
       byte \<leftarrow> bits_at btmp idx_byte;
       let idx_bit = scan_bit byte 0;
       let bit_idx_start = of_nat idx_byte * 8 + of_nat idx_bit;
       if cnt = 1 then Some bit_idx_start
       else let bit_remain = btmp_bytes_len btmp * 8 - bit_idx_start
         in scan_run btmp cnt (unat bit_remain) (bit_idx_start + 1) 1
     }
   }"

definition bitmap_set :: "bitmap \<Rightarrow> u32 \<Rightarrow> u8 \<Rightarrow> bitmap halting" where
  "bitmap_set btmp bit_idx value = do {
     ASSERT (value = 0 \<or> value = 1);
     let byte_idx = unat (bit_idx div 8);
     let offset_in_byte = unat (bit_idx mod 8);
     byte \<leftarrow> bits_at btmp byte_idx;
     if value \<noteq> 0
     then Some (btmp\<lparr>bits := (bits btmp)[byte_idx := byte OR push_bit offset_in_byte BITMAP_MASK]\<rparr>)
     else Some (btmp\<lparr>bits := (bits btmp)[byte_idx := byte AND NOT (push_bit offset_in_byte BITMAP_MASK)]\<rparr>)
   }"

fun count_byte :: "u8 \<Rightarrow> nat \<Rightarrow> u32 \<Rightarrow> u32" where
  "count_byte byte 0 count = count"
| "count_byte byte (Suc n) count =
     count_byte byte n (if byte AND push_bit (7 - n) BITMAP_MASK = 0 then count + 1 else count)"

fun count_bytes :: "bitmap \<Rightarrow> nat \<Rightarrow> nat \<Rightarrow> u32 \<Rightarrow> u32 halting" where
  "count_bytes btmp 0 i count = Some count"
| "count_bytes btmp (Suc n) i count = do {
     byte \<leftarrow> bits_at btmp i;
     count_bytes btmp n (i + 1) (count_byte byte 8 count)
   }"

definition bitmap_count :: "bitmap \<Rightarrow> u32 halting" where
  "bitmap_count btmp = count_bytes btmp (unat (btmp_bytes_len btmp)) 0 0"

section \<open>Bits by index\<close>

definition bm_bit :: "bitmap \<Rightarrow> nat \<Rightarrow> bool" where
  "bm_bit btmp i \<longleftrightarrow> bit (bits btmp ! (i div 8)) (i mod 8)"

definition bm_nr :: "bitmap \<Rightarrow> nat" where
  "bm_nr btmp = unat (btmp_bytes_len btmp) * 8"

text \<open>A usable bitmap: its bytes exist and its bits can be numbered by a positive \<^verbatim>\<open>int\<close>.\<close>

definition bm_wf :: "bitmap \<Rightarrow> bool" where
  "bm_wf btmp \<longleftrightarrow> unat (btmp_bytes_len btmp) \<le> length (bits btmp) \<and> bm_nr btmp < 2 ^ 31"

definition bm_free :: "bitmap \<Rightarrow> nat set" where
  "bm_free btmp = {i. i < bm_nr btmp \<and> \<not> bm_bit btmp i}"

lemma unat_div8: "unat (i div 8 :: u32) = unat i div 8" "unat (i mod 8 :: u32) = unat i mod 8"
  by (simp_all add: unat_div unat_mod)

lemma bitmap_bit_check_eq:
  "unat i < 8 * length (bits btmp) \<Longrightarrow> bitmap_bit_check btmp i = Some (bm_bit btmp (unat i))"
  by (auto simp: bitmap_bit_check_def bits_at_def unat_div8 bm_bit_def and.commute push_bit_mask_and)

lemma bit_set_byte:
  "bit (byte OR push_bit k BITMAP_MASK) j \<longleftrightarrow> bit byte j \<or> (j = k \<and> k < 8)" for byte :: u8
  by (auto simp: BITMAP_MASK_def bit_simps dest: bit_imp_le_length)

lemma bit_clear_byte:
  "bit (byte AND NOT (push_bit k BITMAP_MASK)) j \<longleftrightarrow> bit byte j \<and> j \<noteq> k" for byte :: u8
  by (auto simp: BITMAP_MASK_def bit_simps dest: bit_imp_le_length)

lemma same_bit: "i div 8 = j div 8 \<Longrightarrow> i mod 8 = j mod 8 \<Longrightarrow> i = (j::nat)"
  by (metis div_mult_mod_eq)

lemma bm_bit_update:
  assumes "i div 8 < length (bits btmp)"
  shows "bm_bit (btmp\<lparr>bits := (bits btmp)[i div 8 := (bits btmp ! (i div 8)) OR push_bit (i mod 8) BITMAP_MASK]\<rparr>) j
      \<longleftrightarrow> (if j = i then True else bm_bit btmp j)"
    "bm_bit (btmp\<lparr>bits := (bits btmp)[i div 8 := (bits btmp ! (i div 8)) AND NOT (push_bit (i mod 8) BITMAP_MASK)]\<rparr>) j
      \<longleftrightarrow> (if j = i then False else bm_bit btmp j)"
  using assms same_bit [of j i]
  by (auto simp: bm_bit_def nth_list_update bit_set_byte bit_clear_byte)

lemma bitmap_set_spec:
  assumes "unat i < 8 * length (bits btmp)" "v = 0 \<or> v = 1"
  shows "\<exists>btmp'. bitmap_set btmp i v = Some btmp' \<and> length (bits btmp') = length (bits btmp) \<and>
    btmp_bytes_len btmp' = btmp_bytes_len btmp \<and>
    bm_bit btmp' = (bm_bit btmp)(unat i := (v = 1))"
proof -
  have "unat i div 8 < length (bits btmp)"
    using assms(1) by auto
  then show ?thesis
    using assms(2) bm_bit_update [of "unat i" btmp]
    by (auto simp: bitmap_set_def bits_at_def unat_div8 fun_eq_iff Let_def)
qed

lemma bitmap_set_wf:
  assumes "bm_wf btmp" "unat i < bm_nr btmp" "v = 0 \<or> v = 1"
  shows "\<exists>btmp'. bitmap_set btmp i v = Some btmp' \<and> bm_wf btmp' \<and> bm_nr btmp' = bm_nr btmp \<and>
    bm_bit btmp' = (bm_bit btmp)(unat i := (v = 1)) \<and>
    bm_free btmp' = (if v = 1 then bm_free btmp - {unat i} else insert (unat i) (bm_free btmp))"
proof -
  have "unat i < 8 * length (bits btmp)"
    using assms(1,2) by (auto simp: bm_wf_def bm_nr_def)
  from bitmap_set_spec [OF this assms(3)] obtain btmp' where b: "bitmap_set btmp i v = Some btmp'"
    "length (bits btmp') = length (bits btmp)" "btmp_bytes_len btmp' = btmp_bytes_len btmp"
    "bm_bit btmp' = (bm_bit btmp)(unat i := (v = 1))"
    by blast
  then show ?thesis
    using assms by (auto simp: bm_wf_def bm_nr_def bm_free_def)
qed

section \<open>Scanning\<close>

lemma byte_full_iff: "byte = 0xff \<longleftrightarrow> (\<forall>k<8. bit byte k)" for byte :: u8
proof
  assume all: "\<forall>k<8. bit byte k"
  have "byte = - 1"
    by (rule bit_word_eqI) (use all in auto)
  then show "byte = 0xff"
    by simp
next
  assume "byte = 0xff"
  then have "byte = - 1"
    by simp
  then show "\<forall>k<8. bit byte k"
    by simp
qed

lemma scan_byte_spec:
  "i \<le> k \<Longrightarrow> k < unat (btmp_bytes_len btmp) \<Longrightarrow> unat (btmp_bytes_len btmp) \<le> length (bits btmp) \<Longrightarrow>
    bits btmp ! k \<noteq> 0xff \<Longrightarrow> \<forall>j\<in>{i..<k}. bits btmp ! j = 0xff \<Longrightarrow> scan_byte btmp i = Some k"
proof (induction "k - i" arbitrary: i)
  case 0
  then show ?case by (subst scan_byte.simps) (simp add: bits_at_def)
next
  case (Suc n)
  have "scan_byte btmp (i + 1) = Some k"
    using Suc.hyps(2) Suc.prems by (intro Suc.hyps(1)) auto
  then show ?case
    using Suc.hyps(2) Suc.prems by (subst scan_byte.simps) (simp add: bits_at_def)
qed

lemma scan_bit_spec:
  "i \<le> k \<Longrightarrow> \<not> bit byte k \<Longrightarrow> \<forall>j\<in>{i..<k}. bit byte j \<Longrightarrow> scan_bit byte i = k"
proof (induction "k - i" arbitrary: i)
  case 0
  then show ?case by (subst scan_bit.simps) (simp add: push_bit_mask_and)
next
  case (Suc n)
  have "scan_bit byte (i + 1) = k"
    using Suc.hyps(2) Suc.prems by (intro Suc.hyps(1)) auto
  then show ?case
    using Suc.hyps(2) Suc.prems by (subst scan_bit.simps) (simp add: push_bit_mask_and)
qed

text \<open>The first two loops stop at the least free bit.\<close>

lemma scan_first:
  assumes "bm_wf btmp" "m \<in> bm_free btmp" "\<forall>j<m. bm_bit btmp j"
  shows "scan_byte btmp 0 = Some (m div 8)" "scan_bit (bits btmp ! (m div 8)) 0 = m mod 8"
    "m div 8 < unat (btmp_bytes_len btmp)" "m div 8 < length (bits btmp)"
proof -
  show len: "m div 8 < unat (btmp_bytes_len btmp)"
    using assms(2) by (auto simp: bm_free_def bm_nr_def)
  then show "m div 8 < length (bits btmp)"
    using assms(1) by (simp add: bm_wf_def)
  have "bits btmp ! (m div 8) \<noteq> 0xff"
    using assms(2) unfolding byte_full_iff bm_free_def bm_bit_def by (auto intro!: exI [of _ "m mod 8"])
  moreover have "bits btmp ! j = 0xff" if "j < m div 8" for j
    unfolding byte_full_iff
  proof (intro allI impI)
    fix k :: nat
    assume "k < 8"
    moreover from this that have "j * 8 + k < m"
      by linarith
    ultimately show "bit (bits btmp ! j) k"
      using assms(3) [rule_format, of "j * 8 + k"] by (simp add: bm_bit_def)
  qed
  ultimately show "scan_byte btmp 0 = Some (m div 8)"
    using len assms(1) by (intro scan_byte_spec) (auto simp: bm_wf_def)
  show "scan_bit (bits btmp ! (m div 8)) 0 = m mod 8"
  proof (rule scan_bit_spec)
    show "\<not> bit (bits btmp ! (m div 8)) (m mod 8)"
      using assms(2) by (simp add: bm_free_def bm_bit_def)
    show "\<forall>j\<in>{0..<m mod 8}. bit (bits btmp ! (m div 8)) j"
    proof
      fix j
      assume j: "j \<in> {0..<m mod 8}"
      then have "j < m mod 8"
        by simp
      then have "m div 8 * 8 + j < m" "j < 8"
        using div_mult_mod_eq [of m 8] mod_less_divisor [of 8 m] by linarith+
      then show "bit (bits btmp ! (m div 8)) j"
        using assms(3) [rule_format, of "m div 8 * 8 + j"] by (simp add: bm_bit_def)
    qed
  qed simp
qed

lemma least_free:
  assumes "bm_free btmp \<noteq> {}"
  obtains m where "m \<in> bm_free btmp" "\<forall>j<m. bm_bit btmp j" "m = Min (bm_free btmp)"
proof
  have fin: "finite (bm_free btmp)"
    by (simp add: bm_free_def)
  show m: "Min (bm_free btmp) \<in> bm_free btmp"
    using Min_in [OF fin assms] .
  show "\<forall>j<Min (bm_free btmp). bm_bit btmp j"
  proof (intro allI impI, rule ccontr)
    fix j
    assume "j < Min (bm_free btmp)" "\<not> bm_bit btmp j"
    then have "j \<in> bm_free btmp"
      using m by (simp add: bm_free_def)
    then show False
      using Min_le [OF fin] \<open>j < Min (bm_free btmp)\<close> by fastforce
  qed
qed simp

lemma scan_start:
  "m < 2 ^ 32 \<Longrightarrow> (of_nat (m div 8) * 8 + of_nat (m mod 8) :: u32) = of_nat m"
  by (metis div_mult_mod_eq of_nat_add of_nat_mult of_nat_numeral)

text \<open>The part of \<^verbatim>\<open>bitmap_scan\<close> before the test of \<^verbatim>\<open>cnt\<close>, once the least free bit is known.\<close>

lemma bitmap_scan_at:
  assumes "bm_wf btmp" "m \<in> bm_free btmp" "\<forall>j<m. bm_bit btmp j"
  shows "bitmap_scan btmp cnt = (if cnt = 1 then Some (of_nat m)
    else scan_run btmp cnt (bm_nr btmp - m) (of_nat (m + 1)) 1)"
proof -
  have m: "m < bm_nr btmp" "bm_nr btmp < 2 ^ 31"
    using assms(1,2) by (auto simp: bm_free_def bm_wf_def)
  have "unat (btmp_bytes_len btmp * 8) = bm_nr btmp"
    using m by (simp add: unat_word_ariths bm_nr_def)
  then have "unat (btmp_bytes_len btmp * 8 - of_nat m) = bm_nr btmp - m"
    using m by (subst unat_minus_no_wrap) (simp_all add: unat_of_nat_small)
  then show ?thesis
    using scan_first [OF assms] scan_start [of m] m
    by (simp add: bitmap_scan_def bits_at_def Let_def add.commute)
qed

definition run_free :: "bitmap \<Rightarrow> nat \<Rightarrow> nat \<Rightarrow> bool" where
  "run_free btmp s n \<longleftrightarrow> (\<forall>j<n. \<not> bm_bit btmp (s + j))"

text \<open>
  Before bit \<open>nx\<close> is tested: the last \<open>c\<close> bits are free and no more of them, and no run of \<open>cnt\<close> free
  bits ends before \<open>nx\<close>.
\<close>

definition run_inv :: "bitmap \<Rightarrow> nat \<Rightarrow> nat \<Rightarrow> nat \<Rightarrow> bool" where
  "run_inv btmp cnt nx c \<longleftrightarrow> c \<le> nx \<and> c < cnt \<and> run_free btmp (nx - c) c \<and>
     (c = nx \<or> bm_bit btmp (nx - c - 1)) \<and> (\<forall>s. s + cnt \<le> nx \<longrightarrow> \<not> run_free btmp s cnt)"

lemma run_inv_used:
  assumes "run_inv btmp cnt nx c" "bm_bit btmp nx"
  shows "run_inv btmp cnt (Suc nx) 0"
proof -
  have "\<not> run_free btmp s cnt" if "s + cnt \<le> Suc nx" for s
  proof (cases "s + cnt = Suc nx")
    case True
    then have "s + (nx - s) = nx" "nx - s < cnt"
      using assms(1) by (auto simp: run_inv_def)
    then show ?thesis
      using assms(2) unfolding run_free_def by metis
  next
    case False
    then show ?thesis
      using that assms(1) by (simp add: run_inv_def)
  qed
  then show ?thesis
    using assms by (auto simp: run_inv_def run_free_def)
qed

lemma run_free_extend:
  assumes "run_free btmp (nx - c) c" "c \<le> nx" "\<not> bm_bit btmp nx"
  shows "run_free btmp (Suc nx - Suc c) (Suc c)"
  using assms by (auto simp: run_free_def less_Suc_eq)

lemma run_inv_free:
  assumes "run_inv btmp cnt nx c" "\<not> bm_bit btmp nx" "Suc c < cnt"
  shows "run_inv btmp cnt (Suc nx) (Suc c)"
proof -
  have "\<not> run_free btmp s cnt" if "s + cnt \<le> Suc nx" for s
  proof (cases "s + cnt = Suc nx")
    case True
    then have c: "nx - c - 1 = s + (nx - c - 1 - s)" "nx - c - 1 - s < cnt" "c \<noteq> nx"
      using assms(3) by auto
    then have "bm_bit btmp (s + (nx - c - 1 - s))"
      using assms(1) by (auto simp: run_inv_def)
    then show ?thesis
      using c(2) unfolding run_free_def by blast
  next
    case False
    then show ?thesis
      using that assms(1) by (simp add: run_inv_def)
  qed
  then show ?thesis
    using assms run_free_extend [of btmp nx c] by (simp add: run_inv_def)
qed

text \<open>What a scan for several bits may answer, for the bits below \<open>w\<close>.\<close>

definition first_fit :: "bitmap \<Rightarrow> nat \<Rightarrow> nat \<Rightarrow> u32 \<Rightarrow> bool" where
  "first_fit btmp w cnt r \<longleftrightarrow>
     (if r = - 1 then \<forall>s. s + cnt \<le> w \<longrightarrow> \<not> run_free btmp s cnt
      else run_free btmp (unat r) cnt \<and> unat r + cnt \<le> w \<and> (\<forall>s<unat r. \<not> run_free btmp s cnt))"

lemma first_fit_found:
  assumes "run_inv btmp cnt nx c" "\<not> bm_bit btmp nx" "Suc c = cnt" "nx < w" "w < 2 ^ 32" "0 < c"
  shows "first_fit btmp w cnt (of_nat nx - of_nat cnt + 1)"
proof -
  have c: "c \<le> nx" "cnt \<le> Suc nx"
    using assms(1,3) by (auto simp: run_inv_def)
  define r :: u32 where "r = of_nat (nx - c)"
  have eq: "of_nat nx - of_nat cnt + 1 = r"
    using c(1) assms(3) by (auto simp: r_def of_nat_diff)
  have r: "unat r = nx - c"
    unfolding r_def using assms(4,5) by (intro unat_of_nat_small) simp
  have "r \<noteq> - 1"
    using r assms(4,5,6) by (auto simp: unsigned_minus_1_eq_mask mask_eq_exp_minus_1)
  moreover have "run_free btmp (nx - c) cnt"
    using run_free_extend [of btmp nx c] assms(1,2,3) by (auto simp: run_inv_def)
  moreover have "\<not> run_free btmp s cnt" if "s < nx - c" for s
    using that assms(1,3) by (simp add: run_inv_def)
  ultimately show ?thesis
    unfolding eq using assms(3,4) c r by (auto simp: first_fit_def)
qed

lemma scan_run_first_fit:
  "run_inv btmp (unat cnt) (unat nx) (unat c) \<Longrightarrow> unat nx + r = w \<Longrightarrow> w \<le> 8 * length (bits btmp) \<Longrightarrow>
    w < 2 ^ 32 \<Longrightarrow> 2 \<le> unat cnt \<Longrightarrow>
    \<exists>v. scan_run btmp cnt r nx c = Some v \<and> first_fit btmp w (unat cnt) v"
proof (induction r arbitrary: nx c)
  case 0
  then show ?case by (auto simp: first_fit_def run_inv_def)
next
  case (Suc r)
  have nx: "unat (nx + 1) = Suc (unat nx)"
    using Suc.prems(2,4) by (subst unat_plus_no_wrap) auto
  have chk: "bitmap_bit_check btmp nx = Some (bm_bit btmp (unat nx))"
    using Suc.prems(2,3) by (intro bitmap_bit_check_eq) simp
  show ?case
  proof (cases "bm_bit btmp (unat nx)")
    case True
    have "\<exists>v. scan_run btmp cnt r (nx + 1) 0 = Some v \<and> first_fit btmp w (unat cnt) v"
      using run_inv_used [OF Suc.prems(1) True] Suc.prems(2-5) nx by (intro Suc.IH) simp_all
    then show ?thesis
      using True chk Suc.prems(5) by auto
  next
    case False
    have "unat c + 1 < 4294967296"
      using Suc.prems(1) unat_u32_bound [of cnt] unfolding run_inv_def by linarith
    then have c: "unat (c + 1) = Suc (unat c)"
      by (subst unat_plus_no_wrap) auto
    show ?thesis
    proof (cases "c + 1 = cnt")
      case True
      then have "first_fit btmp w (unat cnt) (of_nat (unat nx) - of_nat (unat cnt) + 1)"
        using Suc.prems c False by (intro first_fit_found [of _ _ _ "unat c"]) auto
      then show ?thesis
        using False chk True by simp
    next
      case ne: False
      then have "unat (c + 1) \<noteq> unat cnt"
        by (simp add: word_unat_eq_iff)
      then have "Suc (unat c) < unat cnt"
        using c Suc.prems(1) by (simp add: run_inv_def)
      then have "\<exists>v. scan_run btmp cnt r (nx + 1) (c + 1) = Some v \<and> first_fit btmp w (unat cnt) v"
        using run_inv_free [OF Suc.prems(1) False] Suc.prems(2-5) nx c by (intro Suc.IH) simp_all
      then show ?thesis
        using False chk ne by simp
    qed
  qed
qed

lemma bitmap_scan_run:
  assumes "bm_wf btmp" "bm_free btmp \<noteq> {}" "2 \<le> unat cnt" "bm_nr btmp < 8 * length (bits btmp)"
  shows "\<exists>v. bitmap_scan btmp cnt = Some v \<and> first_fit btmp (bm_nr btmp + 1) (unat cnt) v"
proof -
  obtain m where m: "m \<in> bm_free btmp" "\<forall>j<m. bm_bit btmp j"
    using least_free assms(2) by blast
  have "\<not> run_free btmp s (unat cnt)" if "s + unat cnt \<le> m + 1" for s
    using that m(2) [rule_format, of s] assms(3) by (auto simp: run_free_def intro!: exI [of _ 0])
  moreover have "m = 0 \<or> bm_bit btmp (m - 1)"
    using m(2) by (cases m) auto
  ultimately have "run_inv btmp (unat cnt) (m + 1) 1"
    using m(1) assms(3) by (auto simp: run_inv_def run_free_def bm_free_def)
  moreover have "unat (of_nat (m + 1) :: u32) = m + 1"
    using m(1) assms(1) by (intro unat_of_nat_small) (auto simp: bm_free_def bm_wf_def)
  ultimately have "\<exists>v. scan_run btmp cnt (bm_nr btmp - m) (of_nat (m + 1)) 1 = Some v \<and>
      first_fit btmp (bm_nr btmp + 1) (unat cnt) v"
    using m(1) assms by (intro scan_run_first_fit) (auto simp: bm_free_def bm_wf_def)
  moreover have "cnt \<noteq> 1"
    using assms(3) by auto
  ultimately show ?thesis
    using bitmap_scan_at [OF assms(1) m] by simp
qed

lemma bitmap_scan_one:
  assumes "bm_wf btmp" "bm_free btmp \<noteq> {}"
  shows "bitmap_scan btmp 1 = Some (of_nat (Min (bm_free btmp)))"
    "unat (of_nat (Min (bm_free btmp)) :: u32) = Min (bm_free btmp)"
proof -
  obtain m where m: "m \<in> bm_free btmp" "\<forall>j<m. bm_bit btmp j" "m = Min (bm_free btmp)"
    using least_free assms(2) by blast
  show "bitmap_scan btmp 1 = Some (of_nat (Min (bm_free btmp)))"
    using bitmap_scan_at [OF assms(1) m(1,2)] m(3) by simp
  show "unat (of_nat (Min (bm_free btmp)) :: u32) = Min (bm_free btmp)"
    using m(1,3) assms(1) by (intro unat_of_nat_small) (auto simp: bm_free_def bm_wf_def)
qed

section \<open>Counting free bits\<close>

lemma count_byte_eq:
  "n \<le> 8 \<Longrightarrow> count_byte byte n c = c + of_nat (card {j. 8 - n \<le> j \<and> j < 8 \<and> \<not> bit byte j})"
proof (induction n arbitrary: c)
  case 0
  have "{j. (8::nat) \<le> j \<and> j < 8 \<and> \<not> bit byte j} = {}"
    by auto
  then show ?case by (simp del: Collect_empty_eq)
next
  case (Suc n)
  define A where "A n = {j. 8 - n \<le> j \<and> j < 8 \<and> \<not> bit byte j}" for n
  have "A (Suc n) = (if bit byte (7 - n) then A n else insert (7 - n) (A n))"
    using Suc.prems by (auto simp: A_def le_less Suc_diff_le)
  moreover have "7 - n \<notin> A n" "finite (A n)"
    using Suc.prems by (auto simp: A_def)
  ultimately have "card (A (Suc n)) = card (A n) + (if bit byte (7 - n) then 0 else 1)"
    by simp
  moreover have "byte AND push_bit (7 - n) BITMAP_MASK = 0 \<longleftrightarrow> \<not> bit byte (7 - n)"
    using push_bit_mask_and [of "7 - n" byte] by (metis and.commute)
  ultimately show ?case
    using Suc A_def [of "Suc n"] by (simp flip: A_def)
qed

lemma free_bits_byte:
  "card {j. i * 8 \<le> j \<and> j < (i + 1) * 8 \<and> \<not> bm_bit btmp j} = card {j. j < 8 \<and> \<not> bit (bits btmp ! i) j}"
proof (rule bij_betw_same_card [symmetric])
  show "bij_betw (\<lambda>j. i * 8 + j) {j. j < 8 \<and> \<not> bit (bits btmp ! i) j}
      {j. i * 8 \<le> j \<and> j < (i + 1) * 8 \<and> \<not> bm_bit btmp j}"
  proof (rule bij_betw_byWitness [where f' = "\<lambda>j. j - i * 8"])
    show "(\<lambda>j. j - i * 8) ` {j. i * 8 \<le> j \<and> j < (i + 1) * 8 \<and> \<not> bm_bit btmp j}
        \<subseteq> {j. j < 8 \<and> \<not> bit (bits btmp ! i) j}"
    proof clarify
      fix j
      assume j: "i * 8 \<le> j" "j < (i + 1) * 8" "\<not> bm_bit btmp j"
      then have d: "j div 8 = i"
        by (auto simp: div_nat_eqI)
      moreover have "j mod 8 = j - i * 8"
        using div_mult_mod_eq [of j 8] unfolding d by linarith
      ultimately show "j - i * 8 < 8 \<and> \<not> bit (bits btmp ! i) (j - i * 8)"
        using j by (auto simp: bm_bit_def)
    qed
  qed (auto simp: bm_bit_def)
qed

lemma count_bytes_eq:
  "i + n \<le> length (bits btmp) \<Longrightarrow>
    count_bytes btmp n i c = Some (c + of_nat (card {j. i * 8 \<le> j \<and> j < (i + n) * 8 \<and> \<not> bm_bit btmp j}))"
proof (induction n arbitrary: i c)
  case 0
  have "{j. i * 8 \<le> j \<and> j < i * 8 \<and> \<not> bm_bit btmp j} = {}"
    by auto
  then show ?case by (simp del: Collect_empty_eq)
next
  case (Suc n)
  let ?A = "\<lambda>a b. {j. a * 8 \<le> j \<and> j < b * 8 \<and> \<not> bm_bit btmp j}"
  have "?A i (i + Suc n) = ?A i (i + 1) \<union> ?A (i + 1) (i + 1 + n)" "?A i (i + 1) \<inter> ?A (i + 1) (i + 1 + n) = {}"
    by auto
  then have "card (?A i (i + Suc n)) = card (?A i (i + 1)) + card (?A (i + 1) (i + 1 + n))"
    by (simp add: card_Un_disjoint)
  moreover have "count_byte (bits btmp ! i) 8 c = c + of_nat (card (?A i (i + 1)))"
    using count_byte_eq [of 8 "bits btmp ! i" c] free_bits_byte [of i btmp] by simp
  moreover have "count_bytes btmp n (i + 1) (c + of_nat (card (?A i (i + 1)))) =
      Some (c + of_nat (card (?A i (i + 1))) + of_nat (card (?A (i + 1) (i + 1 + n))))"
    using Suc.prems by (intro Suc.IH) simp
  ultimately show ?case
    using Suc.prems by (simp add: bits_at_def)
qed

lemma bitmap_count_eq:
  "bm_wf btmp \<Longrightarrow> bitmap_count btmp = Some (of_nat (card (bm_free btmp)))"
  using count_bytes_eq [of 0 "unat (btmp_bytes_len btmp)" btmp 0]
  by (simp add: bitmap_count_def bm_wf_def bm_free_def bm_nr_def)

lemma bitmap_init_eq:
  assumes "bm_wf btmp"
  shows "\<exists>btmp'. bitmap_init btmp = Some btmp' \<and> bm_wf btmp' \<and> bm_nr btmp' = bm_nr btmp \<and>
    bm_free btmp' = {0..<bm_nr btmp}"
proof -
  let ?n = "unat (btmp_bytes_len btmp)"
  let ?b = "btmp\<lparr>bits := replicate ?n 0 @ drop ?n (bits btmp)\<rparr>"
  have "\<not> bm_bit ?b i" if "i < bm_nr btmp" for i
  proof -
    have "i div 8 < ?n"
      using that by (auto simp: bm_nr_def)
    then show ?thesis
      by (simp add: bm_bit_def nth_append)
  qed
  then show ?thesis
    using assms by (auto simp: bitmap_init_def bm_wf_def bm_nr_def bm_free_def)
qed

section \<open>Pools of numbers\<close>

text \<open>
  Clients use a bitmap as a pool of numbers: scan for one free bit and set it, later clear it.
\<close>

definition take_one :: "('s \<Rightarrow> u32 halting) \<Rightarrow> ('s \<Rightarrow> u32 \<Rightarrow> u8 \<Rightarrow> 's halting) \<Rightarrow> 's \<Rightarrow> (u32 \<times> 's) halting" where
  "take_one scan put_bit s = do {
     i \<leftarrow> scan s;
     s \<leftarrow> put_bit s i 1;
     Some (i, s)
   }"

fun take_many ::
  "('s \<Rightarrow> u32 halting) \<Rightarrow> ('s \<Rightarrow> u32 \<Rightarrow> u8 \<Rightarrow> 's halting) \<Rightarrow> nat \<Rightarrow> 's \<Rightarrow> (u32 list \<times> 's) halting" where
  "take_many scan put_bit 0 s = Some ([], s)"
| "take_many scan put_bit (Suc n) s = do {
     (i, s) \<leftarrow> take_one scan put_bit s;
     (is, s) \<leftarrow> take_many scan put_bit n s;
     Some (i # is, s)
   }"

locale number_pool =
  fixes inv :: "'s \<Rightarrow> bool"
    and free :: "'s \<Rightarrow> nat set"
    and nr :: "'s \<Rightarrow> nat"
    and scan :: "'s \<Rightarrow> u32 halting"
    and put_bit :: "'s \<Rightarrow> u32 \<Rightarrow> u8 \<Rightarrow> 's halting"
  assumes free_bound: "free s \<subseteq> {..<nr s}"
    and scan_law: "inv s \<Longrightarrow> free s \<noteq> {} \<Longrightarrow> \<exists>i. scan s = Some i \<and> unat i = Min (free s)"
    and set_law: "inv s \<Longrightarrow> unat i < nr s \<Longrightarrow>
      \<exists>s'. put_bit s i 1 = Some s' \<and> inv s' \<and> nr s' = nr s \<and> free s' = free s - {unat i}"
    and clear_law: "inv s \<Longrightarrow> unat i < nr s \<Longrightarrow>
      \<exists>s'. put_bit s i 0 = Some s' \<and> inv s' \<and> nr s' = nr s \<and> free s' = insert (unat i) (free s)"
begin

lemma finite_free: "finite (free s)"
  using free_bound finite_subset by blast

lemma take_one_law:
  assumes "inv s" "free s \<noteq> {}"
  shows "\<exists>i s'. take_one scan put_bit s = Some (i, s') \<and> inv s' \<and> nr s' = nr s \<and>
    unat i = Min (free s) \<and> unat i \<in> free s \<and> free s' = free s - {unat i}"
proof -
  obtain i where i: "scan s = Some i" "unat i = Min (free s)"
    using scan_law [OF assms] by blast
  then have m: "unat i \<in> free s"
    using Min_in [OF finite_free assms(2)] by simp
  then have "unat i < nr s"
    using free_bound by blast
  then obtain s' where "put_bit s i 1 = Some s'" "inv s'" "nr s' = nr s" "free s' = free s - {unat i}"
    using set_law [OF assms(1)] by blast
  then show ?thesis
    using i m by (simp add: take_one_def)
qed

lemma take_many_law:
  "inv s \<Longrightarrow> n \<le> card (free s) \<Longrightarrow> \<exists>is s'. take_many scan put_bit n s = Some (is, s') \<and> inv s' \<and>
    nr s' = nr s \<and> length is = n \<and> distinct is \<and> unat ` set is \<subseteq> free s \<and> free s' = free s - unat ` set is"
proof (induction n arbitrary: s)
  case (Suc n)
  then have "free s \<noteq> {}"
    by auto
  then obtain i s1 where i: "take_one scan put_bit s = Some (i, s1)" "inv s1" "nr s1 = nr s"
      "unat i \<in> free s" "free s1 = free s - {unat i}"
    using take_one_law Suc.prems(1) by blast
  then have "n \<le> card (free s1)"
    using Suc.prems(2) finite_free by simp
  then obtain "is" s2 where r: "take_many scan put_bit n s1 = Some (is, s2)" "inv s2" "nr s2 = nr s1"
      "length is = n" "distinct is" "unat ` set is \<subseteq> free s1" "free s2 = free s1 - unat ` set is"
    using Suc.IH [OF i(2)] by blast
  then have "i \<notin> set is"
    using i(5) by auto
  then show ?case
    using i r by auto
qed simp

lemma give_back:
  assumes "inv s" "free s \<noteq> {}"
  shows "\<exists>i s' s''. take_one scan put_bit s = Some (i, s') \<and> put_bit s' i 0 = Some s'' \<and> inv s'' \<and>
    free s'' = free s"
proof -
  obtain i s' where i: "take_one scan put_bit s = Some (i, s')" "inv s'" "nr s' = nr s"
      "unat i \<in> free s" "free s' = free s - {unat i}"
    using take_one_law [OF assms] by blast
  moreover have "unat i < nr s'"
    using i(3,4) free_bound by auto
  ultimately obtain s'' where "put_bit s' i 0 = Some s''" "inv s''" "free s'' = insert (unat i) (free s')"
    using clear_law by blast
  then show ?thesis
    using i by (intro exI [of _ i] exI [of _ s'] exI [of _ s'']) auto
qed

end

interpretation bmp: number_pool bm_wf bm_free bm_nr "\<lambda>b. bitmap_scan b 1" bitmap_set
proof
  fix s
  show "bm_free s \<subseteq> {..<bm_nr s}"
    by (auto simp: bm_free_def)
  show "\<exists>i. bitmap_scan s 1 = Some i \<and> unat i = Min (bm_free s)" if "bm_wf s" "bm_free s \<noteq> {}"
    using bitmap_scan_one [OF that] by blast
next
  fix s and i :: u32
  assume a: "bm_wf s" "unat i < bm_nr s"
  show "\<exists>s'. bitmap_set s i 1 = Some s' \<and> bm_wf s' \<and> bm_nr s' = bm_nr s \<and> bm_free s' = bm_free s - {unat i}"
    using bitmap_set_wf [OF a, of 1] by auto
  show "\<exists>s'. bitmap_set s i 0 = Some s' \<and> bm_wf s' \<and> bm_nr s' = bm_nr s \<and> bm_free s' = insert (unat i) (bm_free s)"
    using bitmap_set_wf [OF a, of 0] by auto
qed

section \<open>Properties\<close>

text \<open>
  C34. Scanning a bitmap for one bit and setting it, \<open>n\<close> times, hands out \<open>n\<close> different numbers that
  were free, marks exactly those as used, and never stops the machine as long as \<open>n\<close> bits are free.
\<close>

theorem bitmap_pool_distinct:
  assumes "bm_wf btmp" "n \<le> card (bm_free btmp)"
  shows "\<exists>is btmp'. take_many (\<lambda>b. bitmap_scan b 1) bitmap_set n btmp = Some (is, btmp') \<and> bm_wf btmp' \<and>
    length is = n \<and> distinct is \<and> unat ` set is \<subseteq> bm_free btmp \<and>
    bm_free btmp' = bm_free btmp - unat ` set is \<and>
    bitmap_count btmp' = Some (of_nat (card (bm_free btmp) - n))"
proof -
  obtain "is" btmp' where r: "take_many (\<lambda>b. bitmap_scan b 1) bitmap_set n btmp = Some (is, btmp')"
      "bm_wf btmp'" "length is = n" "distinct is" "unat ` set is \<subseteq> bm_free btmp"
      "bm_free btmp' = bm_free btmp - unat ` set is"
    using bmp.take_many_law [OF assms] by blast
  moreover have "card (unat ` set is) = n"
    using distinct_card [OF r(4)] r(3) card_image [of unat "set is"] by (simp add: inj_on_def word_unat_eq_iff)
  then have "card (bm_free btmp') = card (bm_free btmp) - n"
    using r(5) unfolding r(6) by (subst card_Diff_subset) auto
  ultimately show ?thesis
    using bitmap_count_eq [OF r(2)] by auto
qed

definition ex_bitmap :: bitmap where
  "ex_bitmap = \<lparr>btmp_bytes_len = 2, bits = [0xff, 0x0b, 0xff]\<rparr>"

lemma nat_less_16: "i < 16 \<longleftrightarrow> i \<in> set [0..<16]" for i :: nat
  by auto

lemma ex_bitmap_free: "bm_wf ex_bitmap" "bm_nr ex_bitmap = 16" "bm_free ex_bitmap = {10, 12, 13, 14, 15}"
proof -
  show "bm_wf ex_bitmap" and nr: "bm_nr ex_bitmap = 16"
    by (simp_all add: bm_wf_def bm_nr_def ex_bitmap_def)
  have "[i. i \<leftarrow> [0..<16], \<not> bm_bit ex_bitmap i] = [10, 12, 13, 14, 15]"
    by code_simp
  then have "set [i. i \<leftarrow> [0..<16], \<not> bm_bit ex_bitmap i] = {10, 12, 13, 14, 15}"
    by simp
  moreover have "bm_free ex_bitmap = set [i. i \<leftarrow> [0..<16], \<not> bm_bit ex_bitmap i]"
    by (auto simp: bm_free_def nr)
  ultimately show "bm_free ex_bitmap = {10, 12, 13, 14, 15}"
    by (simp only:)
qed

theorem bitmap_pool_distinct_witness:
  "\<exists>is btmp'. take_many (\<lambda>b. bitmap_scan b 1) bitmap_set 3 ex_bitmap = Some (is, btmp') \<and>
    distinct is \<and> unat ` set is \<subseteq> {10, 12, 13, 14, 15} \<and> bitmap_count btmp' = Some 2"
  using bitmap_pool_distinct [OF ex_bitmap_free(1), of 3] by (auto simp: ex_bitmap_free)

text \<open>
  A scan for \<open>cnt > 1\<close> bits is first fit: it answers the least position with \<open>cnt\<close> clear bits in a
  row, and \<open>- 1\<close> only if there is none. The last bit the loop looks at is the one just behind the
  bitmap, so the window has one bit more than the bitmap; when that bit is set, the answer lies in
  the bitmap.
\<close>

theorem bitmap_scan_first_fit:
  assumes "bm_wf btmp" "bm_free btmp \<noteq> {}" "2 \<le> unat cnt" "bm_nr btmp < 8 * length (bits btmp)"
  shows "\<exists>v. bitmap_scan btmp cnt = Some v \<and> first_fit btmp (bm_nr btmp + 1) (unat cnt) v \<and>
    (bm_bit btmp (bm_nr btmp) \<longrightarrow> first_fit btmp (bm_nr btmp) (unat cnt) v)"
proof -
  obtain v where v: "bitmap_scan btmp cnt = Some v" "first_fit btmp (bm_nr btmp + 1) (unat cnt) v"
    using bitmap_scan_run [OF assms] by blast
  moreover have "unat v + unat cnt \<le> bm_nr btmp"
    if set: "bm_bit btmp (bm_nr btmp)" and run: "run_free btmp (unat v) (unat cnt)"
      and le: "unat v + unat cnt \<le> bm_nr btmp + 1"
  proof (rule ccontr)
    assume "\<not> unat v + unat cnt \<le> bm_nr btmp"
    then have "unat v + (unat cnt - 1) = bm_nr btmp"
      using le assms(3) by simp
    then show False
      using set run assms(3) unfolding run_free_def by (auto dest: spec [of _ "unat cnt - 1"])
  qed
  ultimately show ?thesis
    by (auto simp: first_fit_def)
qed

end
