(* ===== verification/Hashtable.thy ===== *)
theory Hashtable
  imports Dlist
begin

text \<open>
  The chained hash table of \<^verbatim>\<open>lib/kernel/hashtable.c\<close> on the heap of the intrusive lists: an array of
  bucket lists, the two callbacks, and a counter. The table is shown to implement a finite map from
  keys to nodes, for any hash function and any condition that compares the key stored in a node.
\<close>

section \<open>The code\<close>

record 'k hashtable =
  buckets :: "dlist list"
  bucket_nr :: u32
  elem_nr :: u32
  hash_func :: "'k \<Rightarrow> u32"
  condition :: "addr \<Rightarrow> 'k \<Rightarrow> bool"

text \<open>\<^verbatim>\<open>&hash->buckets[i]\<close>: an index past the allocated array faults when it is followed.\<close>

definition bucket_at :: "'k hashtable \<Rightarrow> nat \<Rightarrow> dlist halting" where
  "bucket_at hash i = (if i < length (buckets hash) then Some (buckets hash ! i) else None)"

fun hash_init_loop :: "dheap \<Rightarrow> dlist list \<Rightarrow> dheap halting" where
  "hash_init_loop h [] = Some h"
| "hash_init_loop h (b # bs) = do { h \<leftarrow> dlist_init h b; hash_init_loop h bs }"

text \<open>
  \<^verbatim>\<open>kmalloc\<close> belongs to the memory component; here it is a parameter that answers \<open>None\<close> for
  \<^verbatim>\<open>NULL\<close> and otherwise the sentinels that fit in the memory it returns. A \<^verbatim>\<open>struct dlist\<close> has 16 bytes.
\<close>

definition hash_init ::
  "(u32 \<Rightarrow> dlist list option) \<Rightarrow> dheap \<Rightarrow> u32 \<Rightarrow> ('k \<Rightarrow> u32) \<Rightarrow> (addr \<Rightarrow> 'k \<Rightarrow> bool) \<Rightarrow>
    ('k hashtable \<times> dheap) halting" where
  "hash_init kmalloc h nr func cond = do {
     bs \<leftarrow> kmalloc (nr * 16);
     ASSERT (unat nr \<le> length bs);
     h \<leftarrow> hash_init_loop h (take (unat nr) bs);
     Some (\<lparr>buckets = bs, bucket_nr = nr, elem_nr = 0, hash_func = func, condition = cond\<rparr>, h)
   }"

definition get_bucket :: "'k hashtable \<Rightarrow> 'k \<Rightarrow> u32 halting" where
  "get_bucket hash arg = do {
     ASSERT (bucket_nr hash \<noteq> 0);
     Some (hash_func hash arg mod bucket_nr hash)
   }"

definition hash_find :: "dheap \<Rightarrow> 'k hashtable \<Rightarrow> 'k \<Rightarrow> addr halting" where
  "hash_find h hash arg = do {
     bucket_idx \<leftarrow> get_bucket hash arg;
     b \<leftarrow> bucket_at hash (unat bucket_idx);
     dlist_traversal h b (condition hash) arg
   }"

definition hash_insert ::
  "dheap \<Rightarrow> 'k hashtable \<Rightarrow> 'k \<Rightarrow> addr \<Rightarrow> ('k hashtable \<times> dheap) halting" where
  "hash_insert h hash arg pelem = do {
     bucket_idx \<leftarrow> get_bucket hash arg;
     b \<leftarrow> bucket_at hash (unat bucket_idx);
     found \<leftarrow> dlist_traversal h b (condition hash) arg;
     if found \<noteq> NULL then Some (hash, h)
     else do {
       h \<leftarrow> dlist_push_back h b pelem;
       Some (hash\<lparr>elem_nr := elem_nr hash + 1\<rparr>, h)
     }
   }"

definition hash_remove :: "dheap \<Rightarrow> 'k hashtable \<Rightarrow> addr \<Rightarrow> ('k hashtable \<times> dheap) halting" where
  "hash_remove h hash pelem =
     (if pelem \<noteq> NULL then do {
        h \<leftarrow> dlist_remove h pelem;
        Some (hash\<lparr>elem_nr := elem_nr hash - 1\<rparr>, h)
      } else Some (hash, h))"

section \<open>Disjoint lists in one heap\<close>

definition dl_set :: "dlist \<Rightarrow> addr list \<Rightarrow> addr set" where
  "dl_set l xs = set (dl_nodes l xs)"

lemma linked_heap_cong:
  assumes "\<forall>a\<in>set ns. h' a = h a"
  shows "linked h' ns = linked h ns"
  using assms by (intro linked_cong) (auto simp: get_next_def get_prev_def dest: in_set_butlastD in_set_tlD)

lemma dl_rep_frame:
  assumes "dl_rep h l xs" "\<forall>a\<in>dl_set l xs. h' a = h a" "h' NULL = None"
  shows "dl_rep h' l xs"
proof -
  have "linked h' (dl_nodes l xs)"
    using assms linked_heap_cong [of "dl_nodes l xs" h' h] by (simp add: dl_set_def dl_rep_def)
  moreover have "head l \<in> dl_set l xs" "tail l \<in> dl_set l xs"
    by (simp_all add: dl_set_def dl_nodes_def)
  moreover have "set (dl_nodes l xs) \<subseteq> dom h'"
    using assms(1,2) by (auto simp: dl_rep_def dl_set_def dom_def)
  ultimately show ?thesis
    using assms by (simp add: dl_rep_def get_prev_def get_next_def)
qed

text \<open>The contents of a table: one list of nodes per bucket, the node sets pairwise disjoint.\<close>

definition ht_rep :: "dheap \<Rightarrow> 'k hashtable \<Rightarrow> addr list list \<Rightarrow> bool" where
  "ht_rep h t xss \<longleftrightarrow>
     0 < unat (bucket_nr t) \<and> length (buckets t) = unat (bucket_nr t) \<and> length xss = unat (bucket_nr t) \<and>
     (\<forall>i < length xss. dl_rep h (buckets t ! i) (xss ! i) \<and> length (xss ! i) \<le> TIMEOUT_CNT) \<and>
     (\<forall>i < length xss. \<forall>j < length xss. i \<noteq> j \<longrightarrow>
        dl_set (buckets t ! i) (xss ! i) \<inter> dl_set (buckets t ! j) (xss ! j) = {})"

definition ht_nodes :: "'k hashtable \<Rightarrow> addr list list \<Rightarrow> addr set" where
  "ht_nodes t xss = (\<Union>i<length xss. dl_set (buckets t ! i) (xss ! i))"

lemma ht_rep_dest:
  assumes "ht_rep h t xss" "i < length xss"
  shows "dl_rep h (buckets t ! i) (xss ! i)" "length (xss ! i) \<le> Suc TIMEOUT_CNT" "i < length (buckets t)"
  using assms by (auto simp: ht_rep_def)

text \<open>An update of one bucket's list keeps the representation of the table.\<close>

lemma ht_rep_update:
  assumes "ht_rep h t xss" "i < length xss" "dl_rep h' (buckets t ! i) ys" "length ys \<le> TIMEOUT_CNT"
    and frame: "\<forall>a. a \<notin> dl_set (buckets t ! i) (xss ! i) \<union> N \<longrightarrow> h' a = h a"
    and sub: "dl_set (buckets t ! i) ys \<subseteq> dl_set (buckets t ! i) (xss ! i) \<union> N"
    and new: "N \<inter> ht_nodes t xss = {}"
  shows "ht_rep h' (t\<lparr>elem_nr := n\<rparr>) (xss[i := ys])"
proof -
  have disj: "(dl_set (buckets t ! i) (xss ! i) \<union> N) \<inter> dl_set (buckets t ! j) (xss ! j) = {}"
    if "j < length xss" "j \<noteq> i" for j
  proof -
    have "dl_set (buckets t ! i) (xss ! i) \<inter> dl_set (buckets t ! j) (xss ! j) = {}"
      using assms(1,2) that by (simp add: ht_rep_def)
    moreover have "N \<inter> dl_set (buckets t ! j) (xss ! j) = {}"
      using new that(1) unfolding ht_nodes_def by blast
    ultimately show ?thesis
      by blast
  qed
  have "h' NULL = None"
    using assms(3) by (simp add: dl_rep_def)
  then have other: "dl_rep h' (buckets t ! j) (xss ! j)" if "j < length xss" "j \<noteq> i" for j
    using disj [OF that] frame by (intro dl_rep_frame [OF ht_rep_dest(1) [OF assms(1) that(1)]]) auto
  have part: "dl_rep h' (buckets t ! j) (xss[i := ys] ! j) \<and> length (xss[i := ys] ! j) \<le> TIMEOUT_CNT"
    if "j < length xss" for j
    using other [OF that] assms(1-4) that by (cases "j = i") (simp_all add: ht_rep_def)
  have apart: "dl_set (buckets t ! j) (xss[i := ys] ! j) \<inter> dl_set (buckets t ! k) (xss[i := ys] ! k) = {}"
    if "j < length xss" "k < length xss" "j \<noteq> k" for j k
  proof -
    consider "j = i" | "k = i" | "j \<noteq> i" "k \<noteq> i"
      by blast
    then show ?thesis
    proof cases
      case 3
      then show ?thesis
        using assms(1) that by (simp add: ht_rep_def)
    qed (use disj [of k] disj [of j] sub that assms(2) in auto)
  qed
  show ?thesis
    using assms(1) part apart unfolding ht_rep_def by simp
qed

section \<open>The map a table represents\<close>

text \<open>
  Every node sits in the bucket of its key, keys are not repeated, and \<^verbatim>\<open>elem_nr\<close> counts the nodes.
\<close>

definition ht_inv :: "(addr \<Rightarrow> 'k) \<Rightarrow> 'k hashtable \<Rightarrow> addr list list \<Rightarrow> bool" where
  "ht_inv key_of t xss \<longleftrightarrow>
     (\<forall>i < length xss. \<forall>e\<in>set (xss ! i). unat (hash_func t (key_of e) mod bucket_nr t) = i) \<and>
     (\<forall>i < length xss. inj_on key_of (set (xss ! i))) \<and>
     elem_nr t = of_nat (sum_list (map length xss))"

definition ht_elems :: "addr list list \<Rightarrow> addr set" where
  "ht_elems xss = (\<Union>i<length xss. set (xss ! i))"

definition ht_map :: "(addr \<Rightarrow> 'k) \<Rightarrow> 'k hashtable \<Rightarrow> addr list list \<Rightarrow> 'k \<rightharpoonup> addr" where
  "ht_map key_of t xss k =
     List.find (\<lambda>e. key_of e = k) (xss ! unat (hash_func t k mod bucket_nr t))"

definition ptr :: "addr option \<Rightarrow> addr" where
  "ptr x = (case x of None \<Rightarrow> NULL | Some e \<Rightarrow> e)"

lemma bucket_bound:
  "ht_rep h t xss \<Longrightarrow> unat (hash_func t k mod bucket_nr t) < length xss"
  "ht_rep h t xss \<Longrightarrow> bucket_nr t \<noteq> 0"
  by (auto simp: ht_rep_def unat_mod)

lemma ht_map_Some:
  assumes "ht_rep h t xss" "ht_inv key_of t xss"
  shows "ht_map key_of t xss k = Some e \<longleftrightarrow> e \<in> ht_elems xss \<and> key_of e = k"
proof
  assume "ht_map key_of t xss k = Some e"
  then show "e \<in> ht_elems xss \<and> key_of e = k"
    using bucket_bound(1) [OF assms(1), of k] unfolding ht_map_def find_Some_split ht_elems_def by fastforce
next
  assume e: "e \<in> ht_elems xss \<and> key_of e = k"
  let ?i = "unat (hash_func t k mod bucket_nr t)"
  have i: "e \<in> set (xss ! ?i)" "?i < length xss"
    using e assms(2) bucket_bound(1) [OF assms(1)] by (auto simp: ht_elems_def ht_inv_def)
  then have "List.find (\<lambda>e. key_of e = k) (xss ! ?i) \<noteq> None"
    using e by (auto simp: find_None_iff)
  then obtain e' where e': "List.find (\<lambda>e. key_of e = k) (xss ! ?i) = Some e'"
    by blast
  then have "e' \<in> set (xss ! ?i)" "key_of e' = k"
    unfolding find_Some_split by auto
  then have "e' = e"
    using i e assms(2) by (auto simp: ht_inv_def dest: inj_onD)
  then show "ht_map key_of t xss k = Some e"
    using e' by (simp add: ht_map_def)
qed

lemma map_eqI: "(\<And>k e. m k = Some e \<longleftrightarrow> m' k = Some e) \<Longrightarrow> m = m'"
  by (metis ext option.exhaust)

lemma sum_list_length_update:
  "i < length xss \<Longrightarrow> sum_list (map length (xss[i := ys])) + length (xss ! i) =
    sum_list (map length xss) + length ys"
proof (induction xss arbitrary: i)
  case (Cons x xss)
  then show ?case by (cases i) auto
qed simp

lemma ht_elems_update:
  assumes "i < length xss" "\<forall>j<length xss. j \<noteq> i \<longrightarrow> set (xss ! j) \<inter> set (xss ! i) = {}"
  shows "ht_elems (xss[i := ys]) = (ht_elems xss - set (xss ! i)) \<union> set ys"
  using assms unfolding ht_elems_def by (auto simp: nth_list_update split: if_splits) blast+

lemma ht_rep_elems_disjoint:
  assumes "ht_rep h t xss" "i < length xss" "j < length xss" "j \<noteq> i"
  shows "set (xss ! j) \<inter> set (xss ! i) = {}"
proof -
  have "dl_set (buckets t ! j) (xss ! j) \<inter> dl_set (buckets t ! i) (xss ! i) = {}"
    using assms by (simp add: ht_rep_def)
  then show ?thesis
    by (auto simp: dl_set_def dl_nodes_def)
qed

lemma ht_rep_elems_nonnull:
  assumes "ht_rep h t xss" "e \<in> ht_elems xss"
  shows "e \<noteq> NULL"
proof -
  obtain i where i: "i < length xss" "e \<in> set (xss ! i)"
    using assms(2) by (auto simp: ht_elems_def)
  have "NULL \<notin> set (xss ! i)"
    using ht_rep_dest(1) [OF assms(1) i(1)] by (simp add: dl_rep_def dl_nodes_def)
  then show ?thesis
    using i(2) by metis
qed

text \<open>The condition callback compares the key stored in a node with the key searched for.\<close>

locale keyed_nodes =
  fixes key_of :: "addr \<Rightarrow> 'k"
    and cond :: "addr \<Rightarrow> 'k \<Rightarrow> bool"
  assumes cond_iff: "cond e k \<longleftrightarrow> key_of e = k"
begin

lemma traversal_bucket:
  assumes "ht_rep h t xss" "condition t = cond" "i = unat (hash_func t k mod bucket_nr t)"
  shows "dlist_traversal h (buckets t ! i) (condition t) k = Some (ptr (ht_map key_of t xss k))"
proof -
  have i: "i < length xss"
    using bucket_bound(1) [OF assms(1)] assms(3) by simp
  have "(\<lambda>x. condition t x k) = (\<lambda>x. key_of x = k)"
    by (simp add: assms(2) cond_iff)
  then show ?thesis
    using dl_rep_traversal [OF ht_rep_dest(1,2) [OF assms(1) i], of "condition t" k] assms(3)
    by (simp add: first_node_def ht_map_def ptr_def)
qed

lemma hash_find_map:
  assumes "ht_rep h t xss" "condition t = cond"
  shows "hash_find h t k = Some (ptr (ht_map key_of t xss k))"
  using traversal_bucket [OF assms refl, of k] bucket_bound [OF assms(1)]
    ht_rep_dest(3) [OF assms(1) bucket_bound(1) [OF assms(1)], of k]
  by (simp add: hash_find_def get_bucket_def bucket_at_def)

lemma hash_insert_present:
  assumes "ht_rep h t xss" "ht_inv key_of t xss" "condition t = cond" "ht_map key_of t xss k \<noteq> None"
  shows "hash_insert h t k e = Some (t, h)"
proof -
  obtain x where x: "ht_map key_of t xss k = Some x"
    using assms(4) by blast
  then have "x \<noteq> NULL"
    using ht_map_Some [OF assms(1,2)] ht_rep_elems_nonnull [OF assms(1)] by blast
  then show ?thesis
    using traversal_bucket [OF assms(1,3) refl, of k] bucket_bound [OF assms(1)] x
      ht_rep_dest(3) [OF assms(1) bucket_bound(1) [OF assms(1)], of k]
    by (simp add: hash_insert_def get_bucket_def bucket_at_def ptr_def)
qed

lemma hash_insert_absent:
  assumes "ht_rep h t xss" "ht_inv key_of t xss" "condition t = cond" "ht_map key_of t xss (key_of e) = None"
    and "e \<in> dom h" "e \<notin> ht_nodes t xss" "\<forall>xs\<in>set xss. length xs < TIMEOUT_CNT"
  shows "\<exists>t' h' xss'. hash_insert h t (key_of e) e = Some (t', h') \<and> ht_rep h' t' xss' \<and>
    ht_inv key_of t' xss' \<and> t' = t\<lparr>elem_nr := elem_nr t + 1\<rparr> \<and>
    ht_map key_of t' xss' = (ht_map key_of t xss)(key_of e \<mapsto> e) \<and>
    ht_elems xss' = insert e (ht_elems xss) \<and> dom h' = dom h"
proof -
  let ?i = "unat (hash_func t (key_of e) mod bucket_nr t)"
  let ?t = "t\<lparr>elem_nr := elem_nr t + 1\<rparr>"
  let ?xss = "xss[?i := xss ! ?i @ [e]]"
  have i: "?i < length xss"
    using bucket_bound(1) [OF assms(1)] .
  have "dl_fresh h (buckets t ! ?i) (xss ! ?i) e"
    using assms(5,6) i by (auto simp: dl_fresh_def ht_nodes_def dl_set_def)
  then obtain h' where h': "dlist_push_back h (buckets t ! ?i) e = Some h'"
      "dl_rep h' (buckets t ! ?i) (xss ! ?i @ [e])" "dl_frame h h' (buckets t ! ?i) (xss ! ?i @ [e])"
    using dl_rep_push_back ht_rep_dest(1) [OF assms(1) i] by blast
  have rep: "ht_rep h' ?t ?xss"
    using h'(2,3) assms(1,6,7) i
    by (intro ht_rep_update [where N = "{e}" and h = h])
      (auto simp: dl_frame_def dl_set_def dl_nodes_def Suc_le_eq)
  have key: "key_of x \<noteq> key_of e" if "x \<in> ht_elems xss" for x
    using assms(4) ht_map_Some [OF assms(1,2), of "key_of e" x] that by auto
  have el: "ht_elems ?xss = insert e (ht_elems xss)"
    using ht_elems_update [OF i, of "xss ! ?i @ [e]"] ht_rep_elems_disjoint [OF assms(1) i] i
    by (auto simp: ht_elems_def)
  have inj: "inj_on key_of (set (?xss ! j))" if "j < length xss" for j
  proof -
    have "inj_on key_of (set (xss ! j))" "\<forall>x\<in>set (xss ! j). key_of x \<noteq> key_of e"
      using assms(2) that key by (auto simp: ht_inv_def ht_elems_def)
    then show ?thesis
      using i that by (auto simp: nth_list_update intro!: inj_on_insert [THEN iffD2])
  qed
  have inv: "ht_inv key_of ?t ?xss"
    using assms(2) i inj sum_list_length_update [OF i, of "xss ! ?i @ [e]"]
    by (auto simp: ht_inv_def nth_list_update)
  have "ht_map key_of ?t ?xss = (ht_map key_of t xss)(key_of e \<mapsto> e)"
    using ht_map_Some [OF rep inv] ht_map_Some [OF assms(1,2)] key
    by (intro map_eqI) (auto simp: el)
  moreover have "hash_insert h t (key_of e) e = Some (?t, h')"
    using traversal_bucket [OF assms(1,3) refl, of "key_of e"] bucket_bound [OF assms(1)] assms(4) h'(1)
      ht_rep_dest(3) [OF assms(1) i]
    by (simp add: hash_insert_def get_bucket_def bucket_at_def ptr_def)
  ultimately show ?thesis
    using rep inv el h'(3) by (auto simp: dl_frame_def)
qed

lemma hash_remove_map:
  assumes "ht_rep h t xss" "ht_inv key_of t xss" "e \<in> ht_elems xss"
  shows "\<exists>t' h' xss'. hash_remove h t e = Some (t', h') \<and> ht_rep h' t' xss' \<and> ht_inv key_of t' xss' \<and>
    t' = t\<lparr>elem_nr := elem_nr t - 1\<rparr> \<and> ht_map key_of t' xss' = (ht_map key_of t xss)(key_of e := None) \<and>
    ht_elems xss' = ht_elems xss - {e} \<and> dom h' = dom h"
proof -
  obtain i where i: "i < length xss" "e \<in> set (xss ! i)"
    using assms(3) by (auto simp: ht_elems_def)
  let ?t = "t\<lparr>elem_nr := elem_nr t - 1\<rparr>"
  let ?xss = "xss[i := remove1 e (xss ! i)]"
  note dl = ht_rep_dest(1) [OF assms(1) i(1)]
  obtain h' where h': "dlist_remove h e = Some h'" "dl_rep h' (buckets t ! i) (remove1 e (xss ! i))"
      "dl_frame h h' (buckets t ! i) (xss ! i)"
    using dl_rep_remove1 [OF dl i(2)] by blast
  have dist: "distinct (xss ! i)"
    using dl_rep_distinct [OF dl] .
  have "length (remove1 e (xss ! i)) \<le> TIMEOUT_CNT"
    using assms(1) i by (auto simp: ht_rep_def length_remove1)
  then have rep: "ht_rep h' ?t ?xss"
    using h'(2,3) assms(1) i
    by (intro ht_rep_update [where N = "{}" and h = h])
      (auto simp: dl_frame_def dl_set_def dl_nodes_def dest: set_remove1_subset [THEN subsetD])
  have el: "ht_elems ?xss = ht_elems xss - {e}"
    using ht_elems_update [OF i(1), of "remove1 e (xss ! i)"] ht_rep_elems_disjoint [OF assms(1) i(1)] i dist
    by (auto simp: ht_elems_def)
  have inj: "inj_on key_of (set (?xss ! j))" if "j < length xss" for j
    using assms(2) that i(1) dist by (auto simp: ht_inv_def nth_list_update intro: inj_on_subset)
  have "sum_list (map length xss) = Suc (sum_list (map length ?xss))"
    using sum_list_length_update [OF i(1), of "remove1 e (xss ! i)"] i(2) length_pos_if_in_set [OF i(2)]
    unfolding length_remove1 if_P [OF i(2)] by linarith
  then have inv: "ht_inv key_of ?t ?xss"
    using assms(2) i(1) inj dist by (auto simp: ht_inv_def nth_list_update)
  have "ht_map key_of ?t ?xss = (ht_map key_of t xss)(key_of e := None)"
  proof (rule map_eqI)
    fix k x
    have "x = e" if "x \<in> ht_elems xss" "key_of x = key_of e"
      using ht_map_Some [OF assms(1,2), of "key_of e"] assms(3) that by (metis option.inject)
    then show "ht_map key_of ?t ?xss k = Some x \<longleftrightarrow> ((ht_map key_of t xss)(key_of e := None)) k = Some x"
      using ht_map_Some [OF rep inv, of k x] ht_map_Some [OF assms(1,2), of k x] by (auto simp: el)
  qed
  moreover have "hash_remove h t e = Some (?t, h')"
    using h'(1) ht_rep_elems_nonnull [OF assms(1,3)] by (simp add: hash_remove_def)
  ultimately show ?thesis
    using rep inv el h'(3) by (auto simp: dl_frame_def)
qed

end

section \<open>Initialisation\<close>

definition sentinels :: "dlist list \<Rightarrow> addr list" where
  "sentinels bs = concat (map (\<lambda>b. [head b, tail b]) bs)"

lemma sentinels_simps [simp]:
  "sentinels [] = []" "sentinels (b # bs) = head b # tail b # sentinels bs"
  by (simp_all add: sentinels_def)

lemma sentinels_nth: "i < length bs \<Longrightarrow> {head (bs ! i), tail (bs ! i)} \<subseteq> set (sentinels bs)"
  by (auto simp: sentinels_def)

lemma hash_init_loop_rep:
  "distinct (sentinels bs) \<Longrightarrow> set (sentinels bs) \<subseteq> dom h \<Longrightarrow> h NULL = None \<Longrightarrow>
    \<exists>h'. hash_init_loop h bs = Some h' \<and> dom h' = dom h \<and> (\<forall>a. a \<notin> set (sentinels bs) \<longrightarrow> h' a = h a) \<and>
      (\<forall>b\<in>set bs. dl_rep h' b [])"
proof (induction bs arbitrary: h)
  case (Cons b bs)
  obtain h1 where h1: "dlist_init h b = Some h1" "dl_rep h1 b []" "dl_frame h h1 b []"
    using dl_rep_init [of b h] Cons.prems by auto
  have "set (sentinels bs) \<subseteq> dom h1" "h1 NULL = None"
    using h1(2,3) Cons.prems by (auto simp: dl_frame_def dl_rep_def)
  then obtain h2 where h2: "hash_init_loop h1 bs = Some h2" "dom h2 = dom h1"
      "\<forall>a. a \<notin> set (sentinels bs) \<longrightarrow> h2 a = h1 a" "\<forall>b\<in>set bs. dl_rep h2 b []"
    using Cons.IH [of h1] Cons.prems(1) by auto
  have "h2 NULL = None"
    using h2(2) \<open>h1 NULL = None\<close> by (metis domIff)
  then have "dl_rep h2 b []"
    using h2(3) Cons.prems(1) by (intro dl_rep_frame [OF h1(2)]) (auto simp: dl_set_def dl_nodes_def)
  then show ?case
    using h1 h2 by (auto simp: dl_frame_def dl_nodes_def)
qed simp

lemma sentinels_disjoint:
  "distinct (sentinels bs) \<Longrightarrow> i < length bs \<Longrightarrow> j < length bs \<Longrightarrow> i \<noteq> j \<Longrightarrow>
    {head (bs ! i), tail (bs ! i)} \<inter> {head (bs ! j), tail (bs ! j)} = {}"
proof (induction bs arbitrary: i j)
  case (Cons b bs)
  have "{head (bs ! n), tail (bs ! n)} \<subseteq> set (sentinels bs)" if "n < length bs" for n
    using sentinels_nth that .
  then show ?case
    using Cons by (cases i; cases j) force+
qed simp

lemma hash_init_rep:
  assumes "kmalloc (nr * 16) = Some bs" "length bs = unat nr" "0 < nr" "distinct (sentinels bs)"
    and "set (sentinels bs) \<subseteq> dom h" "h NULL = None"
  shows "\<exists>t h'. hash_init kmalloc h nr func cond = Some (t, h') \<and> ht_rep h' t (replicate (unat nr) []) \<and>
    ht_inv key_of t (replicate (unat nr) []) \<and> ht_map key_of t (replicate (unat nr) []) = Map.empty \<and>
    hash_func t = func \<and> condition t = cond \<and> bucket_nr t = nr \<and> dom h' = dom h"
proof -
  obtain h' where h': "hash_init_loop h bs = Some h'" "dom h' = dom h" "\<forall>b\<in>set bs. dl_rep h' b []"
    using hash_init_loop_rep [OF assms(4-6)] by blast
  let ?t = "\<lparr>buckets = bs, bucket_nr = nr, elem_nr = 0, hash_func = func, condition = cond\<rparr>"
  have pos: "0 < unat nr"
    using assms(3) by (simp add: word_less_nat_alt)
  have "ht_rep h' ?t (replicate (unat nr) [])"
    using assms(2) h'(3) pos sentinels_disjoint [OF assms(4)]
    by (simp add: ht_rep_def dl_set_def dl_nodes_def)
  moreover have "ht_inv key_of ?t (replicate (unat nr) [])"
    by (simp add: ht_inv_def map_replicate_const sum_list_replicate)
  moreover have "ht_map key_of ?t (replicate (unat nr) []) = Map.empty"
    using pos by (auto simp: ht_map_def fun_eq_iff unat_mod)
  ultimately show ?thesis
    using assms(1,2) h'(1,2) by (simp add: hash_init_def)
qed

end
