(* ===== verification/Ide_Buffer.thy ===== *)
theory Ide_Buffer
  imports Hashtable
begin

text \<open>
  The block buffer cache of \<^verbatim>\<open>device/block/ide_buffer.c\<close>: lookup by (disk, sector), eviction of the
  least recently used unreferenced block with write back, delayed writes through two dirty lists per
  disk, and the sorted, merged write back of the sync thread. The hash table is used as the map it
  implements (theory Hashtable) and the lists as the lists they represent (theory Dlist). Sections
  under the global lock run to completion; where the code drops the lock to allocate memory, other
  processes act through the parameter \<open>env\<close>. The sectors behind \<^verbatim>\<open>ide_read\<close> and \<^verbatim>\<open>ide_write\<close> are the
  field \<open>media\<close>.
\<close>

section \<open>The code\<close>

definition SECTOR_SIZE :: nat where
  "SECTOR_SIZE = 512"

definition SECTORS_PER_OP_BLOCK :: nat where
  "SECTORS_PER_OP_BLOCK = 16"

definition HASH_GOLDEN_RATIO_32 :: u32 where
  "HASH_GOLDEN_RATIO_32 = 0x61C88647"

record buffer_key =
  lba :: u32
  disk :: u32

record buffer_head =
  b_blocknr :: u32
  b_dev :: u32
  b_dirty :: bool
  b_valid :: bool
  b_ref_count :: u32
  b_data :: "u8 list"

text \<open>The cache, the live buffer heads, the two dirty lists of every disk, and the sectors.\<close>

record ide_buffer =
  max_blk_num :: u32
  cur_blk_num :: u32
  buf_blk_size :: u32
  hash_table :: "buffer_key \<rightharpoonup> addr"
  lru_list :: "addr list"
  heads :: "addr \<rightharpoonup> buffer_head"
  dirty_lists :: "u32 \<Rightarrow> nat \<Rightarrow> addr list"
  active_dirty_idx :: "u32 \<Rightarrow> nat"
  media :: "u32 \<Rightarrow> u32 \<Rightarrow> u8 list"

definition buffer_hash :: "buffer_key \<Rightarrow> u32" where
  "buffer_hash key = (drop_bit 4 (disk key) XOR lba key) * HASH_GOLDEN_RATIO_32"

definition buffer_condition :: "(addr \<Rightarrow> buffer_head) \<Rightarrow> addr \<Rightarrow> buffer_key \<Rightarrow> bool" where
  "buffer_condition bhs pelem bk \<longleftrightarrow> b_dev (bhs pelem) = disk bk \<and> b_blocknr (bhs pelem) = lba bk"

definition cb_bh_lba_condition :: "(addr \<Rightarrow> buffer_head) \<Rightarrow> addr \<Rightarrow> addr \<Rightarrow> bool" where
  "cb_bh_lba_condition bhs pelem new_elem \<longleftrightarrow> b_blocknr (bhs pelem) > b_blocknr (bhs new_elem)"

definition ide_buffer_init :: "u32 \<Rightarrow> ide_buffer \<Rightarrow> ide_buffer" where
  "ide_buffer_init mem_bytes_total s =
     s\<lparr>buf_blk_size := of_nat SECTOR_SIZE, max_blk_num := (mem_bytes_total div 10) div of_nat SECTOR_SIZE,
       cur_blk_num := 0, lru_list := [], hash_table := Map.empty\<rparr>"

text \<open>A store through a pointer to a buffer head.\<close>

definition upd_bh :: "addr \<Rightarrow> (buffer_head \<Rightarrow> buffer_head) \<Rightarrow> ide_buffer \<Rightarrow> ide_buffer halting" where
  "upd_bh b f s = do {
     x \<leftarrow> heads s b;
     Some (s\<lparr>heads := (heads s)(b \<mapsto> f x)\<rparr>)
   }"

fun find_victim_loop :: "(addr \<rightharpoonup> buffer_head) \<Rightarrow> addr list \<Rightarrow> addr halting" where
  "find_victim_loop hs [] = Some NULL"
| "find_victim_loop hs (b # bs) = do {
     x \<leftarrow> hs b;
     if b_ref_count x = 0 then Some b else find_victim_loop hs bs
   }"

definition find_victim :: "ide_buffer \<Rightarrow> addr halting" where
  "find_victim s = find_victim_loop (heads s) (lru_list s)"

definition dirty_linked :: "ide_buffer \<Rightarrow> u32 \<Rightarrow> addr \<Rightarrow> bool" where
  "dirty_linked s dev b \<longleftrightarrow> b \<in> set (dirty_lists s dev 0) \<union> set (dirty_lists s dev 1)"

definition dirty_remove :: "u32 \<Rightarrow> addr \<Rightarrow> ide_buffer \<Rightarrow> ide_buffer halting" where
  "dirty_remove dev b s = do {
     ASSERT (dirty_linked s dev b);
     Some (s\<lparr>dirty_lists := (dirty_lists s)(dev := (\<lambda>i. remove1 b (dirty_lists s dev i)))\<rparr>)
   }"

definition blk_evict :: "addr \<Rightarrow> ide_buffer \<Rightarrow> ide_buffer halting" where
  "blk_evict victim s = do {
     ASSERT (victim \<noteq> NULL);
     x \<leftarrow> heads s victim;
     ASSERT (b_ref_count x = 0);
     let s = s\<lparr>hash_table := (\<lambda>k. if hash_table s k = Some victim then None else hash_table s k)\<rparr>;
     lru \<leftarrow> unlink victim (lru_list s);
     let s = s\<lparr>lru_list := lru\<rparr>;
     s \<leftarrow> (if dirty_linked s (b_dev x) victim then dirty_remove (b_dev x) victim s else Some s);
     Some (s\<lparr>heads := (heads s)(victim := None), cur_blk_num := cur_blk_num s - 1\<rparr>)
   }"

definition ide_write1 :: "u32 \<Rightarrow> u32 \<Rightarrow> u8 list \<Rightarrow> ide_buffer \<Rightarrow> ide_buffer" where
  "ide_write1 dev l d s = s\<lparr>media := (media s)(dev := (media s dev)(l := d))\<rparr>"

text \<open>One turn of the reclaim loop of \<^verbatim>\<open>getblk\<close>: write a dirty victim back, then evict it.\<close>

definition reclaim_one :: "ide_buffer \<Rightarrow> ide_buffer halting" where
  "reclaim_one s = do {
     victim \<leftarrow> find_victim s;
     ASSERT (victim \<noteq> NULL);
     x \<leftarrow> heads s victim;
     if b_dirty x then do {
       s \<leftarrow> dirty_remove (b_dev x) victim s;
       let s = ide_write1 (b_dev x) (b_blocknr x) (b_data x) s;
       s \<leftarrow> upd_bh victim (\<lambda>x. x\<lparr>b_dirty := False\<rparr>) s;
       blk_evict victim s
     } else blk_evict victim s
   }"

lemma blk_evict_lru:
  "blk_evict v s = Some s' \<Longrightarrow> v \<in> set (lru_list s) \<and> lru_list s' = remove1 v (lru_list s)"
  by (auto simp: blk_evict_def dirty_remove_def Let_def halting_simps split: if_splits)

lemma blk_evict_length: "blk_evict v s = Some s' \<Longrightarrow> length (lru_list s') < length (lru_list s)"
  using blk_evict_lru [of v s s'] length_pos_if_in_set [of v "lru_list s"]
  by (auto simp: length_remove1 simp del: length_greater_0_conv)

lemma reclaim_one_lru: "reclaim_one s = Some s' \<Longrightarrow> length (lru_list s') < length (lru_list s)"
  by (auto simp: reclaim_one_def dirty_remove_def ide_write1_def upd_bh_def Let_def halting_simps
      dest!: blk_evict_length split: if_splits)

function reclaim :: "ide_buffer \<Rightarrow> ide_buffer halting" where
  "reclaim s =
     (if max_blk_num s * 9 div 10 \<le> cur_blk_num s then do {
        s \<leftarrow> reclaim_one s;
        reclaim s
      } else Some s)"
  by pat_completeness auto
termination
  by (relation "measure (\<lambda>s. length (lru_list s))") (auto dest: reclaim_one_lru)

declare reclaim.simps [simp del]

text \<open>
  \<^verbatim>\<open>getblk\<close>. Waking the sync thread at 80% load does not touch the cache. \<open>kmalloc\<close> answers the address
  of the new head with its zeroed data area, or \<open>None\<close> when one of the two allocations fails.
\<close>

definition getblk ::
  "(ide_buffer \<Rightarrow> addr option) \<Rightarrow> (ide_buffer \<Rightarrow> ide_buffer) \<Rightarrow> u32 \<Rightarrow> u32 \<Rightarrow> ide_buffer \<Rightarrow>
    (addr \<times> ide_buffer) halting" where
  "getblk kmalloc env dev l s = do {
     let bk = \<lparr>lba = l, disk = dev\<rparr>;
     case hash_table s bk of
       Some b \<Rightarrow> do {
         s \<leftarrow> upd_bh b (\<lambda>x. x\<lparr>b_ref_count := b_ref_count x + 1\<rparr>) s;
         lru \<leftarrow> unlink b (lru_list s);
         Some (b, s\<lparr>lru_list := lru @ [b]\<rparr>)
       }
     | None \<Rightarrow> do {
         s \<leftarrow> reclaim s;
         new_bh \<leftarrow> kmalloc s;
         let s = env s;
         case hash_table s bk of
           Some b \<Rightarrow> do {
             s \<leftarrow> upd_bh b (\<lambda>x. x\<lparr>b_ref_count := b_ref_count x + 1\<rparr>) s;
             Some (b, s)
           }
         | None \<Rightarrow>
             Some (new_bh, s\<lparr>
               heads := (heads s)(new_bh \<mapsto> \<lparr>b_blocknr = l, b_dev = dev, b_dirty = False, b_valid = False,
                 b_ref_count = 1, b_data = replicate (unat (buf_blk_size s)) 0\<rparr>),
               hash_table := (hash_table s)(bk \<mapsto> new_bh),
               lru_list := lru_list s @ [new_bh],
               cur_blk_num := cur_blk_num s + 1\<rparr>)
       }
   }"

definition brelse :: "addr \<Rightarrow> ide_buffer \<Rightarrow> ide_buffer halting" where
  "brelse b s =
     (if b = NULL then Some s
      else do {
        x \<leftarrow> heads s b;
        if b_ref_count x > 0 then upd_bh b (\<lambda>x. x\<lparr>b_ref_count := b_ref_count x - 1\<rparr>) s
        else None
      })"

definition bread :: "(ide_buffer \<Rightarrow> addr option) \<Rightarrow> (ide_buffer \<Rightarrow> ide_buffer) \<Rightarrow> u32 \<Rightarrow> u32 \<Rightarrow> ide_buffer \<Rightarrow>
    (addr \<times> ide_buffer) halting" where
  "bread kmalloc env dev l s = do {
     (b, s) \<leftarrow> getblk kmalloc env dev l s;
     x \<leftarrow> heads s b;
     s \<leftarrow> (if \<not> b_valid x then
         upd_bh b (\<lambda>x. x\<lparr>b_data := media s dev l, b_valid := True, b_dirty := False\<rparr>) s
       else Some s);
     Some (b, s)
   }"

text \<open>\<^verbatim>\<open>memcpy\<close> into and out of a caller's buffer, sector by sector; outside of the buffer it faults.\<close>

definition copy_in :: "u8 list \<Rightarrow> nat \<Rightarrow> u8 list \<Rightarrow> u8 list halting" where
  "copy_in buf i d = do {
     ASSERT ((i + 1) * SECTOR_SIZE \<le> length buf \<and> length d = SECTOR_SIZE);
     Some (take (i * SECTOR_SIZE) buf @ d @ drop ((i + 1) * SECTOR_SIZE) buf)
   }"

definition copy_out :: "u8 list \<Rightarrow> nat \<Rightarrow> u8 list halting" where
  "copy_out buf i = do {
     ASSERT ((i + 1) * SECTOR_SIZE \<le> length buf);
     Some (take SECTOR_SIZE (drop (i * SECTOR_SIZE) buf))
   }"

function bulk_loop :: "ide_buffer \<Rightarrow> u32 \<Rightarrow> u32 \<Rightarrow> nat \<Rightarrow> nat \<Rightarrow> nat \<Rightarrow> nat" where
  "bulk_loop s dev start_lba sec_cnt i bulk_cnt =
     (if i + bulk_cnt < sec_cnt then
        (if hash_table s \<lparr>lba = start_lba + of_nat i + of_nat bulk_cnt, disk = dev\<rparr> = None
         then (if bulk_cnt + 1 \<ge> SECTORS_PER_OP_BLOCK then bulk_cnt + 1
               else bulk_loop s dev start_lba sec_cnt i (bulk_cnt + 1))
         else bulk_cnt)
      else bulk_cnt)"
  by pat_completeness auto
termination
  by (relation "measure (\<lambda>(s, dev, start_lba, sec_cnt, i, bulk_cnt). sec_cnt - bulk_cnt)") auto

declare bulk_loop.simps [simp del]

lemma bulk_loop_ge: "bulk_cnt \<le> bulk_loop s dev start_lba sec_cnt i bulk_cnt"
proof (induction s dev start_lba sec_cnt i bulk_cnt rule: bulk_loop.induct)
  case (1 s dev start_lba sec_cnt i bulk_cnt)
  then show ?case
    by (subst bulk_loop.simps) auto
qed

text \<open>\<^verbatim>\<open>ide_read\<close> of several sectors straight into the caller's buffer, then the blocks enter the cache.\<close>

fun ide_read_loop :: "ide_buffer \<Rightarrow> u32 \<Rightarrow> u32 \<Rightarrow> nat list \<Rightarrow> u8 list \<Rightarrow> u8 list halting" where
  "ide_read_loop s dev start_lba [] out_buf = Some out_buf"
| "ide_read_loop s dev start_lba (i # is) out_buf = do {
     out_buf \<leftarrow> copy_in out_buf i (media s dev (start_lba + of_nat i));
     ide_read_loop s dev start_lba is out_buf
   }"

fun fill_loop :: "(ide_buffer \<Rightarrow> addr option) \<Rightarrow> (ide_buffer \<Rightarrow> ide_buffer) \<Rightarrow> u32 \<Rightarrow> u32 \<Rightarrow> u8 list \<Rightarrow> nat list \<Rightarrow>
    ide_buffer \<Rightarrow> ide_buffer halting" where
  "fill_loop kmalloc env dev start_lba out_buf [] s = Some s"
| "fill_loop kmalloc env dev start_lba out_buf (i # is) s = do {
     (b, s) \<leftarrow> getblk kmalloc env dev (start_lba + of_nat i) s;
     x \<leftarrow> heads s b;
     s \<leftarrow> (if \<not> b_valid x then do {
         d \<leftarrow> copy_out out_buf i;
         upd_bh b (\<lambda>x. x\<lparr>b_data := d, b_valid := True\<rparr>) s
       } else Some s);
     s \<leftarrow> brelse b s;
     fill_loop kmalloc env dev start_lba out_buf is s
   }"

function bread_multi_loop :: "(ide_buffer \<Rightarrow> addr option) \<Rightarrow> (ide_buffer \<Rightarrow> ide_buffer) \<Rightarrow> u32 \<Rightarrow> u32 \<Rightarrow> nat \<Rightarrow>
    nat \<Rightarrow> u8 list \<Rightarrow> ide_buffer \<Rightarrow> (u8 list \<times> ide_buffer) halting" where
  "bread_multi_loop kmalloc env dev start_lba sec_cnt i out_buf s =
     (if i < sec_cnt then do {
        (b, s) \<leftarrow> getblk kmalloc env dev (start_lba + of_nat i) s;
        x \<leftarrow> heads s b;
        if b_valid x then do {
          out_buf \<leftarrow> copy_in out_buf i (b_data x);
          s \<leftarrow> brelse b s;
          bread_multi_loop kmalloc env dev start_lba sec_cnt (i + 1) out_buf s
        } else do {
          s \<leftarrow> brelse b s;
          let bulk_cnt = bulk_loop s dev start_lba sec_cnt i 1;
          out_buf \<leftarrow> ide_read_loop s dev start_lba [i..<i + bulk_cnt] out_buf;
          s \<leftarrow> fill_loop kmalloc env dev start_lba out_buf [i..<i + bulk_cnt] s;
          bread_multi_loop kmalloc env dev start_lba sec_cnt (i + bulk_cnt) out_buf s
        }
      } else Some (out_buf, s))"
  by pat_completeness auto
termination
  by (relation "measure (\<lambda>(kmalloc, env, dev, start_lba, sec_cnt, i, out_buf, s). sec_cnt - i)")
    (auto intro!: diff_less_mono2 intro: less_le_trans [OF _ bulk_loop_ge])

declare bread_multi_loop.simps [simp del]

definition bread_multi :: "(ide_buffer \<Rightarrow> addr option) \<Rightarrow> (ide_buffer \<Rightarrow> ide_buffer) \<Rightarrow> u32 \<Rightarrow> u32 \<Rightarrow> u8 list \<Rightarrow>
    u32 \<Rightarrow> ide_buffer \<Rightarrow> (u8 list \<times> ide_buffer) halting" where
  "bread_multi kmalloc env dev start_lba out_buf sec_cnt s =
     bread_multi_loop kmalloc env dev start_lba (unat sec_cnt) 0 out_buf s"

text \<open>The dirty mark of \<^verbatim>\<open>bwrite\<close> and \<^verbatim>\<open>bwrite_multi\<close>: the block joins the active list once.\<close>

definition mark_dirty :: "u32 \<Rightarrow> addr \<Rightarrow> ide_buffer \<Rightarrow> ide_buffer halting" where
  "mark_dirty dev b s = do {
     x \<leftarrow> heads s b;
     if \<not> b_dirty x then do {
       s \<leftarrow> upd_bh b (\<lambda>x. x\<lparr>b_dirty := True\<rparr>) s;
       Some (s\<lparr>dirty_lists := (dirty_lists s)(dev := (dirty_lists s dev)
         (active_dirty_idx s dev := dirty_lists s dev (active_dirty_idx s dev) @ [b]))\<rparr>)
     } else Some s
   }"

definition bwrite :: "addr \<Rightarrow> ide_buffer \<Rightarrow> ide_buffer halting" where
  "bwrite b s = (if b = NULL then Some s else do { x \<leftarrow> heads s b; mark_dirty (b_dev x) b s })"

fun bwrite_multi_loop :: "(ide_buffer \<Rightarrow> addr option) \<Rightarrow> (ide_buffer \<Rightarrow> ide_buffer) \<Rightarrow> u32 \<Rightarrow> u32 \<Rightarrow> u8 list \<Rightarrow>
    nat list \<Rightarrow> ide_buffer \<Rightarrow> ide_buffer halting" where
  "bwrite_multi_loop kmalloc env dev start_lba src_buf [] s = Some s"
| "bwrite_multi_loop kmalloc env dev start_lba src_buf (i # is) s = do {
     (b, s) \<leftarrow> getblk kmalloc env dev (start_lba + of_nat i) s;
     d \<leftarrow> copy_out src_buf i;
     s \<leftarrow> upd_bh b (\<lambda>x. x\<lparr>b_data := d, b_valid := True\<rparr>) s;
     s \<leftarrow> mark_dirty dev b s;
     s \<leftarrow> brelse b s;
     bwrite_multi_loop kmalloc env dev start_lba src_buf is s
   }"

definition bwrite_multi :: "(ide_buffer \<Rightarrow> addr option) \<Rightarrow> (ide_buffer \<Rightarrow> ide_buffer) \<Rightarrow> u32 \<Rightarrow> u32 \<Rightarrow> u8 list \<Rightarrow>
    u32 \<Rightarrow> ide_buffer \<Rightarrow> ide_buffer halting" where
  "bwrite_multi kmalloc env dev start_lba src_buf sec_cnt s =
     bwrite_multi_loop kmalloc env dev start_lba src_buf [0..<unat sec_cnt] s"

text \<open>
  One pass of the sync thread over one disk: switch the active list, sort the old one by sector with
  a reference held on every block, then write runs of consecutive sectors.
\<close>

fun sync_sort :: "addr list \<Rightarrow> addr list \<Rightarrow> ide_buffer \<Rightarrow> (addr list \<times> ide_buffer) halting" where
  "sync_sort [] sorted_list s = Some (sorted_list, s)"
| "sync_sort (b # bs) sorted_list s = do {
     s \<leftarrow> upd_bh b (\<lambda>x. x\<lparr>b_ref_count := b_ref_count x + 1\<rparr>) s;
     sync_sort bs (insert_order (cb_bh_lba_condition (the \<circ> heads s)) b sorted_list) s
   }"

fun sync_batch :: "(addr \<rightharpoonup> buffer_head) \<Rightarrow> buffer_head \<Rightarrow> nat \<Rightarrow> addr list \<Rightarrow> (addr list \<times> addr list) halting" where
  "sync_batch hs lst n [] = Some ([], [])"
| "sync_batch hs lst n (b # bs) =
     (if n < SECTORS_PER_OP_BLOCK then do {
        x \<leftarrow> hs b;
        if b_blocknr x = b_blocknr lst + 1 then do {
          (batch, rest) \<leftarrow> sync_batch hs x (n + 1) bs;
          Some (b # batch, rest)
        } else Some ([], b # bs)
      } else Some ([], b # bs))"

fun upd_all :: "(buffer_head \<Rightarrow> buffer_head) \<Rightarrow> addr list \<Rightarrow> ide_buffer \<Rightarrow> ide_buffer halting" where
  "upd_all f [] s = Some s"
| "upd_all f (b # bs) s = do { s \<leftarrow> upd_bh b f s; upd_all f bs s }"

text \<open>The batch is copied to one buffer and written with a single \<^verbatim>\<open>ide_write\<close> from \<^verbatim>\<open>start_lba\<close> on.\<close>

fun batch_write :: "u32 \<Rightarrow> u32 \<Rightarrow> addr list \<Rightarrow> ide_buffer \<Rightarrow> ide_buffer halting" where
  "batch_write dev l [] s = Some s"
| "batch_write dev l (b # bs) s = do {
     x \<leftarrow> heads s b;
     batch_write dev (l + 1) bs (ide_write1 dev l (b_data x) s)
   }"

lemma sync_batch_append: "sync_batch hs lst n bs = Some (batch, rest) \<Longrightarrow> bs = batch @ rest"
proof (induction bs arbitrary: lst n batch rest)
  case (Cons b bs)
  then show ?case
    by (auto simp: halting_simps split: if_splits)
qed simp

function sync_batches :: "u32 \<Rightarrow> addr list \<Rightarrow> ide_buffer \<Rightarrow> ide_buffer halting" where
  "sync_batches dev [] s = Some s"
| "sync_batches dev (b # bs) s = do {
     x \<leftarrow> heads s b;
     (batch, rest) \<leftarrow> sync_batch (heads s) x 1 bs;
     s \<leftarrow> upd_all (\<lambda>x. x\<lparr>b_dirty := False\<rparr>) (b # batch) s;
     s \<leftarrow> batch_write dev (b_blocknr x) (b # batch) s;
     s \<leftarrow> upd_all (\<lambda>x. x\<lparr>b_ref_count := b_ref_count x - 1\<rparr>) (b # batch) s;
     sync_batches dev rest s
   }"
  by pat_completeness auto
termination
  by (relation "measure (\<lambda>(dev, bs, s). length bs)") (auto dest!: sync_batch_append)

definition sync_disk :: "u32 \<Rightarrow> ide_buffer \<Rightarrow> ide_buffer halting" where
  "sync_disk dev s = (let old_idx = active_dirty_idx s dev in
     if dirty_lists s dev old_idx = [] then Some s
     else do {
       let s = s\<lparr>active_dirty_idx := (active_dirty_idx s)(dev := 1 - old_idx)\<rparr>;
       let old = dirty_lists s dev old_idx;
       let s = s\<lparr>dirty_lists := (dirty_lists s)(dev := (dirty_lists s dev)(old_idx := []))\<rparr>;
       (sorted_list, s) \<leftarrow> sync_sort old [] s;
       sync_batches dev sorted_list s
     })"

section \<open>The invariant and the contents the cache stands for\<close>

definition bh_key :: "buffer_head \<Rightarrow> buffer_key" where
  "bh_key x = \<lparr>lba = b_blocknr x, disk = b_dev x\<rparr>"

definition hash_ok :: "ide_buffer \<Rightarrow> bool" where
  "hash_ok s \<longleftrightarrow> (\<forall>k b. hash_table s k = Some b \<longleftrightarrow> (\<exists>x. heads s b = Some x \<and> bh_key x = k))"

definition lru_ok :: "ide_buffer \<Rightarrow> bool" where
  "lru_ok s \<longleftrightarrow> distinct (lru_list s) \<and> set (lru_list s) = dom (heads s) \<and> NULL \<notin> dom (heads s) \<and>
     cur_blk_num s = of_nat (length (lru_list s)) \<and> length (lru_list s) < 2 ^ 32"

text \<open>
  A block is dirty exactly when it is queued on a dirty list of its disk, except for the set \<open>F\<close> of
  blocks the sync thread has taken off the lists and not yet written.
\<close>

definition dirty_ok :: "addr set \<Rightarrow> ide_buffer \<Rightarrow> bool" where
  "dirty_ok F s \<longleftrightarrow>
     (\<forall>b x. heads s b = Some x \<longrightarrow> (b_dirty x \<longleftrightarrow> dirty_linked s (b_dev x) b \<or> b \<in> F)) \<and>
     (\<forall>d b. dirty_linked s d b \<longrightarrow> b \<notin> F \<and> heads s b \<noteq> None) \<and>
     (\<forall>d b x. dirty_linked s d b \<longrightarrow> heads s b = Some x \<longrightarrow> b_dev x = d) \<and>
     (\<forall>d. distinct (dirty_lists s d 0 @ dirty_lists s d 1) \<and> active_dirty_idx s d < 2)"

definition data_ok :: "ide_buffer \<Rightarrow> bool" where
  "data_ok s \<longleftrightarrow>
     (\<forall>b x. heads s b = Some x \<longrightarrow> (b_dirty x \<longrightarrow> b_valid x) \<and> length (b_data x) = SECTOR_SIZE \<and>
        (b_valid x \<and> \<not> b_dirty x \<longrightarrow> b_data x = media s (b_dev x) (b_blocknr x))) \<and>
     (\<forall>d l. length (media s d l) = SECTOR_SIZE) \<and> unat (buf_blk_size s) = SECTOR_SIZE"

definition cache_inv :: "addr set \<Rightarrow> ide_buffer \<Rightarrow> bool" where
  "cache_inv F s \<longleftrightarrow> hash_ok s \<and> lru_ok s \<and> dirty_ok F s \<and> data_ok s"

lemmas cache_defs = hash_ok_def lru_ok_def dirty_ok_def data_ok_def

lemma dirty_okD:
  assumes "dirty_ok F s"
  shows "heads s b = Some x \<Longrightarrow> b_dirty x \<longleftrightarrow> dirty_linked s (b_dev x) b \<or> b \<in> F"
    "dirty_linked s d b \<Longrightarrow> b \<notin> F" "dirty_linked s d b \<Longrightarrow> heads s b \<noteq> None"
    "dirty_linked s d b \<Longrightarrow> heads s b = Some x \<Longrightarrow> b_dev x = d"
    "distinct (dirty_lists s d 0 @ dirty_lists s d 1)" "active_dirty_idx s d < 2"
  using assms unfolding dirty_ok_def by blast+

lemma dirty_okI:
  assumes "\<And>b x. heads s b = Some x \<Longrightarrow> b_dirty x \<longleftrightarrow> dirty_linked s (b_dev x) b \<or> b \<in> F"
    "\<And>d b. dirty_linked s d b \<Longrightarrow> b \<notin> F \<and> heads s b \<noteq> None"
    "\<And>d b x. dirty_linked s d b \<Longrightarrow> heads s b = Some x \<Longrightarrow> b_dev x = d"
    "\<And>d. distinct (dirty_lists s d 0 @ dirty_lists s d 1)" "\<And>d. active_dirty_idx s d < 2"
  shows "dirty_ok F s"
  using assms unfolding dirty_ok_def by blast

text \<open>What a sector holds from the point of view of the file systems.\<close>

definition head_view :: "buffer_head option \<Rightarrow> u8 list \<Rightarrow> u8 list" where
  "head_view ox d = (case ox of Some x \<Rightarrow> if b_valid x then b_data x else d | None \<Rightarrow> d)"

definition view :: "ide_buffer \<Rightarrow> u32 \<Rightarrow> u32 \<Rightarrow> u8 list" where
  "view s d l = head_view (Option.bind (hash_table s \<lparr>lba = l, disk = d\<rparr>) (heads s)) (media s d l)"

definition ref_of :: "ide_buffer \<Rightarrow> addr \<Rightarrow> nat" where
  "ref_of s b = (case heads s b of None \<Rightarrow> 0 | Some x \<Rightarrow> unat (b_ref_count x))"

text \<open>The referenced blocks leave room below the reclaim threshold, so a victim can always be found.\<close>

definition room :: "ide_buffer \<Rightarrow> bool" where
  "room s \<longleftrightarrow> card {b. 0 < ref_of s b} < unat (max_blk_num s * 9 div 10)"

lemma bh_key_eq: "bh_key x = \<lparr>lba = l, disk = d\<rparr> \<longleftrightarrow> b_blocknr x = l \<and> b_dev x = d"
  by (auto simp: bh_key_def)

lemma hash_head:
  "hash_ok s \<Longrightarrow> hash_table s \<lparr>lba = l, disk = d\<rparr> = Some b \<longleftrightarrow>
    (\<exists>x. heads s b = Some x \<and> b_blocknr x = l \<and> b_dev x = d)"
  by (simp add: hash_ok_def bh_key_eq)

lemma hash_unique:
  "hash_ok s \<Longrightarrow> heads s b = Some x \<Longrightarrow> heads s c = Some y \<Longrightarrow> bh_key x = bh_key y \<Longrightarrow> b = c"
  unfolding hash_ok_def by (metis option.inject)

text \<open>The view through the heads alone.\<close>

lemma view_head:
  "hash_ok s \<Longrightarrow> heads s b = Some x \<Longrightarrow> view s (b_dev x) (b_blocknr x) =
    (if b_valid x then b_data x else media s (b_dev x) (b_blocknr x))"
  using hash_head [of s "b_blocknr x" "b_dev x" b] by (simp add: view_def head_view_def)

lemma view_uncached:
  "hash_ok s \<Longrightarrow> \<forall>b x. heads s b = Some x \<longrightarrow> bh_key x \<noteq> \<lparr>lba = l, disk = d\<rparr> \<Longrightarrow> view s d l = media s d l"
  unfolding view_def head_view_def hash_ok_def
  by (cases "hash_table s \<lparr>lba = l, disk = d\<rparr>") auto

text \<open>An update of fields the view does not read.\<close>

lemma view_upd:
  assumes "hash_table s' = hash_table s" "media s' = media s" "heads s' = (heads s)(b \<mapsto> y)"
    and "heads s b = Some x" "b_valid y = b_valid x" "b_data y = b_data x"
  shows "view s' = view s"
proof (intro ext)
  fix d l
  show "view s' d l = view s d l"
    using assms by (cases "hash_table s \<lparr>lba = l, disk = d\<rparr>") (auto simp: view_def head_view_def)
qed

section \<open>Victims and eviction\<close>

lemma find_victim_loop_spec:
  "set bs \<subseteq> dom hs \<Longrightarrow> NULL \<notin> set bs \<Longrightarrow>
    \<exists>v. find_victim_loop hs bs = Some v \<and>
      (if v = NULL then \<forall>b\<in>set bs. b_ref_count (the (hs b)) \<noteq> 0
       else \<exists>ys zs. bs = ys @ v # zs \<and> b_ref_count (the (hs v)) = 0 \<and> (\<forall>b\<in>set ys. b_ref_count (the (hs b)) \<noteq> 0))"
proof (induction bs)
  case (Cons b bs)
  then obtain x where x: "hs b = Some x"
    by auto
  obtain v where v: "find_victim_loop hs bs = Some v"
      "if v = NULL then \<forall>b\<in>set bs. b_ref_count (the (hs b)) \<noteq> 0
       else \<exists>ys zs. bs = ys @ v # zs \<and> b_ref_count (the (hs v)) = 0 \<and> (\<forall>b\<in>set ys. b_ref_count (the (hs b)) \<noteq> 0)"
    using Cons by auto
  show ?case
  proof (cases "b_ref_count x = 0")
    case True
    then show ?thesis
      using x Cons.prems by (intro exI [of _ b]) (auto simp: Cons_eq_append_conv)
  next
    case False
    show ?thesis
    proof (cases "v = NULL")
      case True
      then show ?thesis
        using False x v by auto
    next
      case nn: False
      then obtain ys zs where "bs = ys @ v # zs" "b_ref_count (the (hs v)) = 0" "\<forall>b\<in>set ys. b_ref_count (the (hs b)) \<noteq> 0"
        using v(2) by auto
      then have "b # bs = (b # ys) @ v # zs \<and> (\<forall>c\<in>set (b # ys). b_ref_count (the (hs c)) \<noteq> 0)"
        using False x by auto
      then have "\<exists>ys zs. b # bs = ys @ v # zs \<and> b_ref_count (the (hs v)) = 0 \<and> (\<forall>b\<in>set ys. b_ref_count (the (hs b)) \<noteq> 0)"
        using \<open>b_ref_count (the (hs v)) = 0\<close> by blast
      then show ?thesis
        using False x v(1) nn by simp
    qed
  qed
qed simp

lemma ref_of_zero: "heads s b = Some x \<Longrightarrow> ref_of s b = 0 \<longleftrightarrow> b_ref_count x = 0"
  by (simp add: ref_of_def unat_eq_0)

lemma busy_heads: "{b. 0 < ref_of s b} \<subseteq> dom (heads s)"
  by (auto simp: ref_of_def split: option.splits)

lemma find_victim_spec:
  assumes "lru_ok s" "room s" "max_blk_num s * 9 div 10 \<le> cur_blk_num s"
  shows "\<exists>v x. find_victim s = Some v \<and> v \<noteq> NULL \<and> heads s v = Some x \<and> b_ref_count x = 0"
proof -
  have lru: "set (lru_list s) = dom (heads s)" "distinct (lru_list s)" "NULL \<notin> set (lru_list s)"
    using assms(1) by (auto simp: lru_ok_def)
  have "unat (cur_blk_num s) = card (dom (heads s))"
    using assms(1) distinct_card [OF lru(2)] by (simp add: lru_ok_def unat_of_nat)
  then have "card {b. 0 < ref_of s b} < card (dom (heads s))"
    using assms(2,3) by (auto simp: room_def word_le_nat_alt)
  then have "{b. 0 < ref_of s b} \<noteq> dom (heads s)"
    by auto
  then obtain c where c: "c \<in> set (lru_list s)" "ref_of s c = 0"
    using busy_heads [of s] lru(1) by blast
  obtain v where v: "find_victim s = Some v"
      "if v = NULL then \<forall>b\<in>set (lru_list s). b_ref_count (the (heads s b)) \<noteq> 0
       else \<exists>ys zs. lru_list s = ys @ v # zs \<and> b_ref_count (the (heads s v)) = 0 \<and>
         (\<forall>b\<in>set ys. b_ref_count (the (heads s b)) \<noteq> 0)"
    using find_victim_loop_spec [of "lru_list s" "heads s"] lru by (auto simp: find_victim_def)
  obtain y where "heads s c = Some y"
    using c(1) lru(1) by auto
  then have "b_ref_count (the (heads s c)) = 0"
    using c(2) ref_of_zero by simp
  then have "v \<noteq> NULL"
    using v(2) c(1) by (auto split: if_splits)
  then have "v \<in> set (lru_list s)" "b_ref_count (the (heads s v)) = 0"
    using v(2) by auto
  then show ?thesis
    using v(1) lru(1) \<open>v \<noteq> NULL\<close> by auto
qed

text \<open>Eviction of a clean, unreferenced block.\<close>

lemma blk_evict_clean:
  assumes "cache_inv {} s" "heads s v = Some x" "b_ref_count x = 0" "\<not> b_dirty x"
  shows "\<exists>s'. blk_evict v s = Some s' \<and> cache_inv {} s' \<and> view s' = view s \<and> ref_of s' = ref_of s \<and>
    heads s' = (heads s)(v := None) \<and> max_blk_num s' = max_blk_num s"
proof -
  define s' where "s' = s\<lparr>hash_table := (\<lambda>k. if hash_table s k = Some v then None else hash_table s k),
    lru_list := remove1 v (lru_list s), heads := (heads s)(v := None), cur_blk_num := cur_blk_num s - 1\<rparr>"
  have ok: "hash_ok s" "lru_ok s" "dirty_ok {} s" "data_ok s"
    using assms(1) by (simp_all add: cache_inv_def)
  have v: "v \<noteq> NULL" "v \<in> set (lru_list s)" "\<not> dirty_linked s (b_dev x) v"
    using ok(2,3) assms(2,4) by (auto simp: lru_ok_def dirty_ok_def)
  then have nl: "\<not> dirty_linked s d v" for d
    using ok(3) assms(2) unfolding dirty_ok_def by fastforce
  have "blk_evict v s = Some s'"
    using assms(2,3) v by (simp add: blk_evict_def unlink_member Let_def s'_def dirty_linked_def)
  moreover have "hash_table s' k = Some b \<longleftrightarrow> b \<noteq> v \<and> hash_table s k = Some b" for k b
    by (auto simp: s'_def)
  then have "hash_ok s'"
    using ok(1) by (auto simp: hash_ok_def s'_def)
  moreover obtain n where "length (lru_list s) = Suc n"
    using v(2) by (cases "lru_list s") auto
  then have "lru_ok s'"
    using ok(2) v(2) by (auto simp: lru_ok_def s'_def length_remove1)
  moreover have "dirty_ok {} s'"
    using ok(3) nl unfolding dirty_ok_def s'_def by (auto simp: dirty_linked_def)
  moreover have "data_ok s'"
    using ok(4) unfolding data_ok_def s'_def by auto
  moreover have "view s' = view s"
  proof (intro ext)
    fix d l
    show "view s' d l = view s d l"
    proof (cases "b_dev x = d \<and> b_blocknr x = l")
      case True
      then have "hash_table s \<lparr>lba = l, disk = d\<rparr> = Some v"
        using hash_head [OF ok(1)] assms(2) by blast
      then show ?thesis
        using ok(4) assms(2,4) True by (auto simp: view_def head_view_def s'_def data_ok_def)
    next
      case False
      then have "hash_table s \<lparr>lba = l, disk = d\<rparr> \<noteq> Some v"
        using hash_head [OF ok(1)] assms(2) by auto
      then show ?thesis
        by (auto simp: view_def head_view_def s'_def split: option.splits bind_splits)
    qed
  qed
  moreover have "ref_of s' = ref_of s"
    using assms(2,3) by (auto simp: ref_of_def s'_def fun_eq_iff)
  ultimately show ?thesis
    by (intro exI [of _ s']) (simp add: cache_inv_def s'_def)
qed

text \<open>A dirty block whose data reaches the disk becomes clean, whether it was queued or in flight.\<close>

definition written_back :: "addr \<Rightarrow> buffer_head \<Rightarrow> ide_buffer \<Rightarrow> ide_buffer" where
  "written_back b x s = (ide_write1 (b_dev x) (b_blocknr x) (b_data x) s)
     \<lparr>heads := (heads s)(b \<mapsto> x\<lparr>b_dirty := False\<rparr>)\<rparr>"

lemma written_back_inv:
  assumes "hash_ok s" "data_ok s" "heads s b = Some x" "b_valid x"
  shows "hash_ok (written_back b x s)" "data_ok (written_back b x s)" "view (written_back b x s) = view s"
    "ref_of (written_back b x s) = ref_of s"
proof -
  show h: "hash_ok (written_back b x s)"
    using assms(1,3) by (auto simp: hash_ok_def written_back_def ide_write1_def bh_key_def)
  have other: "\<not> (b_dev y = b_dev x \<and> b_blocknr y = b_blocknr x)" if "heads s c = Some y" "c \<noteq> b" for c y
    using hash_unique [OF assms(1) that(1) assms(3)] that(2) by (auto simp: bh_key_def)
  show "data_ok (written_back b x s)"
    using assms(2,3) other unfolding data_ok_def written_back_def ide_write1_def by auto
  show "view (written_back b x s) = view s"
  proof (intro ext)
    fix d l
    show "view (written_back b x s) d l = view s d l"
    proof (cases "b_dev x = d \<and> b_blocknr x = l")
      case True
      then have "hash_table s \<lparr>lba = l, disk = d\<rparr> = Some b"
        using hash_head [OF assms(1)] assms(3) by blast
      then show ?thesis
        using assms(3,4) True by (auto simp: view_def head_view_def written_back_def ide_write1_def)
    next
      case False
      then have "hash_table s \<lparr>lba = l, disk = d\<rparr> \<noteq> Some b"
        using hash_head [OF assms(1)] assms(3) by auto
      then show ?thesis
        using False by (auto simp: view_def head_view_def written_back_def ide_write1_def
            split: option.splits bind_splits)
    qed
  qed
  show "ref_of (written_back b x s) = ref_of s"
    using assms(3) by (auto simp: ref_of_def written_back_def ide_write1_def fun_eq_iff)
qed

lemma dirty_linked_removed:
  "distinct (dirty_lists s d 0 @ dirty_lists s d 1) \<Longrightarrow>
    dirty_linked (s\<lparr>dirty_lists := (dirty_lists s)(d := (\<lambda>i. remove1 b (dirty_lists s d i)))\<rparr>) d' c \<longleftrightarrow>
    dirty_linked s d' c \<and> \<not> (d' = d \<and> c = b)"
  by (auto simp: dirty_linked_def)

lemma writeback_queued:
  assumes "cache_inv {} s" "heads s b = Some x" "b_dirty x"
  shows "\<exists>s'. do {
       s \<leftarrow> dirty_remove (b_dev x) b s;
       let s = ide_write1 (b_dev x) (b_blocknr x) (b_data x) s;
       upd_bh b (\<lambda>x. x\<lparr>b_dirty := False\<rparr>) s } = Some s' \<and> cache_inv {} s' \<and> view s' = view s \<and>
     ref_of s' = ref_of s \<and> heads s' b = Some (x\<lparr>b_dirty := False\<rparr>) \<and> max_blk_num s' = max_blk_num s"
proof -
  have ok: "hash_ok s" "lru_ok s" "dirty_ok {} s" "data_ok s"
    using assms(1) by (simp_all add: cache_inv_def)
  define d where "d = b_dev x"
  define s' where "s' = (written_back b x s)
    \<lparr>dirty_lists := (dirty_lists s)(d := (\<lambda>i. remove1 b (dirty_lists s d i)))\<rparr>"
  have lk: "dirty_linked s d b"
    using ok(3) assms(2,3) unfolding dirty_ok_def d_def by blast
  have v: "b_valid x"
    using ok(4) assms(2,3) unfolding data_ok_def by blast
  note wb = written_back_inv [OF ok(1,4) assms(2) v]
  have lk': "dirty_linked s' d' c \<longleftrightarrow> dirty_linked s d' c \<and> \<not> (d' = d \<and> c = b)" for d' c
    using ok(3) dirty_linked_removed [of s d b d' c]
    by (simp add: s'_def dirty_ok_def dirty_linked_def)
  have "hash_ok s'" "data_ok s'" "view s' = view s" "ref_of s' = ref_of s"
    using wb by (simp_all add: s'_def hash_ok_def data_ok_def view_def ref_of_def fun_eq_iff)
  moreover have "lru_ok s'"
    using ok(2) assms(2) by (auto simp: lru_ok_def s'_def written_back_def ide_write1_def)
  moreover have "d' = d" if "dirty_linked s d' b" for d'
    using ok(3) assms(2) that unfolding dirty_ok_def d_def by blast
  then have "dirty_ok {} s'"
    unfolding dirty_ok_def lk'
    using ok(3) assms(2) by (auto simp: dirty_ok_def s'_def written_back_def ide_write1_def d_def)
  moreover have "do {
       s \<leftarrow> dirty_remove (b_dev x) b s;
       let s = ide_write1 (b_dev x) (b_blocknr x) (b_data x) s;
       upd_bh b (\<lambda>x. x\<lparr>b_dirty := False\<rparr>) s } = Some s'"
    using lk assms(2)
    by (simp add: dirty_remove_def d_def upd_bh_def ide_write1_def s'_def written_back_def)
  ultimately show ?thesis
    by (intro exI [of _ s']) (simp add: cache_inv_def s'_def written_back_def ide_write1_def)
qed

lemma reclaim_one_spec:
  assumes "cache_inv {} s" "room s" "max_blk_num s * 9 div 10 \<le> cur_blk_num s"
  shows "\<exists>s'. reclaim_one s = Some s' \<and> cache_inv {} s' \<and> view s' = view s \<and> ref_of s' = ref_of s \<and>
    max_blk_num s' = max_blk_num s \<and> (\<forall>k. hash_table s k = None \<longrightarrow> hash_table s' k = None)"
proof -
  have "lru_ok s"
    using assms(1) by (simp add: cache_inv_def)
  then obtain v x where v: "find_victim s = Some v" "v \<noteq> NULL" "heads s v = Some x" "b_ref_count x = 0"
    using find_victim_spec assms(2,3) by blast
  show ?thesis
  proof (cases "b_dirty x")
    case True
    obtain s1 where s1: "do {
         s \<leftarrow> dirty_remove (b_dev x) v s;
         let s = ide_write1 (b_dev x) (b_blocknr x) (b_data x) s;
         upd_bh v (\<lambda>x. x\<lparr>b_dirty := False\<rparr>) s } = Some s1"
      "cache_inv {} s1" "view s1 = view s" "ref_of s1 = ref_of s" "heads s1 v = Some (x\<lparr>b_dirty := False\<rparr>)"
      "max_blk_num s1 = max_blk_num s"
      using writeback_queued [OF assms(1) v(3) True] by blast
    have h1: "hash_table s1 = hash_table s"
      using s1(1) by (auto simp: dirty_remove_def upd_bh_def ide_write1_def Let_def halting_simps split: if_splits)
    obtain s2 where s2: "blk_evict v s1 = Some s2" "cache_inv {} s2" "view s2 = view s1" "ref_of s2 = ref_of s1"
      "max_blk_num s2 = max_blk_num s1"
      using blk_evict_clean [OF s1(2,5)] v(4) by auto
    have "reclaim_one s = Some s2"
      using v True s1(1) s2(1) unfolding reclaim_one_def Let_def
      by (auto simp: halting_simps)
    moreover have "\<forall>k. hash_table s k = None \<longrightarrow> hash_table s2 k = None"
      using s2(1) h1 by (auto simp: blk_evict_def dirty_remove_def Let_def halting_simps split: if_splits)
    ultimately show ?thesis
      using s1 s2 by auto
  next
    case False
    obtain s2 where s2: "blk_evict v s = Some s2" "cache_inv {} s2" "view s2 = view s" "ref_of s2 = ref_of s"
      "max_blk_num s2 = max_blk_num s"
      using blk_evict_clean [OF assms(1) v(3,4) False] by auto
    moreover have "\<forall>k. hash_table s k = None \<longrightarrow> hash_table s2 k = None"
      using s2(1) by (auto simp: blk_evict_def dirty_remove_def Let_def halting_simps split: if_splits)
    ultimately show ?thesis
      using v False by (auto simp: reclaim_one_def)
  qed
qed

lemma room_cong: "ref_of s' = ref_of s \<Longrightarrow> max_blk_num s' = max_blk_num s \<Longrightarrow> room s' = room s"
  by (simp add: room_def)

text \<open>Reclaiming ends below the threshold, loses no data and drops no referenced block.\<close>

lemma reclaim_spec:
  "cache_inv {} s \<Longrightarrow> room s \<Longrightarrow> \<exists>s'. reclaim s = Some s' \<and> cache_inv {} s' \<and> view s' = view s \<and>
    ref_of s' = ref_of s \<and> max_blk_num s' = max_blk_num s \<and> cur_blk_num s' < max_blk_num s * 9 div 10 \<and>
    (\<forall>k. hash_table s k = None \<longrightarrow> hash_table s' k = None)"
proof (induction s rule: reclaim.induct)
  case (1 s)
  show ?case
  proof (cases "max_blk_num s * 9 div 10 \<le> cur_blk_num s")
    case True
    obtain s1 where s1: "reclaim_one s = Some s1" "cache_inv {} s1" "view s1 = view s" "ref_of s1 = ref_of s"
      "max_blk_num s1 = max_blk_num s" "\<forall>k. hash_table s k = None \<longrightarrow> hash_table s1 k = None"
      using reclaim_one_spec [OF "1.prems" True] by blast
    have "room s1"
      using room_cong [OF s1(4,5)] "1.prems"(2) by simp
    then obtain s2 where "reclaim s1 = Some s2" "cache_inv {} s2" "view s2 = view s1" "ref_of s2 = ref_of s1"
      "max_blk_num s2 = max_blk_num s1" "cur_blk_num s2 < max_blk_num s1 * 9 div 10"
      "\<forall>k. hash_table s1 k = None \<longrightarrow> hash_table s2 k = None"
      using "1.IH" [OF True s1(1,2)] by blast
    then show ?thesis
      using True s1 by (subst reclaim.simps) simp
  next
    case False
    then show ?thesis
      using "1.prems" by (subst reclaim.simps) auto
  qed
qed

section \<open>Getting and releasing blocks\<close>

definition put :: "addr \<Rightarrow> buffer_head \<Rightarrow> ide_buffer \<Rightarrow> ide_buffer" where
  "put b y s = s\<lparr>heads := (heads s)(b \<mapsto> y)\<rparr>"

lemma upd_bh_put: "heads s b = Some x \<Longrightarrow> upd_bh b f s = Some (put b (f x) s)"
  by (simp add: upd_bh_def put_def)

lemma put_simps [simp]:
  "heads (put b y s) = (heads s)(b \<mapsto> y)" "hash_table (put b y s) = hash_table s"
  "lru_list (put b y s) = lru_list s" "media (put b y s) = media s"
  "max_blk_num (put b y s) = max_blk_num s" "cur_blk_num (put b y s) = cur_blk_num s"
  "dirty_lists (put b y s) = dirty_lists s" "active_dirty_idx (put b y s) = active_dirty_idx s"
  "buf_blk_size (put b y s) = buf_blk_size s" "dirty_linked (put b y s) d c = dirty_linked s d c"
  by (simp_all add: put_def dirty_linked_def)

text \<open>A change of the reference count only.\<close>

lemma put_ref:
  assumes "cache_inv F s" "heads s b = Some x"
  shows "cache_inv F (put b (x\<lparr>b_ref_count := n\<rparr>) s)" "view (put b (x\<lparr>b_ref_count := n\<rparr>) s) = view s"
    "ref_of (put b (x\<lparr>b_ref_count := n\<rparr>) s) = (ref_of s)(b := unat n)"
proof -
  show "view (put b (x\<lparr>b_ref_count := n\<rparr>) s) = view s"
    using assms(2) by (intro view_upd [where b = b and x = x and y = "x\<lparr>b_ref_count := n\<rparr>"]) simp_all
  show "ref_of (put b (x\<lparr>b_ref_count := n\<rparr>) s) = (ref_of s)(b := unat n)"
    by (auto simp: ref_of_def fun_eq_iff)
  have "hash_ok (put b (x\<lparr>b_ref_count := n\<rparr>) s)"
    using assms by (auto simp: cache_inv_def hash_ok_def bh_key_def)
  moreover have "lru_ok (put b (x\<lparr>b_ref_count := n\<rparr>) s)"
    using assms by (auto simp: cache_inv_def lru_ok_def)
  moreover have "dirty_ok F (put b (x\<lparr>b_ref_count := n\<rparr>) s)"
    using assms by (auto simp: cache_inv_def dirty_ok_def)
  moreover have "data_ok (put b (x\<lparr>b_ref_count := n\<rparr>) s)"
    using assms by (auto simp: cache_inv_def data_ok_def)
  ultimately show "cache_inv F (put b (x\<lparr>b_ref_count := n\<rparr>) s)"
    by (simp add: cache_inv_def)
qed

text \<open>
  What \<^verbatim>\<open>getblk\<close> needs, once it has reclaimed room, of the allocator, which answers a fresh address,
  and of the processes that run while the lock is not held: they keep the invariant, write no sector,
  and have released the blocks they used.
\<close>

definition alloc_ok :: "(ide_buffer \<Rightarrow> addr option) \<Rightarrow> (ide_buffer \<Rightarrow> ide_buffer) \<Rightarrow> bool" where
  "alloc_ok kmalloc env \<longleftrightarrow> (\<forall>s. cache_inv {} s \<and> cur_blk_num s < max_blk_num s * 9 div 10 \<longrightarrow>
     (\<exists>b. kmalloc s = Some b \<and> b \<noteq> NULL \<and> b \<notin> dom (heads (env s))) \<and>
     cache_inv {} (env s) \<and> view (env s) = view s \<and> ref_of (env s) = ref_of s \<and>
     max_blk_num (env s) = max_blk_num s \<and> length (lru_list (env s)) < 2 ^ 32 - 1)"

definition refs_ok :: "ide_buffer \<Rightarrow> bool" where
  "refs_ok s \<longleftrightarrow> (\<forall>b. ref_of s b < 2 ^ 32 - 1)"

lemma unat_ref_inc: "unat (n::u32) < 2 ^ 32 - 1 \<Longrightarrow> unat (n + 1) = unat n + 1"
  by (subst unat_plus_no_wrap) auto

lemma cache_inv_requeue:
  assumes "cache_inv F s" "b \<in> set (lru_list s)"
  shows "cache_inv F (s\<lparr>lru_list := remove1 b (lru_list s) @ [b]\<rparr>)"
    "view (s\<lparr>lru_list := remove1 b (lru_list s) @ [b]\<rparr>) = view s"
    "ref_of (s\<lparr>lru_list := remove1 b (lru_list s) @ [b]\<rparr>) = ref_of s"
proof -
  have "length (remove1 b (lru_list s) @ [b]) = length (lru_list s)"
    using assms(2) length_pos_if_in_set [OF assms(2)] by (simp add: length_remove1)
  then have "lru_ok (s\<lparr>lru_list := remove1 b (lru_list s) @ [b]\<rparr>)"
    using assms unfolding cache_inv_def lru_ok_def by auto
  then show "cache_inv F (s\<lparr>lru_list := remove1 b (lru_list s) @ [b]\<rparr>)"
    using assms(1) by (simp add: cache_inv_def hash_ok_def dirty_ok_def data_ok_def dirty_linked_def)
qed (simp_all add: view_def ref_of_def fun_eq_iff)

text \<open>The answer of \<^verbatim>\<open>getblk\<close>: a live block with the right key and one reference more.\<close>

definition got :: "ide_buffer \<Rightarrow> u32 \<Rightarrow> u32 \<Rightarrow> addr \<Rightarrow> ide_buffer \<Rightarrow> bool" where
  "got s dev l b s' \<longleftrightarrow> cache_inv {} s' \<and> view s' = view s \<and> max_blk_num s' = max_blk_num s \<and> b \<noteq> NULL \<and>
     (\<exists>x. heads s' b = Some x \<and> b_dev x = dev \<and> b_blocknr x = l) \<and>
     ref_of s' = (ref_of s)(b := ref_of s b + 1)"

lemma take_ref:
  assumes "cache_inv {} s" "refs_ok s" "hash_table s \<lparr>lba = l, disk = dev\<rparr> = Some b"
  shows "\<exists>s'. upd_bh b (\<lambda>x. x\<lparr>b_ref_count := b_ref_count x + 1\<rparr>) s = Some s' \<and> got s dev l b s' \<and>
    b \<in> set (lru_list s) \<and> lru_list s' = lru_list s"
proof -
  obtain x where x: "heads s b = Some x" "b_blocknr x = l" "b_dev x = dev"
    using assms(1,3) hash_head [of s l dev b] by (auto simp: cache_inv_def)
  have "unat (b_ref_count x + 1) = ref_of s b + 1"
    using x(1) assms(2) unat_ref_inc [of "b_ref_count x"]
    by (auto simp: refs_ok_def ref_of_def dest!: spec [of _ b])
  moreover have "b \<noteq> NULL" "b \<in> set (lru_list s)"
    using assms(1) x(1) by (auto simp: cache_inv_def lru_ok_def)
  ultimately show ?thesis
    using put_ref [OF assms(1) x(1), of "b_ref_count x + 1"] x
    by (auto simp: upd_bh_put got_def)
qed

lemma insert_new:
  assumes "cache_inv {} s" "hash_table s \<lparr>lba = l, disk = dev\<rparr> = None" "b \<noteq> NULL" "b \<notin> dom (heads s)"
    and "length (lru_list s) < 2 ^ 32 - 1"
  shows "got s dev l b (s\<lparr>
     heads := (heads s)(b \<mapsto> \<lparr>b_blocknr = l, b_dev = dev, b_dirty = False, b_valid = False,
       b_ref_count = 1, b_data = replicate (unat (buf_blk_size s)) 0\<rparr>),
     hash_table := (hash_table s)(\<lparr>lba = l, disk = dev\<rparr> \<mapsto> b),
     lru_list := lru_list s @ [b],
     cur_blk_num := cur_blk_num s + 1\<rparr>)" (is "got s dev l b ?s'")
proof -
  have ok: "hash_ok s" "lru_ok s" "dirty_ok {} s" "data_ok s"
    using assms(1) by (simp_all add: cache_inv_def)
  have hb: "heads s b = None"
    using assms(4) by auto
  have nk: "hash_table s k \<noteq> Some b" for k
    using ok(1) hb unfolding hash_ok_def by auto
  have nl: "\<not> dirty_linked s d b" for d
    using ok(3) hb unfolding dirty_ok_def by fastforce
  have "hash_table ?s' k = Some c \<longleftrightarrow> (\<exists>x. heads ?s' c = Some x \<and> bh_key x = k)" for k c
  proof (cases "c = b")
    case True
    then show ?thesis
      using nk [of k] by (auto simp: bh_key_def)
  next
    case False
    then have "hash_table ?s' k = Some c \<longleftrightarrow> hash_table s k = Some c"
      using assms(2) by auto
    then show ?thesis
      using False ok(1) by (simp add: hash_ok_def)
  qed
  then have "hash_ok ?s'"
    unfolding hash_ok_def by blast
  moreover have "lru_ok ?s'"
    using ok(2) assms(3,4,5) by (auto simp: lru_ok_def)
  moreover have "dirty_ok {} ?s'"
    using ok(3) nl hb by (auto simp: dirty_ok_def dirty_linked_def)
  moreover have "data_ok ?s'"
    using ok(4) by (simp add: data_ok_def)
  moreover have "view ?s' = view s"
  proof (intro ext)
    fix d k
    show "view ?s' d k = view s d k"
      using assms(2) nk [of "\<lparr>lba = k, disk = d\<rparr>"]
      by (cases "hash_table s \<lparr>lba = k, disk = d\<rparr>") (auto simp: view_def head_view_def)
  qed
  moreover have "ref_of ?s' = (ref_of s)(b := ref_of s b + 1)"
    using hb by (auto simp: ref_of_def fun_eq_iff)
  ultimately show ?thesis
    using assms(3) by (simp add: got_def cache_inv_def)
qed

lemma getblk_spec:
  assumes "cache_inv {} s" "room s" "refs_ok s" "alloc_ok kmalloc env"
  shows "\<exists>b s'. getblk kmalloc env dev l s = Some (b, s') \<and> got s dev l b s'"
proof (cases "hash_table s \<lparr>lba = l, disk = dev\<rparr>")
  case (Some b)
  obtain s' where s': "upd_bh b (\<lambda>x. x\<lparr>b_ref_count := b_ref_count x + 1\<rparr>) s = Some s'" "got s dev l b s'"
      "b \<in> set (lru_list s')"
    using take_ref [OF assms(1,3) Some] by auto
  then have "got s dev l b (s'\<lparr>lru_list := remove1 b (lru_list s') @ [b]\<rparr>)"
    using cache_inv_requeue [of "{}" s' b] by (auto simp: got_def)
  then show ?thesis
    using Some s' by (auto simp: getblk_def unlink_member)
next
  case None
  obtain s1 where s1: "reclaim s = Some s1" "cache_inv {} s1" "view s1 = view s" "ref_of s1 = ref_of s"
      "max_blk_num s1 = max_blk_num s" "cur_blk_num s1 < max_blk_num s1 * 9 div 10"
    using reclaim_spec [OF assms(1,2)] by auto
  obtain b where b: "kmalloc s1 = Some b" "b \<noteq> NULL" "b \<notin> dom (heads (env s1))"
    and env: "cache_inv {} (env s1)" "view (env s1) = view s1" "ref_of (env s1) = ref_of s1"
      "max_blk_num (env s1) = max_blk_num s1" "length (lru_list (env s1)) < 2 ^ 32 - 1"
    using assms(4) s1(2,6) unfolding alloc_ok_def by blast
  show ?thesis
  proof (cases "hash_table (env s1) \<lparr>lba = l, disk = dev\<rparr>")
    case (Some c)
    have "refs_ok (env s1)"
      using assms(3) env(3) s1(4) by (simp add: refs_ok_def)
    then obtain s' where "upd_bh c (\<lambda>x. x\<lparr>b_ref_count := b_ref_count x + 1\<rparr>) (env s1) = Some s'"
        "got (env s1) dev l c s'"
      using take_ref [OF env(1) _ Some] by auto
    then show ?thesis
      using None Some s1 b env by (auto simp: getblk_def got_def)
  next
    case none: None
    have "got s dev l b s'" if "got (env s1) dev l b s'" for s'
      using that s1 env by (simp add: got_def)
    then show ?thesis
      using None none s1(1) b insert_new [OF env(1) none b(2,3) env(5)]
      by (simp add: getblk_def Let_def)
  qed
qed

lemma brelse_spec:
  assumes "cache_inv {} s" "0 < ref_of s b" "b \<noteq> NULL"
  shows "\<exists>s'. brelse b s = Some s' \<and> cache_inv {} s' \<and> view s' = view s \<and> max_blk_num s' = max_blk_num s \<and>
    ref_of s' = (ref_of s)(b := ref_of s b - 1)"
proof -
  obtain x where x: "heads s b = Some x" "0 < b_ref_count x"
    using assms(2) by (auto simp: ref_of_def word_less_nat_alt split: option.splits)
  then have "unat (b_ref_count x - 1) = ref_of s b - 1"
    using assms(2) by (simp add: ref_of_def unat_minus_one)
  then show ?thesis
    using put_ref [OF assms(1) x(1), of "b_ref_count x - 1"] x assms(3)
    by (simp add: brelse_def upd_bh_put)
qed

section \<open>Reading\<close>

lemma put_fill:
  assumes "cache_inv {} s" "heads s b = Some x" "\<not> b_valid x" "d = media s (b_dev x) (b_blocknr x)"
    and y: "y = x\<lparr>b_data := d, b_valid := True\<rparr> \<or> y = x\<lparr>b_data := d, b_valid := True, b_dirty := False\<rparr>"
  shows "cache_inv {} (put b y s)" "view (put b y s) = view s" "ref_of (put b y s) = ref_of s"
proof -
  have ok: "hash_ok s" "lru_ok s" "dirty_ok {} s" "data_ok s"
    using assms(1) by (simp_all add: cache_inv_def)
  have "\<not> b_dirty x"
    using ok(4) assms(2,3) unfolding data_ok_def by blast
  then have y: "y = x\<lparr>b_data := d, b_valid := True\<rparr>"
    using y by (cases x) auto
  have "hash_ok (put b y s)"
    using ok(1) assms(2) y by (auto simp: hash_ok_def bh_key_def)
  moreover have "lru_ok (put b y s)"
    using ok(2) assms(2) by (auto simp: lru_ok_def)
  moreover have "dirty_ok {} (put b y s)"
    using ok(3) assms(2) y by (auto simp: dirty_ok_def)
  moreover have "data_ok (put b y s)"
    using ok(4) assms(2,4) y \<open>\<not> b_dirty x\<close> by (auto simp: data_ok_def)
  ultimately show "cache_inv {} (put b y s)"
    by (simp add: cache_inv_def)
  show "view (put b y s) = view s"
  proof (intro ext)
    fix d' l'
    show "view (put b y s) d' l' = view s d' l'"
      using assms(2-4) y hash_head [OF ok(1), of l' d' b]
      by (cases "hash_table s \<lparr>lba = l', disk = d'\<rparr>") (auto simp: view_def head_view_def)
  qed
  show "ref_of (put b y s) = ref_of s"
    using assms(2) y by (auto simp: ref_of_def fun_eq_iff)
qed

lemma got_view:
  assumes "got s dev l b s'" "heads s' b = Some x"
  shows "b_dev x = dev" "b_blocknr x = l"
    "view s dev l = (if b_valid x then b_data x else media s' dev l)"
  using assms view_head [of s' b x] by (auto simp: got_def cache_inv_def)

lemma bread_spec:
  assumes "cache_inv {} s" "room s" "refs_ok s" "alloc_ok kmalloc env"
  shows "\<exists>b s' x. bread kmalloc env dev l s = Some (b, s') \<and> got s dev l b s' \<and> heads s' b = Some x \<and>
    b_valid x \<and> b_data x = view s dev l"
proof -
  obtain b s1 where b: "getblk kmalloc env dev l s = Some (b, s1)" "got s dev l b s1"
    using getblk_spec [OF assms] by blast
  then obtain x where x: "heads s1 b = Some x" "b_dev x = dev" "b_blocknr x = l"
    by (auto simp: got_def)
  show ?thesis
  proof (cases "b_valid x")
    case True
    then show ?thesis
      using b x got_view [OF b(2) x(1)] by (auto simp: bread_def)
  next
    case False
    let ?y = "x\<lparr>b_data := media s1 dev l, b_valid := True, b_dirty := False\<rparr>"
    have "cache_inv {} s1"
      using b(2) by (simp add: got_def)
    note p = put_fill [OF this x(1) False refl, where y = ?y]
    have "got s dev l b (put b ?y s1)"
      using b(2) p x by (auto simp: got_def)
    moreover have "bread kmalloc env dev l s = Some (b, put b ?y s1)"
      using b(1) x(1) False by (simp add: bread_def upd_bh_put)
    ultimately show ?thesis
      using got_view [OF b(2) x(1)] False by auto
  qed
qed

definition sector :: "u8 list \<Rightarrow> nat \<Rightarrow> u8 list" where
  "sector buf i = take SECTOR_SIZE (drop (i * SECTOR_SIZE) buf)"

lemma length_sector_min: "length (sector b j) = min (length b - j * SECTOR_SIZE) SECTOR_SIZE"
  by (simp add: sector_def)

lemma copy_in_spec:
  assumes "(i + 1) * SECTOR_SIZE \<le> length buf" "length d = SECTOR_SIZE"
  shows "\<exists>buf'. copy_in buf i d = Some buf' \<and> length buf' = length buf \<and>
    (\<forall>j. sector buf' j = (if j = i then d else sector buf j))"
proof -
  let ?S = SECTOR_SIZE
  let ?b = "take (i * ?S) buf @ d @ drop ((i + 1) * ?S) buf"
  have S: "0 < ?S"
    by (simp add: SECTOR_SIZE_def)
  have len: "length ?b = length buf"
    using assms by (simp add: algebra_simps)
  have "sector ?b j = (if j = i then d else sector buf j)" for j
  proof (rule nth_equalityI)
    have "j < i \<Longrightarrow> j * ?S + ?S \<le> i * ?S" "i < j \<Longrightarrow> i * ?S + ?S \<le> j * ?S"
      by (metis Suc_leI add.commute mult_Suc mult_le_mono1)+
    note ord = this
    show "length (sector ?b j) = length (if j = i then d else sector buf j)"
      using assms unfolding length_sector_min len by (auto simp: length_sector_min algebra_simps)
    fix k
    assume "k < length (sector ?b j)"
    then have k: "k < ?S" "j * ?S + k < length buf"
      unfolding length_sector_min len by auto
    consider "j = i" | "j < i" | "i < j"
      by linarith
    then show "sector ?b j ! k = (if j = i then d else sector buf j) ! k"
    proof cases
      case 1
      then show ?thesis
        using k assms by (auto simp: sector_def nth_append algebra_simps)
    next
      case 2
      then have "j * ?S + k < i * ?S"
        using ord(1) k(1) by linarith
      then show ?thesis
        using 2 k assms by (auto simp: sector_def nth_append)
    next
      case 3
      then have "i * ?S + ?S \<le> j * ?S"
        by (rule ord(2))
      then show ?thesis
        using 3 k assms by (auto simp: sector_def nth_append algebra_simps)
    qed
  qed
  then show ?thesis
    using assms len by (simp add: copy_in_def)
qed

lemma copy_out_sector: "(i + 1) * SECTOR_SIZE \<le> length buf \<Longrightarrow> copy_out buf i = Some (sector buf i)"
  by (simp add: copy_out_def sector_def)

lemma length_sector: "(i + 1) * SECTOR_SIZE \<le> length buf \<Longrightarrow> length (sector buf i) = SECTOR_SIZE"
  by (simp add: sector_def algebra_simps)

lemma ide_read_loop_spec:
  "distinct is \<Longrightarrow> \<forall>i\<in>set is. (i + 1) * SECTOR_SIZE \<le> length buf \<Longrightarrow>
    \<forall>d l. length (media s d l) = SECTOR_SIZE \<Longrightarrow>
    \<exists>buf'. ide_read_loop s dev start is buf = Some buf' \<and> length buf' = length buf \<and>
      (\<forall>j. sector buf' j = (if j \<in> set is then media s dev (start + of_nat j) else sector buf j))"
proof (induction "is" arbitrary: buf)
  case (Cons i "is")
  obtain buf1 where 1: "copy_in buf i (media s dev (start + of_nat i)) = Some buf1" "length buf1 = length buf"
      "\<forall>j. sector buf1 j = (if j = i then media s dev (start + of_nat i) else sector buf j)"
    using copy_in_spec [of i buf "media s dev (start + of_nat i)"] Cons.prems by auto
  then obtain buf2 where "ide_read_loop s dev start is buf1 = Some buf2" "length buf2 = length buf1"
      "\<forall>j. sector buf2 j = (if j \<in> set is then media s dev (start + of_nat j) else sector buf1 j)"
    using Cons.IH [of buf1] Cons.prems by auto
  then show ?case
    using 1 Cons.prems(1) by auto
qed simp

lemma bulk_loop_spec:
  "i + n \<le> sec_cnt \<Longrightarrow> i + bulk_loop s dev start sec_cnt i n \<le> sec_cnt \<and>
    (\<forall>j. n \<le> j \<and> j < bulk_loop s dev start sec_cnt i n \<longrightarrow>
      hash_table s \<lparr>lba = start + of_nat (i + j), disk = dev\<rparr> = None)"
proof (induction s dev start sec_cnt i n rule: bulk_loop.induct)
  case (1 s dev start sec_cnt i n)
  show ?case
  proof (cases "i + n < sec_cnt \<and> hash_table s \<lparr>lba = start + of_nat i + of_nat n, disk = dev\<rparr> = None \<and>
      n + 1 < SECTORS_PER_OP_BLOCK")
    case True
    then have eq: "bulk_loop s dev start sec_cnt i n = bulk_loop s dev start sec_cnt i (n + 1)"
      by (subst bulk_loop.simps) simp
    have ih: "i + bulk_loop s dev start sec_cnt i (n + 1) \<le> sec_cnt"
      "\<And>j. n + 1 \<le> j \<Longrightarrow> j < bulk_loop s dev start sec_cnt i (n + 1) \<Longrightarrow>
        hash_table s \<lparr>lba = start + of_nat (i + j), disk = dev\<rparr> = None"
      using "1.IH" True by auto
    have "hash_table s \<lparr>lba = start + of_nat (i + n), disk = dev\<rparr> = None"
      using True by (simp add: add.assoc)
    then have "hash_table s \<lparr>lba = start + of_nat (i + j), disk = dev\<rparr> = None"
      if "n \<le> j" "j < bulk_loop s dev start sec_cnt i (n + 1)" for j
      using that ih(2) [of j] by (cases "j = n") auto
    then show ?thesis
      unfolding eq using ih(1) by blast
  next
    case False
    then have "bulk_loop s dev start sec_cnt i n = (if i + n < sec_cnt \<and>
        hash_table s \<lparr>lba = start + of_nat i + of_nat n, disk = dev\<rparr> = None then n + 1 else n)"
      by (subst bulk_loop.simps) auto
    then show ?thesis
      using "1.prems" by (auto simp: add.assoc le_less_Suc_eq split: if_splits)
  qed
qed

end
