(* ===== verification/Ide_Buffer_IO.thy ===== *)
theory Ide_Buffer_IO
  imports Ide_Buffer
begin

text \<open>
  Multi-sector transfers and the sync pass of the buffer cache: what readers get is what writers last
  put, whatever is cached, evicted or written back in between, and a sync pass brings the sectors of
  its disk up to date.
\<close>

section \<open>Multi-sector reads\<close>

text \<open>A step that leaves contents and reference counts as they were.\<close>

definition quiet :: "ide_buffer \<Rightarrow> ide_buffer \<Rightarrow> bool" where
  "quiet s s' \<longleftrightarrow> cache_inv {} s' \<and> view s' = view s \<and> ref_of s' = ref_of s \<and> max_blk_num s' = max_blk_num s"

lemma quiet_trans: "quiet s s' \<Longrightarrow> quiet s' s'' \<Longrightarrow> quiet s s''"
  by (simp add: quiet_def)

lemma quiet_ok:
  "quiet s s' \<Longrightarrow> room s \<Longrightarrow> room s'" "quiet s s' \<Longrightarrow> refs_ok s \<Longrightarrow> refs_ok s'" "quiet s s' \<Longrightarrow> cache_inv {} s'"
  by (simp_all add: quiet_def room_def refs_ok_def)

lemma got_brelse:
  assumes "got s dev l b s1"
  shows "\<exists>s2. brelse b s1 = Some s2 \<and> quiet s s2"
proof -
  have "\<exists>s2. brelse b s1 = Some s2 \<and> cache_inv {} s2 \<and> view s2 = view s1 \<and> max_blk_num s2 = max_blk_num s1 \<and>
      ref_of s2 = (ref_of s1)(b := ref_of s1 b - 1)"
    using assms by (intro brelse_spec) (auto simp: got_def)
  then show ?thesis
    using assms by (auto simp: got_def quiet_def)
qed

lemma fill_loop_spec:
  "cache_inv {} s \<Longrightarrow> room s \<Longrightarrow> refs_ok s \<Longrightarrow> alloc_ok kmalloc env \<Longrightarrow>
    \<forall>i\<in>set is. (i + 1) * SECTOR_SIZE \<le> length buf \<and> sector buf i = view s dev (start + of_nat i) \<Longrightarrow>
    \<exists>s'. fill_loop kmalloc env dev start buf is s = Some s' \<and> quiet s s'"
proof (induction "is" arbitrary: s)
  case Nil
  then show ?case by (simp add: quiet_def)
next
  case (Cons i "is")
  let ?l = "start + of_nat i"
  obtain b s1 where b: "getblk kmalloc env dev ?l s = Some (b, s1)" "got s dev ?l b s1"
    using getblk_spec [OF Cons.prems(1-4)] by blast
  obtain x where x: "heads s1 b = Some x"
    using b(2) by (auto simp: got_def)
  note gv = got_view [OF b(2) x]
  let ?y = "x\<lparr>b_data := sector buf i, b_valid := True\<rparr>"
  let ?s = "if b_valid x then s1 else put b ?y s1"
  have "got s dev ?l b ?s"
  proof (cases "b_valid x")
    case False
    have "cache_inv {} s1"
      using b(2) by (simp add: got_def)
    moreover have "sector buf i = media s1 (b_dev x) (b_blocknr x)"
      using gv False Cons.prems(5) by simp
    ultimately have "cache_inv {} (put b ?y s1)" "view (put b ?y s1) = view s1" "ref_of (put b ?y s1) = ref_of s1"
      using put_fill [OF _ x False, of "sector buf i" ?y] by auto
    then show ?thesis
      using False b(2) gv(1,2) by (auto simp: got_def)
  qed (use b(2) in simp)
  then obtain s2 where s2: "brelse b ?s = Some s2" "quiet s s2"
    using got_brelse by blast
  moreover have "view s2 = view s"
    using s2(2) by (simp add: quiet_def)
  ultimately obtain s3 where "fill_loop kmalloc env dev start buf is s2 = Some s3" "quiet s2 s3"
    using Cons.IH [of s2] Cons.prems quiet_ok [OF s2(2)] by auto
  moreover have "copy_out buf i = Some (sector buf i)"
    using Cons.prems(5) by (intro copy_out_sector) simp
  ultimately show ?case
    using b(1) x s2 quiet_trans [OF s2(2)] by (auto simp: upd_bh_put split: if_splits)
qed

text \<open>A run of sectors that are not cached is read in one go and then enters the cache.\<close>

lemma bulk_read:
  assumes ok: "cache_inv {} s" "room s" "refs_ok s" "alloc_ok kmalloc env"
    and i: "i < n" "n * SECTOR_SIZE \<le> length buf"
    and miss: "view s dev (start + of_nat i) = media s dev (start + of_nat i)"
    and k_def: "k = bulk_loop s dev start n i 1"
  shows "1 \<le> k \<and> i + k \<le> n \<and> (\<exists>buf' s'. ide_read_loop s dev start [i..<i + k] buf = Some buf' \<and>
    fill_loop kmalloc env dev start buf' [i..<i + k] s = Some s' \<and> quiet s s' \<and> length buf' = length buf \<and>
    (\<forall>j. sector buf' j = (if i \<le> j \<and> j < i + k then view s dev (start + of_nat j) else sector buf j)))"
proof -
  have k: "1 \<le> k" "i + k \<le> n"
      "\<And>j. 1 \<le> j \<Longrightarrow> j < k \<Longrightarrow> hash_table s \<lparr>lba = start + of_nat (i + j), disk = dev\<rparr> = None"
    using bulk_loop_ge [of 1 s dev start n i] bulk_loop_spec [of i 1 n s dev start] i(1) by (auto simp: k_def)
  have med: "media s dev (start + of_nat j) = view s dev (start + of_nat j)" if "i \<le> j" "j < i + k" for j
    using k(3) [of "j - i"] that miss by (cases "j = i") (auto simp: view_def head_view_def)
  have fit: "(j + 1) * SECTOR_SIZE \<le> length buf" if "j < n" for j
    using i(2) that mult_le_mono1 [of "j + 1" n SECTOR_SIZE] by simp
  have "data_ok s"
    using ok(1) by (simp add: cache_inv_def)
  then obtain buf1 where c: "ide_read_loop s dev start [i..<i + k] buf = Some buf1" "length buf1 = length buf"
      "\<forall>j. sector buf1 j = (if j \<in> set [i..<i + k] then media s dev (start + of_nat j) else sector buf j)"
    using ide_read_loop_spec [of "[i..<i + k]" buf s dev start] fit k(2) by (fastforce simp: data_ok_def)
  moreover have "\<forall>j\<in>set [i..<i + k]. (j + 1) * SECTOR_SIZE \<le> length buf1 \<and> sector buf1 j = view s dev (start + of_nat j)"
    using fit k(2) c(2,3) med by auto
  then have "\<exists>s'. fill_loop kmalloc env dev start buf1 [i..<i + k] s = Some s' \<and> quiet s s'"
    using fill_loop_spec [OF ok] by blast
  ultimately show ?thesis
    using k(1,2) med by auto
qed

lemma bread_multi_loop_spec:
  "cache_inv {} s \<Longrightarrow> room s \<Longrightarrow> refs_ok s \<Longrightarrow> alloc_ok kmalloc env \<Longrightarrow> i \<le> n \<Longrightarrow>
    n * SECTOR_SIZE \<le> length buf \<Longrightarrow>
    \<exists>buf' s'. bread_multi_loop kmalloc env dev start n i buf s = Some (buf', s') \<and> quiet s s' \<and>
      length buf' = length buf \<and>
      (\<forall>j. sector buf' j = (if i \<le> j \<and> j < n then view s dev (start + of_nat j) else sector buf j))"
proof (induction "n - i" arbitrary: i buf s rule: less_induct)
  case less
  show ?case
  proof (cases "i < n")
    case False
    then show ?thesis
      using less.prems by (subst bread_multi_loop.simps) (auto simp: quiet_def)
  next
    case True
    obtain b s1 where b: "getblk kmalloc env dev (start + of_nat i) s = Some (b, s1)" "got s dev (start + of_nat i) b s1"
      using getblk_spec [OF less.prems(1-4)] by blast
    obtain x where x: "heads s1 b = Some x"
      using b(2) by (auto simp: got_def)
    obtain s2 where s2: "brelse b s1 = Some s2" "quiet s s2"
      using got_brelse [OF b(2)] by blast
    note gv = got_view [OF b(2) x]
    have view2: "view s2 = view s"
      using s2(2) by (simp add: quiet_def)
    show ?thesis
    proof (cases "b_valid x")
      case valid: True
      have "length (b_data x) = SECTOR_SIZE" "(i + 1) * SECTOR_SIZE \<le> length buf"
        using b(2) x less.prems(6) True mult_le_mono1 [of "i + 1" n SECTOR_SIZE]
        by (auto simp: got_def cache_inv_def data_ok_def)
      then obtain buf1 where c: "copy_in buf i (b_data x) = Some buf1" "length buf1 = length buf"
          "\<forall>j. sector buf1 j = (if j = i then b_data x else sector buf j)"
        using copy_in_spec by blast
      obtain buf2 s3 where r: "bread_multi_loop kmalloc env dev start n (i + 1) buf1 s2 = Some (buf2, s3)"
          "quiet s2 s3" "length buf2 = length buf1"
          "\<forall>j. sector buf2 j = (if i + 1 \<le> j \<and> j < n then view s2 dev (start + of_nat j) else sector buf1 j)"
        using less.hyps [of "i + 1" s2 buf1] True less.prems quiet_ok [OF s2(2)] c(2) by fastforce
      have "sector buf2 j = (if i \<le> j \<and> j < n then view s dev (start + of_nat j) else sector buf j)" for j
        using r(4) c(3) gv(3) valid True view2 by (cases "j = i") auto
      moreover have "bread_multi_loop kmalloc env dev start n i buf s = Some (buf2, s3)"
        using True b(1) x valid c(1) s2(1) r(1) by (subst bread_multi_loop.simps) simp
      ultimately show ?thesis
        using r(2,3) c(2) quiet_trans [OF s2(2)] by simp
    next
      case invalid: False
      have "media s2 = media s1"
        using s2(1) by (auto simp: brelse_def upd_bh_def halting_simps split: if_splits)
      then have miss: "view s2 dev (start + of_nat i) = media s2 dev (start + of_nat i)"
        using gv(3) invalid view2 by simp
      define k where "k = bulk_loop s2 dev start n i 1"
      obtain buf1 s3 where c: "1 \<le> k" "i + k \<le> n" "ide_read_loop s2 dev start [i..<i + k] buf = Some buf1"
          "fill_loop kmalloc env dev start buf1 [i..<i + k] s2 = Some s3" "quiet s2 s3" "length buf1 = length buf"
          "\<forall>j. sector buf1 j = (if i \<le> j \<and> j < i + k then view s2 dev (start + of_nat j) else sector buf j)"
        using bulk_read [OF quiet_ok(3) [OF s2(2)] _ _ less.prems(4) True less.prems(6) miss k_def]
          quiet_ok [OF s2(2)] less.prems(2,3) by blast
      note q3 = quiet_trans [OF s2(2) c(5)]
      obtain buf2 s4 where r: "bread_multi_loop kmalloc env dev start n (i + k) buf1 s3 = Some (buf2, s4)"
          "quiet s3 s4" "length buf2 = length buf1"
          "\<forall>j. sector buf2 j = (if i + k \<le> j \<and> j < n then view s3 dev (start + of_nat j) else sector buf1 j)"
        using less.hyps [of "i + k" s3 buf1] True less.prems quiet_ok [OF q3] c(1,2,6) by fastforce
      have "sector buf2 j = (if i \<le> j \<and> j < n then view s dev (start + of_nat j) else sector buf j)" for j
        using r(4) c(1,2,7) q3 view2 by (auto simp: quiet_def)
      moreover have "bread_multi_loop kmalloc env dev start n i buf s = Some (buf2, s4)"
        using True b(1) x invalid c(3,4) s2(1) r(1)
        by (subst bread_multi_loop.simps) (simp add: k_def [symmetric] del: One_nat_def)
      ultimately show ?thesis
        using r(2,3) c(6) quiet_trans [OF q3] by simp
    qed
  qed
qed

section \<open>Writes\<close>

definition set_view :: "(u32 \<Rightarrow> u32 \<Rightarrow> u8 list) \<Rightarrow> u32 \<Rightarrow> u32 \<Rightarrow> u8 list \<Rightarrow> u32 \<Rightarrow> u32 \<Rightarrow> u8 list" where
  "set_view v dev l d = v(dev := (v dev)(l := d))"

lemma view_written:
  assumes "hash_ok s" "heads s b = Some x" "hash_table s' = hash_table s" "media s' = media s"
    and "heads s' = (heads s)(b \<mapsto> y)" "b_valid y"
  shows "view s' = set_view (view s) (b_dev x) (b_blocknr x) (b_data y)"
proof (intro ext)
  fix d l
  show "view s' d l = set_view (view s) (b_dev x) (b_blocknr x) (b_data y) d l"
    using assms hash_head [OF assms(1), of l d b]
    by (cases "hash_table s \<lparr>lba = l, disk = d\<rparr>") (auto simp: view_def head_view_def set_view_def)
qed

lemma dirty_id:
  "b_dirty x \<Longrightarrow> x\<lparr>b_data := d, b_valid := True, b_dirty := True\<rparr> = x\<lparr>b_data := d, b_valid := True\<rparr>"
  by (cases x) simp

text \<open>Storing a whole sector in a block and marking it dirty.\<close>

lemma write_block:
  assumes "cache_inv {} s" "heads s b = Some x" "length d = SECTOR_SIZE"
  shows "\<exists>s'. mark_dirty (b_dev x) b (put b (x\<lparr>b_data := d, b_valid := True\<rparr>) s) = Some s' \<and> cache_inv {} s' \<and>
    view s' = set_view (view s) (b_dev x) (b_blocknr x) d \<and> ref_of s' = ref_of s \<and>
    max_blk_num s' = max_blk_num s"
proof -
  have ok: "hash_ok s" "lru_ok s" "dirty_ok {} s" "data_ok s"
    using assms(1) by (simp_all add: cache_inv_def)
  let ?y = "x\<lparr>b_data := d, b_valid := True, b_dirty := True\<rparr>"
  let ?a = "active_dirty_idx s (b_dev x)"
  define dl where "dl = (if b_dirty x then dirty_lists s else (dirty_lists s)(b_dev x := (dirty_lists s (b_dev x))
    (?a := dirty_lists s (b_dev x) ?a @ [b])))"
  define s' where "s' = s\<lparr>heads := (heads s)(b \<mapsto> ?y), dirty_lists := dl\<rparr>"
  have a: "?a = 0 \<or> ?a = 1"
    using dirty_okD(6) [OF ok(3), of "b_dev x"] by auto
  have dirty: "b_dirty x \<longleftrightarrow> dirty_linked s (b_dev x) b"
    using dirty_okD(1) [OF ok(3) assms(2)] by simp
  have lk: "dirty_linked s' e c \<longleftrightarrow> dirty_linked s e c \<or> (e = b_dev x \<and> c = b)" for e c
    using a dirty by (auto simp: dirty_linked_def s'_def dl_def)
  have m: "mark_dirty (b_dev x) b (put b (x\<lparr>b_data := d, b_valid := True\<rparr>) s) = Some s'"
    by (cases "b_dirty x") (simp_all add: mark_dirty_def upd_bh_def put_def s'_def dl_def dirty_id)
  have "hash_ok s'"
    using ok(1) assms(2) by (auto simp: hash_ok_def bh_key_def s'_def)
  moreover have "lru_ok s'"
    using ok(2) assms(2) by (auto simp: lru_ok_def s'_def)
  moreover have "distinct (dl e 0 @ dl e 1)" for e
  proof (cases "e = b_dev x \<and> \<not> b_dirty x")
    case True
    then have "b \<notin> set (dirty_lists s e 0)" "b \<notin> set (dirty_lists s e 1)"
      using dirty by (auto simp: dirty_linked_def)
    then show ?thesis
      using dirty_okD(5) [OF ok(3), of e] a True by (elim disjE) (simp_all add: dl_def)
  next
    case False
    then have "dl e = dirty_lists s e"
      by (auto simp: dl_def)
    then show ?thesis
      using dirty_okD(5) [OF ok(3), of e] by simp
  qed
  then have "dirty_ok {} s'"
  proof (intro dirty_okI)
    fix c z
    assume "heads s' c = Some z"
    then show "b_dirty z \<longleftrightarrow> dirty_linked s' (b_dev z) c \<or> c \<in> {}"
      using dirty_okD(1) [OF ok(3), of c z] unfolding lk by (cases "c = b") (auto simp: s'_def)
  next
    fix e c
    assume "dirty_linked s' e c"
    then show "c \<notin> {} \<and> heads s' c \<noteq> None"
      using dirty_okD(3) [OF ok(3), of e c] unfolding lk by (auto simp: s'_def)
  next
    fix e c z
    assume "dirty_linked s' e c" "heads s' c = Some z"
    then show "b_dev z = e"
      using dirty_okD(4) [OF ok(3), of e c] assms(2) unfolding lk by (cases "c = b") (auto simp: s'_def)
  qed (use dirty_okD(6) [OF ok(3)] in \<open>simp_all add: s'_def\<close>)
  moreover have "data_ok s'"
    using ok(4) assms(3) by (auto simp: data_ok_def s'_def)
  moreover have "view s' = set_view (view s) (b_dev x) (b_blocknr x) d"
    using view_written [OF ok(1) assms(2), of s' ?y] by (simp add: s'_def)
  moreover have "ref_of s' = ref_of s"
    using assms(2) by (auto simp: ref_of_def s'_def fun_eq_iff)
  ultimately show ?thesis
    using m by (auto simp: cache_inv_def s'_def)
qed

lemma bwrite_multi_loop_spec:
  "cache_inv {} s \<Longrightarrow> room s \<Longrightarrow> refs_ok s \<Longrightarrow> alloc_ok kmalloc env \<Longrightarrow>
    \<forall>i\<in>set is. (i + 1) * SECTOR_SIZE \<le> length buf \<and> i < 2 ^ 32 \<Longrightarrow> distinct is \<Longrightarrow>
    \<exists>s'. bwrite_multi_loop kmalloc env dev start buf is s = Some s' \<and> cache_inv {} s' \<and> ref_of s' = ref_of s \<and>
      max_blk_num s' = max_blk_num s \<and> (\<forall>i\<in>set is. view s' dev (start + of_nat i) = sector buf i) \<and>
      (\<forall>d l. d \<noteq> dev \<or> l \<notin> (\<lambda>i. start + of_nat i) ` set is \<longrightarrow> view s' d l = view s d l)"
proof (induction "is" arbitrary: s)
  case (Cons i "is")
  let ?l = "start + of_nat i"
  obtain b s1 where b: "getblk kmalloc env dev ?l s = Some (b, s1)" "got s dev ?l b s1"
    using getblk_spec [OF Cons.prems(1-4)] by blast
  then obtain x where x: "heads s1 b = Some x" "b_dev x = dev" "b_blocknr x = ?l" "cache_inv {} s1"
    by (auto simp: got_def)
  have sec: "copy_out buf i = Some (sector buf i)" "length (sector buf i) = SECTOR_SIZE"
    using Cons.prems(5) by (auto intro!: copy_out_sector length_sector)
  obtain s2 where s2: "mark_dirty dev b (put b (x\<lparr>b_data := sector buf i, b_valid := True\<rparr>) s1) = Some s2"
      "cache_inv {} s2" "view s2 = set_view (view s1) dev ?l (sector buf i)" "ref_of s2 = ref_of s1"
      "max_blk_num s2 = max_blk_num s1"
    using write_block [OF x(4,1) sec(2)] x by auto
  obtain s3 where s3: "brelse b s2 = Some s3" "cache_inv {} s3" "view s3 = view s2" "ref_of s3 = ref_of s"
      "max_blk_num s3 = max_blk_num s"
    using brelse_spec [OF s2(2), of b] s2(4,5) b(2) by (auto simp: got_def)
  have "room s3" "refs_ok s3"
    using s3 Cons.prems(2,3) by (simp_all add: room_def refs_ok_def)
  then obtain s4 where s4: "bwrite_multi_loop kmalloc env dev start buf is s3 = Some s4" "cache_inv {} s4"
      "ref_of s4 = ref_of s3" "max_blk_num s4 = max_blk_num s3"
      "\<forall>i\<in>set is. view s4 dev (start + of_nat i) = sector buf i"
      "\<forall>d l. d \<noteq> dev \<or> l \<notin> (\<lambda>i. start + of_nat i) ` set is \<longrightarrow> view s4 d l = view s3 d l"
    using Cons.IH [OF s3(2)] Cons.prems(4-6) by auto
  have v3: "view s3 = set_view (view s) dev ?l (sector buf i)"
    using s2(3) s3(3) b(2) by (simp add: got_def)
  have "?l \<notin> (\<lambda>i. start + of_nat i) ` set is"
  proof
    assume "?l \<in> (\<lambda>i. start + of_nat i) ` set is"
    then obtain j where j: "j \<in> set is" "of_nat i = (of_nat j :: u32)"
      by auto
    then have "unat (of_nat i :: u32) = unat (of_nat j :: u32)"
      by simp
    then have "i = j"
      using j(1) Cons.prems(5) by (simp only: unat_of_nat_small list.set_intros)
    then show False
      using j(1) Cons.prems(6) by simp
  qed
  then have "view s4 dev ?l = sector buf i"
    using s4(6) v3 by (simp add: set_view_def)
  moreover have "view s4 d l = view s d l" if "d \<noteq> dev \<or> l \<notin> (\<lambda>i. start + of_nat i) ` set (i # is)" for d l
    using that s4(6) v3 by (auto simp: set_view_def)
  ultimately show ?case
    using b(1) x(1) sec(1) s2(1) s3 s4 by (auto simp: upd_bh_put)
qed simp

section \<open>The sync pass\<close>

text \<open>The blocks of a disk in flight: off the dirty lists, dirty, and referenced by the sync thread.\<close>

lemma upd_all_heads:
  "distinct bs \<Longrightarrow> set bs \<subseteq> dom (heads s) \<Longrightarrow>
    upd_all f bs s = Some (s\<lparr>heads := (\<lambda>b. if b \<in> set bs then map_option f (heads s b) else heads s b)\<rparr>)"
proof (induction bs arbitrary: s)
  case (Cons b bs)
  then obtain x where x: "heads s b = Some x"
    by auto
  have "upd_all f bs (put b (f x) s) = Some ((put b (f x) s)\<lparr>heads :=
      (\<lambda>c. if c \<in> set bs then map_option f (heads (put b (f x) s) c) else heads (put b (f x) s) c)\<rparr>)"
    using Cons.prems by (intro Cons.IH) auto
  moreover have "(\<lambda>c. if c \<in> set bs then map_option f (heads (put b (f x) s) c) else heads (put b (f x) s) c) =
      (\<lambda>c. if c \<in> set (b # bs) then map_option f (heads s c) else heads s c)"
    using Cons.prems(1) x by auto
  ultimately show ?case
    using x by (simp add: upd_bh_put put_def)
qed simp

text \<open>The blocks \<open>bs\<close> hold consecutive sectors from \<open>l\<close> on.\<close>

fun consecutive :: "(addr \<rightharpoonup> buffer_head) \<Rightarrow> u32 \<Rightarrow> addr list \<Rightarrow> bool" where
  "consecutive hs l [] \<longleftrightarrow> True"
| "consecutive hs l (b # bs) \<longleftrightarrow> map_option b_blocknr (hs b) = Some l \<and> consecutive hs (l + 1) bs"

lemma sync_batch_consecutive:
  "set bs \<subseteq> dom hs \<Longrightarrow> \<exists>batch rest. sync_batch hs x n bs = Some (batch, rest) \<and> bs = batch @ rest \<and>
    consecutive hs (b_blocknr x + 1) batch"
proof (induction bs arbitrary: x n)
  case (Cons b bs)
  then obtain y where y: "hs b = Some y"
    by auto
  obtain batch rest where "sync_batch hs y (n + 1) bs = Some (batch, rest)" "bs = batch @ rest"
      "consecutive hs (b_blocknr y + 1) batch"
    using Cons.IH [of y "n + 1"] Cons.prems by auto
  then show ?case
    using y by auto
qed simp

lemma batch_write_media:
  "consecutive (heads s) l bs \<Longrightarrow> inj_on (\<lambda>b. b_blocknr (the (heads s b))) (set bs) \<Longrightarrow> distinct bs \<Longrightarrow>
    \<exists>M. batch_write dev l bs s = Some (s\<lparr>media := M\<rparr>) \<and>
      (\<forall>b\<in>set bs. \<forall>x. heads s b = Some x \<longrightarrow> M dev (b_blocknr x) = b_data x) \<and>
      (\<forall>d k. (d = dev \<longrightarrow> (\<forall>b\<in>set bs. b_blocknr (the (heads s b)) \<noteq> k)) \<longrightarrow> M d k = media s d k)"
proof (induction bs arbitrary: l s)
  case Nil
  show ?case by (intro exI [of _ "media s"]) simp
next
  case (Cons b bs)
  obtain x where x: "heads s b = Some x" "b_blocknr x = l"
    using Cons.prems(1) by auto
  let ?s = "ide_write1 dev l (b_data x) s"
  have h: "heads ?s = heads s"
    by (simp add: ide_write1_def)
  obtain M where M: "batch_write dev (l + 1) bs ?s = Some (?s\<lparr>media := M\<rparr>)"
      "\<forall>b\<in>set bs. \<forall>x. heads s b = Some x \<longrightarrow> M dev (b_blocknr x) = b_data x"
      "\<forall>d k. (d = dev \<longrightarrow> (\<forall>b\<in>set bs. b_blocknr (the (heads s b)) \<noteq> k)) \<longrightarrow> M d k = media ?s d k"
    using Cons.IH [of ?s "l + 1"] Cons.prems by (auto simp: h)
  have "\<forall>c\<in>set bs. b_blocknr (the (heads s c)) \<noteq> l"
    using Cons.prems(2,3) x by (auto simp: inj_on_def)
  then have "M dev l = b_data x"
    using M(3) by (simp add: ide_write1_def)
  then show ?case
    using M x by (intro exI [of _ M]) (auto simp: ide_write1_def)
qed

text \<open>The state after a batch has been written and released.\<close>

definition flushed :: "addr set \<Rightarrow> (u32 \<Rightarrow> u32 \<Rightarrow> u8 list) \<Rightarrow> ide_buffer \<Rightarrow> ide_buffer" where
  "flushed B M s = s\<lparr>media := M, heads := (\<lambda>b. if b \<in> B
     then map_option (\<lambda>x. x\<lparr>b_dirty := False, b_ref_count := b_ref_count x - 1\<rparr>) (heads s b) else heads s b)\<rparr>"

lemma flushed_inv:
  assumes "cache_inv F s" "B \<subseteq> F" "B \<subseteq> dom (heads s)"
    and dev: "\<And>b x. b \<in> B \<Longrightarrow> heads s b = Some x \<Longrightarrow> b_dev x = dev"
    and M1: "\<And>b x. b \<in> B \<Longrightarrow> heads s b = Some x \<Longrightarrow> M dev (b_blocknr x) = b_data x"
    and M2: "\<And>d k. (d = dev \<longrightarrow> (\<forall>b\<in>B. b_blocknr (the (heads s b)) \<noteq> k)) \<Longrightarrow> M d k = media s d k"
  shows "cache_inv (F - B) (flushed B M s)" "view (flushed B M s) = view s"
proof -
  have ok: "hash_ok s" "lru_ok s" "dirty_ok F s" "data_ok s"
    using assms(1) by (simp_all add: cache_inv_def)
  have dirty: "b_dirty x \<and> b_valid x" if "b \<in> B" "heads s b = Some x" for b x
    using dirty_okD(1) [OF ok(3) that(2)] that ok(4) assms(2) by (auto simp: data_ok_def)
  have M: "M (b_dev y) (b_blocknr y) = media s (b_dev y) (b_blocknr y)" if y: "heads s c = Some y" "c \<notin> B" for c y
  proof (rule M2, intro impI ballI notI)
    fix b
    assume b: "b_dev y = dev" "b \<in> B" "b_blocknr (the (heads s b)) = b_blocknr y"
    then obtain x where x: "heads s b = Some x"
      using assms(3) by auto
    then have "bh_key x = bh_key y"
      using b dev by (simp add: bh_key_def)
    then show False
      using hash_unique [OF ok(1) x y(1)] b(2) y(2) by simp
  qed
  have hs: "b \<in> B \<Longrightarrow> heads (flushed B M s) b =
      map_option (\<lambda>x. x\<lparr>b_dirty := False, b_ref_count := b_ref_count x - 1\<rparr>) (heads s b)"
      "b \<notin> B \<Longrightarrow> heads (flushed B M s) b = heads s b" for b
    by (simp_all add: flushed_def)
  have same: "hash_table (flushed B M s) = hash_table s" "lru_list (flushed B M s) = lru_list s"
      "cur_blk_num (flushed B M s) = cur_blk_num s" "dirty_lists (flushed B M s) = dirty_lists s"
      "active_dirty_idx (flushed B M s) = active_dirty_idx s" "media (flushed B M s) = M"
      "buf_blk_size (flushed B M s) = buf_blk_size s" "dom (heads (flushed B M s)) = dom (heads s)"
    by (auto simp: flushed_def split: if_splits)
  have lk: "dirty_linked (flushed B M s) d b = dirty_linked s d b" for d b
    by (simp add: dirty_linked_def same)
  have "(\<exists>x. heads (flushed B M s) b = Some x \<and> bh_key x = k) \<longleftrightarrow> (\<exists>x. heads s b = Some x \<and> bh_key x = k)" for b k
    by (cases "b \<in> B") (auto simp: hs bh_key_def)
  then have "hash_ok (flushed B M s)"
    using ok(1) unfolding hash_ok_def same by simp
  moreover have "lru_ok (flushed B M s)"
    using ok(2) by (simp add: lru_ok_def same)
  moreover have "dirty_ok (F - B) (flushed B M s)"
  proof (rule dirty_okI)
    fix b y
    assume y: "heads (flushed B M s) b = Some y"
    show "b_dirty y = (dirty_linked (flushed B M s) (b_dev y) b \<or> b \<in> F - B)"
    proof (cases "b \<in> B")
      case True
      then have "\<not> dirty_linked s d b" for d
        using dirty_okD(2) [OF ok(3), of d b] assms(2) by auto
      then show ?thesis
        using y True by (auto simp: hs lk)
    next
      case False
      then show ?thesis
        using y dirty_okD(1) [OF ok(3), of b y] by (simp add: hs lk)
    qed
  next
    fix d b
    assume l: "dirty_linked (flushed B M s) d b"
    then have "b \<in> dom (heads s)"
      using dirty_okD(3) [OF ok(3)] by (auto simp: lk)
    then show "b \<notin> F - B \<and> heads (flushed B M s) b \<noteq> None"
      using dirty_okD(2) [OF ok(3), of d b] l same(8) by (auto simp: lk)
  next
    fix d b y
    assume "dirty_linked (flushed B M s) d b" "heads (flushed B M s) b = Some y"
    then show "b_dev y = d"
      using dirty_okD(4) [OF ok(3), of d b] by (cases "b \<in> B") (auto simp: hs lk)
  qed (use dirty_okD(5,6) [OF ok(3)] in \<open>simp_all add: same\<close>)
  moreover have "length (M d k) = SECTOR_SIZE" for d k
  proof (cases "d = dev \<and> (\<exists>b\<in>B. b_blocknr (the (heads s b)) = k)")
    case True
    then obtain b x where "b \<in> B" "heads s b = Some x" "b_blocknr x = k"
      using assms(3) by fastforce
    then show ?thesis
      using M1 [of b x] True ok(4) by (auto simp: data_ok_def)
  next
    case False
    then show ?thesis
      using M2 [of d k] ok(4) by (auto simp: data_ok_def)
  qed
  then have "data_ok (flushed B M s)"
    unfolding data_ok_def same
  proof (intro conjI allI impI)
    fix b y
    assume y: "heads (flushed B M s) b = Some y"
    then obtain x where x: "heads s b = Some x" "b_data y = b_data x" "b_valid y = b_valid x"
        "b_dev y = b_dev x" "b_blocknr y = b_blocknr x" "b \<notin> B \<Longrightarrow> y = x"
      by (cases "b \<in> B") (auto simp: hs)
    have d: "b_dirty x \<longrightarrow> b_valid x" "length (b_data x) = SECTOR_SIZE"
        "b_valid x \<and> \<not> b_dirty x \<longrightarrow> b_data x = media s (b_dev x) (b_blocknr x)"
      using ok(4) x(1) by (auto simp: data_ok_def)
    show "length (b_data y) = SECTOR_SIZE"
      using x d by simp
    show "b_valid y" if "b_dirty y"
      using x d that dirty [of b x] by (cases "b \<in> B") auto
    show "b_data y = M (b_dev y) (b_blocknr y)" if "b_valid y \<and> \<not> b_dirty y"
      using x d that M [OF x(1)] M1 [of b x] dev [of b x] by (cases "b \<in> B") auto
  qed (use ok(4) in \<open>simp_all add: data_ok_def\<close>)
  ultimately show "cache_inv (F - B) (flushed B M s)"
    by (simp add: cache_inv_def)
  show "view (flushed B M s) = view s"
  proof (intro ext)
    fix d l
    show "view (flushed B M s) d l = view s d l"
    proof (cases "hash_table s \<lparr>lba = l, disk = d\<rparr>")
      case None
      have "\<forall>b x. heads s b = Some x \<longrightarrow> bh_key x \<noteq> \<lparr>lba = l, disk = d\<rparr>"
      proof (intro allI impI notI)
        fix b x
        assume "heads s b = Some x" "bh_key x = \<lparr>lba = l, disk = d\<rparr>"
        then have "hash_table s \<lparr>lba = l, disk = d\<rparr> = Some b"
          using ok(1) unfolding hash_ok_def by blast
        then show False
          using None by simp
      qed
      then have "M d l = media s d l"
        using dev assms(3) by (intro M2) (force simp: bh_key_eq)
      then show ?thesis
        using None by (simp add: view_def head_view_def same)
    next
      case (Some b)
      then obtain x where x: "heads s b = Some x" "b_blocknr x = l" "b_dev x = d"
        using hash_head [OF ok(1)] by blast
      then show ?thesis
        using Some M [OF x(1)] dirty [OF _ x(1)]
        by (cases "b \<in> B") (auto simp: view_def head_view_def same flushed_def)
    qed
  qed
qed

text \<open>One batch: clear the dirty marks, write the run, drop the references.\<close>

lemma batch_flush:
  assumes inv: "cache_inv F s" and B: "distinct bs" "set bs \<subseteq> F" "set bs \<subseteq> dom (heads s)"
    and dev: "\<forall>b\<in>set bs. b_dev (the (heads s b)) = dev" and run: "consecutive (heads s) l bs"
  shows "\<exists>s1 s2 s'. upd_all (\<lambda>x. x\<lparr>b_dirty := False\<rparr>) bs s = Some s1 \<and> batch_write dev l bs s1 = Some s2 \<and>
    upd_all (\<lambda>x. x\<lparr>b_ref_count := b_ref_count x - 1\<rparr>) bs s2 = Some s' \<and>
    cache_inv (F - set bs) s' \<and> view s' = view s \<and> (\<exists>M. s' = flushed (set bs) M s)"
proof -
  let ?clean = "\<lambda>x. x\<lparr>b_dirty := False\<rparr>" and ?drop = "\<lambda>x. x\<lparr>b_ref_count := b_ref_count x - 1\<rparr>"
  define h1 where "h1 b = (if b \<in> set bs then map_option ?clean (heads s b) else heads s b)" for b
  have s1: "upd_all ?clean bs s = Some (s\<lparr>heads := h1\<rparr>)"
    using upd_all_heads [OF B(1,3), of ?clean] by (simp add: h1_def [abs_def])
  have the1: "b_blocknr (the (h1 b)) = b_blocknr (the (heads s b))" "b_dev (the (h1 b)) = b_dev (the (heads s b))"
    if "b \<in> set bs" for b
    using that B(3) by (auto simp: h1_def)
  have "b = c" if bc: "b \<in> set bs" "c \<in> set bs" "b_blocknr (the (heads s b)) = b_blocknr (the (heads s c))" for b c
  proof -
    obtain x where x: "heads s b = Some x"
      using bc(1) B(3) by auto
    obtain y where y: "heads s c = Some y"
      using bc(2) B(3) by auto
    have "bh_key x = bh_key y"
      using x y bc(3) dev [rule_format, OF bc(1)] dev [rule_format, OF bc(2)] by (simp add: bh_key_def)
    moreover have "hash_ok s"
      using inv by (simp add: cache_inv_def)
    ultimately show ?thesis
      using hash_unique x y by blast
  qed
  then have inj: "inj_on (\<lambda>b. b_blocknr (the (h1 b))) (set bs)"
    using the1 by (auto simp: inj_on_def)
  have blk: "map_option b_blocknr (h1 b) = map_option b_blocknr (heads s b)" for b
    by (simp add: h1_def option.map_comp comp_def)
  have "consecutive h1 l cs = consecutive (heads s) l cs" for l cs
    by (induction cs arbitrary: l) (simp_all only: consecutive.simps blk)
  then obtain M where M: "batch_write dev l bs (s\<lparr>heads := h1\<rparr>) = Some (s\<lparr>heads := h1, media := M\<rparr>)"
      "\<forall>b\<in>set bs. \<forall>x. h1 b = Some x \<longrightarrow> M dev (b_blocknr x) = b_data x"
      "\<forall>d k. (d = dev \<longrightarrow> (\<forall>b\<in>set bs. b_blocknr (the (h1 b)) \<noteq> k)) \<longrightarrow> M d k = media s d k"
    using batch_write_media [of "s\<lparr>heads := h1\<rparr>" l bs dev] inj B(1) run by auto
  have "set bs \<subseteq> dom h1"
    using B(3) by (auto simp: h1_def)
  then have "upd_all ?drop bs (s\<lparr>heads := h1, media := M\<rparr>) = Some (s\<lparr>heads := h1, media := M,
      heads := (\<lambda>b. if b \<in> set bs then map_option ?drop (h1 b) else h1 b)\<rparr>)"
    using upd_all_heads [OF B(1), of "s\<lparr>heads := h1, media := M\<rparr>" ?drop] by (simp cong: if_cong)
  moreover have "(\<lambda>b. if b \<in> set bs then map_option ?drop (h1 b) else h1 b) = heads (flushed (set bs) M s)"
    by (intro ext) (simp add: flushed_def h1_def option.map_comp comp_def)
  then have "s\<lparr>heads := h1, media := M, heads := (\<lambda>b. if b \<in> set bs then map_option ?drop (h1 b) else h1 b)\<rparr> =
      flushed (set bs) M s"
    by (simp add: flushed_def)
  ultimately have s3: "upd_all ?drop bs (s\<lparr>heads := h1, media := M\<rparr>) = Some (flushed (set bs) M s)"
    by simp
  have M1: "M dev (b_blocknr x) = b_data x" if "b \<in> set bs" "heads s b = Some x" for b x
    using M(2) [rule_format, OF that(1), of "?clean x"] that by (simp add: h1_def)
  have M2: "M d k = media s d k" if "d = dev \<longrightarrow> (\<forall>b\<in>set bs. b_blocknr (the (heads s b)) \<noteq> k)" for d k
    using M(3) [rule_format, of d k] that the1(1) by auto
  have D: "b_dev x = dev" if "b \<in> set bs" "heads s b = Some x" for b x
    using dev [rule_format, OF that(1)] that(2) by simp
  have "cache_inv (F - set bs) (flushed (set bs) M s)" "view (flushed (set bs) M s) = view s"
    by (rule flushed_inv [OF inv B(2,3) D M1 M2]; assumption)+
  then show ?thesis
    using s1 M(1) s3 by blast
qed

lemma ref_of_flushed:
  assumes "\<forall>b\<in>B. 0 < ref_of s b"
  shows "ref_of (flushed B M s) = (\<lambda>b. if b \<in> B then ref_of s b - 1 else ref_of s b)"
proof
  fix b
  show "ref_of (flushed B M s) b = (if b \<in> B then ref_of s b - 1 else ref_of s b)"
  proof (cases "b \<in> B")
    case True
    then obtain x where "heads s b = Some x" "0 < unat (b_ref_count x)"
      using assms by (auto simp: ref_of_def split: option.splits)
    then show ?thesis
      using True by (auto simp: ref_of_def flushed_def unat_minus_one unat_gt_0)
  qed (simp add: ref_of_def flushed_def)
qed

text \<open>What the sync thread leaves alone.\<close>

definition sync_frame :: "ide_buffer \<Rightarrow> ide_buffer \<Rightarrow> bool" where
  "sync_frame s s' \<longleftrightarrow> view s' = view s \<and> max_blk_num s' = max_blk_num s \<and> dirty_lists s' = dirty_lists s \<and>
     active_dirty_idx s' = active_dirty_idx s \<and> dom (heads s') = dom (heads s) \<and>
     (\<forall>b\<in>dom (heads s). b_dev (the (heads s' b)) = b_dev (the (heads s b)))"

lemma sync_frame_trans: "sync_frame s s' \<Longrightarrow> sync_frame s' s'' \<Longrightarrow> sync_frame s s''"
  by (auto simp: sync_frame_def)

lemma flushed_frame:
  assumes "view (flushed B M s) = view s"
  shows "sync_frame s (flushed B M s)"
  using assms by (auto simp: sync_frame_def flushed_def split: if_splits)

lemma sync_batches_spec:
  "cache_inv F s \<Longrightarrow> distinct bs \<Longrightarrow> set bs \<subseteq> F \<Longrightarrow> set bs \<subseteq> dom (heads s) \<Longrightarrow>
    \<forall>b\<in>set bs. b_dev (the (heads s b)) = dev \<and> 0 < ref_of s b \<Longrightarrow>
    \<exists>s'. sync_batches dev bs s = Some s' \<and> cache_inv (F - set bs) s' \<and> sync_frame s s' \<and>
      ref_of s' = (\<lambda>b. if b \<in> set bs then ref_of s b - 1 else ref_of s b)"
proof (induction "length bs" arbitrary: bs s F rule: less_induct)
  case less
  show ?case
  proof (cases bs)
    case Nil
    then show ?thesis
      using less.prems(1) by (simp add: sync_frame_def)
  next
    case (Cons b cs)
    obtain x where x: "heads s b = Some x"
      using less.prems(4) Cons by auto
    obtain batch rest where br: "sync_batch (heads s) x 1 cs = Some (batch, rest)" "cs = batch @ rest"
        "consecutive (heads s) (b_blocknr x + 1) batch"
      using sync_batch_consecutive [of cs "heads s" x 1] less.prems(4) Cons by auto
    let ?B = "b # batch"
    have bs: "bs = ?B @ rest"
      using Cons br(2) by simp
    have B: "distinct ?B" "set ?B \<subseteq> F" "set ?B \<subseteq> dom (heads s)" "\<forall>b\<in>set ?B. b_dev (the (heads s b)) = dev"
        "consecutive (heads s) (b_blocknr x) ?B" "\<forall>b\<in>set ?B. 0 < ref_of s b"
      using less.prems(2-5) bs br(3) x by auto
    obtain s1 s2 s3 M where f: "upd_all (\<lambda>x. x\<lparr>b_dirty := False\<rparr>) ?B s = Some s1"
        "batch_write dev (b_blocknr x) ?B s1 = Some s2"
        "upd_all (\<lambda>x. x\<lparr>b_ref_count := b_ref_count x - 1\<rparr>) ?B s2 = Some s3"
        "cache_inv (F - set ?B) s3" "view s3 = view s" "s3 = flushed (set ?B) M s"
      using batch_flush [OF less.prems(1) B(1-5)] by blast
    have fr: "sync_frame s s3" and rf: "ref_of s3 = (\<lambda>b. if b \<in> set ?B then ref_of s b - 1 else ref_of s b)"
      using flushed_frame f(5,6) ref_of_flushed [OF B(6)] by auto
    have disj: "set ?B \<inter> set rest = {}"
      using less.prems(2) bs by auto
    have "\<exists>s'. sync_batches dev rest s3 = Some s' \<and> cache_inv (F - set ?B - set rest) s' \<and> sync_frame s3 s' \<and>
        ref_of s' = (\<lambda>b. if b \<in> set rest then ref_of s3 b - 1 else ref_of s3 b)"
    proof (rule less.hyps)
      show "\<forall>c\<in>set rest. b_dev (the (heads s3 c)) = dev \<and> 0 < ref_of s3 c"
      proof
        fix c
        assume c: "c \<in> set rest"
        then have "c \<in> set bs" "c \<in> dom (heads s)" "c \<notin> set ?B"
          using bs less.prems(4) disj by auto
        then show "b_dev (the (heads s3 c)) = dev \<and> 0 < ref_of s3 c"
          using less.prems(5) fr by (simp add: rf sync_frame_def)
      qed
    qed (use less.prems bs f(4) fr disj in \<open>auto simp: sync_frame_def\<close>)
    then obtain s' where s': "sync_batches dev rest s3 = Some s'" "cache_inv (F - set ?B - set rest) s'"
        "sync_frame s3 s'" "ref_of s' = (\<lambda>b. if b \<in> set rest then ref_of s3 b - 1 else ref_of s3 b)"
      by blast
    have "sync_batches dev bs s = Some s'"
      using x br(1) f(1-3) s'(1) by (simp add: Cons del: upd_all.simps batch_write.simps)
    moreover have "F - set ?B - set rest = F - set bs"
      using bs by auto
    moreover have "ref_of s' = (\<lambda>b. if b \<in> set bs then ref_of s b - 1 else ref_of s b)"
      unfolding s'(4) rf using disj bs by (auto simp: fun_eq_iff)
    ultimately show ?thesis
      using s'(2) sync_frame_trans [OF fr s'(3)] by simp
  qed
qed

lemma set_insert_order: "set (insert_order c e xs) = insert e (set xs)"
  unfolding insert_order_def by (metis list.simps(15) set_append takeWhile_dropWhile_id Un_insert_right)

lemma distinct_insert_order: "distinct xs \<Longrightarrow> e \<notin> set xs \<Longrightarrow> distinct (insert_order c e xs)"
proof -
  assume d: "distinct xs" "e \<notin> set xs"
  let ?P = "\<lambda>x. \<not> c x e"
  have "distinct (takeWhile ?P xs @ dropWhile ?P xs)"
    using d(1) by simp
  then show ?thesis
    using d(2) unfolding insert_order_def distinct_append by (auto dest: set_takeWhileD set_dropWhileD)
qed

lemma sync_sort_spec:
  "cache_inv F s \<Longrightarrow> set bs \<subseteq> dom (heads s) \<Longrightarrow> distinct (bs @ acc) \<Longrightarrow>
    \<forall>b\<in>set bs. ref_of s b < 2 ^ 32 - 1 \<Longrightarrow>
    \<exists>sorted_list s'. sync_sort bs acc s = Some (sorted_list, s') \<and> cache_inv F s' \<and> sync_frame s s' \<and>
      set sorted_list = set bs \<union> set acc \<and> distinct sorted_list \<and>
      ref_of s' = (\<lambda>b. if b \<in> set bs then ref_of s b + 1 else ref_of s b)"
proof (induction bs arbitrary: acc s)
  case Nil
  then show ?case by (simp add: sync_frame_def)
next
  case (Cons b bs)
  then obtain x where x: "heads s b = Some x"
    by auto
  let ?s = "put b (x\<lparr>b_ref_count := b_ref_count x + 1\<rparr>) s"
  let ?acc = "insert_order (cb_bh_lba_condition (the \<circ> heads ?s)) b acc"
  note p = put_ref [OF Cons.prems(1) x, of "b_ref_count x + 1"]
  have "unat (b_ref_count x) < 2 ^ 32 - 1"
    using Cons.prems(4) x by (simp add: ref_of_def)
  then have rf: "ref_of ?s = (ref_of s)(b := ref_of s b + 1)"
    using p(3) unat_ref_inc [of "b_ref_count x"] x by (simp add: ref_of_def)
  have fr: "sync_frame s ?s"
    using p(2) x by (auto simp: sync_frame_def)
  have "\<exists>sorted_list s'. sync_sort bs ?acc ?s = Some (sorted_list, s') \<and> cache_inv F s' \<and> sync_frame ?s s' \<and>
      set sorted_list = set bs \<union> set ?acc \<and> distinct sorted_list \<and>
      ref_of s' = (\<lambda>b. if b \<in> set bs then ref_of ?s b + 1 else ref_of ?s b)"
  proof (rule Cons.IH)
    show "distinct (bs @ ?acc)"
      using Cons.prems(3) distinct_insert_order [of acc b] by (auto simp: set_insert_order)
    show "\<forall>c\<in>set bs. ref_of ?s c < 2 ^ 32 - 1"
      using Cons.prems(3,4) unfolding rf by auto
  qed (use p(1) Cons.prems(2) in auto)
  then obtain sl s' where r: "sync_sort bs ?acc ?s = Some (sl, s')" "cache_inv F s'" "sync_frame ?s s'"
      "set sl = set bs \<union> set ?acc" "distinct sl"
      "ref_of s' = (\<lambda>c. if c \<in> set bs then ref_of ?s c + 1 else ref_of ?s c)"
    by blast
  have "ref_of s' = (\<lambda>c. if c \<in> set (b # bs) then ref_of s c + 1 else ref_of s c)"
    unfolding r(6) rf using Cons.prems(3) by (auto simp: fun_eq_iff)
  then show ?case
    using r sync_frame_trans [OF fr r(3)] x by (auto simp: upd_bh_put set_insert_order)
qed

text \<open>Taking a whole dirty list off a disk puts its blocks in flight.\<close>

lemma take_dirty_list:
  assumes "cache_inv {} s" "i = active_dirty_idx s dev"
  shows "cache_inv (set (dirty_lists s dev i)) (s\<lparr>active_dirty_idx := (active_dirty_idx s)(dev := 1 - i),
    dirty_lists := (dirty_lists s)(dev := (dirty_lists s dev)(i := []))\<rparr>)" (is "cache_inv ?F ?s")
proof -
  have ok: "hash_ok s" "lru_ok s" "dirty_ok {} s" "data_ok s"
    using assms(1) by (simp_all add: cache_inv_def)
  have i: "i = 0 \<or> i = 1"
    using dirty_okD(6) [OF ok(3), of dev] assms(2) by auto
  have lk: "dirty_linked ?s d b \<longleftrightarrow> dirty_linked s d b \<and> \<not> (d = dev \<and> b \<in> ?F)" for d b
    using i dirty_okD(5) [OF ok(3), of dev] by (elim disjE) (auto simp: dirty_linked_def)
  have F: "dirty_linked s dev b" if "b \<in> ?F" for b
    using i that by (elim disjE) (auto simp: dirty_linked_def)
  have "dirty_ok ?F ?s"
  proof (rule dirty_okI)
    fix b x
    assume h: "heads ?s b = Some x"
    then show "b_dirty x \<longleftrightarrow> dirty_linked ?s (b_dev x) b \<or> b \<in> ?F"
      using dirty_okD(1) [OF ok(3), of b x] dirty_okD(4) [OF ok(3) F, of b x] F [of b] unfolding lk by auto
  next
    fix d b
    assume l: "dirty_linked ?s d b"
    moreover obtain x where "heads s b = Some x"
      using l dirty_okD(3) [OF ok(3), of d b] unfolding lk by auto
    ultimately show "b \<notin> ?F \<and> heads ?s b \<noteq> None"
      using dirty_okD(4) [OF ok(3), of d b x] dirty_okD(4) [OF ok(3) F, of b x] unfolding lk by auto
  next
    show "b_dev x = d" if "dirty_linked ?s d b" "heads ?s b = Some x" for d b x
      using dirty_okD(4) [OF ok(3), of d b x] that unfolding lk by simp
    show "distinct (dirty_lists ?s d 0 @ dirty_lists ?s d 1)" for d
      using dirty_okD(5) [OF ok(3), of d] i by (elim disjE) auto
    show "active_dirty_idx ?s d < 2" for d
      using dirty_okD(6) [OF ok(3), of d] by auto
  qed
  then show ?thesis
    using ok by (simp add: cache_inv_def hash_ok_def lru_ok_def data_ok_def)
qed

lemma sync_disk_spec:
  assumes "cache_inv {} s" "refs_ok s"
  shows "\<exists>s'. sync_disk dev s = Some s' \<and> quiet s s' \<and> dirty_lists s' dev (active_dirty_idx s dev) = [] \<and>
    (\<forall>d i. \<not> (d = dev \<and> i = active_dirty_idx s dev) \<longrightarrow> dirty_lists s' d i = dirty_lists s d i)"
proof -
  define i where "i = active_dirty_idx s dev"
  define old where "old = dirty_lists s dev i"
  show ?thesis
  proof (cases "old = []")
    case True
    then show ?thesis
      using assms(1) by (auto simp: sync_disk_def quiet_def old_def i_def)
  next
    case False
    let ?s = "s\<lparr>active_dirty_idx := (active_dirty_idx s)(dev := 1 - i),
      dirty_lists := (dirty_lists s)(dev := (dirty_lists s dev)(i := []))\<rparr>"
    have dok: "dirty_ok {} s"
      using assms(1) by (simp add: cache_inv_def)
    have i: "i = 0 \<or> i = 1"
      using dirty_okD(6) [OF dok, of dev] by (auto simp: i_def)
    have lk: "dirty_linked s dev b" if "b \<in> set old" for b
      using i that by (elim disjE) (auto simp: dirty_linked_def old_def)
    have old: "distinct old" "set old \<subseteq> dom (heads ?s)" "\<forall>b\<in>set old. b_dev (the (heads s b)) = dev"
      using dirty_okD(5) [OF dok, of dev] i dirty_okD(3,4) [OF dok lk] by (auto simp: old_def)
    have inv: "cache_inv (set old) ?s"
      using take_dirty_list [OF assms(1) i_def] by (simp add: old_def)
    have "\<forall>b\<in>set old. ref_of ?s b < 2 ^ 32 - 1"
      using assms(2) by (simp add: refs_ok_def ref_of_def)
    then obtain sl s1 where s1: "sync_sort old [] ?s = Some (sl, s1)" "cache_inv (set old) s1" "sync_frame ?s s1"
        "set sl = set old" "distinct sl" "ref_of s1 = (\<lambda>b. if b \<in> set old then ref_of ?s b + 1 else ref_of ?s b)"
      using sync_sort_spec [OF inv old(2), of "[]"] old(1) by auto
    have "\<forall>b\<in>set sl. b_dev (the (heads s1 b)) = dev \<and> 0 < ref_of s1 b"
      using s1(3,4,6) old(2,3) by (auto simp: sync_frame_def)
    moreover have "set sl \<subseteq> dom (heads s1)"
      using s1(3,4) old(2) by (auto simp: sync_frame_def)
    ultimately obtain s2 where s2: "sync_batches dev sl s1 = Some s2" "cache_inv (set old - set sl) s2" "sync_frame s1 s2"
        "ref_of s2 = (\<lambda>b. if b \<in> set sl then ref_of s1 b - 1 else ref_of s1 b)"
      using sync_batches_spec [OF s1(2,5)] s1(4) by blast
    have "sync_disk dev s = Some s2"
      using False s1(1) s2(1) by (simp add: sync_disk_def old_def i_def Let_def)
    moreover have "ref_of s2 = ref_of s"
      unfolding s2(4) s1(6) using s1(4) by (auto simp: fun_eq_iff ref_of_def)
    moreover have "view ?s = view s"
      by (simp add: view_def fun_eq_iff)
    then have "view s2 = view s" "max_blk_num s2 = max_blk_num s" "dirty_lists s2 = dirty_lists ?s"
      using s1(3) s2(3) by (simp_all add: sync_frame_def)
    ultimately show ?thesis
      using s2(2) s1(4) by (auto simp: quiet_def i_def)
  qed
qed

section \<open>Properties\<close>

text \<open>
  C4. A multi-sector read returns, for every sector, exactly what the sector holds (the cached copy if
  there is a valid one, the disk otherwise), whatever is evicted, written back or newly cached on the
  way; the contents of every sector of every disk and all reference counts stay as they were, and the
  cache invariant holds again.
\<close>

theorem bread_multi_correct:
  assumes "cache_inv {} s" "room s" "refs_ok s" "alloc_ok kmalloc env"
    and "unat sec_cnt * SECTOR_SIZE \<le> length out_buf"
  shows "\<exists>buf' s'. bread_multi kmalloc env dev start_lba out_buf sec_cnt s = Some (buf', s') \<and>
    cache_inv {} s' \<and> view s' = view s \<and> ref_of s' = ref_of s \<and>
    (\<forall>j. sector buf' j = (if j < unat sec_cnt then view s dev (start_lba + of_nat j) else sector out_buf j))"
  using bread_multi_loop_spec [OF assms(1-4), of 0 "unat sec_cnt" out_buf dev start_lba] assms(5)
  by (auto simp: bread_multi_def quiet_def)

text \<open>
  A cache of at most 100 blocks that holds one dirty block, sector 5 of disk 1, and an allocator that
  answers the least address above the live ones.
\<close>

definition ex_head :: buffer_head where
  "ex_head = \<lparr>b_blocknr = 5, b_dev = 1, b_dirty = True, b_valid = True, b_ref_count = 0,
     b_data = replicate SECTOR_SIZE 0xaa\<rparr>"

definition ex_cache :: ide_buffer where
  "ex_cache = \<lparr>max_blk_num = 100, cur_blk_num = 1, buf_blk_size = 512,
     hash_table = [\<lparr>lba = 5, disk = 1\<rparr> \<mapsto> 7], lru_list = [7], heads = [7 \<mapsto> ex_head],
     dirty_lists = (\<lambda>d i. if d = 1 \<and> i = 0 then [7] else []), active_dirty_idx = (\<lambda>d. 0),
     media = (\<lambda>d l. replicate SECTOR_SIZE (ucast l))\<rparr>"

definition ex_kmalloc :: "ide_buffer \<Rightarrow> addr option" where
  "ex_kmalloc s = Some (Suc (foldr max (lru_list s) 0))"

lemma ex_cache_inv: "cache_inv {} ex_cache"
proof -
  have "hash_ok ex_cache"
    by (auto simp: hash_ok_def ex_cache_def ex_head_def bh_key_def)
  moreover have "lru_ok ex_cache"
    by (simp add: lru_ok_def ex_cache_def)
  moreover have "dirty_ok {} ex_cache"
    by (auto simp: dirty_ok_def dirty_linked_def ex_cache_def ex_head_def split: if_splits)
  moreover have "data_ok ex_cache"
    by (auto simp: data_ok_def ex_cache_def ex_head_def SECTOR_SIZE_def split: if_splits)
  ultimately show ?thesis
    by (simp add: cache_inv_def)
qed

lemma ex_cache_refs: "refs_ok ex_cache" "room ex_cache"
proof -
  have "ref_of ex_cache b = 0" for b
    by (simp add: ref_of_def ex_cache_def ex_head_def)
  then show "refs_ok ex_cache" "room ex_cache"
    by (simp_all add: refs_ok_def room_def ex_cache_def)
qed

lemma foldr_max_ge: "x \<in> set xs \<Longrightarrow> x \<le> foldr max xs (0::nat)"
  by (induction xs) (auto simp: le_max_iff_disj)

lemma ex_alloc_ok: "alloc_ok ex_kmalloc id"
proof -
  have "length (lru_list s) < 2 ^ 32 - 1" if "lru_ok s" "cur_blk_num s < max_blk_num s * 9 div 10" for s
  proof -
    have "length (lru_list s) = unat (cur_blk_num s)"
      using that(1) by (simp add: lru_ok_def unat_of_nat)
    also have "\<dots> < unat (max_blk_num s * 9 div 10)"
      using that(2) by (simp add: word_less_nat_alt)
    also have "\<dots> = unat (max_blk_num s * 9) div 10"
      by (simp add: unat_div)
    also have "\<dots> < 2 ^ 32 - 1"
      by (rule less_mult_imp_div_less) (rule less_trans [OF unat_u32_bound], simp)
    finally show ?thesis .
  qed
  moreover have "Suc (foldr max (lru_list s) 0) \<notin> dom (heads s)" if "lru_ok s" for s
    using that foldr_max_ge [of "Suc (foldr max (lru_list s) 0)" "lru_list s"] by (auto simp: lru_ok_def)
  ultimately show ?thesis
    by (auto simp: alloc_ok_def ex_kmalloc_def cache_inv_def)
qed

theorem bread_multi_correct_witness:
  "\<exists>buf' s'. bread_multi ex_kmalloc id 1 4 (replicate (3 * SECTOR_SIZE) 0) 3 ex_cache = Some (buf', s') \<and>
    sector buf' 0 = replicate SECTOR_SIZE 4 \<and> sector buf' 1 = replicate SECTOR_SIZE 0xaa"
  using bread_multi_correct [OF ex_cache_inv ex_cache_refs(2,1) ex_alloc_ok,
      of 3 "replicate (3 * SECTOR_SIZE) 0" 1 4]
  by (fastforce simp: view_def head_view_def ex_cache_def ex_head_def)

text \<open>
  C11. A delayed multi-sector write changes exactly the sectors it names, to the data given, as far as
  any reader can tell, keeps the cache invariant (so every new dirty block is queued for write back
  once) and releases every reference it takes.
\<close>

theorem bwrite_multi_correct:
  assumes "cache_inv {} s" "room s" "refs_ok s" "alloc_ok kmalloc env"
    and "unat sec_cnt * SECTOR_SIZE \<le> length src_buf"
  shows "\<exists>s'. bwrite_multi kmalloc env dev start_lba src_buf sec_cnt s = Some s' \<and> cache_inv {} s' \<and>
    ref_of s' = ref_of s \<and> (\<forall>i<unat sec_cnt. view s' dev (start_lba + of_nat i) = sector src_buf i) \<and>
    (\<forall>d l. d \<noteq> dev \<or> l \<notin> (\<lambda>i. start_lba + of_nat i) ` {..<unat sec_cnt} \<longrightarrow> view s' d l = view s d l)"
proof -
  have "(i + 1) * SECTOR_SIZE \<le> length src_buf \<and> i < 2 ^ 32" if "i < unat sec_cnt" for i
    using that assms(5) mult_le_mono1 [of "i + 1" "unat sec_cnt" SECTOR_SIZE]
      less_trans [OF that unat_u32_bound] by simp
  then show ?thesis
    using bwrite_multi_loop_spec [OF assms(1-4), of "[0..<unat sec_cnt]" src_buf dev start_lba]
    by (auto simp: bwrite_multi_def lessThan_atLeast0)
qed

theorem bwrite_multi_correct_witness:
  "\<exists>s'. bwrite_multi ex_kmalloc id 1 4 (replicate (2 * SECTOR_SIZE) 9) 2 ex_cache = Some s' \<and>
    view s' 1 5 = sector (replicate (2 * SECTOR_SIZE) 9) 1 \<and> view s' 1 6 = view ex_cache 1 6"
proof -
  have "(6::u32) \<notin> (\<lambda>i. 4 + of_nat i) ` {..<2}"
    by (auto simp: less_2_cases_iff)
  then show ?thesis
    using bwrite_multi_correct [OF ex_cache_inv ex_cache_refs(2,1) ex_alloc_ok,
        of 2 "replicate (2 * SECTOR_SIZE) 9" 1 4]
    by (fastforce simp: less_2_cases_iff)
qed

text \<open>
  C15. A pass of the sync thread over a disk whose standby list is empty leaves every sector of that
  disk equal to what the cache shows for it, without changing what any reader sees on any disk.
\<close>

theorem sync_disk_flushes:
  assumes "cache_inv {} s" "refs_ok s" "dirty_lists s dev (1 - active_dirty_idx s dev) = []"
  shows "\<exists>s'. sync_disk dev s = Some s' \<and> cache_inv {} s' \<and> view s' = view s \<and> ref_of s' = ref_of s \<and>
    media s' dev = view s dev \<and> (\<forall>i<2. dirty_lists s' dev i = [])"
proof -
  obtain s' where s': "sync_disk dev s = Some s'" "quiet s s'" "dirty_lists s' dev (active_dirty_idx s dev) = []"
      "\<forall>d i. \<not> (d = dev \<and> i = active_dirty_idx s dev) \<longrightarrow> dirty_lists s' d i = dirty_lists s d i"
    using sync_disk_spec [OF assms(1,2)] by blast
  have "active_dirty_idx s dev < 2"
    using assms(1) dirty_okD(6) by (auto simp: cache_inv_def)
  then have empty: "dirty_lists s' dev i = []" if "i < 2" for i
    using s'(3,4) assms(3) that by (auto simp: less_2_cases_iff)
  have ok: "hash_ok s'" "dirty_ok {} s'" "data_ok s'"
    using s'(2) by (auto simp: quiet_def cache_inv_def)
  have clean: "\<not> dirty_linked s' dev b" for b
    using empty [of 0] empty [of 1] by (simp add: dirty_linked_def)
  have "media s' dev l = view s' dev l" for l
  proof (cases "hash_table s' \<lparr>lba = l, disk = dev\<rparr>")
    case None
    then show ?thesis by (simp add: view_def head_view_def)
  next
    case (Some b)
    then obtain x where x: "heads s' b = Some x" "b_blocknr x = l" "b_dev x = dev"
      using hash_head [OF ok(1)] by blast
    then have "\<not> b_dirty x"
      using dirty_okD(1) [OF ok(2) x(1)] clean by simp
    then show ?thesis
      using ok(3) x Some by (auto simp: view_def head_view_def data_ok_def)
  qed
  then show ?thesis
    using s'(1,2) empty by (auto simp: quiet_def)
qed

theorem sync_disk_flushes_witness:
  "\<exists>s'. sync_disk 1 ex_cache = Some s' \<and> media s' 1 5 = replicate SECTOR_SIZE 0xaa"
  using sync_disk_flushes [OF ex_cache_inv ex_cache_refs(1), of 1]
  by (fastforce simp: ex_cache_def view_def head_view_def ex_head_def)

section \<open>The hash table of the cache\<close>

interpretation buf: keyed_nodes "\<lambda>e. bh_key (bhs e)" "buffer_condition bhs" for bhs
  by unfold_locales (auto simp: buffer_condition_def bh_key_def)

text \<open>
  C36. The hash table, on the heap of its chains and with the callbacks of the buffer cache, is a map:
  after the insertion of a node whose key is absent, a search for that key finds it and every other
  search answers as before; removing the node restores the answers of the original table.
\<close>

theorem buffer_table_map:
  assumes "ht_rep h t xss" "ht_inv (\<lambda>e. bh_key (bhs e)) t xss" "condition t = buffer_condition bhs"
    and "hash_find h t (bh_key (bhs e)) = Some NULL" "e \<in> dom h" "e \<notin> ht_nodes t xss"
    and "\<forall>xs\<in>set xss. length xs < TIMEOUT_CNT"
  shows "\<exists>t' h' t'' h''. hash_insert h t (bh_key (bhs e)) e = Some (t', h') \<and>
    hash_find h' t' (bh_key (bhs e)) = Some e \<and>
    (\<forall>k. k \<noteq> bh_key (bhs e) \<longrightarrow> hash_find h' t' k = hash_find h t k) \<and>
    hash_remove h' t' e = Some (t'', h'') \<and> (\<forall>k. hash_find h'' t'' k = hash_find h t k) \<and>
    elem_nr t'' = elem_nr t"
proof -
  let ?key = "\<lambda>e. bh_key (bhs e)"
  have find0: "hash_find h t k = Some (ptr (ht_map ?key t xss k))" for k
    by (rule buf.hash_find_map [OF assms(1,3)])
  have none: "ht_map ?key t xss (?key e) = None"
  proof (rule ccontr)
    assume "ht_map ?key t xss (?key e) \<noteq> None"
    then obtain x where x: "ht_map ?key t xss (?key e) = Some x"
      by blast
    then have "x \<noteq> NULL"
      using ht_map_Some [OF assms(1,2)] ht_rep_elems_nonnull [OF assms(1)] by blast
    then show False
      using find0 [of "?key e"] assms(4) x by (simp add: ptr_def)
  qed
  obtain t' h' xss' where ins: "hash_insert h t (?key e) e = Some (t', h')" "ht_rep h' t' xss'"
      "ht_inv ?key t' xss'" "t' = t\<lparr>elem_nr := elem_nr t + 1\<rparr>"
      "ht_map ?key t' xss' = (ht_map ?key t xss)(?key e \<mapsto> e)" "ht_elems xss' = insert e (ht_elems xss)"
    using buf.hash_insert_absent [OF assms(1-3) none assms(5-7)] by blast
  obtain t'' h'' xss'' where rem: "hash_remove h' t' e = Some (t'', h'')" "ht_rep h'' t'' xss''"
      "t'' = t'\<lparr>elem_nr := elem_nr t' - 1\<rparr>" "ht_map ?key t'' xss'' = (ht_map ?key t' xss')(?key e := None)"
    using buf.hash_remove_map [OF ins(2,3), of e] ins(6) by auto
  have "condition t' = buffer_condition bhs" "condition t'' = buffer_condition bhs"
    using assms(3) ins(4) rem(3) by simp_all
  then have "hash_find h' t' k = Some (ptr (ht_map ?key t' xss' k))"
      "hash_find h'' t'' k = Some (ptr (ht_map ?key t'' xss'' k))" for k
    using buf.hash_find_map ins(2) rem(2) by blast+
  moreover have "ht_map ?key t'' xss'' = ht_map ?key t xss"
    using rem(4) ins(5) none by (simp add: fun_upd_idem)
  moreover have "elem_nr t'' = elem_nr t"
    using ins(4) rem(3) by simp
  ultimately show ?thesis
    using ins(1,5) rem(1) find0 by (simp add: ptr_def)
qed

definition ex_sentinels :: "dlist list" where
  "ex_sentinels = [\<lparr>head = 1, tail = 2\<rparr>, \<lparr>head = 3, tail = 4\<rparr>]"

definition ex_nodes :: dheap where
  "ex_nodes = (\<lambda>a. if a \<in> {1, 2, 3, 4, 9} then Some \<lparr>prev = 0, nxt = 0\<rparr> else None)"

theorem buffer_table_map_witness:
  "\<exists>t h t' h'. hash_init (\<lambda>n. Some ex_sentinels) ex_nodes 2 buffer_hash (buffer_condition (\<lambda>e. ex_head)) = Some (t, h) \<and>
    hash_insert h t (bh_key ex_head) 9 = Some (t', h') \<and> hash_find h' t' (bh_key ex_head) = Some 9"
proof -
  let ?key = "\<lambda>e::addr. bh_key ex_head"
  have "\<exists>t h'. hash_init (\<lambda>n. Some ex_sentinels) ex_nodes 2 buffer_hash (buffer_condition (\<lambda>e. ex_head)) = Some (t, h') \<and>
      ht_rep h' t (replicate (unat (2::u32)) []) \<and> ht_inv ?key t (replicate (unat (2::u32)) []) \<and>
      ht_map ?key t (replicate (unat (2::u32)) []) = Map.empty \<and>
      hash_func t = buffer_hash \<and> condition t = buffer_condition (\<lambda>e. ex_head) \<and> bucket_nr t = 2 \<and> dom h' = dom ex_nodes"
    by (rule hash_init_rep) (auto simp: ex_sentinels_def ex_nodes_def)
  moreover have "unat (2::u32) = Suc (Suc 0)"
    by simp
  then have two: "replicate (unat (2::u32)) [] = [[], [] :: addr list]"
    by (simp only: replicate.simps)
  ultimately obtain t h where t: "hash_init (\<lambda>n. Some ex_sentinels) ex_nodes 2 buffer_hash (buffer_condition (\<lambda>e. ex_head)) = Some (t, h)"
      "ht_rep h t [[], []]" "ht_inv ?key t [[], []]" "ht_map ?key t [[], []] = Map.empty"
      "condition t = buffer_condition (\<lambda>e. ex_head)" "dom h = dom ex_nodes"
    unfolding two by blast
  have "buckets t = ex_sentinels"
    using t(1) by (auto simp: hash_init_def halting_simps split: if_splits)
  then have "9 \<notin> ht_nodes t [[], []]"
    by (auto simp: ht_nodes_def ex_sentinels_def dl_set_def dl_nodes_def less_Suc_eq)
  moreover have "hash_find h t (bh_key ex_head) = Some NULL"
    using buf.hash_find_map [OF t(2,5)] t(4) by (simp add: ptr_def)
  moreover have "9 \<in> dom h"
    unfolding t(6) by (simp add: ex_nodes_def dom_def)
  ultimately show ?thesis
    using buffer_table_map [OF t(2,3,5), of 9] t(1) by (auto simp: TIMEOUT_CNT_def)
qed

end
