(* ===== verification/Inode_Cache.thy ===== *)
theory Inode_Cache
  imports Ide_Buffer
begin

text \<open>
  The cache of in-memory inodes, \<^verbatim>\<open>fs/inode.c\<close>: lookup by device and number, opening with a reference
  count, eviction of the least recently used unreferenced inode, and the translation of file types to
  mode words. The hash table is used as the map it implements (theory Hashtable) and the lists as the
  lists they represent. Sections under the cache lock run to completion; while \<^verbatim>\<open>inode_open\<close> reads the disk
  without the lock, other processes act through the parameter \<open>env\<close>. The file system below is reached
  through the function pointer \<^verbatim>\<open>s_op->read_inode\<close>, a parameter as well.
\<close>

section \<open>The code\<close>

definition MAX_INODE_CACHE_SIZE :: u32 where "MAX_INODE_CACHE_SIZE = 64"
definition ANONY_I_NO :: u32 where "ANONY_I_NO = 0xffffffff"
definition S_IFMT :: u16 where "S_IFMT = 0xF000"
definition S_IFSOCK :: u16 where "S_IFSOCK = 0xC000"
definition S_IFLNK :: u16 where "S_IFLNK = 0xA000"
definition S_IFREG :: u16 where "S_IFREG = 0x8000"
definition S_IFBLK :: u16 where "S_IFBLK = 0x6000"
definition S_IFDIR :: u16 where "S_IFDIR = 0x4000"
definition S_IFCHR :: u16 where "S_IFCHR = 0x2000"
definition S_IFIFO :: u16 where "S_IFIFO = 0x1000"
definition ATIME :: u32 where "ATIME = 1"
definition MTIME :: u32 where "MTIME = 2"
definition CTIME :: u32 where "CTIME = 4"

datatype file_types = FT_UNKNOWN | FT_REGULAR | FT_DIRECTORY | FT_CHAR_SPECIAL | FT_BLOCK_SPECIAL | FT_FIFO
  | FT_SOCKET | FT_SYMLINK | FT_PIPE

record inode_key =
  ik_dev :: u32
  ik_no :: u32

record inode =
  i_type :: file_types
  i_mode :: u16
  i_size :: u32
  i_no :: u32
  i_dev :: u32
  i_open_cnts :: u32
  write_deny :: bool
  i_mount :: addr
  i_mount_at :: addr
  i_atime :: u32
  i_mtime :: u32
  i_ctime :: u32
  pipe_base :: addr

record partition =
  part_rdev :: u32
  part_has_ops :: bool

text \<open>The table with its counter, the LRU list, the live inodes, and the pages given back so far.\<close>

record inode_cache =
  itable :: "inode_key \<rightharpoonup> addr"
  ielem_nr :: u32
  ilru_list :: "addr list"
  inodes :: "addr \<rightharpoonup> inode"
  freed_pages :: "addr list"

definition inode_hash :: "inode_key \<Rightarrow> u32" where
  "inode_hash key = (ik_dev key XOR ik_no key) * HASH_GOLDEN_RATIO_32"

definition inode_condition :: "(addr \<Rightarrow> inode) \<Rightarrow> addr \<Rightarrow> inode_key \<Rightarrow> bool" where
  "inode_condition ino pelem ik \<longleftrightarrow> i_dev (ino pelem) = ik_dev ik \<and> i_no (ino pelem) = ik_no ik"

definition decode_imode :: "u16 \<Rightarrow> file_types" where
  "decode_imode mode =
     (if mode AND S_IFMT = S_IFREG then FT_REGULAR
      else if mode AND S_IFMT = S_IFDIR then FT_DIRECTORY
      else if mode AND S_IFMT = S_IFCHR then FT_CHAR_SPECIAL
      else if mode AND S_IFMT = S_IFBLK then FT_BLOCK_SPECIAL
      else if mode AND S_IFMT = S_IFIFO then FT_FIFO
      else if mode AND S_IFMT = S_IFLNK then FT_SYMLINK
      else if mode AND S_IFMT = S_IFSOCK then FT_SOCKET
      else FT_UNKNOWN)"

definition encode_imode :: "file_types \<Rightarrow> u16 \<Rightarrow> u16" where
  "encode_imode ft mode =
     (if ft = FT_REGULAR then S_IFREG OR mode
      else if ft = FT_DIRECTORY then S_IFDIR OR mode
      else if ft = FT_CHAR_SPECIAL then S_IFCHR OR mode
      else if ft = FT_BLOCK_SPECIAL then S_IFBLK OR mode
      else if ft = FT_FIFO then S_IFIFO OR mode
      else if ft = FT_SOCKET then S_IFSOCK OR mode
      else if ft = FT_SYMLINK then S_IFLNK OR mode
      else 0)"

text \<open>\<^verbatim>\<open>update_time\<close> on an inode that is not null; the second result says whether it is written back.\<close>

definition update_time :: "u32 \<Rightarrow> u32 \<Rightarrow> inode \<Rightarrow> inode \<times> bool" where
  "update_time now flags x = (let
     a = (flags AND ATIME \<noteq> 0); m = (flags AND MTIME \<noteq> 0); c = (flags AND CTIME \<noteq> 0);
     x = (if a then x\<lparr>i_atime := now\<rparr> else x);
     x = (if m then x\<lparr>i_mtime := now\<rparr> else x);
     x = (if c then x\<lparr>i_ctime := now\<rparr> else x)
   in (x, a \<or> m \<or> c))"

definition inode_cache_init :: "inode_cache \<Rightarrow> inode_cache" where
  "inode_cache_init s = s\<lparr>itable := Map.empty, ielem_nr := 0, ilru_list := []\<rparr>"

definition upd_inode :: "addr \<Rightarrow> (inode \<Rightarrow> inode) \<Rightarrow> inode_cache \<Rightarrow> inode_cache halting" where
  "upd_inode a f s = do {
     x \<leftarrow> inodes s a;
     Some (s\<lparr>inodes := (inodes s)(a \<mapsto> f x)\<rparr>)
   }"

text \<open>Taking a node out of the table, by its address.\<close>

definition itable_remove :: "addr \<Rightarrow> inode_cache \<Rightarrow> inode_cache" where
  "itable_remove a s = s\<lparr>itable := (\<lambda>k. if itable s k = Some a then None else itable s k), ielem_nr := ielem_nr s - 1\<rparr>"

fun find_unused :: "(addr \<rightharpoonup> inode) \<Rightarrow> addr list \<Rightarrow> addr option halting" where
  "find_unused ino [] = Some None"
| "find_unused ino (a # as) = do {
     x \<leftarrow> ino a;
     if i_open_cnts x = 0 then Some (Some a) else find_unused ino as
   }"

definition inode_register_to_cache :: "addr \<Rightarrow> inode_cache \<Rightarrow> inode_cache halting" where
  "inode_register_to_cache a s = do {
     x \<leftarrow> inodes s a;
     let ik = \<lparr>ik_dev = i_dev x, ik_no = i_no x\<rparr>;
     let s = (if itable s ik \<noteq> None then s else s\<lparr>itable := (itable s)(ik \<mapsto> a), ielem_nr := ielem_nr s + 1\<rparr>);
     let s = s\<lparr>ilru_list := ilru_list s @ [a]\<rparr>;
     if ielem_nr s > MAX_INODE_CACHE_SIZE then do {
       v \<leftarrow> find_unused (inodes s) (ilru_list s);
       case v of None \<Rightarrow> Some s
       | Some victim \<Rightarrow> do {
           let s = itable_remove victim s;
           l \<leftarrow> unlink victim (ilru_list s);
           Some (s\<lparr>ilru_list := l, inodes := (inodes s)(victim := None)\<rparr>)
         }
     } else Some s
   }"

text \<open>Giving the pipe buffer back, shared by \<^verbatim>\<open>inode_evict\<close> and \<^verbatim>\<open>inode_close\<close>.\<close>

definition free_pipe :: "addr \<Rightarrow> inode \<Rightarrow> inode_cache \<Rightarrow> inode_cache" where
  "free_pipe a x s = (if (i_type x = FT_FIFO \<or> i_type x = FT_PIPE) \<and> pipe_base x \<noteq> NULL
     then s\<lparr>freed_pages := pipe_base x # freed_pages s, inodes := (inodes s)(a \<mapsto> x\<lparr>pipe_base := NULL\<rparr>)\<rparr> else s)"

definition inode_evict :: "addr \<Rightarrow> inode_cache \<Rightarrow> inode_cache halting" where
  "inode_evict a s =
     (if a = NULL then Some s
      else do {
        let s = itable_remove a s;
        l \<leftarrow> unlink a (ilru_list s);
        let s = s\<lparr>ilru_list := l\<rparr>;
        x \<leftarrow> inodes s a;
        let s = free_pipe a x s;
        Some (s\<lparr>inodes := (inodes s)(a := None)\<rparr>)
      })"

text \<open>A hit: count the reference and move the inode to the recent end.\<close>

definition inode_touch :: "addr \<Rightarrow> inode_cache \<Rightarrow> inode_cache halting" where
  "inode_touch a s = do {
     s \<leftarrow> upd_inode a (\<lambda>x. x\<lparr>i_open_cnts := i_open_cnts x + 1\<rparr>) s;
     l \<leftarrow> unlink a (ilru_list s);
     Some (s\<lparr>ilru_list := l @ [a]\<rparr>)
   }"

definition new_inode :: "u32 \<Rightarrow> u32 \<Rightarrow> inode \<Rightarrow> inode" where
  "new_inode dev no x = x\<lparr>i_no := no, i_dev := dev, i_open_cnts := 1, write_deny := False, i_mount := NULL, i_mount_at := NULL\<rparr>"

text \<open>\<open>kmalloc\<close> returns the address of a new inode and what its memory holds.\<close>

definition inode_open :: "(inode_cache \<Rightarrow> (addr \<times> inode) option) \<Rightarrow> (inode_cache \<Rightarrow> inode_cache) \<Rightarrow> (inode \<Rightarrow> inode) \<Rightarrow> addr \<Rightarrow>
    partition \<Rightarrow> u32 \<Rightarrow> inode_cache \<Rightarrow> (addr \<times> inode_cache) halting" where
  "inode_open kmalloc env read_inode kernel_heap_start part inode_no s = (let
     ik = \<lparr>ik_dev = part_rdev part, ik_no = inode_no\<rparr>
   in case itable s ik of
       Some a \<Rightarrow> do {
         x \<leftarrow> inodes s a;
         ASSERT (i_no x = inode_no \<and> i_dev x = part_rdev part);
         s \<leftarrow> inode_touch a s;
         Some (a, s)
       }
     | None \<Rightarrow> do {
         (a, junk) \<leftarrow> kmalloc s;
         ASSERT (part_has_ops part);
         let x = read_inode (new_inode (part_rdev part) inode_no junk);
         let s = env s;
         (found, s) \<leftarrow> (case itable s ik of
             Some b \<Rightarrow> do { s \<leftarrow> inode_touch b s; Some (b, s) }
           | None \<Rightarrow> do { s \<leftarrow> inode_register_to_cache a (s\<lparr>inodes := (inodes s)(a \<mapsto> x)\<rparr>); Some (a, s) });
         ASSERT (found \<ge> kernel_heap_start);
         Some (found, s)
       })"

definition inode_close :: "addr \<Rightarrow> inode_cache \<Rightarrow> inode_cache halting" where
  "inode_close a s =
     (if a = NULL then Some s
      else do {
        s \<leftarrow> upd_inode a (\<lambda>x. x\<lparr>i_open_cnts := i_open_cnts x - 1\<rparr>) s;
        x \<leftarrow> inodes s a;
        Some (if i_open_cnts x = 0 then free_pipe a x s else s)
      })"

definition make_anonymous_inode :: "inode" where
  "make_anonymous_inode = \<lparr>i_type = FT_PIPE, i_mode = encode_imode FT_PIPE 0x1FF, i_size = 0, i_no = ANONY_I_NO,
     i_dev = - 1, i_open_cnts = 0, write_deny = False, i_mount = NULL, i_mount_at = NULL, i_atime = 0, i_mtime = 0,
     i_ctime = 0, pipe_base = NULL\<rparr>"

section \<open>File types and modes\<close>

text \<open>The table of inodes is an instance of the keyed hash table.\<close>

interpretation ih: keyed_nodes "\<lambda>e. \<lparr>ik_dev = i_dev (ino e), ik_no = i_no (ino e)\<rparr>" "inode_condition ino" for ino
proof unfold_locales
  show "inode_condition ino e k \<longleftrightarrow> \<lparr>ik_dev = i_dev (ino e), ik_no = i_no (ino e)\<rparr> = k" for e k
    by (cases k) (simp add: inode_condition_def)
qed

lemma imode_high:
  assumes "mode AND S_IFMT = 0" "f AND S_IFMT = f"
  shows "(f OR mode) AND S_IFMT = f"
  using assms by (simp add: and.commute [of "f OR mode"] bit.conj_disj_distrib and.commute)

lemmas imode_consts = S_IFMT_def S_IFSOCK_def S_IFLNK_def S_IFREG_def S_IFBLK_def S_IFDIR_def S_IFCHR_def S_IFIFO_def

text \<open>
  The mode word keeps type and permissions apart: for every type that is stored on disk,
  \<^verbatim>\<open>decode_imode\<close> recovers the type \<^verbatim>\<open>encode_imode\<close> wrote and the low twelve bits are the permissions given,
  while the types of anonymous pipes and unknown files have no mode word at all and yield 0.
\<close>
theorem imode_round_trip:
  assumes "mode AND S_IFMT = 0"
  shows "if ft \<in> {FT_PIPE, FT_UNKNOWN} then encode_imode ft mode = 0
    else decode_imode (encode_imode ft mode) = ft \<and> encode_imode ft mode AND NOT S_IFMT = mode"
proof -
  have keep: "(f OR mode) AND NOT S_IFMT = mode" if "f AND S_IFMT = f" for f :: u16
  proof -
    have m: "\<not> (bit mode n \<and> bit S_IFMT n)" for n
      using arg_cong [OF assms, of "\<lambda>x. bit x n"] by (simp add: bit_and_iff)
    have f: "bit f n \<Longrightarrow> bit S_IFMT n" for n
      using arg_cong [OF that, of "\<lambda>x. bit x n"] by (auto simp: bit_and_iff)
    show ?thesis
      by (rule bit_eqI) (use m f in \<open>auto simp: bit_and_iff bit_or_iff bit_not_iff\<close>)
  qed
  have f: "S_IFREG AND S_IFMT = S_IFREG" "S_IFDIR AND S_IFMT = S_IFDIR" "S_IFCHR AND S_IFMT = S_IFCHR"
      "S_IFBLK AND S_IFMT = S_IFBLK" "S_IFIFO AND S_IFMT = S_IFIFO" "S_IFLNK AND S_IFMT = S_IFLNK" "S_IFSOCK AND S_IFMT = S_IFSOCK"
    by (simp_all add: imode_consts)
  note hi = f [THEN imode_high [OF assms]] and lo = f [THEN keep]
  have ne: "distinct [S_IFREG, S_IFDIR, S_IFCHR, S_IFBLK, S_IFIFO, S_IFLNK, S_IFSOCK]"
    by (simp add: imode_consts)
  show ?thesis
    using ne by (cases ft) (auto simp: encode_imode_def decode_imode_def hi lo)
qed

section \<open>The cache invariant\<close>

definition inode_key_of :: "inode \<Rightarrow> inode_key" where
  "inode_key_of x = \<lparr>ik_dev = i_dev x, ik_no = i_no x\<rparr>"

definition icache_ok :: "inode_cache \<Rightarrow> bool" where
  "icache_ok s \<longleftrightarrow> (\<forall>k a. itable s k = Some a \<longrightarrow> (\<exists>x. inodes s a = Some x \<and> inode_key_of x = k)) \<and>
     distinct (ilru_list s) \<and> set (ilru_list s) = ran (itable s) \<and> ielem_nr s = of_nat (length (ilru_list s))"

definition is_open :: "inode_cache \<Rightarrow> addr \<Rightarrow> inode \<Rightarrow> bool" where
  "is_open s a x \<longleftrightarrow> inodes s a = Some x \<and> i_open_cnts x \<noteq> 0"

text \<open>The references counted for the file with a key: those of the inode filed under it, 0 when there is none.\<close>

definition refs :: "inode_cache \<Rightarrow> inode_key \<Rightarrow> u32" where
  "refs s k = (case itable s k of None \<Rightarrow> 0 | Some a \<Rightarrow> (case inodes s a of None \<Rightarrow> 0 | Some x \<Rightarrow> i_open_cnts x))"

lemma icache_okD:
  assumes "icache_ok s" "itable s k = Some a"
  shows "\<exists>x. inodes s a = Some x \<and> inode_key_of x = k" "a \<in> set (ilru_list s)"
  using assms by (auto simp: icache_ok_def ran_def)

lemma itable_inj: "icache_ok s \<Longrightarrow> itable s k = Some a \<Longrightarrow> itable s k' = Some a \<Longrightarrow> k = k'"
  by (metis icache_okD(1) option.inject)

definition touched :: "addr \<Rightarrow> inode \<Rightarrow> inode_cache \<Rightarrow> inode_cache" where
  "touched a x s = s\<lparr>inodes := (inodes s)(a \<mapsto> x\<lparr>i_open_cnts := i_open_cnts x + 1\<rparr>), ilru_list := remove1 a (ilru_list s) @ [a]\<rparr>"

lemma inode_touch_spec:
  assumes "icache_ok s" "itable s k = Some a" "inodes s a = Some x"
  shows "inode_touch a s = Some (touched a x s)" "icache_ok (touched a x s)"
proof -
  have l: "a \<in> set (ilru_list s)" "distinct (ilru_list s)"
    using assms by (auto simp: icache_ok_def ran_def)
  show "inode_touch a s = Some (touched a x s)"
    using l assms(3) by (simp add: inode_touch_def upd_inode_def touched_def unlink_member)
  have "length (ilru_list s) \<noteq> 0"
    using l by auto
  moreover have "\<exists>y. inodes (touched a x s) b = Some y \<and> inode_key_of y = k'" if "itable s k' = Some b" for k' b
    using icache_okD(1) [OF assms(1) that] assms(3) by (auto simp: touched_def inode_key_of_def)
  ultimately show "icache_ok (touched a x s)"
    using assms(1) l unfolding icache_ok_def by (auto simp: touched_def length_remove1)
qed

text \<open>Changing the count of one filed inode changes the count of its key only.\<close>

lemma refs_upd:
  assumes "icache_ok s" "itable s k = Some a" "itable s' = itable s" "inodes s' = (inodes s)(a \<mapsto> x)"
  shows "refs s' = (refs s)(k := i_open_cnts x)"
proof
  fix k'
  have "itable s k' \<noteq> Some a" if "k' \<noteq> k"
    using itable_inj [OF assms(1,2)] that by blast
  then show "refs s' k' = ((refs s)(k := i_open_cnts x)) k'"
    unfolding refs_def assms(3,4) using assms(2) by (cases "itable s k'") auto
qed

lemma touched_refs:
  assumes "icache_ok s" "itable s k = Some a" "inodes s a = Some x"
  shows "refs (touched a x s) = (refs s)(k := refs s k + 1)"
  using refs_upd [OF assms(1,2), of "touched a x s" "x\<lparr>i_open_cnts := i_open_cnts x + 1\<rparr>"] assms(2,3)
  by (simp add: touched_def refs_def)

text \<open>Closing counts one reference down.\<close>

lemma inode_close_refs:
  assumes "icache_ok s" "itable s k = Some a" "a \<noteq> NULL"
  shows "\<exists>s'. inode_close a s = Some s' \<and> refs s' = (refs s)(k := refs s k - 1) \<and> itable s' = itable s"
proof -
  obtain x where x: "inodes s a = Some x"
    using icache_okD(1) [OF assms(1,2)] by blast
  define y where "y = x\<lparr>i_open_cnts := i_open_cnts x - 1\<rparr>"
  define s1 where "s1 = s\<lparr>inodes := (inodes s)(a \<mapsto> y)\<rparr>"
  define s' where "s' = (if i_open_cnts y = 0 then free_pipe a y s1 else s1)"
  have "inode_close a s = Some s'"
    using assms(3) x by (simp add: inode_close_def upd_inode_def s'_def s1_def y_def)
  moreover have t: "itable s' = itable s"
    by (simp add: s'_def s1_def free_pipe_def)
  moreover obtain z where "inodes s' = (inodes s)(a \<mapsto> z)" "i_open_cnts z = i_open_cnts x - 1"
    by (cases "s' = s1") (auto simp: s'_def s1_def free_pipe_def y_def split: if_splits)
  then have "refs s' = (refs s)(k := refs s k - 1)"
    using refs_upd [OF assms(1,2) t] assms(2) x by (simp add: refs_def)
  ultimately show ?thesis
    by blast
qed

lemma find_unused_spec:
  assumes "\<forall>a\<in>set l. \<exists>x. ino a = Some x"
  shows "\<exists>v. find_unused ino l = Some v \<and> (case v of None \<Rightarrow> \<forall>a\<in>set l. \<forall>x. ino a = Some x \<longrightarrow> i_open_cnts x \<noteq> 0
    | Some a \<Rightarrow> a \<in> set l \<and> (\<exists>x. ino a = Some x \<and> i_open_cnts x = 0))"
  using assms
proof (induction l)
  case (Cons a l)
  obtain x where x: "ino a = Some x"
    using Cons.prems by auto
  obtain v where v: "find_unused ino l = Some v" "case v of None \<Rightarrow> \<forall>a\<in>set l. \<forall>x. ino a = Some x \<longrightarrow> i_open_cnts x \<noteq> 0
      | Some a \<Rightarrow> a \<in> set l \<and> (\<exists>x. ino a = Some x \<and> i_open_cnts x = 0)"
    using Cons by auto
  show ?case
  proof (cases "i_open_cnts x = 0")
    case True
    then show ?thesis
      using x by (intro exI [of _ "Some a"]) simp
  next
    case False
    then show ?thesis
      using x v by (intro exI [of _ v]) (auto split: option.splits)
  qed
qed simp

text \<open>The state after an insertion, and after dropping one unreferenced inode from it.\<close>

lemma register_evict:
  assumes "icache_ok s" "itable s k = Some v"
    and "s' = (itable_remove v s)\<lparr>ilru_list := remove1 v (ilru_list s), inodes := (inodes s)(v := None)\<rparr>"
  shows "icache_ok s'" "\<And>k' b. b \<noteq> v \<Longrightarrow> itable s k' = Some b \<Longrightarrow> itable s' k' = Some b"
    "\<And>b. b \<noteq> v \<Longrightarrow> inodes s' b = inodes s b"
proof -
  have v: "v \<in> set (ilru_list s)" "distinct (ilru_list s)"
    using icache_okD(2) [OF assms(1,2)] assms(1) by (auto simp: icache_ok_def)
  have t: "itable s' k' = Some b \<longleftrightarrow> itable s k' = Some b \<and> b \<noteq> v" for k' b
    by (auto simp: assms(3) itable_remove_def)
  then have r: "ran (itable s') = ran (itable s) - {v}"
    by (auto simp: ran_def)
  have "(of_nat (length (ilru_list s) - 1) :: u32) = of_nat (length (ilru_list s)) - 1"
    using v by (cases "ilru_list s") auto
  then have n: "ielem_nr s' = of_nat (length (ilru_list s'))"
    using v assms(1) by (simp add: assms(3) itable_remove_def length_remove1 icache_ok_def)
  have "\<exists>x. inodes s' b = Some x \<and> inode_key_of x = k'" if "itable s' k' = Some b" for k' b
    using that icache_okD(1) [OF assms(1)] t by (auto simp: assms(3))
  then show "icache_ok s'"
    using v n r assms(1) by (simp add: icache_ok_def) (simp add: assms(3))
  show "\<And>k' b. b \<noteq> v \<Longrightarrow> itable s k' = Some b \<Longrightarrow> itable s' k' = Some b"
    using t by simp
  show "\<And>b. b \<noteq> v \<Longrightarrow> inodes s' b = inodes s b"
    by (simp add: assms(3))
qed

lemma register_spec:
  assumes "icache_ok s" "a \<notin> dom (inodes s)" "itable s (inode_key_of x) = None" "i_open_cnts x \<noteq> 0"
  shows "\<exists>s'. inode_register_to_cache a (s\<lparr>inodes := (inodes s)(a \<mapsto> x)\<rparr>) = Some s' \<and> icache_ok s' \<and>
    itable s' (inode_key_of x) = Some a \<and> inodes s' a = Some x \<and>
    refs s' = (refs s)(inode_key_of x := i_open_cnts x) \<and>
    (\<forall>b y. is_open s b y \<longrightarrow> is_open s' b y \<and> (\<forall>k. itable s k = Some b \<longrightarrow> itable s' k = Some b))"
proof -
  define s1 where "s1 = s\<lparr>inodes := (inodes s)(a \<mapsto> x), itable := (itable s)(inode_key_of x \<mapsto> a),
    ielem_nr := ielem_nr s + 1, ilru_list := ilru_list s @ [a]\<rparr>"
  have new: "a \<notin> ran (itable s)"
    using assms(1,2) by (auto simp: ran_def dest: icache_okD(1))
  have ok1: "icache_ok s1"
  proof -
    have "\<exists>y. inodes s1 b = Some y \<and> inode_key_of y = k" if "itable s1 k = Some b" for k b
      using that icache_okD(1) [OF assms(1), of k b] new by (auto simp: s1_def ran_def split: if_splits)
    moreover have "ran (itable s1) = insert a (ran (itable s))"
      using assms(3) by (simp add: s1_def ran_map_upd)
    ultimately show ?thesis
      using assms(1) new by (simp add: icache_ok_def) (simp add: s1_def)
  qed
  have key: "\<lparr>ik_dev = i_dev x, ik_no = i_no x\<rparr> = inode_key_of x"
    by (simp add: inode_key_of_def)
  have reg: "inode_register_to_cache a (s\<lparr>inodes := (inodes s)(a \<mapsto> x)\<rparr>) =
      (if ielem_nr s1 > MAX_INODE_CACHE_SIZE then do {
         v \<leftarrow> find_unused (inodes s1) (ilru_list s1);
         case v of None \<Rightarrow> Some s1
         | Some victim \<Rightarrow> do {
             l \<leftarrow> unlink victim (ilru_list (itable_remove victim s1));
             Some ((itable_remove victim s1)\<lparr>ilru_list := l, inodes := (inodes (itable_remove victim s1))(victim := None)\<rparr>)
           }
       } else Some s1)"
    using assms(3) unfolding inode_register_to_cache_def s1_def by (simp add: key Let_def)
  have frame1: "is_open s1 b y \<and> (\<forall>k. itable s k = Some b \<longrightarrow> itable s1 k = Some b)" if "is_open s b y" for b y
    using that assms(2,3) by (auto simp: is_open_def s1_def)
  have refs1: "refs s1 = (refs s)(inode_key_of x := i_open_cnts x)"
    using new by (auto simp: refs_def s1_def ran_def fun_eq_iff split: option.splits)
  have done1: ?thesis if "inode_register_to_cache a (s\<lparr>inodes := (inodes s)(a \<mapsto> x)\<rparr>) = Some s1"
    using that ok1 frame1 refs1 by (intro exI [of _ s1]) (simp add: s1_def)
  have "\<forall>b\<in>set (ilru_list s1). \<exists>y. inodes s1 b = Some y"
    using ok1 by (fastforce simp: icache_ok_def ran_def)
  then obtain v where v: "find_unused (inodes s1) (ilru_list s1) = Some v"
      "case v of None \<Rightarrow> \<forall>b\<in>set (ilru_list s1). \<forall>y. inodes s1 b = Some y \<longrightarrow> i_open_cnts y \<noteq> 0
       | Some b \<Rightarrow> b \<in> set (ilru_list s1) \<and> (\<exists>y. inodes s1 b = Some y \<and> i_open_cnts y = 0)"
    using find_unused_spec by blast
  show ?thesis
  proof (cases "ielem_nr s1 > MAX_INODE_CACHE_SIZE \<and> v \<noteq> None")
    case False
    then show ?thesis
      using done1 reg v(1) by (cases v) auto
  next
    case True
    then obtain c where c: "v = Some c"
      by blast
    define s2 where "s2 = (itable_remove c s1)\<lparr>ilru_list := remove1 c (ilru_list s1), inodes := (inodes s1)(c := None)\<rparr>"
    have cl: "c \<in> set (ilru_list s1)"
      using v(2) c by simp
    have closed: "i_open_cnts y = 0" if "inodes s1 c = Some y" for y
      using v(2) c that by auto
    obtain k where k: "itable s1 k = Some c"
      using cl ok1 by (auto simp: icache_ok_def ran_def)
    note ev = register_evict [OF ok1 k s2_def]
    have ca: "c \<noteq> a"
      using closed [of x] assms(4) by (auto simp: s1_def)
    have "inode_register_to_cache a (s\<lparr>inodes := (inodes s)(a \<mapsto> x)\<rparr>) = Some s2"
      using True v(1) c cl unfolding reg by (simp add: s2_def itable_remove_def unlink_member)
    moreover have "itable s1 (inode_key_of x) = Some a" "inodes s1 a = Some x"
      by (simp_all add: s1_def)
    moreover have "is_open s2 b y \<and> (\<forall>k. itable s k = Some b \<longrightarrow> itable s2 k = Some b)" if "is_open s b y" for b y
    proof -
      have "b \<noteq> c"
        using frame1 [OF that] closed [of y] by (auto simp: is_open_def)
      then show ?thesis
        using frame1 [OF that] ev(2,3) by (simp add: is_open_def)
    qed
    moreover have "refs s2 k' = refs s1 k'" for k'
    proof -
      have "itable s2 k' = (if itable s1 k' = Some c then None else itable s1 k')" "inodes s2 = (inodes s1)(c := None)"
        by (simp_all add: s2_def itable_remove_def)
      then show ?thesis
        using closed by (auto simp: refs_def split: option.splits)
    qed
    ultimately show ?thesis
      using ev ca refs1 by (intro exI [of _ s2]) (simp add: fun_eq_iff)
  qed
qed

text \<open>
  C17. \<^verbatim>\<open>inode_open\<close> returns an inode with the device and number asked for, filed in the cache, and leaves the
  cache consistent; whether the inode was cached, was read from disk, or was brought in by another process
  during the read. It counts exactly one reference for this file and leaves the count of every other file
  alone, also when it evicts an inode to make room. No inode that is in use is evicted or changed. While the
  result is filed every later call for the same file, by anyone, returns the same inode and counts one more,
  and \<^verbatim>\<open>inode_close\<close> gives exactly the counted reference back.
\<close>
theorem inode_open_correct:
  assumes "icache_ok s" "icache_ok (env s)" "part_has_ops part" "kmalloc s = Some (a, junk)" "a \<notin> dom (inodes (env s))"
    and "kernel_heap_start \<le> a" "\<forall>b\<in>ran (itable (env s)). kernel_heap_start \<le> b" "\<forall>b\<in>ran (itable s). kernel_heap_start \<le> b"
    and "NULL < kernel_heap_start"
    and "\<forall>x. i_no (read_inode x) = i_no x \<and> i_dev (read_inode x) = i_dev x \<and> i_open_cnts (read_inode x) = i_open_cnts x"
    and "\<forall>t\<in>{s, env s}. \<forall>b x. inodes t b = Some x \<longrightarrow> i_open_cnts x \<noteq> - 1"
    and "ik = \<lparr>ik_dev = part_rdev part, ik_no = no\<rparr>" "t = (if itable s ik = None then env s else s)"
  shows "\<exists>b s' x. inode_open kmalloc env read_inode kernel_heap_start part no s = Some (b, s') \<and> icache_ok s' \<and>
    itable s' ik = Some b \<and> is_open s' b x \<and> i_dev x = part_rdev part \<and> i_no x = no \<and>
    refs s' = (refs t)(ik := refs t ik + 1) \<and>
    (\<forall>c y. c \<noteq> b \<and> is_open t c y \<longrightarrow> is_open s' c y) \<and>
    (\<forall>k c y. is_open t c y \<and> itable t k = Some c \<longrightarrow> itable s' k = Some c) \<and>
    (\<forall>km e rd h. \<exists>s''. inode_open km e rd h part no s' = Some (b, s'') \<and> refs s'' = (refs s')(ik := refs s' ik + 1)) \<and>
    (\<exists>s''. inode_close b s' = Some s'' \<and> refs s'' = refs t)"
proof -
  have again: "\<exists>s''. inode_open km e rd h part no s' = Some (b, s'') \<and> refs s'' = (refs s')(ik := refs s' ik + 1)"
    if ok: "icache_ok s'" "itable s' ik = Some b" for km e rd h s' b
  proof -
    obtain x where x: "inodes s' b = Some x" "inode_key_of x = ik"
      using icache_okD(1) [OF ok] by blast
    then show ?thesis
      using inode_touch_spec(1) [OF ok x(1)] touched_refs [OF ok x(1)] ok(2) assms(12)
      by (simp add: inode_open_def inode_key_of_def)
  qed
  have close: "\<exists>s''. inode_close b s' = Some s'' \<and> refs s'' = refs u"
    if "icache_ok s'" "itable s' ik = Some b" "refs s' = (refs u)(ik := refs u ik + 1)" "kernel_heap_start \<le> b" for s' b u
    using inode_close_refs [OF that(1,2)] that(3,4) assms(9) by auto
  have hit: "\<exists>x. inode_touch b u = Some (touched b x u) \<and> icache_ok (touched b x u) \<and> itable (touched b x u) ik = Some b \<and>
      inodes u b = Some x \<and> inode_key_of x = ik \<and>
      is_open (touched b x u) b (x\<lparr>i_open_cnts := i_open_cnts x + 1\<rparr>) \<and> refs (touched b x u) = (refs u)(ik := refs u ik + 1) \<and>
      (\<forall>c y. c \<noteq> b \<and> is_open u c y \<longrightarrow> is_open (touched b x u) c y) \<and> itable (touched b x u) = itable u"
    if u: "icache_ok u" "itable u ik = Some b" "u \<in> {s, env s}" for u b
  proof -
    obtain x where x: "inodes u b = Some x" "inode_key_of x = ik"
      using icache_okD(1) [OF u(1,2)] by blast
    have "i_open_cnts x \<noteq> - 1"
      using assms(11) u(3) x(1) by blast
    then have "i_open_cnts x + 1 \<noteq> 0"
      by (metis add.commute add_eq_0_iff)
    then show ?thesis
      using inode_touch_spec [OF u(1,2) x(1)] touched_refs [OF u(1,2) x(1)] u(2) x by (auto simp: touched_def is_open_def)
  qed
  show ?thesis
  proof (cases "itable s ik")
    case (Some b)
    obtain x where h: "inode_touch b s = Some (touched b x s)" "icache_ok (touched b x s)" "itable (touched b x s) ik = Some b"
        "inodes s b = Some x" "inode_key_of x = ik" "is_open (touched b x s) b (x\<lparr>i_open_cnts := i_open_cnts x + 1\<rparr>)"
        "\<forall>c y. c \<noteq> b \<and> is_open s c y \<longrightarrow> is_open (touched b x s) c y" "itable (touched b x s) = itable s"
        "refs (touched b x s) = (refs s)(ik := refs s ik + 1)"
      using hit [OF assms(1) Some] by blast
    have d: "i_dev x = part_rdev part" "i_no x = no"
      using h(5) assms(12) by (simp_all add: inode_key_of_def)
    have o: "inode_open kmalloc env read_inode kernel_heap_start part no s = Some (b, touched b x s)"
      using Some assms(12) h(1,4) d by (simp add: inode_open_def)
    have t: "t = s"
      using assms(13) Some by simp
    have "kernel_heap_start \<le> b"
      using assms(8) Some by (auto simp: ran_def)
    note cl = close [OF h(2,3) h(9) this]
    show ?thesis
      unfolding t
      by (rule exI [of _ b], rule exI [of _ "touched b x s"], rule exI [of _ "x\<lparr>i_open_cnts := i_open_cnts x + 1\<rparr>"])
        (use o h d cl again [OF h(2,3)] in simp)
  next
    case None
    then have t: "t = env s"
      using assms(13) by simp
    define x where "x = read_inode (new_inode (part_rdev part) no junk)"
    have x: "i_no x = no" "i_dev x = part_rdev part" "i_open_cnts x = 1" "inode_key_of x = ik"
      using assms(10,12) by (simp_all add: x_def new_inode_def inode_key_of_def)
    show ?thesis
    proof (cases "itable (env s) ik")
      case (Some b)
      obtain y where h: "inode_touch b (env s) = Some (touched b y (env s))" "icache_ok (touched b y (env s))" "itable (touched b y (env s)) ik = Some b"
          "inodes (env s) b = Some y" "inode_key_of y = ik" "is_open (touched b y (env s)) b (y\<lparr>i_open_cnts := i_open_cnts y + 1\<rparr>)"
          "\<forall>c z. c \<noteq> b \<and> is_open (env s) c z \<longrightarrow> is_open (touched b y (env s)) c z" "itable (touched b y (env s)) = itable (env s)"
          "refs (touched b y (env s)) = (refs (env s))(ik := refs (env s) ik + 1)"
        using hit [OF assms(2) Some] by blast
      have hb: "kernel_heap_start \<le> b"
        using assms(7) Some by (auto simp: ran_def)
      note cl = close [OF h(2,3) h(9) hb]
      have o: "inode_open kmalloc env read_inode kernel_heap_start part no s = Some (b, touched b y (env s))"
        using None Some assms(3,4,12) h(1) hb by (simp add: inode_open_def)
      have d: "i_dev y = part_rdev part" "i_no y = no"
        using h(5) assms(12) by (simp_all add: inode_key_of_def)
      show ?thesis
        unfolding t
        by (rule exI [of _ b], rule exI [of _ "touched b y (env s)"], rule exI [of _ "y\<lparr>i_open_cnts := i_open_cnts y + 1\<rparr>"])
          (use o h d cl again [OF h(2,3)] in simp)
    next
      case none2: None
      obtain s' where h: "inode_register_to_cache a ((env s)\<lparr>inodes := (inodes (env s))(a \<mapsto> x)\<rparr>) = Some s'" "icache_ok s'"
          "itable s' ik = Some a" "inodes s' a = Some x" "refs s' = (refs (env s))(ik := refs (env s) ik + 1)"
          "\<forall>b y. is_open (env s) b y \<longrightarrow> is_open s' b y \<and> (\<forall>k. itable (env s) k = Some b \<longrightarrow> itable s' k = Some b)"
        using register_spec [OF assms(2,5), of x] none2 x(3,4) by (auto simp: refs_def [of "env s" ik])
      have o: "inode_open kmalloc env read_inode kernel_heap_start part no s = Some (a, s')"
        using None none2 assms(3,4,6,12) h(1) by (simp add: inode_open_def flip: x_def)
      have "is_open s' a x"
        using h(4) x(3) by (simp add: is_open_def)
      then show ?thesis
        unfolding t using o h x again [OF h(2,3)] close [OF h(2,3) h(5) assms(6)]
        by (intro exI [of _ a] exI [of _ s'] exI [of _ x]) blast
    qed
  qed
qed

section \<open>Examples\<close>

definition ex_icache :: inode_cache where
  "ex_icache = \<lparr>itable = Map.empty, ielem_nr = 0, ilru_list = [], inodes = Map.empty, freed_pages = []\<rparr>"

theorem inode_open_correct_witness:
  "\<exists>b s' s'' s3. inode_open (\<lambda>_. Some (4096, make_anonymous_inode)) (\<lambda>s. s) (\<lambda>x. x) 4096 \<lparr>part_rdev = 3, part_has_ops = True\<rparr> 7 ex_icache =
    Some (b, s') \<and> inode_open (\<lambda>_. None) (\<lambda>s. s) (\<lambda>x. x) 0 \<lparr>part_rdev = 3, part_has_ops = True\<rparr> 7 s' = Some (b, s'') \<and>
    refs s'' \<lparr>ik_dev = 3, ik_no = 7\<rparr> = 2 \<and> inode_close b s' = Some s3 \<and> refs s3 \<lparr>ik_dev = 3, ik_no = 7\<rparr> = 0"
proof -
  let ?p = "\<lparr>part_rdev = 3, part_has_ops = True\<rparr>" and ?k = "\<lparr>ik_dev = 3, ik_no = 7\<rparr>"
  have ok: "icache_ok ex_icache" and r: "refs ex_icache ?k = 0"
    by (simp_all add: icache_ok_def ex_icache_def refs_def)
  obtain b s' where o: "inode_open (\<lambda>_. Some (4096, make_anonymous_inode)) (\<lambda>s. s) (\<lambda>x. x) 4096 ?p 7 ex_icache = Some (b, s')"
      "refs s' = (refs ex_icache)(?k := refs ex_icache ?k + 1)"
      "\<exists>s''. inode_open (\<lambda>_. None) (\<lambda>s. s) (\<lambda>x. x) 0 ?p 7 s' = Some (b, s'') \<and> refs s'' = (refs s')(?k := refs s' ?k + 1)"
      "\<exists>s''. inode_close b s' = Some s'' \<and> refs s'' = refs ex_icache"
    using inode_open_correct [of ex_icache "\<lambda>s. s" ?p "\<lambda>_. Some (4096, make_anonymous_inode)"
        4096 make_anonymous_inode 4096 "\<lambda>x. x" ?k 7 ex_icache, OF ok ok] by (auto simp: ex_icache_def)
  then show ?thesis
    using r by auto
qed

end
