(* ===== verification/Ioqueue.thy ===== *)
theory Ioqueue
  imports Kernel_Prelude
begin

text \<open>
  The ring buffer of \<^verbatim>\<open>device/ioqueue.c\<close> with its two waiter slots. A task is a number; a call that
  blocks leaves the caller in a waiter slot, and a wake-up is reported to the caller of the operation,
  which hands it to the scheduler. The interrupt status checked by the assertions is the argument
  \<open>off\<close>. The ring is shown to implement a bounded double ended queue of 2047 characters.
\<close>

section \<open>The code\<close>

definition BUFSIZE :: int where
  "BUFSIZE = 2048"

record ioqueue =
  producer :: "nat option"
  consumer :: "nat option"
  buf :: "u8 list"
  head :: int
  tail :: int

text \<open>A call either returns or goes to sleep in a waiter slot and runs its loop again when woken.\<close>

datatype 'a outcome = Done 'a | Blocked

definition ioqueue_init :: "ioqueue \<Rightarrow> ioqueue" where
  "ioqueue_init ioq = ioq\<lparr>producer := None, consumer := None, head := 0, tail := 0\<rparr>"

definition next_pos :: "int \<Rightarrow> int" where
  "next_pos pos = (pos + 1) mod BUFSIZE"

definition ioq_full :: "bool \<Rightarrow> ioqueue \<Rightarrow> bool halting" where
  "ioq_full off ioq = do { ASSERT off; Some (next_pos (head ioq) = tail ioq) }"

definition ioq_empty :: "bool \<Rightarrow> ioqueue \<Rightarrow> bool halting" where
  "ioq_empty off ioq = do { ASSERT off; Some (head ioq = tail ioq) }"

text \<open>\<^verbatim>\<open>ioq->buf[i]\<close> as a load and a store; an index outside of the array is an error.\<close>

definition buf_get :: "ioqueue \<Rightarrow> int \<Rightarrow> u8 halting" where
  "buf_get ioq i = do { ASSERT (0 \<le> i \<and> i < int (length (buf ioq))); Some (buf ioq ! nat i) }"

definition buf_set :: "ioqueue \<Rightarrow> int \<Rightarrow> u8 \<Rightarrow> ioqueue halting" where
  "buf_set ioq i c = do { ASSERT (0 \<le> i \<and> i < int (length (buf ioq))); Some (ioq\<lparr>buf := (buf ioq)[nat i := c]\<rparr>) }"

text \<open>\<^verbatim>\<open>ioq_wait\<close> on the consumer and on the producer slot, with the running task; the slot must be free.\<close>

definition ioq_wait_consumer :: "nat \<Rightarrow> ioqueue \<Rightarrow> ioqueue halting" where
  "ioq_wait_consumer cur ioq = do { ASSERT (consumer ioq = None); Some (ioq\<lparr>consumer := Some cur\<rparr>) }"

definition ioq_wait_producer :: "nat \<Rightarrow> ioqueue \<Rightarrow> ioqueue halting" where
  "ioq_wait_producer cur ioq = do { ASSERT (producer ioq = None); Some (ioq\<lparr>producer := Some cur\<rparr>) }"

text \<open>\<open>if (slot != NULL) ioq_wakeup(&slot)\<close>: the task to unblock, and the cleared slot.\<close>

definition ioq_wakeup_consumer :: "ioqueue \<Rightarrow> nat option \<times> ioqueue" where
  "ioq_wakeup_consumer ioq = (consumer ioq, ioq\<lparr>consumer := None\<rparr>)"

definition ioq_wakeup_producer :: "ioqueue \<Rightarrow> nat option \<times> ioqueue" where
  "ioq_wakeup_producer ioq = (producer ioq, ioq\<lparr>producer := None\<rparr>)"

text \<open>One turn of the blocking calls: wait when the queue is empty or full, else do the work.\<close>

definition ioq_getchar :: "bool \<Rightarrow> nat \<Rightarrow> ioqueue \<Rightarrow> (u8 outcome \<times> nat option \<times> ioqueue) halting" where
  "ioq_getchar off cur ioq = do {
     ASSERT off;
     e \<leftarrow> ioq_empty off ioq;
     if e then do {
       ioq \<leftarrow> ioq_wait_consumer cur ioq;
       Some (Blocked, None, ioq)
     } else do {
       byte \<leftarrow> buf_get ioq (tail ioq);
       let ioq = ioq\<lparr>tail := next_pos (tail ioq)\<rparr>;
       Some (Done byte, ioq_wakeup_producer ioq)
     }
   }"

definition ioq_get_raw :: "bool \<Rightarrow> ioqueue \<Rightarrow> (u8 \<times> nat option \<times> ioqueue) halting" where
  "ioq_get_raw off ioq = do {
     ASSERT off;
     e \<leftarrow> ioq_empty off ioq;
     ASSERT (\<not> e);
     byte \<leftarrow> buf_get ioq (tail ioq);
     let ioq = ioq\<lparr>tail := next_pos (tail ioq)\<rparr>;
     Some (byte, ioq_wakeup_producer ioq)
   }"

definition ioq_put_raw :: "bool \<Rightarrow> u8 \<Rightarrow> ioqueue \<Rightarrow> (nat option \<times> ioqueue) halting" where
  "ioq_put_raw off byte ioq = do {
     ASSERT off;
     f \<leftarrow> ioq_full off ioq;
     ASSERT (\<not> f);
     ioq \<leftarrow> buf_set ioq (head ioq) byte;
     let ioq = ioq\<lparr>head := next_pos (head ioq)\<rparr>;
     Some (ioq_wakeup_consumer ioq)
   }"

definition ioq_last_char :: "bool \<Rightarrow> ioqueue \<Rightarrow> u8 halting" where
  "ioq_last_char off ioq = do {
     ASSERT off;
     e \<leftarrow> ioq_empty off ioq;
     if e then Some 0
     else buf_get ioq ((head ioq - 1 + BUFSIZE) mod BUFSIZE)
   }"

definition ioq_popchar :: "bool \<Rightarrow> ioqueue \<Rightarrow> (nat option \<times> ioqueue) halting" where
  "ioq_popchar off ioq = do {
     ASSERT off;
     e \<leftarrow> ioq_empty off ioq;
     if \<not> e then
       Some (ioq_wakeup_producer (ioq\<lparr>head := (head ioq - 1 + BUFSIZE) mod BUFSIZE\<rparr>))
     else Some (None, ioq)
   }"

definition ioq_putchar :: "bool \<Rightarrow> nat \<Rightarrow> u8 \<Rightarrow> ioqueue \<Rightarrow> (unit outcome \<times> nat option \<times> ioqueue) halting" where
  "ioq_putchar off cur byte ioq = do {
     ASSERT off;
     f \<leftarrow> ioq_full off ioq;
     if f then do {
       ioq \<leftarrow> ioq_wait_producer cur ioq;
       Some (Blocked, None, ioq)
     } else do {
       ioq \<leftarrow> buf_set ioq (head ioq) byte;
       let ioq = ioq\<lparr>head := next_pos (head ioq)\<rparr>;
       Some (Done (), ioq_wakeup_consumer ioq)
     }
   }"

definition ioq_length :: "ioqueue \<Rightarrow> int" where
  "ioq_length ioq = (if head ioq \<ge> tail ioq then head ioq - tail ioq else BUFSIZE - (tail ioq - head ioq))"

section \<open>The queue a ring represents\<close>

definition ioq_wf :: "ioqueue \<Rightarrow> bool" where
  "ioq_wf q \<longleftrightarrow> length (buf q) = 2048 \<and> 0 \<le> head q \<and> head q < BUFSIZE \<and> 0 \<le> tail q \<and> tail q < BUFSIZE"

definition ioq_cnt :: "ioqueue \<Rightarrow> nat" where
  "ioq_cnt q = nat ((head q - tail q) mod BUFSIZE)"

definition slot :: "ioqueue \<Rightarrow> nat \<Rightarrow> nat" where
  "slot q i = nat ((tail q + int i) mod BUFSIZE)"

definition ioq_list :: "ioqueue \<Rightarrow> u8 list" where
  "ioq_list q = map (\<lambda>i. buf q ! slot q i) [0..<ioq_cnt q]"

lemma length_ioq_list [simp]: "length (ioq_list q) = ioq_cnt q"
  by (simp add: ioq_list_def)

lemma ioq_cnt_less: "ioq_cnt q < 2048"
  by (simp add: ioq_cnt_def BUFSIZE_def nat_less_iff)

lemma slot_less: "slot q i < 2048"
  by (simp add: slot_def BUFSIZE_def nat_less_iff)

lemma slot_inj: "i < 2048 \<Longrightarrow> j < 2048 \<Longrightarrow> slot q i = slot q j \<Longrightarrow> i = j"
proof -
  assume a: "i < 2048" "j < 2048" "slot q i = slot q j"
  then have "(tail q + int i) mod 2048 = (tail q + int j) mod 2048"
    by (simp add: slot_def BUFSIZE_def eq_nat_nat_iff)
  then have "(tail q + int i - tail q) mod 2048 = (tail q + int j - tail q) mod 2048"
    by (rule mod_diff_cong) simp
  then show "i = j"
    using a(1,2) by simp
qed

lemma slot_head: "ioq_wf q \<Longrightarrow> slot q (ioq_cnt q) = nat (head q)"
proof -
  assume "ioq_wf q"
  then have h: "head q mod 2048 = head q"
    by (simp add: ioq_wf_def BUFSIZE_def)
  have "(tail q + (head q - tail q) mod 2048) mod 2048 = head q mod 2048"
    by (simp add: mod_add_right_eq)
  then show ?thesis
    using h by (simp add: slot_def ioq_cnt_def BUFSIZE_def)
qed

lemma ioq_empty_iff: "ioq_wf q \<Longrightarrow> head q = tail q \<longleftrightarrow> ioq_list q = []"
proof -
  assume w: "ioq_wf q"
  have "(head q - tail q) mod 2048 = 0 \<longleftrightarrow> head q = tail q"
    using w mod_eq_dvd_iff [of "head q" 2048 "tail q"] by (simp add: ioq_wf_def BUFSIZE_def mod_0_imp_dvd dvd_eq_mod_eq_0)
  moreover have "ioq_list q = [] \<longleftrightarrow> (head q - tail q) mod 2048 = 0"
    using pos_mod_bound [of 2048 "head q - tail q"] pos_mod_sign [of 2048 "head q - tail q"]
    by (auto simp: ioq_list_def ioq_cnt_def BUFSIZE_def)
  ultimately show ?thesis
    by simp
qed

lemma cnt_succ: "ioq_cnt q < 2047 \<Longrightarrow> nat ((head q + 1 - tail q) mod 2048) = Suc (ioq_cnt q)"
proof -
  assume "ioq_cnt q < 2047"
  then have n: "(head q - tail q) mod 2048 < 2047"
    by (simp add: ioq_cnt_def BUFSIZE_def nat_less_iff)
  have "(head q + 1 - tail q) mod 2048 = ((head q - tail q) mod 2048 + 1) mod 2048"
    using mod_add_left_eq [of "head q - tail q" 2048 1] by (simp only: diff_add_eq)
  also have "\<dots> = (head q - tail q) mod 2048 + 1"
    using n by (intro mod_pos_pos_trivial) (auto intro: add_nonneg_nonneg)
  finally show ?thesis
    by (simp add: ioq_cnt_def BUFSIZE_def nat_add_distrib)
qed

lemma ioq_full_iff: "ioq_wf q \<Longrightarrow> next_pos (head q) = tail q \<longleftrightarrow> ioq_cnt q = 2047"
proof
  assume w: "ioq_wf q" and "next_pos (head q) = tail q"
  then have "(head q + 1 - tail q) mod 2048 = 0"
    by (metis BUFSIZE_def mod_diff_left_eq next_pos_def diff_self mod_0)
  then show "ioq_cnt q = 2047"
    using cnt_succ [of q] ioq_cnt_less [of q] by (cases "ioq_cnt q < 2047") auto
next
  assume w: "ioq_wf q" and "ioq_cnt q = 2047"
  then have "slot q (Suc (ioq_cnt q)) = nat (tail q)"
    by (simp add: slot_def BUFSIZE_def ioq_wf_def)
  moreover have "(tail q + int (Suc (ioq_cnt q))) mod 2048 = (head q + 1) mod 2048"
  proof -
    have "(tail q + int (Suc (ioq_cnt q))) mod 2048 = (tail q + (head q - tail q) mod 2048 + 1) mod 2048"
      by (simp add: ioq_cnt_def BUFSIZE_def algebra_simps)
    also have "\<dots> = (tail q + 1 + (head q - tail q)) mod 2048"
      using mod_add_right_eq [of "tail q + 1" "head q - tail q" 2048] by (simp only: ac_simps)
    finally show ?thesis
      by (simp add: algebra_simps)
  qed
  ultimately show "next_pos (head q) = tail q"
    using w by (simp add: slot_def next_pos_def BUFSIZE_def ioq_wf_def eq_nat_nat_iff)
qed

section \<open>The operations on the represented queue\<close>

lemma next_pos_range: "0 \<le> next_pos i" "next_pos i < BUFSIZE"
  by (simp_all add: next_pos_def BUFSIZE_def)

lemma ioq_empty_eq: "ioq_wf q \<Longrightarrow> ioq_empty True q = Some (ioq_list q = [])"
  by (simp add: ioq_empty_def ioq_empty_iff)

lemma ioq_full_eq: "ioq_wf q \<Longrightarrow> ioq_full True q = Some (length (ioq_list q) = 2047)"
  by (simp add: ioq_full_def ioq_full_iff)

lemma ioq_list_le: "length (ioq_list q) \<le> 2047"
  using ioq_cnt_less [of q] by simp

lemma ring_put:
  assumes w: "ioq_wf q" and n: "length (ioq_list q) < 2047"
  shows "ioq_wf (q\<lparr>buf := (buf q)[nat (head q) := c], head := next_pos (head q)\<rparr>)"
    "ioq_list (q\<lparr>buf := (buf q)[nat (head q) := c], head := next_pos (head q)\<rparr>) = ioq_list q @ [c]"
proof -
  let ?q = "q\<lparr>buf := (buf q)[nat (head q) := c], head := next_pos (head q)\<rparr>"
  show "ioq_wf ?q"
    using w next_pos_range by (simp add: ioq_wf_def)
  have "(next_pos (head q) - tail q) mod 2048 = (head q + 1 - tail q) mod 2048"
    by (simp add: next_pos_def BUFSIZE_def mod_diff_left_eq)
  then have cnt: "ioq_cnt ?q = Suc (ioq_cnt q)"
    using cnt_succ [of q] n by (simp add: ioq_cnt_def BUFSIZE_def)
  have sl: "slot ?q i = slot q i" for i
    by (simp add: slot_def)
  have "(buf q)[nat (head q) := c] ! slot q i = buf q ! slot q i" if "i < ioq_cnt q" for i
  proof -
    have "slot q i \<noteq> slot q (ioq_cnt q)"
      using slot_inj [of i "ioq_cnt q" q] that ioq_cnt_less [of q] by auto
    then show ?thesis
      by (simp add: slot_head [OF w])
  qed
  moreover have "nat (head q) < length (buf q)"
    using slot_less [of q "ioq_cnt q"] w by (simp add: slot_head ioq_wf_def)
  ultimately show "ioq_list ?q = ioq_list q @ [c]"
    by (simp add: ioq_list_def cnt sl slot_head [OF w])
qed

lemma ring_get:
  assumes w: "ioq_wf q" and c: "ioq_list q = c # cs"
  shows "ioq_wf (q\<lparr>tail := next_pos (tail q)\<rparr>)" "ioq_list (q\<lparr>tail := next_pos (tail q)\<rparr>) = cs"
    "buf_get q (tail q) = Some c"
proof -
  let ?q = "q\<lparr>tail := next_pos (tail q)\<rparr>"
  show "ioq_wf ?q"
    using w next_pos_range by (simp add: ioq_wf_def)
  have n: "0 < ioq_cnt q" "ioq_cnt q \<le> 2047"
    using c ioq_cnt_less [of q] length_ioq_list [of q] by auto
  have "(head q - next_pos (tail q)) mod 2048 = (head q - (tail q + 1)) mod 2048"
    by (simp add: next_pos_def BUFSIZE_def mod_diff_right_eq)
  also have "\<dots> = ((head q - tail q) mod 2048 - 1) mod 2048"
    using mod_diff_left_eq [of "head q - tail q" 2048 1] by (simp only: diff_diff_eq)
  also have "\<dots> = (head q - tail q) mod 2048 - 1"
    using n by (intro mod_pos_pos_trivial) (auto simp: ioq_cnt_def BUFSIZE_def)
  finally have cnt: "ioq_cnt ?q = ioq_cnt q - 1"
    by (simp add: ioq_cnt_def BUFSIZE_def nat_diff_distrib)
  have sl: "slot ?q i = slot q (Suc i)" for i
    using mod_add_left_eq [of "tail q + 1" 2048 "int i"] by (simp add: slot_def next_pos_def BUFSIZE_def ac_simps)
  have "ioq_list q = buf q ! slot q 0 # map (\<lambda>i. buf q ! slot q (Suc i)) [0..<ioq_cnt q - 1]"
    using n(1) unfolding ioq_list_def
    by (cases "ioq_cnt q") (simp_all add: upt_rec [of 0] map_Suc_upt [symmetric] o_def del: upt_Suc)
  then have e: "c = buf q ! slot q 0" "cs = map (\<lambda>i. buf q ! slot q (Suc i)) [0..<ioq_cnt q - 1]"
    using c by simp_all
  show "ioq_list ?q = cs"
    by (simp add: ioq_list_def cnt sl e(2))
  show "buf_get q (tail q) = Some c"
    using w by (simp add: e(1) buf_get_def slot_def BUFSIZE_def ioq_wf_def)
qed

lemma ring_pop:
  assumes w: "ioq_wf q" and c: "ioq_list q = cs @ [c]" and h: "h = (head q - 1 + BUFSIZE) mod BUFSIZE"
  shows "ioq_wf (q\<lparr>head := h\<rparr>)" "ioq_list (q\<lparr>head := h\<rparr>) = cs" "buf_get q h = Some c"
proof -
  let ?q = "q\<lparr>head := h\<rparr>"
  show w': "ioq_wf ?q"
    using w by (simp add: h ioq_wf_def BUFSIZE_def)
  have n: "0 < ioq_cnt q" "ioq_cnt q \<le> 2047"
    using c ioq_cnt_less [of q] length_ioq_list [of q] by auto
  have "h = (head q - 1) mod 2048"
    unfolding h BUFSIZE_def by (rule mod_add_self2)
  then have "(h - tail q) mod 2048 = (head q - 1 - tail q) mod 2048"
    by (simp add: mod_diff_left_eq)
  also have "\<dots> = ((head q - tail q) mod 2048 - 1) mod 2048"
    using mod_diff_left_eq [of "head q - tail q" 2048 1] by (simp only: diff_diff_eq ac_simps)
  also have "\<dots> = (head q - tail q) mod 2048 - 1"
    using n by (intro mod_pos_pos_trivial) (auto simp: ioq_cnt_def BUFSIZE_def)
  finally have cnt: "ioq_cnt ?q = ioq_cnt q - 1"
    by (simp add: ioq_cnt_def BUFSIZE_def nat_diff_distrib)
  have sl: "slot ?q i = slot q i" for i
    by (simp add: slot_def)
  have "ioq_list q = ioq_list ?q @ [buf q ! slot q (ioq_cnt q - 1)]"
    using n(1) by (cases "ioq_cnt q") (simp_all add: ioq_list_def cnt sl)
  then have e: "c = buf q ! slot q (ioq_cnt q - 1)" "ioq_list ?q = cs"
    using c by simp_all
  then show "ioq_list ?q = cs"
    by simp
  have "slot q (ioq_cnt q - 1) = nat h"
    using slot_head [OF w'] by (simp add: cnt sl)
  then show "buf_get q h = Some c"
    using w e(1) w' by (simp add: buf_get_def BUFSIZE_def ioq_wf_def)
qed

lemma ioq_put_raw_spec:
  assumes "ioq_wf q" "length (ioq_list q) < 2047"
  shows "\<exists>q'. ioq_put_raw True c q = Some (consumer q, q') \<and> ioq_wf q' \<and> ioq_list q' = ioq_list q @ [c] \<and>
    consumer q' = None \<and> producer q' = producer q"
proof -
  let ?q = "q\<lparr>buf := (buf q)[nat (head q) := c], head := next_pos (head q)\<rparr>"
  have "0 \<le> head q" "head q < int (length (buf q))"
    using assms(1) by (simp_all add: ioq_wf_def BUFSIZE_def)
  then have "ioq_put_raw True c q = Some (consumer q, ?q\<lparr>consumer := None\<rparr>)"
    using ioq_full_eq [OF assms(1)] assms(2)
    by (simp add: ioq_put_raw_def buf_set_def ioq_wakeup_consumer_def Let_def)
  moreover have "ioq_wf (?q\<lparr>consumer := None\<rparr>) = ioq_wf ?q" "ioq_list (?q\<lparr>consumer := None\<rparr>) = ioq_list ?q"
    by (simp_all add: ioq_wf_def ioq_list_def ioq_cnt_def slot_def)
  ultimately show ?thesis
    using ring_put [OF assms] by simp
qed

lemma ioq_get_raw_spec:
  assumes "ioq_wf q" "ioq_list q = c # cs"
  shows "\<exists>q'. ioq_get_raw True q = Some (c, producer q, q') \<and> ioq_wf q' \<and> ioq_list q' = cs \<and>
    producer q' = None \<and> consumer q' = consumer q"
proof -
  let ?q = "q\<lparr>tail := next_pos (tail q)\<rparr>"
  have "ioq_get_raw True q = Some (c, producer q, ?q\<lparr>producer := None\<rparr>)"
    using ioq_empty_eq [OF assms(1)] assms(2) ring_get(3) [OF assms]
    by (simp add: ioq_get_raw_def ioq_wakeup_producer_def Let_def)
  moreover have "ioq_wf (?q\<lparr>producer := None\<rparr>) = ioq_wf ?q" "ioq_list (?q\<lparr>producer := None\<rparr>) = ioq_list ?q"
    by (simp_all add: ioq_wf_def ioq_list_def ioq_cnt_def slot_def)
  ultimately show ?thesis
    using ring_get [OF assms] by simp
qed

section \<open>Bounded queues\<close>

text \<open>
  The interface the pipes and the terminal input use: a queue of bounded length with tests for empty
  and full, and put and get that report a task to wake. A client tests before every put and get, the way
  the loops of \<^verbatim>\<open>pipe_read\<close> and \<^verbatim>\<open>pipe_write\<close> do; \<open>run_ops\<close> returns the characters accepted, the characters
  returned and the final state of such a client, and \<open>queue_spec\<close> is what it has to see on a list with room
  for \<open>n\<close> characters.
\<close>

datatype 'a queue_op = Put 'a | Get

fun run_ops :: "('s \<Rightarrow> bool option) \<Rightarrow> ('s \<Rightarrow> bool option) \<Rightarrow> ('a \<Rightarrow> 's \<Rightarrow> ('w \<times> 's) option) \<Rightarrow>
    ('s \<Rightarrow> ('a \<times> 'w \<times> 's) option) \<Rightarrow> 'a queue_op list \<Rightarrow> 's \<Rightarrow> ('a list \<times> 'a list \<times> 's) option" where
  "run_ops is_full is_empty put get [] s = Some ([], [], s)"
| "run_ops is_full is_empty put get (Put c # ops) s = do {
     f \<leftarrow> is_full s;
     if f then run_ops is_full is_empty put get ops s
     else do {
       (w, s) \<leftarrow> put c s;
       (ins, outs, s) \<leftarrow> run_ops is_full is_empty put get ops s;
       Some (c # ins, outs, s)
     }
   }"
| "run_ops is_full is_empty put get (Get # ops) s = do {
     e \<leftarrow> is_empty s;
     if e then run_ops is_full is_empty put get ops s
     else do {
       (c, w, s) \<leftarrow> get s;
       (ins, outs, s) \<leftarrow> run_ops is_full is_empty put get ops s;
       Some (ins, c # outs, s)
     }
   }"

fun queue_spec :: "nat \<Rightarrow> 'a queue_op list \<Rightarrow> 'a list \<Rightarrow> 'a list \<times> 'a list \<times> 'a list" where
  "queue_spec n [] xs = ([], [], xs)"
| "queue_spec n (Put c # ops) xs =
     (if length xs < n then let (ins, outs, ys) = queue_spec n ops (xs @ [c]) in (c # ins, outs, ys)
      else queue_spec n ops xs)"
| "queue_spec n (Get # ops) xs = (case xs of
       [] \<Rightarrow> queue_spec n ops []
     | x # xs \<Rightarrow> let (ins, outs, ys) = queue_spec n ops xs in (ins, x # outs, ys))"

lemma queue_spec_stream:
  "queue_spec n ops xs = (ins, outs, ys) \<Longrightarrow> outs @ ys = xs @ ins \<and> (length xs \<le> n \<longrightarrow> length ys \<le> n)"
  by (induction n ops xs arbitrary: ins outs ys rule: queue_spec.induct)
    (fastforce split: if_splits list.splits prod.splits)+

locale bounded_queue =
  fixes inv :: "'s \<Rightarrow> bool"
    and contents :: "'s \<Rightarrow> 'a list"
    and capacity :: nat
    and is_full :: "'s \<Rightarrow> bool option"
    and is_empty :: "'s \<Rightarrow> bool option"
    and put :: "'a \<Rightarrow> 's \<Rightarrow> ('w \<times> 's) option"
    and get :: "'s \<Rightarrow> ('a \<times> 'w \<times> 's) option"
  assumes bound: "inv s \<Longrightarrow> length (contents s) \<le> capacity"
    and full_law: "inv s \<Longrightarrow> is_full s = Some (length (contents s) = capacity)"
    and empty_law: "inv s \<Longrightarrow> is_empty s = Some (contents s = [])"
    and put_law: "inv s \<Longrightarrow> length (contents s) < capacity \<Longrightarrow>
      \<exists>w s'. put c s = Some (w, s') \<and> inv s' \<and> contents s' = contents s @ [c]"
    and get_law: "inv s \<Longrightarrow> contents s = c # cs \<Longrightarrow>
      \<exists>w s'. get s = Some (c, w, s') \<and> inv s' \<and> contents s' = cs"
begin

lemma refines:
  "inv s \<Longrightarrow> \<exists>ins outs s'. run_ops is_full is_empty put get ops s = Some (ins, outs, s') \<and> inv s' \<and>
    queue_spec capacity ops (contents s) = (ins, outs, contents s')"
proof (induction ops arbitrary: s)
  case (Cons op ops)
  note inv = Cons.prems
  show ?case
  proof (cases op)
    case (Put c)
    show ?thesis
    proof (cases "length (contents s) = capacity")
      case True
      then show ?thesis
        using Put Cons.IH [OF inv] full_law [OF inv] by simp
    next
      case False
      then obtain w s1 where s1: "put c s = Some (w, s1)" "inv s1" "contents s1 = contents s @ [c]"
        using put_law [OF inv, of c] bound [OF inv] by auto
      obtain ins outs s2 where "run_ops is_full is_empty put get ops s1 = Some (ins, outs, s2)" "inv s2"
          "queue_spec capacity ops (contents s1) = (ins, outs, contents s2)"
        using Cons.IH [OF s1(2)] by blast
      then show ?thesis
        using Put False full_law [OF inv] bound [OF inv] s1 by simp
    qed
  next
    case Get
    show ?thesis
    proof (cases "contents s")
      case Nil
      then show ?thesis
        using Get Cons.IH [OF inv] empty_law [OF inv] by simp
    next
      case (Cons c cs)
      then obtain w s1 where s1: "get s = Some (c, w, s1)" "inv s1" "contents s1 = cs"
        using get_law [OF inv] by blast
      obtain ins outs s2 where "run_ops is_full is_empty put get ops s1 = Some (ins, outs, s2)" "inv s2"
          "queue_spec capacity ops (contents s1) = (ins, outs, contents s2)"
        using Cons.IH [OF s1(2)] by blast
      then show ?thesis
        using Get Cons empty_law [OF inv] s1 by simp
    qed
  qed
qed simp

end

interpretation ioq: bounded_queue ioq_wf ioq_list 2047 "ioq_full True" "ioq_empty True" "ioq_put_raw True" "ioq_get_raw True"
proof
  show "length (ioq_list s) \<le> 2047" for s
    by (rule ioq_list_le)
  show "ioq_full True s = Some (length (ioq_list s) = 2047)" if "ioq_wf s" for s
    using ioq_full_eq [OF that] .
  show "ioq_empty True s = Some (ioq_list s = [])" if "ioq_wf s" for s
    using ioq_empty_eq [OF that] .
  show "\<exists>w s'. ioq_put_raw True c s = Some (w, s') \<and> ioq_wf s' \<and> ioq_list s' = ioq_list s @ [c]"
    if "ioq_wf s" "length (ioq_list s) < 2047" for s c
    using ioq_put_raw_spec [OF that] by blast
  show "\<exists>w s'. ioq_get_raw True s = Some (c, w, s') \<and> ioq_wf s' \<and> ioq_list s' = cs"
    if "ioq_wf s" "ioq_list s = c # cs" for s c cs
    using ioq_get_raw_spec [OF that] by blast
qed

section \<open>Properties\<close>

text \<open>
  C37. The ring is a first-in first-out queue of exactly 2047 characters. Whatever the order of puts and gets,
  a put is accepted if and only if fewer than 2047 characters are inside, a get returns the oldest character
  if and only if there is one, and the characters accepted, returned and left are those of a list treated
  the same way; so none is lost, duplicated or reordered across any wrap-around of the indices, the tests for
  full and empty tell the truth in every state reached, and no assertion fails.
\<close>

theorem ioq_stream:
  assumes "ioq_wf q"
  shows "\<exists>ins outs q'. run_ops (ioq_full True) (ioq_empty True) (ioq_put_raw True) (ioq_get_raw True) ops q =
      Some (ins, outs, q') \<and> ioq_wf q' \<and> queue_spec 2047 ops (ioq_list q) = (ins, outs, ioq_list q') \<and>
    outs @ ioq_list q' = ioq_list q @ ins \<and> length (ioq_list q') \<le> 2047 \<and>
    ioq_full True q' = Some (length (ioq_list q') = 2047) \<and> ioq_empty True q' = Some (ioq_list q' = [])"
proof -
  obtain ins outs q' where r: "run_ops (ioq_full True) (ioq_empty True) (ioq_put_raw True) (ioq_get_raw True) ops q =
      Some (ins, outs, q')" "ioq_wf q'" "queue_spec 2047 ops (ioq_list q) = (ins, outs, ioq_list q')"
    using ioq.refines [OF assms] by blast
  show ?thesis
    using r queue_spec_stream [OF r(3)] ioq_list_le [of q'] ioq.full_law [OF r(2)] ioq.empty_law [OF r(2)]
    by (intro exI [of _ ins] exI [of _ outs] exI [of _ q']) blast
qed

text \<open>A ring whose indices are about to wrap.\<close>

definition ex_ring :: ioqueue where
  "ex_ring = \<lparr>producer = None, consumer = Some 7, buf = (replicate 2048 0)[2046 := 65, 2047 := 66],
     head = 0, tail = 2046\<rparr>"

lemma ex_ring_wf: "ioq_wf ex_ring"
  by (simp add: ex_ring_def ioq_wf_def BUFSIZE_def)

lemma ex_ring_list: "ioq_list ex_ring = [65, 66]"
proof -
  have "ioq_cnt ex_ring = 2"
    by (simp add: ex_ring_def ioq_cnt_def BUFSIZE_def)
  moreover have "[0..<2] = [0, Suc 0]"
    by (simp add: upt_rec numeral_2_eq_2)
  ultimately show ?thesis
    by (simp add: ioq_list_def slot_def BUFSIZE_def) (simp add: ex_ring_def)
qed

theorem ioq_stream_witness:
  "\<exists>q'. run_ops (ioq_full True) (ioq_empty True) (ioq_put_raw True) (ioq_get_raw True)
      [Get, Put 67, Get, Get, Get] ex_ring = Some ([67], [65, 66, 67], q') \<and> ioq_empty True q' = Some True"
  using ioq_stream [OF ex_ring_wf, of "[Get, Put 67, Get, Get, Get]"] by (auto simp: ex_ring_list)

text \<open>
  Line editing works on the other end of the ring: \<^verbatim>\<open>ioq_last_char\<close> reads the character put in
  last, \<^verbatim>\<open>ioq_popchar\<close> takes exactly that one back, and both leave an empty queue alone;
  \<^verbatim>\<open>ioq_length\<close> is the number of characters inside.
\<close>

theorem ioq_pop_last:
  assumes "ioq_wf q"
  shows "ioq_length q = int (length (ioq_list q)) \<and>
    ioq_last_char True q = Some (if ioq_list q = [] then 0 else last (ioq_list q)) \<and>
    (\<exists>w q'. ioq_popchar True q = Some (w, q') \<and> ioq_wf q' \<and> ioq_list q' = butlast (ioq_list q) \<and>
      (ioq_list q \<noteq> [] \<longrightarrow> w = producer q \<and> producer q' = None))"
proof -
  have "(head q - tail q) mod 2048 = ioq_length q"
  proof (cases "head q \<ge> tail q")
    case True
    then show ?thesis
      using assms by (simp add: ioq_length_def ioq_wf_def BUFSIZE_def)
  next
    case False
    have "(head q - tail q) mod 2048 = (head q - tail q + 2048) mod 2048"
      by simp
    also have "\<dots> = head q - tail q + 2048"
      using assms False by (intro mod_pos_pos_trivial) (auto simp: ioq_wf_def BUFSIZE_def)
    finally show ?thesis
      using False by (simp add: ioq_length_def BUFSIZE_def)
  qed
  then have len: "ioq_length q = int (length (ioq_list q))"
    using pos_mod_sign [of 2048 "head q - tail q"] by (simp add: ioq_cnt_def BUFSIZE_def)
  show ?thesis
  proof (cases "ioq_list q" rule: rev_cases)
    case Nil
    then show ?thesis
      using len ioq_empty_eq [OF assms] assms by (simp add: ioq_last_char_def ioq_popchar_def)
  next
    case (snoc cs c)
    define h where "h = (head q - 1 + BUFSIZE) mod BUFSIZE"
    note p = ring_pop [OF assms snoc h_def]
    let ?q = "q\<lparr>head := h\<rparr>"
    have "ioq_wf (?q\<lparr>producer := None\<rparr>) = ioq_wf ?q" "ioq_list (?q\<lparr>producer := None\<rparr>) = ioq_list ?q"
      by (simp_all add: ioq_wf_def ioq_list_def ioq_cnt_def slot_def)
    then show ?thesis
      using len ioq_empty_eq [OF assms] snoc p
      unfolding ioq_last_char_def ioq_popchar_def h_def [symmetric]
      by (simp add: ioq_wakeup_producer_def)
  qed
qed

end
