(* ===== verification/File_Table.thy ===== *)
theory File_Table
  imports Kernel_Prelude
begin

text \<open>
  The system-wide open file table and the descriptor table of a process, \<^verbatim>\<open>fs/file_table.c\<close>. An inode is
  a number, \<open>None\<close> is \<^verbatim>\<open>NULL\<close>.
\<close>

section \<open>The code\<close>

definition MAX_FILE_OPEN_IN_SYSTEM :: nat where
  "MAX_FILE_OPEN_IN_SYSTEM = 64"

definition MAX_FILES_OPEN_PER_PROC :: nat where
  "MAX_FILES_OPEN_PER_PROC = 32"

datatype file_op = No_op | Pipe_op | Fifo_op

record open_file =
  fd_pos :: u32
  fd_flag :: u32
  fd_inode :: "nat option"
  f_count :: u32
  f_op :: file_op

record fd_entry =
  global_fd_idx :: int
  flags :: u32

definition zero_file :: open_file where
  "zero_file = \<lparr>fd_pos = 0, fd_flag = 0, fd_inode = None, f_count = 0, f_op = No_op\<rparr>"

text \<open>
  The search from slot 3 on; a slot without an inode is zeroed in place. Reading past the 64 entries of
  the array cannot happen, a shorter list would fault.
\<close>

function get_free_slot_loop :: "open_file list \<Rightarrow> nat \<Rightarrow> (int \<times> open_file list) halting" where
  "get_free_slot_loop ft fd_idx =
     (if fd_idx < MAX_FILE_OPEN_IN_SYSTEM then do {
        ASSERT (fd_idx < length ft);
        if fd_inode (ft ! fd_idx) = None then Some (int fd_idx, ft[fd_idx := zero_file])
        else get_free_slot_loop ft (fd_idx + 1)
      } else Some (- 1, ft))"
  by pat_completeness auto
termination
  by (relation "measure (\<lambda>(ft, fd_idx). MAX_FILE_OPEN_IN_SYSTEM - fd_idx)") auto

declare get_free_slot_loop.simps [simp del]

definition get_free_slot_in_global :: "open_file list \<Rightarrow> (int \<times> open_file list) halting" where
  "get_free_slot_in_global ft = get_free_slot_loop ft 3"

function fd_install_loop :: "int \<Rightarrow> fd_entry list \<Rightarrow> nat \<Rightarrow> (int \<times> fd_entry list) halting" where
  "fd_install_loop g fds local_fd_idx =
     (if local_fd_idx < MAX_FILES_OPEN_PER_PROC then do {
        ASSERT (local_fd_idx < length fds);
        if global_fd_idx (fds ! local_fd_idx) = - 1
        then Some (int local_fd_idx, fds[local_fd_idx := \<lparr>global_fd_idx = g, flags = 0\<rparr>])
        else fd_install_loop g fds (local_fd_idx + 1)
      } else Some (- 1, fds))"
  by pat_completeness auto
termination
  by (relation "measure (\<lambda>(g, fds, i). MAX_FILES_OPEN_PER_PROC - i)") auto

declare fd_install_loop.simps [simp del]

definition pcb_fd_install :: "int \<Rightarrow> fd_entry list \<Rightarrow> (int \<times> fd_entry list) halting" where
  "pcb_fd_install g fds = fd_install_loop g fds 0"

definition fd_local2global :: "fd_entry list \<Rightarrow> nat \<Rightarrow> int halting" where
  "fd_local2global fds local_fd = do {
     ASSERT (local_fd < length fds);
     let global_fd = global_fd_idx (fds ! local_fd);
     ASSERT (0 \<le> global_fd \<and> global_fd < int MAX_FILE_OPEN_IN_SYSTEM);
     Some global_fd
   }"

section \<open>The least free slot\<close>

lemma get_free_slot_loop_spec:
  "length ft = MAX_FILE_OPEN_IN_SYSTEM \<Longrightarrow> i \<le> k \<Longrightarrow> k < length ft \<Longrightarrow> fd_inode (ft ! k) = None \<Longrightarrow>
    \<forall>j. i \<le> j \<and> j < k \<longrightarrow> fd_inode (ft ! j) \<noteq> None \<Longrightarrow>
    get_free_slot_loop ft i = Some (int k, ft[k := zero_file])"
proof (induction "k - i" arbitrary: i)
  case 0
  then show ?case by (subst get_free_slot_loop.simps) simp
next
  case (Suc n)
  have "get_free_slot_loop ft (i + 1) = Some (int k, ft[k := zero_file])"
    using Suc.hyps(2) Suc.prems by (intro Suc.hyps(1)) auto
  moreover have "fd_inode (ft ! i) \<noteq> None"
    using Suc.hyps(2) Suc.prems(5) by simp
  ultimately show ?case
    using Suc.hyps(2) Suc.prems(1-3) by (subst get_free_slot_loop.simps) auto
qed

lemma get_free_slot_full:
  "length ft = MAX_FILE_OPEN_IN_SYSTEM \<Longrightarrow> \<forall>j. i \<le> j \<and> j < length ft \<longrightarrow> fd_inode (ft ! j) \<noteq> None \<Longrightarrow>
    get_free_slot_loop ft i = Some (- 1, ft)"
proof (induction "length ft - i" arbitrary: i)
  case 0
  then show ?case by (subst get_free_slot_loop.simps) simp
next
  case (Suc n)
  have "get_free_slot_loop ft (i + 1) = Some (- 1, ft)"
    using Suc.hyps(2) Suc.prems by (intro Suc.hyps(1)) auto
  moreover have "fd_inode (ft ! i) \<noteq> None"
    using Suc.hyps(2) Suc.prems(2) by simp
  ultimately show ?case
    using Suc.hyps(2) Suc.prems(1) by (subst get_free_slot_loop.simps) auto
qed

lemma fd_install_loop_spec:
  "length fds = MAX_FILES_OPEN_PER_PROC \<Longrightarrow> i \<le> k \<Longrightarrow> k < length fds \<Longrightarrow> global_fd_idx (fds ! k) = - 1 \<Longrightarrow>
    \<forall>j. i \<le> j \<and> j < k \<longrightarrow> global_fd_idx (fds ! j) \<noteq> - 1 \<Longrightarrow>
    fd_install_loop g fds i = Some (int k, fds[k := \<lparr>global_fd_idx = g, flags = 0\<rparr>])"
proof (induction "k - i" arbitrary: i)
  case 0
  then show ?case by (subst fd_install_loop.simps) simp
next
  case (Suc n)
  have "fd_install_loop g fds (i + 1) = Some (int k, fds[k := \<lparr>global_fd_idx = g, flags = 0\<rparr>])"
    using Suc.hyps(2) Suc.prems by (intro Suc.hyps(1)) auto
  then show ?case
    using Suc.hyps(2) Suc.prems by (subst fd_install_loop.simps) simp
qed

definition free_slots :: "open_file list \<Rightarrow> nat set" where
  "free_slots ft = {i. 3 \<le> i \<and> i < length ft \<and> fd_inode (ft ! i) = None}"

definition free_fds :: "fd_entry list \<Rightarrow> nat set" where
  "free_fds fds = {i. i < length fds \<and> global_fd_idx (fds ! i) = - 1}"

lemma finite_free_slots [simp]: "finite (free_slots ft)" "finite (free_fds fds)"
  by (simp_all add: free_slots_def free_fds_def)

text \<open>Both tables hand out the least free index, and only that entry changes.\<close>

lemma get_free_slot_min:
  assumes "length ft = MAX_FILE_OPEN_IN_SYSTEM" "free_slots ft \<noteq> {}"
  shows "\<exists>k. get_free_slot_in_global ft = Some (int k, ft[k := zero_file]) \<and> k = Min (free_slots ft) \<and> k \<in> free_slots ft"
proof -
  define k where "k = Min (free_slots ft)"
  have k: "k \<in> free_slots ft"
    unfolding k_def using Min_in [OF finite_free_slots(1) assms(2)] .
  then have r: "3 \<le> k" "k < length ft" "fd_inode (ft ! k) = None"
    by (simp_all add: free_slots_def)
  have "fd_inode (ft ! j) \<noteq> None" if "3 \<le> j" "j < k" for j
  proof
    assume "fd_inode (ft ! j) = None"
    then have "j \<in> free_slots ft"
      using that r by (simp add: free_slots_def)
    then show False
      using Min_le [OF finite_free_slots(1)] that(2) unfolding k_def by (meson leD)
  qed
  then have "get_free_slot_in_global ft = Some (int k, ft[k := zero_file])"
    unfolding get_free_slot_in_global_def using assms(1) r by (intro get_free_slot_loop_spec) auto
  then show ?thesis
    using k k_def by blast
qed

lemma pcb_fd_install_min:
  assumes "length fds = MAX_FILES_OPEN_PER_PROC" "free_fds fds \<noteq> {}"
  shows "\<exists>k. pcb_fd_install g fds = Some (int k, fds[k := \<lparr>global_fd_idx = g, flags = 0\<rparr>]) \<and>
    k = Min (free_fds fds) \<and> k \<in> free_fds fds"
proof -
  define k where "k = Min (free_fds fds)"
  have k: "k \<in> free_fds fds"
    unfolding k_def using Min_in [OF finite_free_slots(2) assms(2)] .
  then have r: "k < length fds" "global_fd_idx (fds ! k) = - 1"
    by (simp_all add: free_fds_def)
  have "global_fd_idx (fds ! j) \<noteq> - 1" if "j < k" for j
  proof
    assume "global_fd_idx (fds ! j) = - 1"
    then have "j \<in> free_fds fds"
      using that r by (simp add: free_fds_def)
    then show False
      using Min_le [OF finite_free_slots(2)] that unfolding k_def by (meson leD)
  qed
  then have "pcb_fd_install g fds = Some (int k, fds[k := \<lparr>global_fd_idx = g, flags = 0\<rparr>])"
    unfolding pcb_fd_install_def using assms(1) r by (intro fd_install_loop_spec) auto
  then show ?thesis
    using k k_def by blast
qed

end
