(* ===== verification/Pipe.thy ===== *)
theory Pipe
  imports Ioqueue File_Table
begin

text \<open>
  Pipes and FIFOs, \<^verbatim>\<open>fs/pipe.c\<close> and \<^verbatim>\<open>fs/fifo.c\<close>: one turn of the read and write loops between two
  points where interrupts are enabled, the release and open operations, and a step relation that interleaves
  a reader and a writer byte by byte.
\<close>

section \<open>The code\<close>

definition O_RDONLY :: u32 where "O_RDONLY = 1"
definition O_WRONLY :: u32 where "O_WRONLY = 2"
definition O_RDWR :: u32 where "O_RDWR = 4"
definition EPIPE :: int where "EPIPE = 32"

record pipe_inode_info =
  base :: "ioqueue option"
  reader_count :: u32
  writer_count :: u32

text \<open>\<open>page\<close> is the page \<^verbatim>\<open>get_kernel_pages(1)\<close> returned, seen as the queue at its start.\<close>

definition init_pipe :: "ioqueue option \<Rightarrow> pipe_inode_info \<Rightarrow> int \<times> pipe_inode_info" where
  "init_pipe page pii =
     (if base pii \<noteq> None then (0, pii)
      else case page of None \<Rightarrow> (- 1, pii)
        | Some p \<Rightarrow> (0, \<lparr>base = Some (ioqueue_init p), reader_count = 0, writer_count = 0\<rparr>))"

text \<open>
  One turn of the loop of \<^verbatim>\<open>pipe_read\<close>: a byte, the end of the call (\<open>Done None\<close>), or sleep. The second
  component is the task the turn wakes.
\<close>

definition pipe_read_turn :: "nat \<Rightarrow> nat \<Rightarrow> pipe_inode_info \<Rightarrow>
    (u8 option outcome \<times> nat option \<times> pipe_inode_info) halting" where
  "pipe_read_turn cur bytes_read pii = do {
     p \<leftarrow> base pii;
     e \<leftarrow> ioq_empty True p;
     if \<not> e then do {
       (byte, w, p) \<leftarrow> ioq_get_raw True p;
       Some (Done (Some byte), w, pii\<lparr>base := Some p\<rparr>)
     } else if bytes_read > 0 \<or> writer_count pii = 0 then Some (Done None, None, pii)
     else do {
       p \<leftarrow> ioq_wait_consumer cur p;
       Some (Blocked, None, pii\<lparr>base := Some p\<rparr>)
     }
   }"

text \<open>
  One turn of the loop of \<^verbatim>\<open>pipe_write\<close>: \<open>Done True\<close> stored the byte, \<open>Done False\<close> is the return of
  \<^verbatim>\<open>-EPIPE\<close> after \<^verbatim>\<open>SIGPIPE\<close>.
\<close>

definition pipe_write_turn :: "nat \<Rightarrow> u8 \<Rightarrow> pipe_inode_info \<Rightarrow>
    (bool outcome \<times> nat option \<times> pipe_inode_info) halting" where
  "pipe_write_turn cur byte pii = do {
     p \<leftarrow> base pii;
     if reader_count pii = 0 then Some (Done False, None, pii)
     else do {
       f \<leftarrow> ioq_full True p;
       if \<not> f then do {
         (w, p) \<leftarrow> ioq_put_raw True byte p;
         Some (Done True, w, pii\<lparr>base := Some p\<rparr>)
       } else if reader_count pii = 0 then Some (Done False, None, pii)
       else do {
         p \<leftarrow> ioq_wait_producer cur p;
         Some (Blocked, None, pii\<lparr>base := Some p\<rparr>)
       }
     }
   }"

text \<open>The loops run without interference: the bytes moved so far and how the call ended.\<close>

fun pipe_read :: "nat \<Rightarrow> nat \<Rightarrow> nat \<Rightarrow> pipe_inode_info \<Rightarrow> (u8 list \<times> unit outcome \<times> pipe_inode_info) halting" where
  "pipe_read cur bytes_read 0 pii = Some ([], Done (), pii)"
| "pipe_read cur bytes_read (Suc n) pii = do {
     (r, w, pii) \<leftarrow> pipe_read_turn cur bytes_read pii;
     case r of
       Done (Some c) \<Rightarrow> do {
         (cs, r, pii) \<leftarrow> pipe_read cur (bytes_read + 1) n pii;
         Some (c # cs, r, pii)
       }
     | Done None \<Rightarrow> Some ([], Done (), pii)
     | Blocked \<Rightarrow> Some ([], Blocked, pii)
   }"

fun pipe_write :: "nat \<Rightarrow> nat \<Rightarrow> u8 list \<Rightarrow> pipe_inode_info \<Rightarrow> (int outcome \<times> nat \<times> pipe_inode_info) halting" where
  "pipe_write cur bytes_written [] pii = Some (Done (int bytes_written), bytes_written, pii)"
| "pipe_write cur bytes_written (c # cs) pii = do {
     (r, w, pii) \<leftarrow> pipe_write_turn cur c pii;
     case r of
       Done True \<Rightarrow> pipe_write cur (bytes_written + 1) cs pii
     | Done False \<Rightarrow> Some (Done (- EPIPE), bytes_written, pii)
     | Blocked \<Rightarrow> Some (Blocked, bytes_written, pii)
   }"

definition pipe_release :: "u32 \<Rightarrow> pipe_inode_info \<Rightarrow> int \<times> nat option \<times> nat option \<times> pipe_inode_info" where
  "pipe_release flag pii = (case base pii of None \<Rightarrow> (0, None, None, pii)
     | Some p \<Rightarrow> let
         pii = (if flag AND O_RDONLY \<noteq> 0 then pii\<lparr>reader_count := reader_count pii - 1\<rparr> else pii);
         pii = (if flag AND O_WRONLY \<noteq> 0 then pii\<lparr>writer_count := writer_count pii - 1\<rparr> else pii);
         (w1, p) = ioq_wakeup_producer p;
         (w2, p) = ioq_wakeup_consumer p
       in (0, w1, w2, pii\<lparr>base := Some p\<rparr>))"

text \<open>\<^verbatim>\<open>fifo_open\<close>: the counting on entry, and one turn of the wait for the other end.\<close>

definition fifo_open_count :: "ioqueue option \<Rightarrow> u32 \<Rightarrow> pipe_inode_info \<Rightarrow> int \<times> pipe_inode_info" where
  "fifo_open_count page flag pii = (let (r, pii) = init_pipe page pii in
     if r \<noteq> 0 then (- 1, pii)
     else let
       pii = (if flag AND O_WRONLY \<noteq> 0 \<or> flag AND O_RDWR \<noteq> 0
         then pii\<lparr>writer_count := writer_count pii + 1\<rparr> else pii);
       pii = (if \<not> flag AND O_WRONLY \<noteq> 0 \<or> flag AND O_RDWR \<noteq> 0
         then pii\<lparr>reader_count := reader_count pii + 1\<rparr> else pii)
     in (0, pii))"

definition fifo_open_turn :: "nat \<Rightarrow> u32 \<Rightarrow> pipe_inode_info \<Rightarrow> (int outcome \<times> nat option \<times> pipe_inode_info) halting" where
  "fifo_open_turn cur flag pii = do {
     p \<leftarrow> base pii;
     if flag AND O_WRONLY \<noteq> 0 then do {
       let (w, p) = ioq_wakeup_consumer p;
       if reader_count pii = 0 then do {
         p \<leftarrow> ioq_wait_producer cur p;
         Some (Blocked, w, pii\<lparr>base := Some p\<rparr>)
       } else Some (Done 0, w, pii\<lparr>base := Some p\<rparr>)
     } else do {
       let (w, p) = ioq_wakeup_producer p;
       if writer_count pii = 0 then do {
         p \<leftarrow> ioq_wait_consumer cur p;
         Some (Blocked, w, pii\<lparr>base := Some p\<rparr>)
       } else Some (Done 0, w, pii\<lparr>base := Some p\<rparr>)
     }
   }"

section \<open>Uninterrupted reads and writes\<close>

lemma read_turn_byte:
  assumes "base pii = Some q" "ioq_wf q" "ioq_list q = c # cs"
  shows "\<exists>q'. pipe_read_turn cur n pii = Some (Done (Some c), producer q, pii\<lparr>base := Some q'\<rparr>) \<and> ioq_wf q' \<and>
    ioq_list q' = cs \<and> producer q' = None \<and> consumer q' = consumer q"
  using ioq_get_raw_spec [OF assms(2,3)] assms ioq_empty_eq [OF assms(2)]
  by (auto simp: pipe_read_turn_def)

lemma read_turn_empty:
  assumes "base pii = Some q" "ioq_wf q" "ioq_list q = []"
  shows "pipe_read_turn cur n pii = (if n > 0 \<or> writer_count pii = 0 then Some (Done None, None, pii)
    else if consumer q = None then Some (Blocked, None, pii\<lparr>base := Some (q\<lparr>consumer := Some cur\<rparr>)\<rparr>) else None)"
  using assms ioq_empty_eq [OF assms(2)] by (simp add: pipe_read_turn_def ioq_wait_consumer_def)

lemma read_turn_no_byte:
  assumes "base pii = Some q" "ioq_wf q" "\<And>c w pii'. pipe_read_turn cur m pii \<noteq> Some (Done (Some c), w, pii')"
  shows "ioq_list q = []"
proof (rule ccontr)
  assume "ioq_list q \<noteq> []"
  then obtain c cs where "ioq_list q = c # cs"
    by (cases "ioq_list q") auto
  from read_turn_byte [OF assms(1,2) this, of cur m] show False
    using assms(3) by blast
qed

lemma write_turn_room:
  assumes "base pii = Some q" "ioq_wf q" "length (ioq_list q) < 2047" "reader_count pii \<noteq> 0"
  shows "\<exists>q'. pipe_write_turn cur c pii = Some (Done True, consumer q, pii\<lparr>base := Some q'\<rparr>) \<and> ioq_wf q' \<and>
    ioq_list q' = ioq_list q @ [c] \<and> consumer q' = None \<and> producer q' = producer q"
  using ioq_put_raw_spec [OF assms(2,3), of c] assms ioq_full_eq [OF assms(2)]
  by (auto simp: pipe_write_turn_def)

lemma write_turn_full:
  assumes "base pii = Some q" "ioq_wf q" "length (ioq_list q) = 2047" "reader_count pii \<noteq> 0"
  shows "pipe_write_turn cur c pii = (if producer q = None
    then Some (Blocked, None, pii\<lparr>base := Some (q\<lparr>producer := Some cur\<rparr>)\<rparr>) else None)"
  using assms ioq_full_eq [OF assms(2)] by (simp add: pipe_write_turn_def ioq_wait_producer_def)

lemma waiter_irrelevant [simp]:
  "ioq_wf (q\<lparr>producer := x\<rparr>) = ioq_wf q" "ioq_list (q\<lparr>producer := x\<rparr>) = ioq_list q"
  "ioq_wf (q\<lparr>consumer := x\<rparr>) = ioq_wf q" "ioq_list (q\<lparr>consumer := x\<rparr>) = ioq_list q"
  "ioq_cnt (q\<lparr>producer := x\<rparr>) = ioq_cnt q" "ioq_cnt (q\<lparr>consumer := x\<rparr>) = ioq_cnt q"
  by (simp_all add: ioq_wf_def ioq_list_def ioq_cnt_def slot_def)

lemma pipe_write_loop_spec:
  "base pii = Some q \<Longrightarrow> ioq_wf q \<Longrightarrow> reader_count pii \<noteq> 0 \<Longrightarrow> producer q = None \<Longrightarrow>
    k = min (length cs) (2047 - length (ioq_list q)) \<Longrightarrow>
    \<exists>r q'. pipe_write cur n cs pii = Some (r, n + k, pii\<lparr>base := Some q'\<rparr>) \<and>
      ioq_wf q' \<and> ioq_list q' = ioq_list q @ take k cs \<and> (consumer q = None \<longrightarrow> consumer q' = None) \<and>
      r = (if length cs \<le> 2047 - length (ioq_list q) then Done (int (n + length cs)) else Blocked)"
proof (induction cs arbitrary: n pii q k)
  case Nil
  then show ?case by (auto intro!: exI [of _ q])
next
  case (Cons c cs)
  show ?case
  proof (cases "length (ioq_list q) < 2047")
    case True
    obtain q1 where q1: "pipe_write_turn cur c pii = Some (Done True, consumer q, pii\<lparr>base := Some q1\<rparr>)" "ioq_wf q1"
        "ioq_list q1 = ioq_list q @ [c]" "producer q1 = None" "consumer q1 = None"
      using write_turn_room [OF Cons.prems(1,2) True Cons.prems(3)] Cons.prems(4) by auto
    let ?k = "min (length cs) (2047 - length (ioq_list q1))"
    obtain r q' where r: "pipe_write cur (n + 1) cs (pii\<lparr>base := Some q1\<rparr>) = Some (r, n + 1 + ?k, pii\<lparr>base := Some q'\<rparr>)"
        "ioq_wf q'" "ioq_list q' = ioq_list q1 @ take ?k cs" "consumer q' = None"
        "r = (if length cs \<le> 2047 - length (ioq_list q1) then Done (int (n + 1 + length cs)) else Blocked)"
      using Cons.IH [of "pii\<lparr>base := Some q1\<rparr>" q1 ?k "n + 1"] q1 Cons.prems(3) by auto
    have k: "k = Suc ?k"
      using True Cons.prems(5) q1(3) by auto
    have "length (ioq_list q1) = Suc (length (ioq_list q))"
      using q1(3) by (simp del: length_ioq_list)
    then have "length cs \<le> 2047 - length (ioq_list q1) \<longleftrightarrow> length (c # cs) \<le> 2047 - length (ioq_list q)"
      using True by auto
    then show ?thesis
      using q1 r k by (auto simp del: length_ioq_list)
  next
    case False
    then have full: "length (ioq_list q) = 2047"
      using ioq_list_le [of q] by simp
    then show ?thesis
      using write_turn_full [OF Cons.prems(1,2) full Cons.prems(3)] Cons.prems by auto
  qed
qed

lemma pipe_read_loop_spec:
  "base pii = Some q \<Longrightarrow> ioq_wf q \<Longrightarrow> consumer q = None \<Longrightarrow>
    \<exists>r q'. pipe_read cur m n pii = Some (take n (ioq_list q), r, pii\<lparr>base := Some q'\<rparr>) \<and>
      ioq_wf q' \<and> ioq_list q' = drop n (ioq_list q) \<and>
      r = (if 0 < n \<and> m = 0 \<and> ioq_list q = [] \<and> writer_count pii \<noteq> 0 then Blocked else Done ())"
proof (induction n arbitrary: m pii q)
  case 0
  then show ?case by (auto intro!: exI [of _ q])
next
  case (Suc n)
  show ?case
  proof (cases "ioq_list q")
    case Nil
    note t = read_turn_empty [OF Suc.prems(1,2) Nil]
    show ?thesis
    proof (cases "m > 0 \<or> writer_count pii = 0")
      case True
      then show ?thesis
        using t Nil Suc.prems by (auto intro!: exI [of _ q])
    next
      case False
      then show ?thesis
        using t Nil Suc.prems by (auto intro!: exI [of _ "q\<lparr>consumer := Some cur\<rparr>"])
    qed
  next
    case (Cons c cs)
    obtain q1 where q1: "pipe_read_turn cur m pii = Some (Done (Some c), producer q, pii\<lparr>base := Some q1\<rparr>)" "ioq_wf q1"
        "ioq_list q1 = cs" "consumer q1 = None"
      using read_turn_byte [OF Suc.prems(1,2) Cons] Suc.prems(3) by auto
    have "\<exists>r q'. pipe_read cur (m + 1) n (pii\<lparr>base := Some q1\<rparr>) =
        Some (take n (ioq_list q1), r, (pii\<lparr>base := Some q1\<rparr>)\<lparr>base := Some q'\<rparr>) \<and>
        ioq_wf q' \<and> ioq_list q' = drop n (ioq_list q1) \<and> r = Done ()"
      using Suc.IH [of "pii\<lparr>base := Some q1\<rparr>" q1 "m + 1"] q1 by auto
    then show ?thesis
      using q1 Cons by auto
  qed
qed

section \<open>A reader and a writer\<close>

text \<open>
  Task 1 reads and task 2 writes. A call in progress carries the bytes it has moved and the bytes it
  still wants, or still has to write. A turn of one side wakes the other side by its task number; the
  assertion of \<^verbatim>\<open>thread_unblock\<close> stops the machine unless that task is asleep, so a wake-up may fail.
  Between two turns the timer interrupt may find that an alarm of a sleeping side is due and make it
  runnable (\<^verbatim>\<open>device/timer.c\<close>); the waiter slot of the queue then still holds it. \<open>alarms\<close> counts these
  wake-ups.
\<close>

datatype reader = R_idle | R_run nat nat | R_sleep nat nat | R_eof | R_closed
datatype writer = W_idle | W_run "u8 list" | W_sleep "u8 list" | W_broken | W_closed

record pipe_sys =
  pinfo :: pipe_inode_info
  rd :: reader
  wr :: writer
  written :: "u8 list"
  consumed :: "u8 list"
  alarms :: nat

definition wake_reader :: "nat option \<Rightarrow> reader \<Rightarrow> reader halting" where
  "wake_reader w r = (if w = Some 1 then case r of R_sleep m n \<Rightarrow> Some (R_run m n) | _ \<Rightarrow> None else Some r)"

definition wake_writer :: "nat option \<Rightarrow> writer \<Rightarrow> writer halting" where
  "wake_writer w r = (if w = Some 2 then case r of W_sleep cs \<Rightarrow> Some (W_run cs) | _ \<Rightarrow> None else Some r)"

inductive pipe_step :: "pipe_sys \<Rightarrow> pipe_sys \<Rightarrow> bool" where
  read_call: "rd s = R_idle \<or> rd s = R_eof \<Longrightarrow> pipe_step s (s\<lparr>rd := R_run 0 n\<rparr>)"
| read_full: "rd s = R_run m 0 \<Longrightarrow> pipe_step s (s\<lparr>rd := R_idle\<rparr>)"
| read_byte: "rd s = R_run m (Suc n) \<Longrightarrow> pipe_read_turn 1 m (pinfo s) = Some (Done (Some c), w, pii) \<Longrightarrow>
    wake_writer w (wr s) = Some v \<Longrightarrow>
    pipe_step s (s\<lparr>pinfo := pii, rd := R_run (Suc m) n, wr := v, consumed := consumed s @ [c]\<rparr>)"
| read_end: "rd s = R_run m (Suc n) \<Longrightarrow> pipe_read_turn 1 m (pinfo s) = Some (Done None, w, pii) \<Longrightarrow>
    pipe_step s (s\<lparr>pinfo := pii, rd := (if m = 0 then R_eof else R_idle)\<rparr>)"
| read_sleep: "rd s = R_run m (Suc n) \<Longrightarrow> pipe_read_turn 1 m (pinfo s) = Some (Blocked, w, pii) \<Longrightarrow>
    pipe_step s (s\<lparr>pinfo := pii, rd := R_sleep m (Suc n)\<rparr>)"
| read_alarm: "rd s = R_sleep m n \<Longrightarrow> pipe_step s (s\<lparr>rd := R_run m n, alarms := Suc (alarms s)\<rparr>)"
| read_close: "rd s = R_idle \<or> rd s = R_eof \<Longrightarrow> pipe_release O_RDONLY (pinfo s) = (r, w1, w2, pii) \<Longrightarrow>
    wake_writer w1 (wr s) = Some v \<Longrightarrow> wake_reader w2 (rd s) = Some u \<Longrightarrow>
    pipe_step s (s\<lparr>pinfo := pii, rd := R_closed, wr := v\<rparr>)"
| write_call: "wr s = W_idle \<or> wr s = W_broken \<Longrightarrow> pipe_step s (s\<lparr>wr := W_run cs\<rparr>)"
| write_done: "wr s = W_run [] \<Longrightarrow> pipe_step s (s\<lparr>wr := W_idle\<rparr>)"
| write_byte: "wr s = W_run (c # cs) \<Longrightarrow> pipe_write_turn 2 c (pinfo s) = Some (Done True, w, pii) \<Longrightarrow>
    wake_reader w (rd s) = Some u \<Longrightarrow>
    pipe_step s (s\<lparr>pinfo := pii, wr := W_run cs, rd := u, written := written s @ [c]\<rparr>)"
| write_fail: "wr s = W_run (c # cs) \<Longrightarrow> pipe_write_turn 2 c (pinfo s) = Some (Done False, w, pii) \<Longrightarrow>
    pipe_step s (s\<lparr>pinfo := pii, wr := W_broken\<rparr>)"
| write_sleep: "wr s = W_run (c # cs) \<Longrightarrow> pipe_write_turn 2 c (pinfo s) = Some (Blocked, w, pii) \<Longrightarrow>
    pipe_step s (s\<lparr>pinfo := pii, wr := W_sleep (c # cs)\<rparr>)"
| write_alarm: "wr s = W_sleep cs \<Longrightarrow> pipe_step s (s\<lparr>wr := W_run cs, alarms := Suc (alarms s)\<rparr>)"
| write_close: "wr s = W_idle \<or> wr s = W_broken \<Longrightarrow> pipe_release O_WRONLY (pinfo s) = (r, w1, w2, pii) \<Longrightarrow>
    wake_writer w1 (wr s) = Some v \<Longrightarrow> wake_reader w2 (rd s) = Some u \<Longrightarrow>
    pipe_step s (s\<lparr>pinfo := pii, wr := W_closed, rd := u\<rparr>)"

definition pipe_start :: "ioqueue \<Rightarrow> pipe_sys" where
  "pipe_start q = \<lparr>pinfo = \<lparr>base = Some (ioqueue_init q), reader_count = 1, writer_count = 1\<rparr>,
     rd = R_idle, wr = W_idle, written = [], consumed = [], alarms = 0\<rparr>"

text \<open>
  The counters follow the open ends, a reader sleeps only on an empty pipe with a writer, a writer only on
  a full pipe with a reader, and the bytes consumed followed by the bytes inside are the bytes written. A
  waiter slot is taken exactly by the sleeping side, or by a side an alarm has woken: then the pipe is still as
  empty or as full as it was.
\<close>

definition reader_struck :: "pipe_sys \<Rightarrow> ioqueue \<Rightarrow> bool" where
  "reader_struck s q \<longleftrightarrow> (\<exists>n. rd s = R_run 0 (Suc n)) \<and> consumer q = Some 1 \<and> ioq_list q = [] \<and> wr s \<noteq> W_closed"

definition writer_struck :: "pipe_sys \<Rightarrow> ioqueue \<Rightarrow> bool" where
  "writer_struck s q \<longleftrightarrow> (\<exists>c cs. wr s = W_run (c # cs)) \<and> producer q = Some 2 \<and> length (ioq_list q) = 2047 \<and> rd s \<noteq> R_closed"

definition reader_ok :: "pipe_sys \<Rightarrow> ioqueue \<Rightarrow> bool" where
  "reader_ok s q \<longleftrightarrow> (case rd s of
      R_sleep m n \<Rightarrow> consumer q = Some 1 \<and> ioq_list q = [] \<and> wr s \<noteq> W_closed \<and> m = 0 \<and> 0 < n
    | R_eof \<Rightarrow> consumer q = None \<and> wr s = W_closed \<and> ioq_list q = []
    | _ \<Rightarrow> consumer q = None \<or> reader_struck s q)"

definition writer_ok :: "pipe_sys \<Rightarrow> ioqueue \<Rightarrow> bool" where
  "writer_ok s q \<longleftrightarrow> (case wr s of
      W_sleep cs \<Rightarrow> producer q = Some 2 \<and> length (ioq_list q) = 2047 \<and> rd s \<noteq> R_closed \<and> cs \<noteq> []
    | W_broken \<Rightarrow> producer q = None \<and> rd s = R_closed
    | _ \<Rightarrow> producer q = None \<or> writer_struck s q)"

definition ends_ok :: "pipe_sys \<Rightarrow> bool" where
  "ends_ok s \<longleftrightarrow> reader_count (pinfo s) = (if rd s = R_closed then 0 else 1) \<and>
     writer_count (pinfo s) = (if wr s = W_closed then 0 else 1)"

definition pipe_inv_at :: "ioqueue \<Rightarrow> pipe_sys \<Rightarrow> bool" where
  "pipe_inv_at q s \<longleftrightarrow> base (pinfo s) = Some q \<and> ioq_wf q \<and> written s = consumed s @ ioq_list q \<and>
     ends_ok s \<and> reader_ok s q \<and> writer_ok s q \<and> (0 < alarms s \<longleftrightarrow> reader_struck s q \<or> writer_struck s q)"

definition pipe_inv :: "pipe_sys \<Rightarrow> bool" where
  "pipe_inv s \<longleftrightarrow> (\<exists>q. pipe_inv_at q s)"

lemmas side_defs = ends_ok_def reader_ok_def writer_ok_def reader_struck_def writer_struck_def

lemma pipe_invD:
  assumes "pipe_inv_at q s"
  shows "base (pinfo s) = Some q" "ioq_wf q" "written s = consumed s @ ioq_list q" "ends_ok s" "reader_ok s q"
    "writer_ok s q" "0 < alarms s \<longleftrightarrow> reader_struck s q \<or> writer_struck s q"
  using assms by (simp_all add: pipe_inv_at_def)

lemma pipe_start_inv:
  "ioq_wf q \<Longrightarrow> pipe_inv (pipe_start q)"
  by (simp add: pipe_inv_def pipe_inv_at_def pipe_start_def ioqueue_init_def ioq_wf_def ioq_list_def ioq_cnt_def
      side_defs BUFSIZE_def)

lemma release_flags: "O_RDONLY AND O_RDONLY \<noteq> 0" "O_RDONLY AND O_WRONLY = 0" "O_WRONLY AND O_RDONLY = 0"
  "O_WRONLY AND O_WRONLY \<noteq> 0"
  by (simp_all add: O_RDONLY_def O_WRONLY_def)

lemma pipe_release_ends:
  assumes "base pii = Some q"
  shows "pipe_release O_RDONLY pii = (0, producer q, consumer q,
      pii\<lparr>reader_count := reader_count pii - 1, base := Some (q\<lparr>producer := None, consumer := None\<rparr>)\<rparr>)"
    "pipe_release O_WRONLY pii = (0, producer q, consumer q,
      pii\<lparr>writer_count := writer_count pii - 1, base := Some (q\<lparr>producer := None, consumer := None\<rparr>)\<rparr>)"
  using assms release_flags
  by (simp_all add: pipe_release_def ioq_wakeup_producer_def ioq_wakeup_consumer_def)

text \<open>A struck side holds its own slot, so waking it by number fails.\<close>

lemma wake_writer_ok:
  assumes "writer_ok s q" "wake_writer (producer q) (wr s) = Some v"
  shows "\<not> writer_struck s q" "v = (case wr s of W_sleep cs \<Rightarrow> W_run cs | x \<Rightarrow> x)"
  using assms by (auto simp: wake_writer_def writer_ok_def writer_struck_def split: writer.splits if_splits)

lemma wake_reader_ok:
  assumes "reader_ok s q" "wake_reader (consumer q) (rd s) = Some v"
  shows "\<not> reader_struck s q" "v = (case rd s of R_sleep m n \<Rightarrow> R_run m n | x \<Rightarrow> x)"
  using assms by (auto simp: wake_reader_def reader_ok_def reader_struck_def split: reader.splits if_splits)

lemma step_read_byte:
  assumes "pipe_inv_at q s" "rd s = R_run m (Suc n)" "pipe_read_turn 1 m (pinfo s) = Some (Done (Some c), w, pii)"
    and "wake_writer w (wr s) = Some v"
  shows "pipe_inv (s\<lparr>pinfo := pii, rd := R_run (Suc m) n, wr := v, consumed := consumed s @ [c]\<rparr>)"
proof -
  note q = pipe_invD [OF assms(1)]
  show ?thesis
  proof (cases "ioq_list q")
    case Nil
    then show ?thesis
      using assms(3) read_turn_empty [OF q(1,2) Nil] by (auto split: if_splits)
  next
    case (Cons d ds)
    obtain q' where q': "pipe_read_turn 1 m (pinfo s) = Some (Done (Some d), producer q, (pinfo s)\<lparr>base := Some q'\<rparr>)"
        "ioq_wf q'" "ioq_list q' = ds" "producer q' = None" "consumer q' = consumer q"
      using read_turn_byte [OF q(1,2) Cons, of 1 m] by auto
    then have e: "c = d" "w = producer q" "pii = (pinfo s)\<lparr>base := Some q'\<rparr>"
      using assms(3) by auto
    note k = wake_writer_ok [OF q(6) assms(4) [unfolded e(2)]]
    have "consumer q = None" "alarms s = 0"
      using q(5,7) k(1) Cons assms(2) by (auto simp: reader_ok_def reader_struck_def)
    moreover have "ends_ok (s\<lparr>pinfo := pii, rd := R_run (Suc m) n, wr := v, consumed := consumed s @ [c]\<rparr>)"
      using q(4) assms(2) e(3) k(2) by (cases "wr s") (auto simp: ends_ok_def)
    ultimately show ?thesis
      unfolding pipe_inv_def
      using q q' e Cons assms(2) k by (intro exI [of _ q'], cases "wr s") (auto simp: pipe_inv_at_def side_defs)
  qed
qed

lemma step_write_byte:
  assumes "pipe_inv_at q s" "wr s = W_run (c # cs)" "pipe_write_turn 2 c (pinfo s) = Some (Done True, w, pii)"
    and "wake_reader w (rd s) = Some u"
  shows "pipe_inv (s\<lparr>pinfo := pii, wr := W_run cs, rd := u, written := written s @ [c]\<rparr>)"
proof -
  note q = pipe_invD [OF assms(1)]
  have rc: "reader_count (pinfo s) \<noteq> 0"
    using assms(3) q(1) by (auto simp: pipe_write_turn_def)
  show ?thesis
  proof (cases "length (ioq_list q) = 2047")
    case True
    then show ?thesis
      using assms(3) write_turn_full [OF q(1,2) True rc] by (auto split: if_splits)
  next
    case False
    then have room: "length (ioq_list q) < 2047"
      using ioq_list_le [of q] by linarith
    then obtain q' where q': "pipe_write_turn 2 c (pinfo s) = Some (Done True, consumer q, (pinfo s)\<lparr>base := Some q'\<rparr>)"
        "ioq_wf q'" "ioq_list q' = ioq_list q @ [c]" "consumer q' = None" "producer q' = producer q"
      using write_turn_room [OF q(1,2) _ rc, of 2 c] by auto
    then have e: "w = consumer q" "pii = (pinfo s)\<lparr>base := Some q'\<rparr>"
      using assms(3) by auto
    note k = wake_reader_ok [OF q(5) assms(4) [unfolded e(1)]]
    have "producer q = None" "alarms s = 0"
      using q(6,7) k(1) room assms(2) by (auto simp: writer_ok_def writer_struck_def)
    moreover have "ends_ok (s\<lparr>pinfo := pii, wr := W_run cs, rd := u, written := written s @ [c]\<rparr>)"
      using q(4) assms(2) e(2) k(2) by (cases "rd s") (auto simp: ends_ok_def)
    ultimately show ?thesis
      unfolding pipe_inv_def
      using q q' e assms(2) k by (intro exI [of _ q'], cases "rd s") (auto simp: pipe_inv_at_def side_defs)
  qed
qed

text \<open>The steps that do not move a byte.\<close>

lemma step_read_stop:
  assumes "pipe_inv_at q s" "rd s = R_run m (Suc n)" "pipe_read_turn 1 m (pinfo s) = Some (Done None, w, pii)"
  shows "pipe_inv (s\<lparr>pinfo := pii, rd := (if m = 0 then R_eof else R_idle)\<rparr>)"
proof -
  note q = pipe_invD [OF assms(1)]
  have e: "ioq_list q = []"
    using assms(3) by (intro read_turn_no_byte [OF q(1,2), of 1 m]) simp
  note t = read_turn_empty [OF q(1,2) this, of 1 m]
  then have "pii = pinfo s" "m > 0 \<or> writer_count (pinfo s) = 0"
    using assms(3) by (auto split: if_splits)
  then show ?thesis
    unfolding pipe_inv_def
    using q assms(2) e by (intro exI [of _ q], cases "wr s") (auto simp: pipe_inv_at_def side_defs split: if_splits)
qed

lemma step_read_sleep:
  assumes "pipe_inv_at q s" "rd s = R_run m (Suc n)" "pipe_read_turn 1 m (pinfo s) = Some (Blocked, w, pii)"
  shows "pipe_inv (s\<lparr>pinfo := pii, rd := R_sleep m (Suc n)\<rparr>)"
proof -
  note q = pipe_invD [OF assms(1)]
  have e: "ioq_list q = []"
    using assms(3) by (intro read_turn_no_byte [OF q(1,2), of 1 m]) simp
  note t = read_turn_empty [OF q(1,2) this, of 1 m]
  then have "pii = (pinfo s)\<lparr>base := Some (q\<lparr>consumer := Some 1\<rparr>)\<rparr>" "writer_count (pinfo s) \<noteq> 0" "consumer q = None" "m = 0"
    using assms(3) by (auto split: if_splits)
  then show ?thesis
    unfolding pipe_inv_def
    using q assms(2) e by (intro exI [of _ "q\<lparr>consumer := Some 1\<rparr>"], cases "wr s")
      (auto simp: pipe_inv_at_def side_defs split: if_splits)
qed

lemma step_write_fail:
  assumes "pipe_inv_at q s" "wr s = W_run (c # cs)" "pipe_write_turn 2 c (pinfo s) = Some (Done False, w, pii)"
  shows "pipe_inv (s\<lparr>pinfo := pii, wr := W_broken\<rparr>)"
proof -
  note q = pipe_invD [OF assms(1)]
  have "pii = pinfo s" "reader_count (pinfo s) = 0"
    using assms(3) by (auto simp: pipe_write_turn_def halting_simps split: if_splits)
  then show ?thesis
    unfolding pipe_inv_def
    using q assms(2) by (intro exI [of _ q], cases "rd s") (auto simp: pipe_inv_at_def side_defs)
qed

lemma step_write_sleep:
  assumes "pipe_inv_at q s" "wr s = W_run (c # cs)" "pipe_write_turn 2 c (pinfo s) = Some (Blocked, w, pii)"
  shows "pipe_inv (s\<lparr>pinfo := pii, wr := W_sleep (c # cs)\<rparr>)"
proof -
  note q = pipe_invD [OF assms(1)]
  have rc: "reader_count (pinfo s) \<noteq> 0"
    using assms(3) q by (auto simp: pipe_write_turn_def)
  then have f: "length (ioq_list q) = 2047"
    using assms(3) write_turn_room [OF q(1,2) _ rc, of 2 c] ioq_list_le [of q]
    by (cases "length (ioq_list q) < 2047") auto
  have "pii = (pinfo s)\<lparr>base := Some (q\<lparr>producer := Some 2\<rparr>)\<rparr>" "producer q = None"
    using write_turn_full [OF q(1,2) f rc, of 2 c] assms(3) by (auto split: if_splits)
  then show ?thesis
    unfolding pipe_inv_def
    using q assms(2) f rc by (intro exI [of _ "q\<lparr>producer := Some 2\<rparr>"], cases "rd s")
      (auto simp: pipe_inv_at_def side_defs split: if_splits)
qed

lemma step_alarm:
  assumes "pipe_inv_at q s"
  shows "rd s = R_sleep m n \<Longrightarrow> pipe_inv (s\<lparr>rd := R_run m n, alarms := Suc (alarms s)\<rparr>)"
    "wr s = W_sleep cs \<Longrightarrow> pipe_inv (s\<lparr>wr := W_run cs, alarms := Suc (alarms s)\<rparr>)"
proof -
  note q = pipe_invD [OF assms]
  show "pipe_inv (s\<lparr>rd := R_run m n, alarms := Suc (alarms s)\<rparr>)" if "rd s = R_sleep m n"
    unfolding pipe_inv_def
    using q that by (intro exI [of _ q], cases "wr s"; cases n) (auto simp: pipe_inv_at_def side_defs)
  show "pipe_inv (s\<lparr>wr := W_run cs, alarms := Suc (alarms s)\<rparr>)" if "wr s = W_sleep cs"
    unfolding pipe_inv_def
    using q that by (intro exI [of _ q], cases "rd s"; cases cs) (auto simp: pipe_inv_at_def side_defs)
qed

lemma step_close:
  assumes "pipe_inv_at q s" "wake_writer (producer q) (wr s) = Some v" "wake_reader (consumer q) (rd s) = Some u"
    and "q' = q\<lparr>producer := None, consumer := None\<rparr>"
  shows "rd s = R_idle \<or> rd s = R_eof \<Longrightarrow>
      pipe_inv (s\<lparr>pinfo := (pinfo s)\<lparr>reader_count := reader_count (pinfo s) - 1, base := Some q'\<rparr>, rd := R_closed, wr := v\<rparr>)"
    "wr s = W_idle \<or> wr s = W_broken \<Longrightarrow>
      pipe_inv (s\<lparr>pinfo := (pinfo s)\<lparr>writer_count := writer_count (pinfo s) - 1, base := Some q'\<rparr>, wr := W_closed, rd := u\<rparr>)"
proof -
  note q = pipe_invD [OF assms(1)]
  note k = wake_writer_ok [OF q(6) assms(2)] wake_reader_ok [OF q(5) assms(3)]
  have a: "alarms s = 0"
    using q(7) k(1,3) by simp
  show "pipe_inv (s\<lparr>pinfo := (pinfo s)\<lparr>reader_count := reader_count (pinfo s) - 1, base := Some q'\<rparr>, rd := R_closed, wr := v\<rparr>)"
    if "rd s = R_idle \<or> rd s = R_eof"
    unfolding pipe_inv_def pipe_inv_at_def assms(4)
    using q(1-6) that k(2,4) a by (intro exI [of _ "q\<lparr>producer := None, consumer := None\<rparr>"], cases "wr s"; elim disjE)
      (simp_all add: side_defs)
  show "pipe_inv (s\<lparr>pinfo := (pinfo s)\<lparr>writer_count := writer_count (pinfo s) - 1, base := Some q'\<rparr>, wr := W_closed, rd := u\<rparr>)"
    if "wr s = W_idle \<or> wr s = W_broken"
    unfolding pipe_inv_def pipe_inv_at_def assms(4)
    using q(1-6) that k(2,4) a by (intro exI [of _ "q\<lparr>producer := None, consumer := None\<rparr>"], cases "rd s"; elim disjE)
      (simp_all add: side_defs)
qed

text \<open>A side that is not asleep begins or ends a call.\<close>

lemma step_call:
  assumes "pipe_inv_at q s"
  shows "rd s = R_idle \<or> rd s = R_eof \<Longrightarrow> pipe_inv (s\<lparr>rd := R_run 0 n\<rparr>)" "rd s = R_run m 0 \<Longrightarrow> pipe_inv (s\<lparr>rd := R_idle\<rparr>)"
    "wr s = W_idle \<or> wr s = W_broken \<Longrightarrow> pipe_inv (s\<lparr>wr := W_run cs\<rparr>)" "wr s = W_run [] \<Longrightarrow> pipe_inv (s\<lparr>wr := W_idle\<rparr>)"
proof -
  note q = pipe_invD [OF assms]
  show "rd s = R_idle \<or> rd s = R_eof \<Longrightarrow> pipe_inv (s\<lparr>rd := R_run 0 n\<rparr>)" "rd s = R_run m 0 \<Longrightarrow> pipe_inv (s\<lparr>rd := R_idle\<rparr>)"
    unfolding pipe_inv_def using q by (intro exI [of _ q], cases "wr s"; auto simp: pipe_inv_at_def side_defs)+
  show "wr s = W_idle \<or> wr s = W_broken \<Longrightarrow> pipe_inv (s\<lparr>wr := W_run cs\<rparr>)" "wr s = W_run [] \<Longrightarrow> pipe_inv (s\<lparr>wr := W_idle\<rparr>)"
    unfolding pipe_inv_def using q by (intro exI [of _ q], cases "rd s"; auto simp: pipe_inv_at_def side_defs)+
qed

lemma pipe_step_inv:
  assumes "pipe_step s s'" "pipe_inv s"
  shows "pipe_inv s'"
proof -
  obtain q where q: "pipe_inv_at q s"
    using assms(2) by (auto simp: pipe_inv_def)
  note rel = pipe_release_ends [OF pipe_invD(1) [OF q]]
  show ?thesis
    using assms(1)
  proof (cases rule: pipe_step.cases)
    case (read_byte m n c w pii v)
    show ?thesis
      unfolding read_byte(1) by (rule step_read_byte [OF q read_byte(2-4)])
  next
    case (read_end m n w pii)
    show ?thesis
      unfolding read_end(1) by (rule step_read_stop [OF q read_end(2,3)])
  next
    case (read_sleep m n w pii)
    show ?thesis
      unfolding read_sleep(1) by (rule step_read_sleep [OF q read_sleep(2,3)])
  next
    case (read_close r w1 w2 pii v u)
    then show ?thesis
      using step_close(1) [OF q _ _ refl] rel(1) by auto
  next
    case (write_byte c cs w pii u)
    show ?thesis
      unfolding write_byte(1) by (rule step_write_byte [OF q write_byte(2-4)])
  next
    case (write_fail c cs w pii)
    show ?thesis
      unfolding write_fail(1) by (rule step_write_fail [OF q write_fail(2,3)])
  next
    case (write_sleep c cs w pii)
    show ?thesis
      unfolding write_sleep(1) by (rule step_write_sleep [OF q write_sleep(2,3)])
  next
    case (write_close r w1 w2 pii v u)
    then show ?thesis
      using step_close(2) [OF q _ _ refl] rel(2) by auto
  qed (use step_call [OF q] step_alarm [OF q] in simp_all)
qed

lemma pipe_reach_inv:
  "pipe_step\<^sup>*\<^sup>* s s' \<Longrightarrow> pipe_inv s \<Longrightarrow> pipe_inv s'"
  by (induction rule: rtranclp_induct) (auto intro: pipe_step_inv)

text \<open>
  C1. For one reader and one writer on a fresh pipe, however their byte-sized turns, new calls, closes and
  wake-ups by alarms interleave: the bytes consumed followed by the bytes inside are the bytes written, in order; a read
  that reports end of file has consumed everything and the writer is gone; and a write that reports a
  broken pipe has lost its reader.
\<close>
theorem pipe_stream:
  assumes "ioq_wf q" "pipe_step\<^sup>*\<^sup>* (pipe_start q) s"
  shows "(\<exists>b. base (pinfo s) = Some b \<and> written s = consumed s @ ioq_list b \<and> length (ioq_list b) \<le> 2047) \<and>
    (rd s = R_eof \<longrightarrow> consumed s = written s \<and> wr s = W_closed) \<and> (wr s = W_broken \<longrightarrow> rd s = R_closed)"
  using pipe_reach_inv [OF assms(2) pipe_start_inv [OF assms(1)]] ioq_list_le
  by (auto simp: pipe_inv_def pipe_inv_at_def reader_ok_def writer_ok_def)

definition ex_page :: ioqueue where
  "ex_page = \<lparr>producer = None, consumer = None, buf = replicate 2048 0, head = 0, tail = 0\<rparr>"

lemma ex_page_wf: "ioq_wf ex_page" "ioq_wf (ioqueue_init ex_page)" "ioq_list (ioqueue_init ex_page) = []"
  by (simp_all add: ex_page_def ioq_wf_def ioqueue_init_def ioq_list_def ioq_cnt_def BUFSIZE_def)

lemma ex_pipe_run:
  "\<exists>s. pipe_step\<^sup>*\<^sup>* (pipe_start ex_page) s \<and> written s = [c] \<and> rd s = R_run 0 (Suc 0) \<and> wr s = W_run [] \<and> alarms s = 0"
proof -
  define s0 where "s0 = (pipe_start ex_page)\<lparr>wr := W_run [c]\<rparr>"
  define s1 where "s1 = s0\<lparr>rd := R_run 0 (Suc 0)\<rparr>"
  have b: "base (pinfo s1) = Some (ioqueue_init ex_page)" "reader_count (pinfo s1) \<noteq> 0" "wr s1 = W_run [c]"
      "written s1 = []" "rd s1 = R_run 0 (Suc 0)" "rd s0 = R_idle"
    by (simp_all add: pipe_start_def s0_def s1_def)
  have "length (ioq_list (ioqueue_init ex_page)) < 2047" "consumer (ioqueue_init ex_page) = None"
    using ex_page_wf(3) by (simp_all add: ioqueue_init_def del: length_ioq_list)
  then obtain q where q: "pipe_write_turn 2 c (pinfo s1) = Some (Done True, None, q)"
    using write_turn_room [OF b(1) ex_page_wf(2) _ b(2), of 2 c] by auto
  have w: "wake_reader None (rd s1) = Some (rd s1)"
    by (simp add: wake_reader_def)
  define s2 where "s2 = s1\<lparr>pinfo := q, wr := W_run [], rd := rd s1, written := written s1 @ [c]\<rparr>"
  have "pipe_step\<^sup>*\<^sup>* (pipe_start ex_page) s0"
    unfolding s0_def by (intro r_into_rtranclp write_call) (simp add: pipe_start_def)
  moreover have "pipe_step s0 s1"
    unfolding s1_def using b(6) by (intro read_call) simp
  moreover have "pipe_step s1 s2"
    unfolding s2_def by (rule write_byte [OF b(3) q w])
  ultimately have "pipe_step\<^sup>*\<^sup>* (pipe_start ex_page) s2"
    by (metis rtranclp.rtrancl_into_rtrancl)
  moreover have "written s2 = [c]" "rd s2 = R_run 0 (Suc 0)" "wr s2 = W_run []" "alarms s2 = 0"
    using b by (simp_all add: s2_def s1_def s0_def pipe_start_def)
  ultimately show ?thesis by blast
qed

theorem pipe_stream_witness:
  "\<exists>s b. pipe_step\<^sup>*\<^sup>* (pipe_start ex_page) s \<and> written s = [65] \<and> base (pinfo s) = Some b \<and>
    consumed s @ ioq_list b = [65]"
proof -
  obtain s where s: "pipe_step\<^sup>*\<^sup>* (pipe_start ex_page) s" "written s = [65]"
    using ex_pipe_run by blast
  obtain b where b: "base (pinfo s) = Some b" "written s = consumed s @ ioq_list b"
    using pipe_stream [OF ex_page_wf(1) s(1)] by blast
  have "consumed s @ ioq_list b = [65]"
    using b(2) s(2) by (rule trans [OF sym])
  then show ?thesis
    using s b(1) by blast
qed

lemma wake_fine:
  assumes "pipe_inv_at q s"
  shows "\<not> writer_struck s q \<Longrightarrow> wake_writer (producer q) (wr s) \<noteq> None" "wake_writer None (wr s) \<noteq> None"
    "\<not> reader_struck s q \<Longrightarrow> wake_reader (consumer q) (rd s) \<noteq> None" "wake_reader None (rd s) \<noteq> None"
  using pipe_invD(5,6) [OF assms]
  by (auto simp: wake_writer_def wake_reader_def writer_ok_def reader_ok_def split: writer.splits reader.splits)

lemma read_turn_fine:
  assumes "pipe_inv_at q s" "rd s = R_run i (Suc n)" "alarms s = 0"
  shows "\<exists>r w pii. pipe_read_turn 1 i (pinfo s) = Some (r, w, pii) \<and> wake_writer w (wr s) \<noteq> None"
proof -
  note q = pipe_invD [OF assms(1)]
  have n: "\<not> reader_struck s q" "\<not> writer_struck s q"
    using q(7) assms(3) by simp_all
  then have c: "consumer q = None"
    using q(5) assms(2) by (simp add: reader_ok_def)
  show ?thesis
  proof (cases "ioq_list q")
    case Nil
    then show ?thesis
      using read_turn_empty [OF q(1,2) Nil, of 1 i] c wake_fine(2) [OF assms(1)] by (auto split: if_splits)
  next
    case (Cons d ds)
    then show ?thesis
      using read_turn_byte [OF q(1,2) Cons, of 1 i] wake_fine(1) [OF assms(1) n(2)] by blast
  qed
qed

lemma write_turn_fine:
  assumes "pipe_inv_at q s" "wr s = W_run (c # cs)" "alarms s = 0"
  shows "\<exists>r w pii. pipe_write_turn 2 c (pinfo s) = Some (r, w, pii) \<and> wake_reader w (rd s) \<noteq> None"
proof -
  note q = pipe_invD [OF assms(1)]
  have n: "\<not> reader_struck s q" "\<not> writer_struck s q"
    using q(7) assms(3) by simp_all
  then have p: "producer q = None"
    using q(6) assms(2) by (simp add: writer_ok_def)
  consider "reader_count (pinfo s) = 0" | "reader_count (pinfo s) \<noteq> 0" "length (ioq_list q) < 2047"
    | "reader_count (pinfo s) \<noteq> 0" "length (ioq_list q) = 2047"
    using ioq_list_le [of q] by linarith
  then show ?thesis
  proof cases
    case 1
    then show ?thesis
      using q(1) wake_fine(4) [OF assms(1)] by (simp add: pipe_write_turn_def)
  next
    case 2
    then show ?thesis
      using write_turn_room [OF q(1,2) 2(2,1), of 2 c] wake_fine(3) [OF assms(1) n(1)] by blast
  next
    case 3
    then show ?thesis
      using write_turn_full [OF q(1,2) 3(2,1), of 2 c] p wake_fine(4) [OF assms(1)] by simp
  qed
qed

text \<open>A side that an alarm has woken runs into the assertion on its own waiter slot.\<close>

lemma struck_stops:
  assumes "pipe_inv_at q s" "alarms s \<noteq> 0"
  shows "(\<exists>k. rd s = R_run 0 (Suc k) \<and> pipe_read_turn 1 0 (pinfo s) = None) \<or>
    (\<exists>d ds. wr s = W_run (d # ds) \<and> pipe_write_turn 2 d (pinfo s) = None)"
proof -
  note q = pipe_invD [OF assms(1)]
  from q(7) assms(2) consider "reader_struck s q" | "writer_struck s q"
    by auto
  then show ?thesis
  proof cases
    case 1
    then have "writer_count (pinfo s) \<noteq> 0"
      using q(4) by (simp add: ends_ok_def reader_struck_def)
    then show ?thesis
      using 1 read_turn_empty [OF q(1,2), of 1 0] by (auto simp: reader_struck_def)
  next
    case 2
    then have "reader_count (pinfo s) \<noteq> 0"
      using q(4) by (simp add: ends_ok_def writer_struck_def)
    then show ?thesis
      using 2 write_turn_full [OF q(1,2)] by (auto simp: writer_struck_def)
  qed
qed

lemma reader_woken:
  assumes "pipe_inv_at q s" "pipe_step s s'" "rd s = R_sleep k n" "written s' \<noteq> written s \<or> wr s' = W_closed"
  shows "rd s' = R_run k n"
proof -
  note q = pipe_invD [OF assms(1)]
  have f: "consumer q = Some 1" "ioq_list q = []" "wr s \<noteq> W_closed"
    using q(5) assms(3) by (simp_all add: reader_ok_def)
  show ?thesis
    using assms(2)
  proof (cases rule: pipe_step.cases)
    case (write_byte c cs w pii u)
    then have "reader_count (pinfo s) \<noteq> 0"
      using q(1) by (auto simp: pipe_write_turn_def)
    then have "w = Some 1"
      using write_turn_room [OF q(1,2), of 2 c] f write_byte(3) by auto
    then show ?thesis
      using write_byte(1,4) assms(3) by (simp add: wake_reader_def)
  next
    case (write_close r w1 w2 pii v u)
    then have "w2 = Some 1"
      using pipe_release_ends(2) [OF q(1)] f(1) by simp
    then show ?thesis
      using write_close(1,5) assms(3) by (simp add: wake_reader_def)
  qed (use f(3) assms(3,4) in \<open>simp_all split: if_splits\<close>)
qed

lemma writer_woken:
  assumes "pipe_inv_at q s" "pipe_step s s'" "wr s = W_sleep cs" "consumed s' \<noteq> consumed s \<or> rd s' = R_closed"
  shows "wr s' = W_run cs"
proof -
  note q = pipe_invD [OF assms(1)]
  have f: "producer q = Some 2" "length (ioq_list q) = 2047" "rd s \<noteq> R_closed"
    using q(6) assms(3) by (simp_all add: writer_ok_def)
  show ?thesis
    using assms(2)
  proof (cases rule: pipe_step.cases)
    case (read_byte m n c w pii v)
    obtain d ds where "ioq_list q = d # ds"
      using f(2) by (cases "ioq_list q") auto
    then have "w = Some 2"
      using read_turn_byte [OF q(1,2), of d ds 1 m] f(1) read_byte(3) by auto
    then show ?thesis
      using read_byte(1,4) assms(3) by (simp add: wake_writer_def)
  next
    case (read_close r w1 w2 pii v u)
    then have "w1 = Some 2"
      using pipe_release_ends(1) [OF q(1)] f(1) by simp
    then show ?thesis
      using read_close(1,4) assms(3) by (simp add: wake_writer_def)
  qed (use f(3) assms(3,4) in \<open>simp_all split: if_splits\<close>)
qed

text \<open>
  C2. In the same system the two sides never sleep at the same time, a reader sleeps only while a writer has
  the pipe open and the other way round, the step that stores a byte or closes the write end wakes a sleeping
  reader, and the step that takes a byte or closes the read end wakes a sleeping writer. As long as no alarm has
  struck a sleeping side, no turn and no close runs into an assertion, neither the one on an occupied waiter
  slot nor the one of \<^verbatim>\<open>thread_unblock\<close>. The last clause is a defect: once a due alarm has woken a reader or a
  writer that slept in the pipe, its slot is still taken, and its next turn fails the assertion of \<^verbatim>\<open>ioq_wait\<close>
  and stops the machine.
\<close>
theorem pipe_no_lost_wakeup:
  assumes "ioq_wf q" "pipe_step\<^sup>*\<^sup>* (pipe_start q) s"
  shows "\<not> (rd s = R_sleep i n \<and> wr s = W_sleep cs) \<and>
    (rd s = R_sleep i n \<longrightarrow> wr s \<noteq> W_closed) \<and> (wr s = W_sleep cs \<longrightarrow> rd s \<noteq> R_closed) \<and>
    (pipe_step s s' \<and> rd s = R_sleep i n \<and> (written s' \<noteq> written s \<or> wr s' = W_closed) \<longrightarrow> rd s' = R_run i n) \<and>
    (pipe_step s s' \<and> wr s = W_sleep cs \<and> (consumed s' \<noteq> consumed s \<or> rd s' = R_closed) \<longrightarrow> wr s' = W_run cs) \<and>
    (alarms s = 0 \<longrightarrow>
      (rd s = R_run i (Suc n) \<longrightarrow>
        (\<exists>r w pii. pipe_read_turn 1 i (pinfo s) = Some (r, w, pii) \<and> wake_writer w (wr s) \<noteq> None)) \<and>
      (wr s = W_run (c # cs) \<longrightarrow>
        (\<exists>r w pii. pipe_write_turn 2 c (pinfo s) = Some (r, w, pii) \<and> wake_reader w (rd s) \<noteq> None)) \<and>
      (\<forall>flag\<in>{O_RDONLY, O_WRONLY}. case pipe_release flag (pinfo s) of (r, w1, w2, pii) \<Rightarrow>
        wake_writer w1 (wr s) \<noteq> None \<and> wake_reader w2 (rd s) \<noteq> None)) \<and>
    (alarms s \<noteq> 0 \<longrightarrow>
      (\<exists>k. rd s = R_run 0 (Suc k) \<and> pipe_read_turn 1 0 (pinfo s) = None) \<or>
      (\<exists>d ds. wr s = W_run (d # ds) \<and> pipe_write_turn 2 d (pinfo s) = None))"
proof -
  obtain b where inv: "pipe_inv_at b s"
    using pipe_reach_inv [OF assms(2) pipe_start_inv [OF assms(1)]] by (auto simp: pipe_inv_def)
  note b = pipe_invD [OF inv]
  have "\<not> (rd s = R_sleep i n \<and> wr s = W_sleep cs)" "rd s = R_sleep i n \<Longrightarrow> wr s \<noteq> W_closed" "wr s = W_sleep cs \<Longrightarrow> rd s \<noteq> R_closed"
    using b(5,6) by (auto simp: reader_ok_def writer_ok_def)
  note asleep = this
  have release: "\<forall>flag\<in>{O_RDONLY, O_WRONLY}. case pipe_release flag (pinfo s) of (r, w1, w2, pii) \<Rightarrow>
      wake_writer w1 (wr s) \<noteq> None \<and> wake_reader w2 (rd s) \<noteq> None" if "alarms s = 0"
    using pipe_release_ends [OF b(1)] wake_fine(1,3) [OF inv] b(7) that by simp
  note turns = read_turn_fine [OF inv] write_turn_fine [OF inv] struck_stops [OF inv] reader_woken [OF inv] writer_woken [OF inv]
  show ?thesis
    by (intro conjI impI; (elim conjE)?; (rule asleep release turns; assumption?)+)
qed

lemma ex_alarm_run:
  "\<exists>s. pipe_step\<^sup>*\<^sup>* (pipe_start ex_page) s \<and> rd s = R_run 0 (Suc 0) \<and> wr s = W_idle \<and> alarms s = 1"
proof -
  define s1 where "s1 = (pipe_start ex_page)\<lparr>rd := R_run 0 (Suc 0)\<rparr>"
  have b: "base (pinfo s1) = Some (ioqueue_init ex_page)" "writer_count (pinfo s1) \<noteq> 0" "rd s1 = R_run 0 (Suc 0)"
      "consumer (ioqueue_init ex_page) = None" "wr s1 = W_idle" "alarms s1 = 0"
    by (simp_all add: pipe_start_def s1_def ioqueue_init_def)
  obtain q where q: "pipe_read_turn 1 0 (pinfo s1) = Some (Blocked, None, q)"
    using read_turn_empty [OF b(1) ex_page_wf(2,3), of 1 0] b(2,4) by simp
  define s2 where "s2 = s1\<lparr>pinfo := q, rd := R_sleep 0 (Suc 0)\<rparr>"
  define s3 where "s3 = s2\<lparr>rd := R_run 0 (Suc 0), alarms := Suc (alarms s2)\<rparr>"
  have "pipe_step (pipe_start ex_page) s1"
    unfolding s1_def by (rule read_call) (simp add: pipe_start_def)
  moreover have "pipe_step s1 s2"
    unfolding s2_def by (rule read_sleep [OF b(3) q])
  moreover have "pipe_step s2 s3"
    unfolding s3_def by (rule read_alarm) (simp add: s2_def)
  ultimately have "pipe_step\<^sup>*\<^sup>* (pipe_start ex_page) s3"
    by (meson rtranclp.rtrancl_into_rtrancl rtranclp.rtrancl_refl)
  then show ?thesis
    using b(5,6) by (intro exI [of _ s3]) (simp add: s3_def s2_def)
qed

theorem pipe_no_lost_wakeup_witness:
  "(\<exists>s. pipe_step\<^sup>*\<^sup>* (pipe_start ex_page) s \<and> written s = [65] \<and> rd s = R_run 0 (Suc 0) \<and> alarms s = 0 \<and>
     pipe_read_turn 1 0 (pinfo s) \<noteq> None) \<and>
   (\<exists>s. pipe_step\<^sup>*\<^sup>* (pipe_start ex_page) s \<and> rd s = R_run 0 (Suc 0) \<and> alarms s = 1 \<and> pipe_read_turn 1 0 (pinfo s) = None)"
proof
  obtain s where s: "pipe_step\<^sup>*\<^sup>* (pipe_start ex_page) s" "written s = [65]" "rd s = R_run 0 (Suc 0)" "alarms s = 0"
    using ex_pipe_run by blast
  have "\<exists>r w pii. pipe_read_turn 1 0 (pinfo s) = Some (r, w, pii) \<and> wake_writer w (wr s) \<noteq> None"
    using pipe_no_lost_wakeup [OF ex_page_wf(1) s(1), of 0 0 "[]" s 0] s(3,4) by (simp del: not_None_eq)
  then have "pipe_read_turn 1 0 (pinfo s) \<noteq> None"
    by auto
  then show "\<exists>s. pipe_step\<^sup>*\<^sup>* (pipe_start ex_page) s \<and> written s = [65] \<and> rd s = R_run 0 (Suc 0) \<and> alarms s = 0 \<and>
      pipe_read_turn 1 0 (pinfo s) \<noteq> None"
    using s by blast
next
  obtain s where s: "pipe_step\<^sup>*\<^sup>* (pipe_start ex_page) s" "rd s = R_run 0 (Suc 0)" "wr s = W_idle" "alarms s = 1"
    using ex_alarm_run by blast
  have "pipe_read_turn 1 0 (pinfo s) = None"
    using pipe_no_lost_wakeup [OF ex_page_wf(1) s(1), of 0 0] s(3,4) by simp
  then show "\<exists>s. pipe_step\<^sup>*\<^sup>* (pipe_start ex_page) s \<and> rd s = R_run 0 (Suc 0) \<and> alarms s = 1 \<and> pipe_read_turn 1 0 (pinfo s) = None"
    using s by blast
qed

section \<open>Uninterrupted calls\<close>

text \<open>
  Round trip without interference: with the read end open and nobody waiting, a write stores as many
  bytes as fit in the 2047 free places and returns its length, or sleeps after storing those; a following
  read of \<open>n\<close> returns the first \<open>n\<close> of what was inside followed by what was stored, and sleeps only on an
  empty pipe that still has a writer.
\<close>
theorem pipe_round_trip:
  assumes "base pii = Some q" "ioq_wf q" "reader_count pii \<noteq> 0" "producer q = None" "consumer q = None"
    and "k = min (length cs) (2047 - length (ioq_list q))"
  shows "\<exists>pii' pii''. pipe_write cur 0 cs pii =
      Some (if length cs \<le> 2047 - length (ioq_list q) then Done (int (length cs)) else Blocked, k, pii') \<and>
    pipe_read cur' 0 n pii' = Some (take n (ioq_list q @ take k cs),
      if 0 < n \<and> ioq_list q @ take k cs = [] \<and> writer_count pii \<noteq> 0 then Blocked else Done (), pii'')"
proof -
  obtain r q' where w: "pipe_write cur 0 cs pii = Some (r, k, pii\<lparr>base := Some q'\<rparr>)"
      "ioq_wf q'" "ioq_list q' = ioq_list q @ take k cs" "consumer q' = None"
      "r = (if length cs \<le> 2047 - length (ioq_list q) then Done (int (length cs)) else Blocked)"
    using pipe_write_loop_spec [OF assms(1-4,6), of cur 0] assms(5) by (auto simp del: length_ioq_list)
  have "base (pii\<lparr>base := Some q'\<rparr>) = Some q'"
    by simp
  from pipe_read_loop_spec [OF this w(2,4), of cur' 0 n] obtain pii'' where
    "pipe_read cur' 0 n (pii\<lparr>base := Some q'\<rparr>) = Some (take n (ioq_list q'),
      if 0 < n \<and> ioq_list q' = [] \<and> writer_count pii \<noteq> 0 then Blocked else Done (), pii'')"
    by (simp del: length_ioq_list) blast
  then show ?thesis
    using w by (simp only: w(3)) blast
qed

definition ex_pipe :: pipe_inode_info where
  "ex_pipe = \<lparr>base = Some (ioqueue_init ex_page), reader_count = 1, writer_count = 1\<rparr>"

end
