(* ===== verification/Sys_Pipe.thy ===== *)
theory Sys_Pipe
  imports Inode_Cache Pipe
begin

text \<open>
  The system call \<^verbatim>\<open>sys_pipe\<close> of \<^verbatim>\<open>fs/pipe.c\<close>: an anonymous inode (theory Inode_Cache) with a fresh queue (theory
  Pipe), two slots of the table of open files and two descriptors of the process (theory File_Table). The
  end of life of the pipe is the \<^verbatim>\<open>inode_close\<close> of its two ends.
\<close>

section \<open>The code\<close>

text \<open>
  \<open>new_node\<close> is the address \<^verbatim>\<open>kmalloc\<close> found for the inode, \<open>page\<close> the page for the queue with its contents; both may
  be missing. Every failure after the inode stops the machine. The result is the return value and, on
  success, the two descriptors, the inode with its address, the state of the pipe, and the two tables.
\<close>

definition sys_pipe :: "addr option \<Rightarrow> (addr \<times> ioqueue) option \<Rightarrow> open_file list \<Rightarrow> fd_entry list \<Rightarrow>
    (int \<times> (int \<times> int \<times> (addr \<times> inode) \<times> pipe_inode_info \<times> open_file list \<times> fd_entry list) option) halting" where
  "sys_pipe new_node page ft fds = (case new_node of None \<Rightarrow> Some (- 1, None)
     | Some ino \<Rightarrow> do {
         let node = make_anonymous_inode;
         let node = node\<lparr>i_type := FT_PIPE\<rparr>;
         let (r, pii) = init_pipe (map_option snd page) \<lparr>base = None, reader_count = 0, writer_count = 0\<rparr>;
         ASSERT (r = 0);
         let node = node\<lparr>pipe_base := (case page of None \<Rightarrow> NULL | Some (a, _) \<Rightarrow> a)\<rparr>;
         let pii = pii\<lparr>reader_count := 1, writer_count := 1\<rparr>;
         let node = node\<lparr>i_type := FT_PIPE, i_open_cnts := 2\<rparr>;
         (gfd_r, ft) \<leftarrow> get_free_slot_in_global ft;
         ASSERT (gfd_r \<noteq> - 1);
         let ft = ft[nat gfd_r := (ft ! nat gfd_r)\<lparr>fd_inode := Some ino, fd_flag := O_RDONLY, f_count := 1, f_op := Pipe_op\<rparr>];
         (gfd_w, ft) \<leftarrow> get_free_slot_in_global ft;
         ASSERT (gfd_w \<noteq> - 1);
         let ft = ft[nat gfd_w := (ft ! nat gfd_w)\<lparr>fd_inode := Some ino, fd_flag := O_WRONLY, f_count := 1, f_op := Pipe_op\<rparr>];
         (lfd_r, fds) \<leftarrow> pcb_fd_install gfd_r fds;
         (lfd_w, fds) \<leftarrow> pcb_fd_install gfd_w fds;
         ASSERT (lfd_r \<noteq> - 1 \<and> lfd_w \<noteq> - 1);
         Some (0, Some (lfd_r, lfd_w, (ino, node), pii, ft, fds))
       })"

section \<open>Properties\<close>

lemma two_free:
  assumes "finite A" "2 \<le> card A" "a \<in> A"
  shows "A - {a} \<noteq> {}"
proof
  assume "A - {a} = {}"
  then have "card A \<le> card {a}"
    by (intro card_mono) auto
  then show False
    using assms(2) by simp
qed

text \<open>The two references of the inode: the second \<^verbatim>\<open>inode_close\<close> gives the page of the queue back, the first does not.\<close>

lemma pipe_closes:
  assumes "inodes c ino = Some (make_anonymous_inode\<lparr>i_type := FT_PIPE, pipe_base := a, i_open_cnts := 2\<rparr>)" "ino \<noteq> NULL" "a \<noteq> NULL"
  shows "\<exists>c1 c2. inode_close ino c = Some c1 \<and> freed_pages c1 = freed_pages c \<and>
    inode_close ino c1 = Some c2 \<and> freed_pages c2 = a # freed_pages c"
  using assms by (simp add: inode_close_def upd_inode_def free_pipe_def)

text \<open>
  C38. \<^verbatim>\<open>sys_pipe\<close> with two free slots in both tables returns two different descriptors, the two least free
  ones; they lead to two different slots of the open file table that hold the same inode, the first for
  reading and the second for writing; no other descriptor and no used slot changes; the pipe starts with one
  reader and one writer; and its inode is a pipe that owns the page of the queue and counts two references, so
  that closing both ends gives the page back exactly once, at the second close.
\<close>
theorem sys_pipe_correct:
  assumes "length ft = MAX_FILE_OPEN_IN_SYSTEM" "2 \<le> card (free_slots ft)"
    and "length fds = MAX_FILES_OPEN_PER_PROC" "2 \<le> card (free_fds fds)" "ino \<noteq> NULL" "a \<noteq> NULL"
  shows "\<exists>lr lw gr gw node pii ft' fds'.
    sys_pipe (Some ino) (Some (a, page)) ft fds = Some (0, Some (int lr, int lw, (ino, node), pii, ft', fds')) \<and>
    lr = Min (free_fds fds) \<and> lw = Min (free_fds fds - {lr}) \<and> lr \<noteq> lw \<and>
    fd_local2global fds' lr = Some (int gr) \<and> fd_local2global fds' lw = Some (int gw) \<and> gr \<noteq> gw \<and>
    fd_inode (ft' ! gr) = Some ino \<and> fd_flag (ft' ! gr) = O_RDONLY \<and> f_count (ft' ! gr) = 1 \<and>
    fd_inode (ft' ! gw) = Some ino \<and> fd_flag (ft' ! gw) = O_WRONLY \<and> f_count (ft' ! gw) = 1 \<and>
    (\<forall>i. i \<notin> free_slots ft \<longrightarrow> ft' ! i = ft ! i) \<and> (\<forall>i. i \<noteq> lr \<and> i \<noteq> lw \<longrightarrow> fds' ! i = fds ! i) \<and>
    pii = \<lparr>base = Some (ioqueue_init page), reader_count = 1, writer_count = 1\<rparr> \<and>
    i_type node = FT_PIPE \<and> i_open_cnts node = 2 \<and> pipe_base node = a \<and>
    (\<forall>c. inodes c ino = Some node \<longrightarrow> (\<exists>c1 c2. inode_close ino c = Some c1 \<and> freed_pages c1 = freed_pages c \<and>
      inode_close ino c1 = Some c2 \<and> freed_pages c2 = a # freed_pages c))"
proof -
  define r where "r = zero_file\<lparr>fd_inode := Some ino, fd_flag := O_RDONLY, f_count := 1, f_op := Pipe_op\<rparr>"
  define w where "w = zero_file\<lparr>fd_inode := Some ino, fd_flag := O_WRONLY, f_count := 1, f_op := Pipe_op\<rparr>"
  have ne: "free_slots ft \<noteq> {}" "free_fds fds \<noteq> {}"
    using assms(2,4) by auto
  obtain gr where gr: "get_free_slot_in_global ft = Some (int gr, ft[gr := zero_file])" "gr \<in> free_slots ft"
    using get_free_slot_min [OF assms(1) ne(1)] by blast
  define ft1 where "ft1 = ft[gr := r]"
  have l1: "length ft1 = MAX_FILE_OPEN_IN_SYSTEM" "gr < length ft"
    using assms(1) gr(2) by (simp_all add: ft1_def free_slots_def)
  have f0: "free_slots ft1 = free_slots ft - {gr}"
    using l1(2) by (auto simp: ft1_def free_slots_def r_def nth_list_update split: if_splits)
  then have ne1: "free_slots ft1 \<noteq> {}"
    using two_free [OF finite_free_slots(1) assms(2) gr(2)] by simp
  obtain gw where gw: "get_free_slot_in_global ft1 = Some (int gw, ft1[gw := zero_file])" "gw \<in> free_slots ft1"
    using get_free_slot_min [OF l1(1) ne1] by blast
  then have gw': "gw \<noteq> gr" "gw \<in> free_slots ft"
    using f0 by simp_all
  then have gw'': "gw < length ft"
    by (simp add: free_slots_def)
  define ft2 where "ft2 = ft1[gw := w]"
  obtain lr where lr: "pcb_fd_install (int gr) fds = Some (int lr, fds[lr := \<lparr>global_fd_idx = int gr, flags = 0\<rparr>])"
      "lr = Min (free_fds fds)" "lr \<in> free_fds fds"
    using pcb_fd_install_min [OF assms(3) ne(2)] by blast
  define fds1 where "fds1 = fds[lr := \<lparr>global_fd_idx = int gr, flags = 0\<rparr>]"
  have l2: "length fds1 = MAX_FILES_OPEN_PER_PROC" "lr < length fds"
    using assms(3) lr(3) by (simp_all add: fds1_def free_fds_def)
  have f1: "free_fds fds1 = free_fds fds - {lr}"
    using l2(2) by (auto simp: fds1_def free_fds_def nth_list_update split: if_splits)
  then have ne2: "free_fds fds1 \<noteq> {}"
    using two_free [OF finite_free_slots(2) assms(4) lr(3)] by simp
  obtain lw where lw: "pcb_fd_install (int gw) fds1 = Some (int lw, fds1[lw := \<lparr>global_fd_idx = int gw, flags = 0\<rparr>])"
      "lw = Min (free_fds fds1)" "lw \<in> free_fds fds1"
    using pcb_fd_install_min [OF l2(1) ne2] by blast
  then have lw': "lw \<noteq> lr" "lw \<in> free_fds fds"
    using f1 by simp_all
  then have lw'': "lw < length fds"
    by (simp add: free_fds_def)
  define fds2 where "fds2 = fds1[lw := \<lparr>global_fd_idx = int gw, flags = 0\<rparr>]"
  define node where "node = make_anonymous_inode\<lparr>i_type := FT_PIPE, pipe_base := a, i_open_cnts := 2\<rparr>"
  have "sys_pipe (Some ino) (Some (a, page)) ft fds = Some (0, Some (int lr, int lw, (ino, node),
      \<lparr>base = Some (ioqueue_init page), reader_count = 1, writer_count = 1\<rparr>, ft2, fds2))"
    using gr(1) gw(1) lr(1) lw(1) l1(2) gw''
    by (simp add: sys_pipe_def init_pipe_def node_def ft2_def fds2_def fds1_def [symmetric] r_def [symmetric] w_def [symmetric]
        ft1_def [symmetric]) (simp add: ft1_def r_def w_def)
  moreover have "fd_local2global fds2 lr = Some (int gr)" "fd_local2global fds2 lw = Some (int gw)"
    using lw' lw'' l2(2) l1(2) gw'' assms(1) by (simp_all add: fd_local2global_def fds2_def fds1_def)
  moreover have "ft2 ! gr = r" "ft2 ! gw = w"
    using gw' gw'' l1(2) by (simp_all add: ft2_def ft1_def)
  moreover have "\<forall>i. i \<notin> free_slots ft \<longrightarrow> ft2 ! i = ft ! i"
    using gr(2) gw'(2) by (metis ft2_def ft1_def nth_list_update_neq)
  moreover have "\<forall>i. i \<noteq> lr \<and> i \<noteq> lw \<longrightarrow> fds2 ! i = fds ! i"
    by (simp add: fds2_def fds1_def)
  moreover have "\<forall>c. inodes c ino = Some node \<longrightarrow> (\<exists>c1 c2. inode_close ino c = Some c1 \<and> freed_pages c1 = freed_pages c \<and>
      inode_close ino c1 = Some c2 \<and> freed_pages c2 = a # freed_pages c)"
    using pipe_closes [OF _ assms(5,6)] by (simp add: node_def)
  ultimately show ?thesis
    using lr(2) lw(2) f1 lw'(1) gw'(1)
    by (intro exI [of _ lr] exI [of _ lw] exI [of _ gr] exI [of _ gw] exI [of _ node]
        exI [of _ "\<lparr>base = Some (ioqueue_init page), reader_count = 1, writer_count = 1\<rparr>"] exI [of _ ft2] exI [of _ fds2])
      (simp add: r_def w_def node_def)
qed

definition ex_ft :: "open_file list" where
  "ex_ft = replicate 64 zero_file"

definition ex_fds :: "fd_entry list" where
  "ex_fds = replicate 32 \<lparr>global_fd_idx = - 1, flags = 0\<rparr>"

lemma ex_tables:
  "length ex_ft = MAX_FILE_OPEN_IN_SYSTEM" "free_slots ex_ft = {3..<64}"
  "length ex_fds = MAX_FILES_OPEN_PER_PROC" "free_fds ex_fds = {0..<32}"
  by (auto simp: ex_ft_def ex_fds_def free_slots_def free_fds_def zero_file_def
      MAX_FILE_OPEN_IN_SYSTEM_def MAX_FILES_OPEN_PER_PROC_def)

theorem sys_pipe_correct_witness:
  "\<exists>lr lw node pii ft' fds'. sys_pipe (Some 9) (Some (4096, ex_page)) ex_ft ex_fds =
    Some (0, Some (int lr, int lw, (9, node), pii, ft', fds')) \<and> lr \<noteq> lw \<and> i_open_cnts node = 2"
proof -
  have "2 \<le> card (free_slots ex_ft)" "2 \<le> card (free_fds ex_fds)"
    by (simp_all add: ex_tables)
  from sys_pipe_correct [OF ex_tables(1) this(1) ex_tables(3) this(2), of 9 4096 ex_page] show ?thesis
    by auto
qed

end
