(* ===== verification/Sync.thy ===== *)
theory Sync
  imports Ioqueue
begin

text \<open>
  Semaphores and locks, \<^verbatim>\<open>thread/sync.c\<close>. A task is a number. The part of an operation between two points
  where interrupts can be on is one definition, so \<^verbatim>\<open>lock_acquire\<close> is its test of the holder, the turns of
  \<^verbatim>\<open>sema_wait\<close> and the taking of the lock, and \<^verbatim>\<open>lock_release\<close> is the clearing of the lock and \<^verbatim>\<open>sema_signal\<close>.
  A step relation interleaves any number of tasks at these points. It covers every run in which no alarm of a
  task that sleeps in \<^verbatim>\<open>sema_wait\<close> falls due. Such an alarm makes the timer interrupt push \<^verbatim>\<open>general_tag\<close>, which
  links the task into \<^verbatim>\<open>waiters\<close>, onto the ready list as well, and the list of waiters is no list any more
  (lemma \<open>push_front_steals\<close> of theory Dlist); in every other run a task is in at most one of the two, so
  \<^verbatim>\<open>waiters\<close> is the list it represents.
\<close>

section \<open>The code\<close>

record semaphore =
  sem_value :: u8
  waiters :: "nat list"






definition sema_try_wait :: "semaphore \<Rightarrow> bool \<times> semaphore" where
  "sema_try_wait psema =
     (if sem_value psema > 0 then (True, psema\<lparr>sem_value := sem_value psema - 1\<rparr>) else (False, psema))"





section \<open>Interleaved tasks\<close>

text \<open>
  A task wants the lock, sleeps in the semaphore, has passed \<^verbatim>\<open>sema_wait\<close>, holds the lock with a nesting
  depth, or has cleared it and is about to signal.
\<close>

datatype lock_pc = L_idle | L_want | L_sleep | L_got | L_in nat | L_rel





definition owns :: "lock_pc \<Rightarrow> bool" where
  "owns p \<longleftrightarrow> p = L_got \<or> p = L_rel \<or> (\<exists>n. p = L_in n)"

text \<open>The unit of the semaphore is either free or with exactly one task; the waiters are the sleeping tasks.\<close>

definition queue_ok :: "nat list \<Rightarrow> (nat \<Rightarrow> lock_pc) \<Rightarrow> bool" where
  "queue_ok ws p \<longleftrightarrow> distinct ws \<and> set ws = {t. p t = L_sleep}"

lemma queue_ok_other [simp]:
  assumes "p t \<noteq> L_sleep" "x \<noteq> L_sleep"
  shows "queue_ok ws (p(t := x)) = queue_ok ws p"
proof -
  have "{u. (p(t := x)) u = L_sleep} = {u. p u = L_sleep}"
    using assms by auto
  then show ?thesis
    by (simp only: queue_ok_def)
qed






lemma owns_simps [simp]: "owns L_got" "owns L_rel" "owns (L_in n)" "\<not> owns L_idle" "\<not> owns L_want" "\<not> owns L_sleep"
  by (simp_all add: owns_def)



















end
