(* ===== verification/Sched.thy ===== *)
theory Sched
  imports Bitmap File_Table
begin

text \<open>
  Tasks and the scheduler, \<^verbatim>\<open>thread/thread.c\<close> and \<^verbatim>\<open>include/magicbox/thread.h\<close>. A task is a number (the
  address of its control block); the ready list, the list of all tasks, the sleep list and the alarm
  list hold task numbers. \<^verbatim>\<open>switch_to\<close> is the change of the current task, so an operation that gives up
  the processor returns the state in which the next task continues.
\<close>

section \<open>The code: tasks\<close>

datatype task_status = TASK_RUNNING | TASK_READY | TASK_BLOCKED | TASK_WAITING | TASK_HANGING | TASK_DIED

record sigaction =
  sa_handler :: u32
  sa_mask :: u32
  sa_flags :: u32
  sa_restorer :: u32

record task_struct =
  pid :: int
  status :: task_status
  task_name :: string
  priority :: int
  ticks :: int
  elapsed_ticks :: u32
  fd_table :: "fd_entry list"
  pgrp :: int
  mm :: "nat option"
  signal :: u32
  blocked :: u32
  sigactions :: "sigaction list"
  alarm :: u32
  wait_until :: u32
  parent_pid :: int
  exit_status :: int
  stack_magic :: u32

record ksys =
  task :: "nat \<Rightarrow> task_struct"
  thread_ready_list :: "nat list"
  thread_all_list :: "nat list"
  cur_task :: nat
  idle_thread :: "nat option"
  main_thread :: nat
  pid_bitmap :: bitmap
  intr_on :: bool
  sys_ticks :: u32
  timer_list :: "nat list"
  alarm_list :: "nat list"

text \<open>\<open>s16\<close> is the conversion to \<^verbatim>\<open>int16_t\<close>.\<close>

definition s16 :: "int \<Rightarrow> int" where
  "s16 x = (x + 32768) mod 65536 - 32768"

definition SIG_NR :: nat where "SIG_NR = 32"
definition STACK_MAGIC :: u32 where "STACK_MAGIC = 0x20030000"
definition MAX_PID_NUM_IN_BYTE :: u32 where "MAX_PID_NUM_IN_BYTE = 128"
definition pid_start :: u32 where "pid_start = 1"

definition upd_task :: "nat \<Rightarrow> (task_struct \<Rightarrow> task_struct) \<Rightarrow> ksys \<Rightarrow> ksys" where
  "upd_task t f s = s\<lparr>task := (task s)(t := f (task s t))\<rparr>"

definition intr_disable :: "ksys \<Rightarrow> ksys" where
  "intr_disable s = s\<lparr>intr_on := False\<rparr>"

definition intr_set_status :: "bool \<Rightarrow> ksys \<Rightarrow> ksys" where
  "intr_set_status old s = s\<lparr>intr_on := old\<rparr>"

definition pid_pool_init :: "ksys \<Rightarrow> ksys halting" where
  "pid_pool_init s = do {
     b \<leftarrow> bitmap_init \<lparr>btmp_bytes_len = MAX_PID_NUM_IN_BYTE, bits = replicate (unat MAX_PID_NUM_IN_BYTE) 0\<rparr>;
     Some (s\<lparr>pid_bitmap := b\<rparr>)
   }"

definition allocate_pid :: "ksys \<Rightarrow> (int \<times> ksys) halting" where
  "allocate_pid s = do {
     bit_idx \<leftarrow> bitmap_scan (pid_bitmap s) 1;
     b \<leftarrow> bitmap_set (pid_bitmap s) bit_idx 1;
     Some (sint (bit_idx + pid_start - 1), s\<lparr>pid_bitmap := b\<rparr>)
   }"

definition release_pid :: "int \<Rightarrow> ksys \<Rightarrow> ksys halting" where
  "release_pid p s = do {
     let bit_idx = word_of_int p - pid_start + 1;
     b \<leftarrow> bitmap_set (pid_bitmap s) bit_idx 0;
     Some (s\<lparr>pid_bitmap := b\<rparr>)
   }"

text \<open>The control block after \<^verbatim>\<open>init_thread\<close>; the kernel stack pages are outside of this state.\<close>

definition init_thread :: "nat \<Rightarrow> string \<Rightarrow> int \<Rightarrow> ksys \<Rightarrow> ksys halting" where
  "init_thread t nm prio s = do {
     (p, s) \<leftarrow> allocate_pid s;
     Some (upd_task t (\<lambda>_. \<lparr>pid = p, status = (if t = main_thread s then TASK_RUNNING else TASK_READY),
       task_name = nm, priority = s16 prio, ticks = s16 prio, elapsed_ticks = 0,
       fd_table = replicate MAX_FILES_OPEN_PER_PROC \<lparr>global_fd_idx = - 1, flags = 0\<rparr>, pgrp = p, mm = None,
       signal = 0, blocked = 0,
       sigactions = replicate SIG_NR \<lparr>sa_handler = 0, sa_mask = 0, sa_flags = 0, sa_restorer = 0\<rparr>,
       alarm = 0, wait_until = 0, parent_pid = - 1, exit_status = 0, stack_magic = STACK_MAGIC\<rparr>) s)
   }"

text \<open>\<^verbatim>\<open>thread_start\<close>; \<open>t\<close> is the page returned by \<^verbatim>\<open>get_kernel_pages(1)\<close>.\<close>

definition thread_start :: "nat \<Rightarrow> string \<Rightarrow> int \<Rightarrow> ksys \<Rightarrow> ksys halting" where
  "thread_start t nm prio s = do {
     s \<leftarrow> init_thread t nm prio s;
     ASSERT (t \<notin> set (thread_ready_list s));
     let s = s\<lparr>thread_ready_list := thread_ready_list s @ [t]\<rparr>;
     ASSERT (t \<notin> set (thread_all_list s));
     Some (s\<lparr>thread_all_list := thread_all_list s @ [t]\<rparr>)
   }"

section \<open>The code: scheduling\<close>

fun scan_ready :: "(nat \<Rightarrow> task_struct) \<Rightarrow> nat list \<Rightarrow> int \<Rightarrow> nat option \<Rightarrow> int \<times> nat option" where
  "scan_ready tk [] max_ticks nxt = (max_ticks, nxt)"
| "scan_ready tk (p # ps) max_ticks nxt =
     (if ticks (tk p) > max_ticks then scan_ready tk ps (ticks (tk p)) (Some p)
      else scan_ready tk ps max_ticks nxt)"

text \<open>The shift of a signed \<^verbatim>\<open>ticks\<close> rounds towards minus infinity.\<close>

fun reset_ticks :: "nat list \<Rightarrow> ksys \<Rightarrow> ksys" where
  "reset_ticks [] s = s"
| "reset_ticks (p # ps) s =
     reset_ticks ps (upd_task p (\<lambda>t. t\<lparr>ticks := s16 (ticks t div 2 + priority t)\<rparr>) s)"

partial_function (option) schedule_loop :: "ksys \<Rightarrow> (nat \<times> ksys) option" where
  "schedule_loop s = (let (max_ticks, nxt) = scan_ready (task s) (thread_ready_list s) (- 1) None in
     if nxt \<noteq> None \<and> max_ticks > 0 then Some (the nxt, s)
     else if thread_ready_list s = [] then
       (case idle_thread s of None \<Rightarrow> None
        | Some i \<Rightarrow> Some (i, if ticks (task s i) = 0 then upd_task i (\<lambda>t. t\<lparr>ticks := 1\<rparr>) s else s))
     else schedule_loop (reset_ticks (thread_all_list s) s))"

definition schedule :: "ksys \<Rightarrow> ksys halting" where
  "schedule s = do {
     ASSERT (\<not> intr_on s);
     let cur = cur_task s;
     s \<leftarrow> (if status (task s cur) = TASK_RUNNING then do {
         ASSERT (cur \<notin> set (thread_ready_list s));
         let s = s\<lparr>thread_ready_list := thread_ready_list s @ [cur]\<rparr>;
         Some (upd_task cur (\<lambda>t. t\<lparr>status := TASK_READY\<rparr>) s)
       } else Some s);
     (nxt, s) \<leftarrow> schedule_loop s;
     s \<leftarrow> (if nxt \<in> set (thread_ready_list s) then do {
         r \<leftarrow> unlink nxt (thread_ready_list s);
         Some (s\<lparr>thread_ready_list := r\<rparr>)
       } else Some s);
     let s = upd_task nxt (\<lambda>t. t\<lparr>status := TASK_RUNNING\<rparr>) s;
     Some (s\<lparr>cur_task := nxt\<rparr>)
   }"

text \<open>The end of \<^verbatim>\<open>intr_handler_timer\<close>: the check of the time slice of the running task.\<close>

definition time_slice :: "ksys \<Rightarrow> ksys halting" where
  "time_slice s = (if ticks (task s (cur_task s)) = 0 then schedule s
     else Some (upd_task (cur_task s) (\<lambda>t. t\<lparr>ticks := s16 (ticks t - 1)\<rparr>) s))"

definition is_sleep :: "task_status \<Rightarrow> bool" where
  "is_sleep st \<longleftrightarrow> st = TASK_BLOCKED \<or> st = TASK_WAITING \<or> st = TASK_HANGING"

definition thread_block :: "task_status \<Rightarrow> ksys \<Rightarrow> ksys halting" where
  "thread_block stat s = do {
     ASSERT (is_sleep stat);
     let s = intr_disable s;
     ASSERT (cur_task s \<notin> set (thread_ready_list s));
     schedule (upd_task (cur_task s) (\<lambda>t. t\<lparr>status := stat\<rparr>) s)
   }"

definition thread_unblock :: "nat \<Rightarrow> ksys \<Rightarrow> ksys halting" where
  "thread_unblock p s = do {
     let old = intr_on s;
     let s = intr_disable s;
     ASSERT (is_sleep (status (task s p)));
     s \<leftarrow> (if status (task s p) \<noteq> TASK_READY then do {
         ASSERT (p \<notin> set (thread_ready_list s));
         let s = s\<lparr>thread_ready_list := p # thread_ready_list s\<rparr>;
         Some (upd_task p (\<lambda>t. t\<lparr>status := TASK_READY\<rparr>) s)
       } else Some s);
     Some (intr_set_status old s)
   }"

definition thread_yield :: "ksys \<Rightarrow> ksys halting" where
  "thread_yield s = do {
     let cur = cur_task s;
     let s = intr_disable s;
     ASSERT (cur \<notin> set (thread_ready_list s));
     let s = s\<lparr>thread_ready_list := thread_ready_list s @ [cur]\<rparr>;
     schedule (upd_task cur (\<lambda>t. t\<lparr>status := TASK_READY\<rparr>) s)
   }"

text \<open>
  \<^verbatim>\<open>thread_exit\<close>: a tag is linked when the task is in the list. Freeing the stack, the address space
  descriptor and the control block is outside of this state; with \<open>need_schedule\<close> the code does not come
  back.
\<close>

definition thread_exit :: "nat \<Rightarrow> bool \<Rightarrow> ksys \<Rightarrow> ksys halting" where
  "thread_exit t need_schedule s = do {
     let s = intr_disable s;
     let s = upd_task t (\<lambda>x. x\<lparr>status := TASK_DIED\<rparr>) s;
     let s = (if t \<in> set (thread_ready_list s) then s\<lparr>thread_ready_list := remove1 t (thread_ready_list s)\<rparr> else s);
     let s = (if t \<in> set (timer_list s) then s\<lparr>timer_list := remove1 t (timer_list s)\<rparr> else s);
     let s = (if t \<in> set (alarm_list s) then s\<lparr>alarm_list := remove1 t (alarm_list s)\<rparr> else s);
     a \<leftarrow> unlink t (thread_all_list s);
     let s = s\<lparr>thread_all_list := a\<rparr>;
     let s = upd_task t (\<lambda>x. x\<lparr>mm := None\<rparr>) s;
     s \<leftarrow> release_pid (pid (task s t)) s;
     if need_schedule then schedule s else Some s
   }"

definition pid2thread :: "int \<Rightarrow> ksys \<Rightarrow> nat option" where
  "pid2thread p s = List.find (\<lambda>t. pid (task s t) = p) (thread_all_list s)"

definition EPERM :: int where "EPERM = 1"

text \<open>Both error returns of \<^verbatim>\<open>sys_setpgid\<close> leave interrupts disabled.\<close>

definition sys_setpgid :: "int \<Rightarrow> int \<Rightarrow> ksys \<Rightarrow> int \<times> ksys" where
  "sys_setpgid p pgid s = (let
     old = intr_on s;
     s = intr_disable s;
     pthread = (if p = 0 then Some (cur_task s) else pid2thread p s)
   in case pthread of None \<Rightarrow> (- 1, s)
     | Some t \<Rightarrow>
         if t \<noteq> cur_task s \<and> parent_pid (task s t) \<noteq> pid (task s (cur_task s)) then (- EPERM, s)
         else (0, intr_set_status old
           (upd_task t (\<lambda>x. x\<lparr>pgrp := (if pgid = 0 then pid x else pgid)\<rparr>) s)))"

definition sys_getpgid :: "int \<Rightarrow> ksys \<Rightarrow> int" where
  "sys_getpgid p s = (if p = 0 then pgrp (task s (cur_task s))
     else case pid2thread p s of Some t \<Rightarrow> pgrp (task s t) | None \<Rightarrow> - 1)"

definition sys_getppid :: "ksys \<Rightarrow> int" where
  "sys_getppid s = parent_pid (task s (cur_task s))"

section \<open>The scheduler invariant\<close>

lemma upd_task_sel [simp]:
  "task (upd_task t f s) = (task s)(t := f (task s t))"
  "thread_ready_list (upd_task t f s) = thread_ready_list s"
  "thread_all_list (upd_task t f s) = thread_all_list s"
  "cur_task (upd_task t f s) = cur_task s"
  "idle_thread (upd_task t f s) = idle_thread s"
  "main_thread (upd_task t f s) = main_thread s"
  "pid_bitmap (upd_task t f s) = pid_bitmap s"
  "intr_on (upd_task t f s) = intr_on s"
  "sys_ticks (upd_task t f s) = sys_ticks s"
  "timer_list (upd_task t f s) = timer_list s"
  "alarm_list (upd_task t f s) = alarm_list s"
  by (simp_all add: upd_task_def)

lemmas intr_defs [simp] = intr_disable_def intr_set_status_def

text \<open>
  The comment in \<^verbatim>\<open>schedule\<close>: the ticks of a task never pass twice its priority, so the sum does not
  overflow its 16 bits.
\<close>

definition ticks_ok :: "task_struct \<Rightarrow> bool" where
  "ticks_ok t \<longleftrightarrow> 1 \<le> priority t \<and> priority t \<le> 16383 \<and> 0 \<le> ticks t \<and> ticks t \<le> 2 * priority t"

definition sched_wf :: "ksys \<Rightarrow> bool" where
  "sched_wf s \<longleftrightarrow> distinct (thread_ready_list s) \<and> distinct (thread_all_list s) \<and>
     set (thread_ready_list s) \<subseteq> set (thread_all_list s) \<and>
     (\<exists>i. idle_thread s = Some i \<and> i \<in> set (thread_all_list s)) \<and>
     (\<forall>t\<in>set (thread_all_list s). ticks_ok (task s t) \<and>
       (status (task s t) = TASK_READY \<longleftrightarrow> t \<in> set (thread_ready_list s)) \<and>
       (status (task s t) = TASK_RUNNING \<longrightarrow> t = cur_task s))"

definition sched_inv :: "ksys \<Rightarrow> bool" where
  "sched_inv s \<longleftrightarrow> sched_wf s \<and> cur_task s \<in> set (thread_all_list s) \<and> status (task s (cur_task s)) = TASK_RUNNING"

lemma s16_id: "- 32768 \<le> x \<Longrightarrow> x \<le> 32767 \<Longrightarrow> s16 x = x"
  by (simp add: s16_def)

definition refill :: "task_struct \<Rightarrow> task_struct" where
  "refill t = t\<lparr>ticks := s16 (ticks t div 2 + priority t)\<rparr>"

lemma refill_ticks:
  assumes "ticks_ok t"
  shows "ticks (refill t) = ticks t div 2 + priority t" "ticks_ok (refill t)" "0 < ticks (refill t)"
proof -
  have "s16 (ticks t div 2 + priority t) = ticks t div 2 + priority t"
    using assms by (intro s16_id) (auto simp: ticks_ok_def)
  then show "ticks (refill t) = ticks t div 2 + priority t" "ticks_ok (refill t)" "0 < ticks (refill t)"
    using assms by (auto simp: refill_def ticks_ok_def)
qed

lemma reset_ticks_eq:
  "distinct ps \<Longrightarrow> reset_ticks ps s = s\<lparr>task := (\<lambda>t. if t \<in> set ps then refill (task s t) else task s t)\<rparr>"
proof (induction ps arbitrary: s)
  case Nil
  then show ?case by simp
next
  case (Cons p ps)
  have "reset_ticks ps (upd_task p refill s) = s\<lparr>task := (\<lambda>t. if t \<in> set ps
      then refill (((task s)(p := refill (task s p))) t) else ((task s)(p := refill (task s p))) t)\<rparr>"
    using Cons.prems by (simp add: Cons.IH upd_task_def cong: if_cong)
  moreover have "(\<lambda>t. if t \<in> set ps then refill (((task s)(p := refill (task s p))) t)
      else ((task s)(p := refill (task s p))) t) = (\<lambda>t. if t \<in> set (p # ps) then refill (task s t) else task s t)"
    using Cons.prems by (auto simp: fun_eq_iff)
  ultimately show ?case
    by (simp add: refill_def [abs_def])
qed

lemma scan_ready_spec:
  "scan_ready tk ps m nx = (m', nx') \<Longrightarrow> m \<le> m' \<and> (\<forall>p\<in>set ps. ticks (tk p) \<le> m') \<and>
    (nx' = nx \<and> m' = m \<or> (\<exists>p\<in>set ps. nx' = Some p \<and> ticks (tk p) = m'))"
proof (induction tk ps m nx rule: scan_ready.induct)
  case (1 tk max_ticks nxt)
  then show ?case by simp
next
  case (2 tk p ps max_ticks nxt)
  show ?case
  proof (cases "ticks (tk p) > max_ticks")
    case True
    with 2 show ?thesis by fastforce
  next
    case False
    with 2 show ?thesis by fastforce
  qed
qed

text \<open>What one round of the choice does on a list with a positive entry.\<close>

lemma schedule_loop_positive:
  assumes "\<exists>p\<in>set (thread_ready_list s). ticks (task s p) > 0"
  shows "\<exists>n. schedule_loop s = Some (n, s) \<and> n \<in> set (thread_ready_list s) \<and> 0 < ticks (task s n) \<and>
    (\<forall>p\<in>set (thread_ready_list s). ticks (task s p) \<le> ticks (task s n))"
proof -
  obtain m nx where m: "scan_ready (task s) (thread_ready_list s) (- 1) None = (m, nx)"
    by fastforce
  note r = scan_ready_spec [OF m]
  have "0 < m"
    using assms r by fastforce
  then obtain n where n: "n \<in> set (thread_ready_list s)" "nx = Some n" "ticks (task s n) = m"
    using r by auto
  have "schedule_loop s = Some (n, s)"
    using \<open>0 < m\<close> n m by (subst schedule_loop.simps) simp
  then show ?thesis
    using n r \<open>0 < m\<close> by auto
qed

lemma schedule_loop_exhausted:
  assumes "thread_ready_list s \<noteq> []" "\<forall>p\<in>set (thread_ready_list s). ticks (task s p) \<le> 0"
  shows "schedule_loop s = schedule_loop (reset_ticks (thread_all_list s) s)"
proof -
  obtain m nx where m: "scan_ready (task s) (thread_ready_list s) (- 1) None = (m, nx)"
    by fastforce
  have "\<not> (nx \<noteq> None \<and> m > 0)"
    using scan_ready_spec [OF m] assms(2) by fastforce
  then show ?thesis
    using m assms(1) by (subst schedule_loop.simps) auto
qed

definition same_but_ticks :: "(nat \<Rightarrow> task_struct) \<Rightarrow> (nat \<Rightarrow> task_struct) \<Rightarrow> bool" where
  "same_but_ticks f g \<longleftrightarrow> (\<forall>t. f t = (g t)\<lparr>ticks := ticks (f t)\<rparr>)"

lemma same_but_ticksD:
  assumes "same_but_ticks f g"
  shows "status (f t) = status (g t)" "priority (f t) = priority (g t)"
proof -
  have e: "f t = (g t)\<lparr>ticks := ticks (f t)\<rparr>"
    using assms by (simp add: same_but_ticks_def)
  show "status (f t) = status (g t)" "priority (f t) = priority (g t)"
    using arg_cong [OF e, of status] arg_cong [OF e, of priority] by simp_all
qed

lemma same_but_ticksI:
  assumes "\<And>t. f t = g t \<or> (\<exists>x. f t = (g t)\<lparr>ticks := x\<rparr>)"
  shows "same_but_ticks f g"
  unfolding same_but_ticks_def
proof
  fix t
  show "f t = (g t)\<lparr>ticks := ticks (f t)\<rparr>"
    using assms [of t] by auto
qed

lemma sched_wfD:
  assumes "sched_wf s"
  shows "distinct (thread_ready_list s)" "distinct (thread_all_list s)"
    "set (thread_ready_list s) \<subseteq> set (thread_all_list s)"
    "t \<in> set (thread_all_list s) \<Longrightarrow> ticks_ok (task s t)"
    "t \<in> set (thread_all_list s) \<Longrightarrow> status (task s t) = TASK_READY \<longleftrightarrow> t \<in> set (thread_ready_list s)"
    "t \<in> set (thread_all_list s) \<Longrightarrow> t \<noteq> cur_task s \<Longrightarrow> status (task s t) \<noteq> TASK_RUNNING"
  using assms by (auto simp: sched_wf_def)

lemma not_ready:
  assumes "sched_wf s" "status (task s t) \<noteq> TASK_READY"
  shows "t \<notin> set (thread_ready_list s)"
  using assms(2) sched_wfD(3,5) [OF assms(1)] by blast

lemma schedule_loop_spec:
  assumes "sched_wf s"
  shows "\<exists>n tk. schedule_loop s = Some (n, s\<lparr>task := tk\<rparr>) \<and> same_but_ticks tk (task s) \<and>
    n \<in> set (thread_all_list s) \<and> 0 < ticks (tk n) \<and> (\<forall>t\<in>set (thread_all_list s). ticks_ok (tk t)) \<and>
    (if thread_ready_list s = [] then idle_thread s = Some n
     else n \<in> set (thread_ready_list s) \<and> (\<forall>p\<in>set (thread_ready_list s). ticks (tk p) \<le> ticks (tk n))) \<and>
    ((\<exists>p\<in>set (thread_ready_list s). 0 < ticks (task s p)) \<longrightarrow> tk = task s) \<and>
    ((\<forall>p\<in>set (thread_ready_list s). ticks (task s p) \<le> 0) \<longrightarrow> (\<forall>p\<in>set (thread_ready_list s). 0 < ticks (tk p)))"
proof -
  note wf = sched_wfD [OF assms]
  consider (idle) "thread_ready_list s = []"
    | (pos) "\<exists>p\<in>set (thread_ready_list s). ticks (task s p) > 0"
    | (none) "thread_ready_list s \<noteq> []" "\<forall>p\<in>set (thread_ready_list s). ticks (task s p) \<le> 0"
    by fastforce
  then show ?thesis
  proof cases
    case idle
    obtain i where i: "idle_thread s = Some i" "i \<in> set (thread_all_list s)"
      using assms by (auto simp: sched_wf_def)
    define tk where "tk = (if ticks (task s i) = 0 then (task s)(i := (task s i)\<lparr>ticks := 1\<rparr>) else task s)"
    have "schedule_loop s = Some (i, s\<lparr>task := tk\<rparr>)"
      using idle i by (subst schedule_loop.simps) (simp add: upd_task_def tk_def)
    moreover have "same_but_ticks tk (task s)"
      by (rule same_but_ticksI) (auto simp: tk_def)
    moreover have "0 < ticks (tk i)" "\<forall>t\<in>set (thread_all_list s). ticks_ok (tk t)"
      using wf(4) i(2) by (force simp: tk_def ticks_ok_def)+
    ultimately show ?thesis
      using i idle by auto
  next
    case pos
    then obtain n where "schedule_loop s = Some (n, s)" "n \<in> set (thread_ready_list s)" "0 < ticks (task s n)"
        "\<forall>p\<in>set (thread_ready_list s). ticks (task s p) \<le> ticks (task s n)"
      using schedule_loop_positive by blast
    moreover have "same_but_ticks (task s) (task s)" "s\<lparr>task := task s\<rparr> = s"
      by (simp_all add: same_but_ticks_def)
    moreover have "thread_ready_list s \<noteq> []" "\<not> (\<forall>p\<in>set (thread_ready_list s). ticks (task s p) \<le> 0)"
      using pos by fastforce+
    moreover have "n \<in> set (thread_all_list s)" "\<forall>t\<in>set (thread_all_list s). ticks_ok (task s t)"
      using \<open>n \<in> set (thread_ready_list s)\<close> wf(3,4) by blast+
    ultimately show ?thesis
      by (intro exI [of _ n] exI [of _ "task s"] conjI) (simp_all, blast)
  next
    case none
    define tk where "tk = (\<lambda>t. if t \<in> set (thread_all_list s) then refill (task s t) else task s t)"
    have r: "reset_ticks (thread_all_list s) s = s\<lparr>task := tk\<rparr>"
      using reset_ticks_eq [OF wf(2)] by (simp add: tk_def)
    have pos: "0 < ticks (tk t)" "ticks_ok (tk t)" if "t \<in> set (thread_all_list s)" for t
      using that refill_ticks [OF wf(4)] by (simp_all add: tk_def)
    have "\<exists>p\<in>set (thread_ready_list (s\<lparr>task := tk\<rparr>)). ticks (task (s\<lparr>task := tk\<rparr>) p) > 0"
      using none(1) pos wf(3) by (cases "thread_ready_list s") auto
    then obtain n where "schedule_loop (s\<lparr>task := tk\<rparr>) = Some (n, s\<lparr>task := tk\<rparr>)" "n \<in> set (thread_ready_list s)"
        "0 < ticks (tk n)" "\<forall>p\<in>set (thread_ready_list s). ticks (tk p) \<le> ticks (tk n)"
      using schedule_loop_positive by fastforce
    moreover have "same_but_ticks tk (task s)"
      by (rule same_but_ticksI) (auto simp: tk_def refill_def)
    ultimately show ?thesis
      using none pos wf(3) r schedule_loop_exhausted [OF none]
      by (intro exI [of _ n] exI [of _ tk]) auto
  qed
qed

text \<open>The ready list after the running task, if it is still runnable, was put at its end.\<close>

definition run_queue :: "ksys \<Rightarrow> nat list" where
  "run_queue s = (if status (task s (cur_task s)) = TASK_RUNNING then thread_ready_list s @ [cur_task s] else thread_ready_list s)"

definition requeue :: "ksys \<Rightarrow> ksys" where
  "requeue s = (if status (task s (cur_task s)) = TASK_RUNNING
     then upd_task (cur_task s) (\<lambda>t. t\<lparr>status := TASK_READY\<rparr>) (s\<lparr>thread_ready_list := thread_ready_list s @ [cur_task s]\<rparr>)
     else s)"

lemma requeue_sel [simp]:
  "thread_ready_list (requeue s) = run_queue s" "thread_all_list (requeue s) = thread_all_list s"
  "cur_task (requeue s) = cur_task s" "idle_thread (requeue s) = idle_thread s"
  by (simp_all add: requeue_def run_queue_def)

lemma sched_wfI:
  assumes "distinct (thread_ready_list s)" "distinct (thread_all_list s)"
    and "set (thread_ready_list s) \<subseteq> set (thread_all_list s)"
    and "idle_thread s = Some i" "i \<in> set (thread_all_list s)"
    and "\<And>t. t \<in> set (thread_all_list s) \<Longrightarrow> ticks_ok (task s t)"
    and "\<And>t. t \<in> set (thread_all_list s) \<Longrightarrow> status (task s t) = TASK_READY \<longleftrightarrow> t \<in> set (thread_ready_list s)"
    and "\<And>t. t \<in> set (thread_all_list s) \<Longrightarrow> t \<noteq> cur_task s \<Longrightarrow> status (task s t) \<noteq> TASK_RUNNING"
  shows "sched_wf s"
  unfolding sched_wf_def using assms by blast

lemma sched_wf_idle:
  assumes "sched_wf s"
  obtains i where "idle_thread s = Some i" "i \<in> set (thread_all_list s)"
  using assms by (auto simp: sched_wf_def)

lemma ticks_ok_status [simp]: "ticks_ok (t\<lparr>status := x\<rparr>) = ticks_ok t"
  by (simp add: ticks_ok_def)

lemma requeue_ticks: "ticks (task (requeue s) t) = ticks (task s t)"
  by (simp add: requeue_def)

lemma requeue_wf:
  assumes "sched_wf s" "status (task s (cur_task s)) = TASK_RUNNING \<longrightarrow> cur_task s \<in> set (thread_all_list s)"
  shows "sched_wf (requeue s)" "t \<in> set (thread_all_list s) \<Longrightarrow> status (task (requeue s) t) \<noteq> TASK_RUNNING"
proof -
  note wf = sched_wfD [OF assms(1)]
  obtain i where i: "idle_thread s = Some i" "i \<in> set (thread_all_list s)"
    using assms(1) by (rule sched_wf_idle)
  show "sched_wf (requeue s)"
  proof (cases "status (task s (cur_task s)) = TASK_RUNNING")
    case True
    then have c: "cur_task s \<notin> set (thread_ready_list s)" "cur_task s \<in> set (thread_all_list s)"
      using assms(2) by (simp_all add: not_ready [OF assms(1)])
    show ?thesis
      by (rule sched_wfI [of _ i]) (use True c i wf in \<open>simp_all add: requeue_def run_queue_def split: if_splits\<close>)
  next
    case False
    then show ?thesis
      using assms(1) by (simp add: requeue_def)
  qed
  show "status (task (requeue s) t) \<noteq> TASK_RUNNING" if "t \<in> set (thread_all_list s)"
    using wf(6) [OF that] by (auto simp: requeue_def)
qed

text \<open>What a call of \<^verbatim>\<open>schedule\<close> promises.\<close>

definition scheduled :: "ksys \<Rightarrow> ksys \<Rightarrow> bool" where
  "scheduled s s' \<longleftrightarrow> sched_inv s' \<and> thread_all_list s' = thread_all_list s \<and>
     thread_ready_list s' = remove1 (cur_task s') (run_queue s) \<and> 0 < ticks (task s' (cur_task s')) \<and>
     (if run_queue s = [] then idle_thread s = Some (cur_task s')
      else cur_task s' \<in> set (run_queue s) \<and>
        (\<forall>p\<in>set (run_queue s). ticks (task s' p) \<le> ticks (task s' (cur_task s')))) \<and>
     ((\<exists>p\<in>set (run_queue s). 0 < ticks (task s p)) \<longrightarrow> (\<forall>t. ticks (task s' t) = ticks (task s t))) \<and>
     ((\<forall>p\<in>set (run_queue s). ticks (task s p) \<le> 0) \<longrightarrow> (\<forall>p\<in>set (run_queue s). 0 < ticks (task s' p))) \<and>
     (\<forall>t. t \<noteq> cur_task s' \<longrightarrow> status (task s' t) = status (task (requeue s) t)) \<and>
     (\<forall>t. task s' t = (task s t)\<lparr>status := status (task s' t), ticks := ticks (task s' t)\<rparr>) \<and>
     \<not> intr_on s' \<and> idle_thread s' = idle_thread s \<and> pid_bitmap s' = pid_bitmap s \<and> sys_ticks s' = sys_ticks s \<and>
     timer_list s' = timer_list s \<and> alarm_list s' = alarm_list s"

lemma schedule_unfold:
  assumes "\<not> intr_on s" "status (task s (cur_task s)) = TASK_RUNNING \<longrightarrow> cur_task s \<notin> set (thread_ready_list s)"
    and "schedule_loop (requeue s) = Some (n, s1)"
  shows "schedule s = Some ((upd_task n (\<lambda>t. t\<lparr>status := TASK_RUNNING\<rparr>)
    (s1\<lparr>thread_ready_list := remove1 n (thread_ready_list s1)\<rparr>))\<lparr>cur_task := n\<rparr>)"
proof -
  have u: "(if n \<in> set (thread_ready_list s1) then unlink n (thread_ready_list s1) \<bind> (\<lambda>r. Some (s1\<lparr>thread_ready_list := r\<rparr>))
      else Some s1) = Some (s1\<lparr>thread_ready_list := remove1 n (thread_ready_list s1)\<rparr>)"
    by (auto simp: unlink_def remove1_idem)
  show ?thesis
    using assms u by (cases "status (task s (cur_task s)) = TASK_RUNNING") (simp_all add: schedule_def requeue_def)
qed

lemma schedule_spec:
  assumes "sched_wf s" "\<not> intr_on s" "status (task s (cur_task s)) = TASK_RUNNING \<longrightarrow> cur_task s \<in> set (thread_all_list s)"
  shows "\<exists>s'. schedule s = Some s' \<and> scheduled s s'"
proof -
  note wf = sched_wfD [OF assms(1)]
  note rq = requeue_wf [OF assms(1,3)]
  have c: "status (task s (cur_task s)) = TASK_RUNNING \<longrightarrow> cur_task s \<notin> set (thread_ready_list s)"
    by (simp add: not_ready [OF assms(1)])
  obtain n tk where l: "schedule_loop (requeue s) = Some (n, (requeue s)\<lparr>task := tk\<rparr>)"
      "same_but_ticks tk (task (requeue s))" "n \<in> set (thread_all_list s)" "0 < ticks (tk n)"
      "\<forall>t\<in>set (thread_all_list s). ticks_ok (tk t)"
      "if run_queue s = [] then idle_thread s = Some n
       else n \<in> set (run_queue s) \<and> (\<forall>p\<in>set (run_queue s). ticks (tk p) \<le> ticks (tk n))"
      "(\<exists>p\<in>set (run_queue s). 0 < ticks (task s p)) \<longrightarrow> tk = task (requeue s)"
      "(\<forall>p\<in>set (run_queue s). ticks (task s p) \<le> 0) \<longrightarrow> (\<forall>p\<in>set (run_queue s). 0 < ticks (tk p))"
    using schedule_loop_spec [OF rq(1), unfolded requeue_sel requeue_ticks] by blast
  define s' where "s' = (upd_task n (\<lambda>t. t\<lparr>status := TASK_RUNNING\<rparr>)
    ((requeue s)\<lparr>task := tk, thread_ready_list := remove1 n (run_queue s)\<rparr>))\<lparr>cur_task := n\<rparr>"
  have e: "schedule s = Some s'"
    using schedule_unfold [OF assms(2) c l(1)] by (simp add: s'_def)
  note st = same_but_ticksD [OF l(2)]
  have s: "status (task s' t) = (if t = n then TASK_RUNNING else status (task (requeue s) t))"
      "ticks (task s' t) = ticks (tk t)" for t
    using st by (simp_all add: s'_def)
  have f: "thread_all_list s' = thread_all_list s" "thread_ready_list s' = remove1 n (run_queue s)" "cur_task s' = n"
      "\<not> intr_on s'" "idle_thread s' = idle_thread s" "pid_bitmap s' = pid_bitmap s" "sys_ticks s' = sys_ticks s"
      "timer_list s' = timer_list s" "alarm_list s' = alarm_list s"
    using assms(2) by (simp_all add: s'_def requeue_def)
  have d: "distinct (run_queue s)" "set (run_queue s) \<subseteq> set (thread_all_list s)"
    using sched_wfD(1,3) [OF rq(1)] by simp_all
  have w4: "ticks_ok (task s' t)" if "t \<in> set (thread_all_list s)" for t
    using l(5) that by (auto simp: s'_def ticks_ok_def)
  have w5: "status (task s' t) = TASK_READY \<longleftrightarrow> t \<in> set (thread_ready_list s')" if "t \<in> set (thread_all_list s)" for t
    using sched_wfD(5) [OF rq(1), of t] that s d(1) f(2) by auto
  have w6: "status (task s' t) \<noteq> TASK_RUNNING" if "t \<in> set (thread_all_list s)" "t \<noteq> n" for t
    using rq(2) [OF that(1)] that(2) s by auto
  have w1: "distinct (thread_ready_list s')" "set (thread_ready_list s') \<subseteq> set (thread_all_list s)"
    using d f(2) by (auto dest: notin_set_remove1)
  obtain i where "idle_thread s = Some i" "i \<in> set (thread_all_list s)"
    using assms(1) by (rule sched_wf_idle)
  then have "sched_wf s'"
    by (intro sched_wfI [of _ i]) (use w1 w4 w5 w6 wf(2) f(1,3,5) in simp_all)
  then have "sched_inv s'"
    using f(1,3) s(1) l(3) by (simp add: sched_inv_def)
  moreover have "task s' t = (task s t)\<lparr>status := status (task s' t), ticks := ticks (task s' t)\<rparr>" for t
  proof -
    obtain x where x: "tk t = (task (requeue s) t)\<lparr>ticks := x\<rparr>"
      using l(2) unfolding same_but_ticks_def by blast
    have "task (requeue s) t = (task s t)\<lparr>status := status (task (requeue s) t)\<rparr>"
      by (simp add: requeue_def)
    then obtain y where y: "task (requeue s) t = (task s t)\<lparr>status := y\<rparr>"
      by blast
    have "task s' t = (tk t)\<lparr>status := status (task s' t)\<rparr>"
      by (simp add: s'_def)
    then obtain z where "task s' t = (tk t)\<lparr>status := z\<rparr>"
      by blast
    then show ?thesis
      unfolding x y by simp
  qed
  ultimately have "scheduled s s'"
    unfolding scheduled_def using f s l(4,6,7,8) by (simp add: requeue_ticks)
  then show ?thesis
    using e by blast
qed

lemmas scheduledD = scheduled_def [THEN iffD1]

section \<open>Every operation keeps the invariant\<close>

lemma sched_invD:
  assumes "sched_inv s"
  shows "sched_wf s" "cur_task s \<in> set (thread_all_list s)" "status (task s (cur_task s)) = TASK_RUNNING"
    "cur_task s \<notin> set (thread_ready_list s)"
  using assms not_ready [of s "cur_task s"] by (simp_all add: sched_inv_def)

text \<open>Changing the status of the running task to one that is neither ready nor running.\<close>

lemma leave_cpu_wf:
  assumes "sched_inv s" "st \<noteq> TASK_READY" "st \<noteq> TASK_RUNNING"
  shows "sched_wf (upd_task (cur_task s) (\<lambda>t. t\<lparr>status := st\<rparr>) (s\<lparr>intr_on := b\<rparr>))"
proof -
  note inv = sched_invD [OF assms(1)]
  note wf = sched_wfD [OF inv(1)]
  obtain i where "idle_thread s = Some i" "i \<in> set (thread_all_list s)"
    using inv(1) by (rule sched_wf_idle)
  then show ?thesis
    by (intro sched_wfI [of _ i]) (use wf inv(2,4) assms(2,3) in \<open>simp_all split: if_splits\<close>)
qed

lemma thread_block_spec:
  assumes "sched_inv s" "is_sleep st"
  shows "\<exists>s'. thread_block st s = Some s' \<and>
    scheduled (upd_task (cur_task s) (\<lambda>t. t\<lparr>status := st\<rparr>) (s\<lparr>intr_on := False\<rparr>)) s'"
proof -
  let ?s = "upd_task (cur_task s) (\<lambda>t. t\<lparr>status := st\<rparr>) (s\<lparr>intr_on := False\<rparr>)"
  have "sched_wf ?s"
    using assms by (intro leave_cpu_wf) (auto simp: is_sleep_def)
  moreover have "status (task ?s (cur_task ?s)) \<noteq> TASK_RUNNING"
    using assms(2) by (auto simp: is_sleep_def)
  ultimately have "\<exists>s'. schedule ?s = Some s' \<and> scheduled ?s s'"
    by (intro schedule_spec) simp_all
  then show ?thesis
    using sched_invD(4) [OF assms(1)] assms(2) by (simp add: thread_block_def)
qed

lemma thread_yield_spec:
  assumes "sched_inv s"
  shows "\<exists>s'. thread_yield s = Some s' \<and> scheduled (s\<lparr>intr_on := False\<rparr>) s'"
proof -
  let ?s = "s\<lparr>intr_on := False\<rparr>"
  note inv = sched_invD [OF assms]
  have r: "requeue ?s = upd_task (cur_task s) (\<lambda>t. t\<lparr>status := TASK_READY\<rparr>)
      (?s\<lparr>thread_ready_list := thread_ready_list s @ [cur_task s]\<rparr>)"
    using inv(3) by (simp add: requeue_def)
  have w: "sched_wf ?s"
    using inv(1) by (simp add: sched_wf_def)
  have "schedule (requeue ?s) = schedule ?s"
    using inv(3,4) by (simp add: schedule_def r)
  moreover have "\<exists>s'. schedule ?s = Some s' \<and> scheduled ?s s'"
    using w inv(2) by (intro schedule_spec) simp_all
  ultimately show ?thesis
    using inv(4) r by (simp add: thread_yield_def)
qed

lemma thread_unblock_spec:
  assumes "sched_inv s" "t \<in> set (thread_all_list s)" "is_sleep (status (task s t))"
  shows "thread_unblock t s = Some (upd_task t (\<lambda>x. x\<lparr>status := TASK_READY\<rparr>) (s\<lparr>thread_ready_list := t # thread_ready_list s\<rparr>))"
    and "sched_inv (upd_task t (\<lambda>x. x\<lparr>status := TASK_READY\<rparr>) (s\<lparr>thread_ready_list := t # thread_ready_list s\<rparr>))"
proof -
  note inv = sched_invD [OF assms(1)]
  note wf = sched_wfD [OF inv(1)]
  have n: "status (task s t) \<noteq> TASK_READY" "status (task s t) \<noteq> TASK_RUNNING"
    using assms(3) by (auto simp: is_sleep_def)
  then have f: "t \<notin> set (thread_ready_list s)" "t \<noteq> cur_task s"
    using not_ready [OF inv(1)] inv(3) by auto
  show "thread_unblock t s = Some (upd_task t (\<lambda>x. x\<lparr>status := TASK_READY\<rparr>) (s\<lparr>thread_ready_list := t # thread_ready_list s\<rparr>))"
    using assms(3) n f by (simp add: thread_unblock_def upd_task_def)
  obtain i where "idle_thread s = Some i" "i \<in> set (thread_all_list s)"
    using inv(1) by (rule sched_wf_idle)
  then have "sched_wf (upd_task t (\<lambda>x. x\<lparr>status := TASK_READY\<rparr>) (s\<lparr>thread_ready_list := t # thread_ready_list s\<rparr>))"
    by (intro sched_wfI [of _ i]) (use wf f assms(2) in \<open>simp_all split: if_splits\<close>)
  then show "sched_inv (upd_task t (\<lambda>x. x\<lparr>status := TASK_READY\<rparr>) (s\<lparr>thread_ready_list := t # thread_ready_list s\<rparr>))"
    using inv(2,3) f(2) by (simp add: sched_inv_def)
qed

lemma time_slice_dec:
  assumes "sched_inv s" "ticks (task s (cur_task s)) \<noteq> 0"
  shows "time_slice s = Some (upd_task (cur_task s) (\<lambda>t. t\<lparr>ticks := ticks t - 1\<rparr>) s)"
    and "sched_inv (upd_task (cur_task s) (\<lambda>t. t\<lparr>ticks := ticks t - 1\<rparr>) s)"
proof -
  note inv = sched_invD [OF assms(1)]
  note wf = sched_wfD [OF inv(1)]
  have k: "ticks_ok (task s (cur_task s))"
    using wf(4) inv(2) by blast
  then have "s16 (ticks (task s (cur_task s)) - 1) = ticks (task s (cur_task s)) - 1"
    by (intro s16_id) (auto simp: ticks_ok_def)
  then show "time_slice s = Some (upd_task (cur_task s) (\<lambda>t. t\<lparr>ticks := ticks t - 1\<rparr>) s)"
    using assms(2) by (simp add: time_slice_def upd_task_def)
  obtain i where "idle_thread s = Some i" "i \<in> set (thread_all_list s)"
    using inv(1) by (rule sched_wf_idle)
  moreover have "ticks_ok ((task s (cur_task s))\<lparr>ticks := ticks (task s (cur_task s)) - 1\<rparr>)"
    using k assms(2) by (simp add: ticks_ok_def)
  ultimately have "sched_wf (upd_task (cur_task s) (\<lambda>t. t\<lparr>ticks := ticks t - 1\<rparr>) s)"
    by (intro sched_wfI [of _ i]) (use wf inv in \<open>simp_all split: if_splits\<close>)
  then show "sched_inv (upd_task (cur_task s) (\<lambda>t. t\<lparr>ticks := ticks t - 1\<rparr>) s)"
    using inv(2,3) by (simp add: sched_inv_def)
qed

lemma time_slice_zero:
  assumes "sched_inv s" "ticks (task s (cur_task s)) = 0" "\<not> intr_on s"
  shows "\<exists>s'. time_slice s = Some s' \<and> scheduled s s'"
  using schedule_spec [OF sched_invD(1) [OF assms(1)] assms(3)] sched_invD(2) [OF assms(1)] assms(2)
  by (simp add: time_slice_def)

section \<open>Process numbers\<close>

definition pid_inv :: "ksys \<Rightarrow> bool" where
  "pid_inv s \<longleftrightarrow> bm_wf (pid_bitmap s) \<and> bm_nr (pid_bitmap s) = 1024 \<and>
     inj_on (\<lambda>t. pid (task s t)) (set (thread_all_list s)) \<and>
     (\<forall>t\<in>set (thread_all_list s). 0 \<le> pid (task s t) \<and> pid (task s t) < 1024 \<and>
       nat (pid (task s t)) \<notin> bm_free (pid_bitmap s))"

lemma sint_small:
  assumes "unat (w :: u32) < 2 ^ 31"
  shows "sint w = int (unat w)"
proof -
  have u: "int (unat w) = uint w"
    by (rule uint_nat [symmetric])
  have "int (unat w) < int (2 ^ 31)"
    using assms by (simp only: of_nat_less_iff)
  then have "uint w < 2 ^ 31"
    by simp
  then have "signed_take_bit 31 (uint w) = uint w"
    by (intro signed_take_bit_int_eq_self) (simp_all add: order_trans [OF _ uint_ge_0])
  then show ?thesis
    using u by (simp add: sint_uint)
qed

lemma allocate_pid_spec:
  assumes "bm_wf (pid_bitmap s)" "bm_nr (pid_bitmap s) = 1024" "bm_free (pid_bitmap s) \<noteq> {}"
  shows "\<exists>b. allocate_pid s = Some (int (Min (bm_free (pid_bitmap s))), s\<lparr>pid_bitmap := b\<rparr>) \<and> bm_wf b \<and> bm_nr b = 1024 \<and>
    bm_free b = bm_free (pid_bitmap s) - {Min (bm_free (pid_bitmap s))} \<and> Min (bm_free (pid_bitmap s)) < 1024"
proof -
  obtain i b where i: "take_one (\<lambda>b. bitmap_scan b 1) bitmap_set (pid_bitmap s) = Some (i, b)" "bm_wf b" "bm_nr b = 1024"
      "unat i = Min (bm_free (pid_bitmap s))" "unat i \<in> bm_free (pid_bitmap s)"
      "bm_free b = bm_free (pid_bitmap s) - {unat i}"
    using bmp.take_one_law [OF assms(1,3)] assms(2) by auto
  have "unat i < 1024"
    using i(5) assms(2) by (auto simp: bm_free_def)
  moreover from this have "sint i = int (unat i)"
    by (intro sint_small) simp
  ultimately show ?thesis
    using i by (auto simp: allocate_pid_def take_one_def pid_start_def halting_simps)
qed

lemma release_pid_spec:
  assumes "bm_wf (pid_bitmap s)" "bm_nr (pid_bitmap s) = 1024" "0 \<le> p" "p < 1024"
  shows "\<exists>b. release_pid p s = Some (s\<lparr>pid_bitmap := b\<rparr>) \<and> bm_wf b \<and> bm_nr b = 1024 \<and>
    bm_free b = insert (nat p) (bm_free (pid_bitmap s))"
proof -
  have u: "unat (word_of_int p :: u32) = nat p"
    using assms(3,4) by (simp add: unsigned_of_int take_bit_int_eq_self)
  then have "unat (word_of_int p :: u32) < bm_nr (pid_bitmap s)"
    using assms(2-4) by simp
  from bmp.clear_law [OF assms(1) this] show ?thesis
    using u assms(2) by (auto simp: release_pid_def pid_start_def)
qed

end
