(* ===== verification/Sched_Steps.thy ===== *)
theory Sched_Steps
  imports Sched
begin

text \<open>
  Runs of the scheduler: the creation and destruction of tasks, the step relation over all operations of
  \<^verbatim>\<open>thread/thread.c\<close> with its invariant, and the absence of starvation under the timer.
\<close>

section \<open>Creating and destroying tasks\<close>

lemma thread_start_spec:
  assumes "sched_inv s" "pid_inv s" "t \<notin> set (thread_all_list s)" "t \<noteq> main_thread s" "t \<noteq> cur_task s"
    and "1 \<le> prio" "prio \<le> 16383" "bm_free (pid_bitmap s) \<noteq> {}"
  shows "\<exists>s'. thread_start t nm prio s = Some s' \<and> sched_inv s' \<and> pid_inv s' \<and>
    pid (task s' t) = int (Min (bm_free (pid_bitmap s))) \<and>
    thread_ready_list s' = thread_ready_list s @ [t] \<and> thread_all_list s' = thread_all_list s @ [t] \<and>
    (\<forall>u. u \<noteq> t \<longrightarrow> task s' u = task s u)"
proof -
  note inv = sched_invD [OF assms(1)]
  note wf = sched_wfD [OF inv(1)]
  define p where "p = Min (bm_free (pid_bitmap s))"
  have pb: "bm_wf (pid_bitmap s)" "bm_nr (pid_bitmap s) = 1024"
    using assms(2) by (simp_all add: pid_inv_def)
  obtain b where b: "allocate_pid s = Some (int p, s\<lparr>pid_bitmap := b\<rparr>)" "bm_wf b" "bm_nr b = 1024"
      "bm_free b = bm_free (pid_bitmap s) - {p}" "p < 1024"
    using allocate_pid_spec [OF pb assms(8)] p_def by blast
  have pf: "p \<in> bm_free (pid_bitmap s)"
    unfolding p_def using Min_in [OF bmp.finite_free assms(8)] .
  have nr: "t \<notin> set (thread_ready_list s)"
    using assms(3) wf(3) by blast
  have p16: "s16 prio = prio"
    using assms(6,7) by (intro s16_id) simp_all
  obtain s' where s': "thread_start t nm prio s = Some s'" "thread_ready_list s' = thread_ready_list s @ [t]"
      "thread_all_list s' = thread_all_list s @ [t]" "\<forall>u. u \<noteq> t \<longrightarrow> task s' u = task s u" "pid (task s' t) = int p"
      "status (task s' t) = TASK_READY" "ticks_ok (task s' t)" "pid_bitmap s' = b" "cur_task s' = cur_task s"
      "idle_thread s' = idle_thread s"
    using b(1) nr assms(3,4,6,7) p16 by (simp add: thread_start_def init_thread_def ticks_ok_def)
  obtain i where i: "idle_thread s = Some i" "i \<in> set (thread_all_list s)"
    using inv(1) by (rule sched_wf_idle)
  have o: "task s' u = task s u" if "u \<in> set (thread_all_list s)" for u
    using that assms(3) s'(4) by metis
  have "sched_wf s'"
  proof (rule sched_wfI [of _ i])
    fix u
    assume "u \<in> set (thread_all_list s')"
    then consider "u = t" | "u \<in> set (thread_all_list s)" "u \<noteq> t"
      using s'(3) by auto
    then show "ticks_ok (task s' u)" "status (task s' u) = TASK_READY \<longleftrightarrow> u \<in> set (thread_ready_list s')"
      "u \<noteq> cur_task s' \<Longrightarrow> status (task s' u) \<noteq> TASK_RUNNING"
      using s' o wf by (cases; simp)+
  qed (use s'(2,3,10) i wf(1-3) nr assms(3) in auto)
  then have "sched_inv s'"
    using inv(2,3) o [OF inv(2)] s'(3,9) by (simp add: sched_inv_def)
  moreover have "pid_inv s'"
  proof -
    have ne: "pid (task s' u) \<noteq> int p" if "u \<in> set (thread_all_list s)" for u
      using assms(2) that pf by (auto simp: pid_inv_def o [OF that])
    have "pid (task s' t) \<notin> (\<lambda>u. pid (task s' u)) ` (set (thread_all_list s) - {t})"
      unfolding s'(5) by (rule notI, erule imageE) (use ne in force)
    moreover have "inj_on (\<lambda>u. pid (task s' u)) (set (thread_all_list s))"
      using assms(2) o by (simp add: pid_inv_def inj_on_def)
    ultimately have "inj_on (\<lambda>u. pid (task s' u)) (set (thread_all_list s'))"
      using s'(3) by (simp add: inj_on_insert)
    then show ?thesis
      using assms(2) b s'(3,5,8) o by (auto simp: pid_inv_def)
  qed
  ultimately show ?thesis
    using s'(1-5) p_def by blast
qed

lemma guarded_remove:
  "(if t \<in> set (thread_ready_list s) then s\<lparr>thread_ready_list := remove1 t (thread_ready_list s)\<rparr> else s) =
    s\<lparr>thread_ready_list := remove1 t (thread_ready_list s)\<rparr>"
  "(if t \<in> set (timer_list s) then s\<lparr>timer_list := remove1 t (timer_list s)\<rparr> else s) =
    s\<lparr>timer_list := remove1 t (timer_list s)\<rparr>"
  "(if t \<in> set (alarm_list s) then s\<lparr>alarm_list := remove1 t (alarm_list s)\<rparr> else s) =
    s\<lparr>alarm_list := remove1 t (alarm_list s)\<rparr>"
  by (simp_all add: remove1_idem)

lemma thread_exit_spec:
  assumes "sched_inv s" "pid_inv s" "t \<in> set (thread_all_list s)" "t \<noteq> cur_task s" "idle_thread s \<noteq> Some t"
  shows "\<exists>s'. thread_exit t False s = Some s' \<and> sched_inv s' \<and> pid_inv s' \<and> cur_task s' = cur_task s \<and>
    thread_all_list s' = remove1 t (thread_all_list s) \<and> thread_ready_list s' = remove1 t (thread_ready_list s) \<and>
    timer_list s' = remove1 t (timer_list s) \<and> alarm_list s' = remove1 t (alarm_list s) \<and>
    (\<forall>u. u \<noteq> t \<longrightarrow> task s' u = task s u) \<and>
    bm_free (pid_bitmap s') = insert (nat (pid (task s t))) (bm_free (pid_bitmap s))"
proof -
  note inv = sched_invD [OF assms(1)]
  note wf = sched_wfD [OF inv(1)]
  define s1 where "s1 = upd_task t (\<lambda>x. x\<lparr>status := TASK_DIED, mm := None\<rparr>) (s\<lparr>intr_on := False,
    thread_ready_list := remove1 t (thread_ready_list s), timer_list := remove1 t (timer_list s),
    alarm_list := remove1 t (alarm_list s), thread_all_list := remove1 t (thread_all_list s)\<rparr>)"
  have e: "thread_exit t False s = release_pid (pid (task s t)) s1"
    using assms(3) by (simp add: thread_exit_def s1_def upd_task_def unlink_def Let_def guarded_remove)
  have pb: "bm_wf (pid_bitmap s1)" "bm_nr (pid_bitmap s1) = 1024" "0 \<le> pid (task s t)" "pid (task s t) < 1024"
    using assms(2,3) by (simp_all add: pid_inv_def s1_def)
  obtain b where b: "release_pid (pid (task s t)) s1 = Some (s1\<lparr>pid_bitmap := b\<rparr>)" "bm_wf b" "bm_nr b = 1024"
      "bm_free b = insert (nat (pid (task s t))) (bm_free (pid_bitmap s1))"
    using release_pid_spec [OF pb] by blast
  obtain i where i: "idle_thread s = Some i" "i \<in> set (thread_all_list s)"
    using inv(1) by (rule sched_wf_idle)
  define s' where "s' = s1\<lparr>pid_bitmap := b\<rparr>"
  have sel: "thread_all_list s' = remove1 t (thread_all_list s)" "thread_ready_list s' = remove1 t (thread_ready_list s)"
      "timer_list s' = remove1 t (timer_list s)" "alarm_list s' = remove1 t (alarm_list s)" "cur_task s' = cur_task s"
      "idle_thread s' = idle_thread s" "pid_bitmap s' = b"
    by (simp_all add: s'_def s1_def)
  have o: "task s' u = task s u" if "u \<noteq> t" for u
    using that by (simp add: s'_def s1_def)
  have sets: "set (thread_all_list s') = set (thread_all_list s) - {t}"
      "set (thread_ready_list s') = set (thread_ready_list s) - {t}"
    using wf(1,2) sel(1,2) by simp_all
  have "sched_wf s'"
  proof (rule sched_wfI [of _ i])
    show "distinct (thread_ready_list s')" "distinct (thread_all_list s')"
      using sel(1,2) wf(1,2) by simp_all
    show "set (thread_ready_list s') \<subseteq> set (thread_all_list s')"
      using sets wf(3) by auto
    show "idle_thread s' = Some i" "i \<in> set (thread_all_list s')"
      using sel(6) sets(1) i assms(5) by auto
  next
    fix u
    assume "u \<in> set (thread_all_list s')"
    then have u: "u \<in> set (thread_all_list s)" "u \<noteq> t"
      using sets by auto
    then show "ticks_ok (task s' u)" "status (task s' u) = TASK_READY \<longleftrightarrow> u \<in> set (thread_ready_list s')"
      "u \<noteq> cur_task s' \<Longrightarrow> status (task s' u) \<noteq> TASK_RUNNING"
      using o wf(4-6) sets(2) sel(5) by auto
  qed
  then have "sched_inv s'"
    using inv(2,3) assms(4) sel(5) sets(1) o by (simp add: sched_inv_def)
  moreover have "pid_inv s'"
  proof -
    have "inj_on (\<lambda>u. pid (task s u)) (set (thread_all_list s))"
      using assms(2) by (simp add: pid_inv_def)
    then have inj: "inj_on (\<lambda>u. pid (task s' u)) (set (thread_all_list s'))" and
        ne: "\<And>u. u \<in> set (thread_all_list s') \<Longrightarrow> pid (task s u) \<noteq> pid (task s t)"
      using sets(1) o assms(3) by (auto simp: inj_on_def)
    have "nat (pid (task s' u)) \<notin> bm_free (pid_bitmap s')" "0 \<le> pid (task s' u)" "pid (task s' u) < 1024"
      if "u \<in> set (thread_all_list s')" for u
      using assms(2) that ne [OF that] sets(1) o b(4) sel(7) pb(3) by (auto simp: pid_inv_def s1_def)
    then show ?thesis
      using inj b(2,3) sel(7) by (simp add: pid_inv_def)
  qed
  ultimately show ?thesis
    using e b(1,4) sel o by (intro exI [of _ s']) (simp add: s'_def s1_def)
qed

section \<open>All operations\<close>

text \<open>
  One step is one operation of the kernel. Tasks are created with a priority of at least 1 and at most
  16383 while a process number is free; a task is reaped by another one; the timer interrupt enters with
  interrupts off; and a task that continues restores its own interrupt state.
\<close>

inductive sched_step :: "ksys \<Rightarrow> ksys \<Rightarrow> bool" where
  step_block: "is_sleep st \<Longrightarrow> thread_block st s = Some s' \<Longrightarrow> sched_step s s'"
| step_yield: "thread_yield s = Some s' \<Longrightarrow> sched_step s s'"
| step_unblock: "t \<in> set (thread_all_list s) \<Longrightarrow> thread_unblock t s = Some s' \<Longrightarrow> sched_step s s'"
| step_start: "t \<notin> set (thread_all_list s) \<Longrightarrow> t \<noteq> main_thread s \<Longrightarrow> 1 \<le> prio \<Longrightarrow> prio \<le> 16383 \<Longrightarrow>
    bm_free (pid_bitmap s) \<noteq> {} \<Longrightarrow> thread_start t nm prio s = Some s' \<Longrightarrow> sched_step s s'"
| step_exit: "t \<in> set (thread_all_list s) \<Longrightarrow> t \<noteq> cur_task s \<Longrightarrow> idle_thread s \<noteq> Some t \<Longrightarrow>
    thread_exit t False s = Some s' \<Longrightarrow> sched_step s s'"
| step_slice: "time_slice (s\<lparr>intr_on := False\<rparr>) = Some s' \<Longrightarrow> sched_step s s'"
| step_intr: "sched_step s (s\<lparr>intr_on := b\<rparr>)"

definition kinv :: "ksys \<Rightarrow> bool" where
  "kinv s \<longleftrightarrow> sched_inv s \<and> pid_inv s"

lemma kinv_intr [simp]: "kinv (s\<lparr>intr_on := b\<rparr>) = kinv s"
  by (simp add: kinv_def sched_inv_def sched_wf_def pid_inv_def)

lemma scheduled_kinv:
  assumes "scheduled s s'" "pid_inv s"
  shows "kinv s'"
proof -
  have "pid (task s' t) = pid (task s t)" for t
  proof -
    have "task s' t = (task s t)\<lparr>status := status (task s' t), ticks := ticks (task s' t)\<rparr>"
      using assms(1) by (simp add: scheduled_def)
    then have "pid (task s' t) = pid ((task s t)\<lparr>status := status (task s' t), ticks := ticks (task s' t)\<rparr>)"
      by (rule arg_cong)
    then show ?thesis by simp
  qed
  moreover have "sched_inv s'" "thread_all_list s' = thread_all_list s" "pid_bitmap s' = pid_bitmap s"
    using assms(1) by (simp_all add: scheduled_def)
  ultimately show ?thesis
    using assms(2) by (simp add: kinv_def pid_inv_def)
qed

lemma pid_inv_upd:
  assumes "pid_inv s" "\<And>x. pid (f x) = pid x"
  shows "pid_inv (upd_task t f s)"
proof -
  have "pid (task (upd_task t f s) u) = pid (task s u)" for u
    by (simp add: assms(2))
  then show ?thesis
    using assms(1) by (simp add: pid_inv_def del: upd_task_sel(1))
qed

lemma pid_inv_ready [simp]: "pid_inv (s\<lparr>thread_ready_list := r\<rparr>) = pid_inv s" "pid_inv (s\<lparr>intr_on := b\<rparr>) = pid_inv s"
  by (simp_all add: pid_inv_def)

lemma time_slice_kinv:
  assumes "kinv s" "\<not> intr_on s"
  shows "\<exists>s'. time_slice s = Some s' \<and> kinv s'"
proof (cases "ticks (task s (cur_task s)) = 0")
  case True
  then show ?thesis
    using assms time_slice_zero scheduled_kinv by (metis kinv_def)
next
  case False
  then show ?thesis
    using assms time_slice_dec [of s] by (simp add: kinv_def pid_inv_upd)
qed

lemma thread_unblock_kinv:
  assumes "kinv s" "t \<in> set (thread_all_list s)" "is_sleep (status (task s t))"
  shows "\<exists>s'. thread_unblock t s = Some s' \<and> kinv s'"
  using assms thread_unblock_spec [of s t] by (simp add: kinv_def pid_inv_upd)

lemma sched_step_kinv:
  assumes "sched_step s s'" "kinv s"
  shows "kinv s'"
  using assms(1)
proof cases
  case (step_block st)
  have "pid_inv (upd_task (cur_task s) (\<lambda>t. t\<lparr>status := st\<rparr>) (s\<lparr>intr_on := False\<rparr>))"
    using assms(2) by (simp add: kinv_def pid_inv_upd)
  then show ?thesis
    using step_block thread_block_spec [of s st] assms(2) scheduled_kinv by (auto simp: kinv_def)
next
  case step_yield
  then show ?thesis
    using thread_yield_spec [of s] assms(2) scheduled_kinv [of "s\<lparr>intr_on := False\<rparr>" s'] by (auto simp: kinv_def)
next
  case (step_unblock t)
  then have "is_sleep (status (task s t))"
    by (auto simp: thread_unblock_def Let_def split: if_splits)
  from thread_unblock_kinv [OF assms(2) step_unblock(1) this] show ?thesis
    using step_unblock(2) by auto
next
  case (step_start t prio nm)
  have "t \<noteq> cur_task s"
    using step_start(1) assms(2) by (auto simp: kinv_def sched_inv_def)
  then show ?thesis
    using thread_start_spec [of s t prio nm] step_start assms(2) by (auto simp: kinv_def)
next
  case (step_exit t)
  then show ?thesis
    using thread_exit_spec [of s t] assms(2) by (auto simp: kinv_def)
next
  case step_slice
  then show ?thesis
    using time_slice_kinv [of "s\<lparr>intr_on := False\<rparr>"] assms(2) by auto
next
  case (step_intr b)
  then show ?thesis
    using assms(2) by simp
qed

lemma sched_reach_kinv:
  "sched_step\<^sup>*\<^sup>* s s' \<Longrightarrow> kinv s \<Longrightarrow> kinv s'"
  by (induction rule: rtranclp_induct) (auto intro: sched_step_kinv)

text \<open>
  C5. Whatever sequence of blocking, yielding, waking, creating, reaping and timer interrupts runs from a
  good state: exactly one task runs, it is the current one and it is not on the ready list; the ready list
  has no duplicates and holds exactly the ready tasks; and no two tasks share a process number.
\<close>
theorem sched_safe:
  assumes "kinv s" "sched_step\<^sup>*\<^sup>* s s'"
  shows "{t \<in> set (thread_all_list s'). status (task s' t) = TASK_RUNNING} = {cur_task s'} \<and>
    cur_task s' \<notin> set (thread_ready_list s') \<and> distinct (thread_ready_list s') \<and>
    set (thread_ready_list s') = {t \<in> set (thread_all_list s'). status (task s' t) = TASK_READY} \<and>
    inj_on (\<lambda>t. pid (task s' t)) (set (thread_all_list s'))"
proof -
  have k: "sched_inv s'" "pid_inv s'"
    using sched_reach_kinv [OF assms(2,1)] by (simp_all add: kinv_def)
  note inv = sched_invD [OF k(1)]
  note wf = sched_wfD [OF inv(1)]
  have "{t \<in> set (thread_all_list s'). status (task s' t) = TASK_RUNNING} = {cur_task s'}"
    using inv(2,3) wf(6) by blast
  moreover have "set (thread_ready_list s') = {t \<in> set (thread_all_list s'). status (task s' t) = TASK_READY}"
    using wf(3,5) by blast
  ultimately show ?thesis
    using inv(4) wf(1) k(2) by (simp add: pid_inv_def)
qed

text \<open>
  C27. The comment in \<^verbatim>\<open>schedule\<close> holds: in every reachable state the ticks of a task lie between 0 and
  twice its priority, so the refill \<^verbatim>\<open>(ticks >> 1) + priority\<close> never leaves the 16 bits it is stored in.
\<close>
theorem ticks_bounded:
  assumes "kinv s" "sched_step\<^sup>*\<^sup>* s s'" "t \<in> set (thread_all_list s')"
  shows "0 \<le> ticks (task s' t) \<and> ticks (task s' t) \<le> 2 * priority (task s' t) \<and> 2 * priority (task s' t) \<le> 32766 \<and>
    ticks (task (reset_ticks (thread_all_list s') s') t) = ticks (task s' t) div 2 + priority (task s' t)"
proof -
  have k: "sched_wf s'"
    using sched_reach_kinv [OF assms(2,1)] by (simp add: kinv_def sched_inv_def)
  have ok: "ticks_ok (task s' t)"
    using sched_wfD(4) [OF k assms(3)] .
  have "task (reset_ticks (thread_all_list s') s') t = refill (task s' t)"
    using reset_ticks_eq [OF sched_wfD(2) [OF k], of s'] assms(3) by simp
  then show ?thesis
    using refill_ticks(1) [OF ok] ok by (simp add: ticks_ok_def)
qed

section \<open>No starvation\<close>

fun slices :: "nat \<Rightarrow> ksys \<Rightarrow> ksys halting" where
  "slices 0 s = Some s"
| "slices (Suc n) s = do { s \<leftarrow> time_slice (s\<lparr>intr_on := False\<rparr>); slices n s }"

text \<open>The ticks left in the queue decide how long a ready task can be passed over.\<close>

definition ticks_left :: "ksys \<Rightarrow> nat" where
  "ticks_left s = (\<Sum>p\<in>set (run_queue s). nat (ticks (task s p)))"

definition slice_order :: "nat \<Rightarrow> (ksys \<times> ksys) set" where
  "slice_order t = measures [\<lambda>s. if ticks (task s t) = 0 then 1 else 0, ticks_left,
     \<lambda>s. if ticks (task s (cur_task s)) = 0 then 1 else 0]"

lemma run_queue_inv: "sched_inv s \<Longrightarrow> run_queue s = thread_ready_list s @ [cur_task s]"
  by (simp add: sched_inv_def run_queue_def)

lemma ticks_left_dec:
  assumes "sched_inv s" "ticks (task s (cur_task s)) \<noteq> 0"
  shows "ticks_left (upd_task (cur_task s) (\<lambda>t. t\<lparr>ticks := ticks t - 1\<rparr>) s) < ticks_left s"
proof -
  let ?s = "upd_task (cur_task s) (\<lambda>t. t\<lparr>ticks := ticks t - 1\<rparr>) s"
  have q: "run_queue ?s = run_queue s"
    by (simp add: run_queue_def)
  have "0 < ticks (task s (cur_task s))"
    using assms sched_wfD(4) [OF sched_invD(1) [OF assms(1)] sched_invD(2) [OF assms(1)]] by (simp add: ticks_ok_def)
  moreover have "cur_task s \<in> set (run_queue s)"
    using run_queue_inv [OF assms(1)] by simp
  ultimately show ?thesis
    unfolding ticks_left_def q by (intro sum_strict_mono_ex1) auto
qed

lemma scheduled_other:
  assumes "sched_inv s" "scheduled s s'" "t \<in> set (thread_ready_list s)" "cur_task s' \<noteq> t"
    and "ticks (task s (cur_task s)) = 0"
  shows "t \<in> set (thread_ready_list s') \<and> (s', s) \<in> slice_order t"
proof -
  note sc = scheduledD [OF assms(2)]
  have q: "run_queue s = thread_ready_list s @ [cur_task s]"
    by (rule run_queue_inv [OF assms(1)])
  have n: "cur_task s' \<in> set (run_queue s)" "thread_ready_list s' = remove1 (cur_task s') (run_queue s)"
      "0 < ticks (task s' (cur_task s'))"
    using sc q by (simp_all split: if_splits)
  have d: "distinct (run_queue s)"
    using q sched_invD(4) [OF assms(1)] sched_wfD(1) [OF sched_invD(1) [OF assms(1)]] by simp
  have "run_queue s' = thread_ready_list s' @ [cur_task s']"
    using sc by (intro run_queue_inv) simp
  then have qs: "set (run_queue s') = set (run_queue s)"
    using n(1,2) d by auto
  have t: "t \<in> set (thread_ready_list s')" "t \<in> set (run_queue s)"
    using assms(3,4) q n(2) d by auto
  show ?thesis
  proof (cases "\<exists>p\<in>set (run_queue s). 0 < ticks (task s p)")
    case True
    then have e: "ticks (task s' u) = ticks (task s u)" for u
      using sc by simp
    have "ticks_left s' = ticks_left s"
      unfolding ticks_left_def qs by (simp add: e)
    then show ?thesis
      using t(1) n(3) assms(5) e by (simp add: slice_order_def)
  next
    case False
    then have z: "\<forall>p\<in>set (run_queue s). ticks (task s p) \<le> 0"
      by auto
    then have "0 < ticks (task s' t)"
      using sc t(2) by simp
    moreover have "ticks (task s t) = 0"
    proof -
      have "t \<in> set (thread_all_list s)"
        using assms(3) sched_wfD(3) [OF sched_invD(1) [OF assms(1)]] by blast
      then have "0 \<le> ticks (task s t)"
        using sched_wfD(4) [OF sched_invD(1) [OF assms(1)]] by (simp add: ticks_ok_def)
      then show ?thesis
        using z t(2) by (meson order_antisym)
    qed
    ultimately show ?thesis
      using t(1) by (simp add: slice_order_def)
  qed
qed

lemma slice_order_intr: "(s', s\<lparr>intr_on := b\<rparr>) \<in> slice_order t \<longleftrightarrow> (s', s) \<in> slice_order t"
  by (simp add: slice_order_def ticks_left_def run_queue_def)

text \<open>
  C16. No starvation: from a good state, a ready task runs after finitely many timer interrupts, whatever
  the priorities of the other tasks.
\<close>
theorem no_starvation:
  assumes "kinv s" "t \<in> set (thread_ready_list s)"
  shows "\<exists>n s'. slices n s = Some s' \<and> cur_task s' = t \<and> status (task s' t) = TASK_RUNNING \<and> kinv s'"
proof -
  have "wf (slice_order t)"
    by (simp add: slice_order_def)
  then show ?thesis
    using assms
  proof (induction s rule: wf_induct_rule)
    case (less s)
    let ?s = "s\<lparr>intr_on := False\<rparr>"
    have k: "kinv ?s" "sched_inv ?s" "t \<in> set (thread_ready_list ?s)"
      using less.prems by (simp_all add: kinv_def sched_inv_def sched_wf_def)
    show ?case
    proof (cases "ticks (task ?s (cur_task ?s)) = 0")
      case True
      then obtain s1 where s1: "time_slice ?s = Some s1" "scheduled ?s s1"
        using time_slice_zero [OF k(2)] by auto
      have k1: "kinv s1"
        using s1(2) scheduled_kinv k(1) by (simp add: kinv_def)
      show ?thesis
      proof (cases "cur_task s1 = t")
        case True
        then have "slices 1 s = Some s1"
          using s1(1) by simp
        moreover have "status (task s1 t) = TASK_RUNNING"
          using True k1 sched_invD(3) [of s1] by (simp add: kinv_def)
        ultimately show ?thesis
          using True k1 by blast
      next
        case False
        have "t \<in> set (thread_ready_list s1)" "(s1, s) \<in> slice_order t"
          using scheduled_other [OF k(2) s1(2) k(3) False True] by (simp_all add: slice_order_intr)
        then obtain n s' where "slices n s1 = Some s'" "cur_task s' = t" "status (task s' t) = TASK_RUNNING" "kinv s'"
          using less.IH k1 by blast
        then show ?thesis
          using s1(1) by (intro exI [of _ "Suc n"] exI [of _ s']) simp
      qed
    next
      case False
      let ?s1 = "upd_task (cur_task ?s) (\<lambda>t. t\<lparr>ticks := ticks t - 1\<rparr>) ?s"
      note d = time_slice_dec [OF k(2) False]
      have k1: "kinv ?s1" "t \<in> set (thread_ready_list ?s1)"
        using d(2) k(1,3) by (simp_all add: kinv_def pid_inv_upd)
      have "t \<noteq> cur_task ?s"
        using k(3) sched_invD(4) [OF k(2)] by blast
      then have "(?s1, ?s) \<in> slice_order t"
        using ticks_left_dec [OF k(2) False] by (simp add: slice_order_def)
      then have "(?s1, s) \<in> slice_order t"
        by (simp only: slice_order_intr)
      then obtain n s' where "slices n ?s1 = Some s'" "cur_task s' = t" "status (task s' t) = TASK_RUNNING" "kinv s'"
        using less.IH k1 by blast
      then show ?thesis
        using d(1) by (intro exI [of _ "Suc n"] exI [of _ s']) simp
    qed
  qed
qed

section \<open>The choice of the scheduler\<close>

text \<open>
  C26. Called with interrupts off in a good state, \<^verbatim>\<open>schedule\<close> returns: the caller is put back at the end
  of the ready list; a task of that list with the most ticks, and at least one, is taken off it and runs;
  and ticks are refilled only when every ready task has used up its own.
\<close>
theorem schedule_correct:
  assumes "sched_inv s" "\<not> intr_on s" "q = thread_ready_list s @ [cur_task s]"
  shows "\<exists>s'. schedule s = Some s' \<and> sched_inv s' \<and> cur_task s' \<in> set q \<and>
    thread_ready_list s' = remove1 (cur_task s') q \<and> 0 < ticks (task s' (cur_task s')) \<and>
    (\<forall>p\<in>set q. ticks (task s' p) \<le> ticks (task s' (cur_task s'))) \<and>
    ((\<exists>p\<in>set q. 0 < ticks (task s p)) \<longrightarrow> (\<forall>t. ticks (task s' t) = ticks (task s t)))"
proof -
  have q: "run_queue s = q"
    using run_queue_inv [OF assms(1)] assms(3) by simp
  obtain s' where s': "schedule s = Some s'" "scheduled s s'"
    using schedule_spec [OF sched_invD(1) [OF assms(1)] assms(2)] sched_invD(2) [OF assms(1)] by auto
  note sc = scheduledD [OF s'(2), unfolded q]
  have "q \<noteq> []"
    using assms(3) by simp
  then show ?thesis
    using s'(1) sc by (intro exI [of _ s']) auto
qed

text \<open>
  C32. A task that blocks gives the processor to a task of the ready list with the most ticks, or to the
  idle task when the list is empty, keeps its sleeping state, and comes back to the front of the ready
  list when it is unblocked, which also keeps the invariant.
\<close>
theorem block_unblock:
  assumes "sched_inv s" "is_sleep st" "idle_thread s \<noteq> Some (cur_task s)"
  shows "\<exists>s'. thread_block st s = Some s' \<and> sched_inv s' \<and> status (task s' (cur_task s)) = st \<and>
    (if thread_ready_list s = [] then idle_thread s = Some (cur_task s')
     else cur_task s' \<in> set (thread_ready_list s) \<and>
       (\<forall>p\<in>set (thread_ready_list s). ticks (task s' p) \<le> ticks (task s' (cur_task s')))) \<and>
    (\<exists>s''. thread_unblock (cur_task s) s' = Some s'' \<and> sched_inv s'' \<and>
      thread_ready_list s'' = cur_task s # thread_ready_list s' \<and> status (task s'' (cur_task s)) = TASK_READY)"
proof -
  let ?s = "upd_task (cur_task s) (\<lambda>t. t\<lparr>status := st\<rparr>) (s\<lparr>intr_on := False\<rparr>)"
  obtain s' where s': "thread_block st s = Some s'" "scheduled ?s s'"
    using thread_block_spec [OF assms(1,2)] by blast
  have st: "st \<noteq> TASK_RUNNING"
    using assms(2) by (auto simp: is_sleep_def)
  then have q: "run_queue ?s = thread_ready_list s"
    by (simp add: run_queue_def)
  note sc = scheduledD [OF s'(2), unfolded q]
  have ne: "cur_task s' \<noteq> cur_task s"
    using sc assms(3) sched_invD(4) [OF assms(1)] by (auto split: if_splits)
  have r: "requeue ?s = ?s"
    using st by (simp add: requeue_def)
  have "status (task s' (cur_task s)) = status (task ?s (cur_task s))"
    using sc ne unfolding r by metis
  then have sl: "status (task s' (cur_task s)) = st"
    by simp
  have "cur_task s \<in> set (thread_all_list s')"
    using sc sched_invD(2) [OF assms(1)] by simp
  moreover have "sched_inv s'"
    using sc by simp
  ultimately have u: "thread_unblock (cur_task s) s' = Some (upd_task (cur_task s) (\<lambda>x. x\<lparr>status := TASK_READY\<rparr>)
      (s'\<lparr>thread_ready_list := cur_task s # thread_ready_list s'\<rparr>))"
      "sched_inv (upd_task (cur_task s) (\<lambda>x. x\<lparr>status := TASK_READY\<rparr>)
      (s'\<lparr>thread_ready_list := cur_task s # thread_ready_list s'\<rparr>))"
    using thread_unblock_spec [of s' "cur_task s"] sl assms(2) by simp_all
  show ?thesis
    using s'(1) \<open>sched_inv s'\<close> sl sc u by (intro exI [of _ s']) auto
qed

section \<open>An example\<close>

definition ex_task :: "int \<Rightarrow> task_status \<Rightarrow> int \<Rightarrow> int \<Rightarrow> task_struct" where
  "ex_task p st prio tk = \<lparr>pid = p, status = st, task_name = [], priority = prio, ticks = tk, elapsed_ticks = 0,
     fd_table = [], pgrp = p, mm = None, signal = 0, blocked = 0, sigactions = [], alarm = 0, wait_until = 0,
     parent_pid = - 1, exit_status = 0, stack_magic = STACK_MAGIC\<rparr>"

text \<open>Task 0 runs and has used up its ticks, task 1 is the idle task, task 2 is ready.\<close>

definition ex_sys :: ksys where
  "ex_sys = \<lparr>task = (\<lambda>t. if t = 0 then ex_task 0 TASK_RUNNING 31 0 else if t = 1 then ex_task 1 TASK_BLOCKED 3 3
       else ex_task 2 TASK_READY 31 5), thread_ready_list = [2], thread_all_list = [0, 1, 2], cur_task = 0,
     idle_thread = Some 1, main_thread = 0,
     pid_bitmap = \<lparr>btmp_bytes_len = 128, bits = 7 # replicate 127 0\<rparr>, intr_on = False, sys_ticks = 0,
     timer_list = [], alarm_list = []\<rparr>"

lemma ex_sys_inv: "sched_inv ex_sys"
  by (simp add: sched_inv_def sched_wf_def ex_sys_def ex_task_def ticks_ok_def)

lemma ex_sys_kinv: "kinv ex_sys"
proof -
  have "bit (7 :: u8) 0" "bit (7 :: u8) 1" "bit (7 :: u8) 2"
    by (simp_all add: bit_iff_odd)
  then show ?thesis
    using ex_sys_inv
    by (simp add: kinv_def pid_inv_def ex_sys_def ex_task_def bm_wf_def bm_nr_def bm_free_def bm_bit_def inj_on_def)
qed

theorem sched_safe_witness:
  "\<exists>s'. sched_step ex_sys s' \<and> cur_task s' \<notin> set (thread_ready_list s') \<and>
    {t \<in> set (thread_all_list s'). status (task s' t) = TASK_RUNNING} = {cur_task s'}"
proof -
  obtain s' where s': "sched_step ex_sys s'"
    using thread_yield_spec [OF ex_sys_inv] step_yield by blast
  show ?thesis
    using sched_safe [OF ex_sys_kinv r_into_rtranclp [of sched_step, OF s']] s' by blast
qed

theorem ticks_bounded_witness:
  "ticks (task (reset_ticks [0, 1, 2] ex_sys) 2) = 33"
proof -
  have "2 \<in> set (thread_all_list ex_sys)"
    by (simp add: ex_sys_def)
  from ticks_bounded [OF ex_sys_kinv rtranclp.rtrancl_refl this]
  show ?thesis
    by (simp add: ex_sys_def ex_task_def)
qed

theorem no_starvation_witness:
  "\<exists>n s'. slices n ex_sys = Some s' \<and> cur_task s' = 2"
proof -
  have "2 \<in> set (thread_ready_list ex_sys)"
    by (simp add: ex_sys_def)
  from no_starvation [OF ex_sys_kinv this] show ?thesis
    by blast
qed

theorem schedule_correct_witness:
  "\<exists>s'. schedule ex_sys = Some s' \<and> cur_task s' \<in> {2, 0}"
proof -
  have "\<not> intr_on ex_sys" "set (thread_ready_list ex_sys @ [cur_task ex_sys]) = {2, 0}"
    by (simp_all add: ex_sys_def)
  then show ?thesis
    using schedule_correct [OF ex_sys_inv _ refl] by auto
qed

theorem block_unblock_witness:
  "\<exists>s' s''. thread_block TASK_WAITING ex_sys = Some s' \<and> cur_task s' = 2 \<and> thread_unblock 0 s' = Some s'' \<and>
    sched_inv s''"
proof -
  have e: "is_sleep TASK_WAITING" "idle_thread ex_sys \<noteq> Some (cur_task ex_sys)" "thread_ready_list ex_sys = [2]"
      "cur_task ex_sys = 0"
    by (simp_all add: is_sleep_def ex_sys_def)
  show ?thesis
    using block_unblock [OF ex_sys_inv e(1,2)] unfolding e(3,4) by auto
qed

end
