(* ===== verification/Timer.thy ===== *)
theory Timer
  imports Sched_Steps
begin

text \<open>
  The timer, \<^verbatim>\<open>device/timer.c\<close>: the sorted lists of sleepers and of alarms, the timer interrupt, and the
  system calls \<^verbatim>\<open>sys_milsleep\<close>, \<^verbatim>\<open>sys_pause\<close> and \<^verbatim>\<open>sys_alarm\<close>. A call that sleeps is split at the point where
  it gives up the processor.
\<close>

section \<open>The code\<close>

definition IRQ0_FREQUENCY :: u32 where "IRQ0_FREQUENCY = 200"
definition mil_seconds_per_intr :: u32 where "mil_seconds_per_intr = 1000 div IRQ0_FREQUENCY"
definition SIGALRM :: nat where "SIGALRM = 14"
definition EINTR :: int where "EINTR = 4"

definition sigmask :: "nat \<Rightarrow> u32" where
  "sigmask sig = push_bit (sig - 1) 1"

fun insert_ascend :: "(nat \<Rightarrow> u32) \<Rightarrow> nat \<Rightarrow> nat list \<Rightarrow> nat list" where
  "insert_ascend target t [] = [t]"
| "insert_ascend target t (x # xs) = (if target x > target t then t # x # xs else x # insert_ascend target t xs)"

definition list_insert_ascend :: "nat \<Rightarrow> bool \<Rightarrow> ksys \<Rightarrow> ksys halting" where
  "list_insert_ascend t is_alarm s =
     (if is_alarm then do {
        ASSERT (t \<notin> set (alarm_list s));
        Some (s\<lparr>alarm_list := insert_ascend (\<lambda>x. alarm (task s x)) t (alarm_list s)\<rparr>)
      } else do {
        ASSERT (t \<notin> set (timer_list s));
        Some (s\<lparr>timer_list := insert_ascend (\<lambda>x. wait_until (task s x)) t (timer_list s)\<rparr>)
      })"

text \<open>The two loops of the interrupt, over the list as it is when they start.\<close>

fun wake_timers :: "nat list \<Rightarrow> ksys \<Rightarrow> ksys halting" where
  "wake_timers [] s = Some s"
| "wake_timers (t # ts) s =
     (if wait_until (task s t) > 0 \<and> wait_until (task s t) \<le> sys_ticks s then do {
        let s = s\<lparr>timer_list := ts\<rparr>;
        let s = upd_task t (\<lambda>x. x\<lparr>wait_until := 0\<rparr>) s;
        s \<leftarrow> (if is_sleep (status (task s t)) then thread_unblock t s else Some s);
        wake_timers ts s
      } else Some s)"

fun wake_alarms :: "nat list \<Rightarrow> ksys \<Rightarrow> ksys halting" where
  "wake_alarms [] s = Some s"
| "wake_alarms (t # ts) s = do {
     ASSERT (status (task s t) \<noteq> TASK_DIED);
     if alarm (task s t) > 0 \<and> alarm (task s t) \<le> sys_ticks s then do {
        let s = s\<lparr>alarm_list := ts\<rparr>;
        let s = upd_task t (\<lambda>x. x\<lparr>signal := signal x OR sigmask SIGALRM, alarm := 0\<rparr>) s;
        s \<leftarrow> (if is_sleep (status (task s t)) then thread_unblock t s else Some s);
        wake_alarms ts s
      } else Some s
   }"

definition intr_handler_timer :: "ksys \<Rightarrow> ksys halting" where
  "intr_handler_timer s = do {
     let cur = cur_task s;
     ASSERT (stack_magic (task s cur) = STACK_MAGIC);
     let s = upd_task cur (\<lambda>t. t\<lparr>elapsed_ticks := elapsed_ticks t + 1\<rparr>) s;
     let s = s\<lparr>sys_ticks := sys_ticks s + 1\<rparr>;
     s \<leftarrow> wake_timers (timer_list s) s;
     s \<leftarrow> wake_alarms (alarm_list s) s;
     time_slice s
   }"


definition milsleep_wake :: "nat \<Rightarrow> u32 \<Rightarrow> ksys \<Rightarrow> u32 \<times> ksys" where
  "milsleep_wake cur expire_ticks s =
     (if cur \<in> set (timer_list s)
      then ((if expire_ticks > sys_ticks s then (expire_ticks - sys_ticks s) * mil_seconds_per_intr else 0),
        s\<lparr>timer_list := remove1 cur (timer_list s)\<rparr>)
      else (0, s))"

text \<open>The result \<^verbatim>\<open>-EINTR\<close> of \<^verbatim>\<open>sys_pause\<close> is returned when the task runs again.\<close>

definition sys_pause :: "ksys \<Rightarrow> (int \<times> ksys) halting" where
  "sys_pause s = do { s \<leftarrow> thread_block TASK_WAITING s; Some (- EINTR, s) }"

definition sys_alarm :: "u32 \<Rightarrow> ksys \<Rightarrow> (u32 \<times> ksys) halting" where
  "sys_alarm seconds s = do {
     let old = intr_on s;
     let s = intr_disable s;
     let cur = cur_task s;
     let old_alarm = alarm (task s cur);
     let remaining = (if old_alarm > 0 then if old_alarm > sys_ticks s
       then (old_alarm - sys_ticks s) div IRQ0_FREQUENCY else 0 else 0);
     let s = (if cur \<in> set (alarm_list s) then s\<lparr>alarm_list := remove1 cur (alarm_list s)\<rparr> else s);
     s \<leftarrow> (if seconds > 0 then
         list_insert_ascend cur True (upd_task cur (\<lambda>t. t\<lparr>alarm := sys_ticks s + seconds * IRQ0_FREQUENCY\<rparr>) s)
       else Some (upd_task cur (\<lambda>t. t\<lparr>alarm := 0\<rparr>) s));
     Some (remaining, intr_set_status old s)
   }"

section \<open>Sorted insertion\<close>

lemma insert_ascend_set [simp]: "set (insert_ascend f t xs) = insert t (set xs)"
  by (induction xs) auto

lemma insert_ascend_distinct: "distinct xs \<Longrightarrow> t \<notin> set xs \<Longrightarrow> distinct (insert_ascend f t xs)"
  by (induction xs) auto

lemma insert_ascend_sorted: "sorted (map f xs) \<Longrightarrow> sorted (map f (insert_ascend f t xs))"
  by (induction xs) (auto simp: not_less)

lemma insert_ascend_cong: "(\<And>x. x \<in> insert t (set xs) \<Longrightarrow> f x = g x) \<Longrightarrow> insert_ascend f t xs = insert_ascend g t xs"
  by (induction xs) auto

section \<open>Updates that do not concern the scheduler\<close>

lemma kinv_upd:
  assumes "kinv s" "\<And>x. pid (f x) = pid x \<and> status (f x) = status x \<and> ticks (f x) = ticks x \<and> priority (f x) = priority x"
  shows "kinv (upd_task t f s)"
proof -
  have e: "status (task (upd_task t f s) u) = status (task s u)" "ticks (task (upd_task t f s) u) = ticks (task s u)"
      "priority (task (upd_task t f s) u) = priority (task s u)" for u
    by (simp_all add: assms(2))
  have "sched_inv (upd_task t f s) = sched_inv s"
    unfolding sched_inv_def sched_wf_def ticks_ok_def e by simp
  moreover have "pid_inv (upd_task t f s)"
    using assms by (intro pid_inv_upd) (auto simp: kinv_def)
  ultimately show ?thesis
    using assms(1) by (simp add: kinv_def)
qed

lemma kinv_lists [simp]:
  "kinv (s\<lparr>timer_list := ts\<rparr>) = kinv s" "kinv (s\<lparr>alarm_list := ts\<rparr>) = kinv s" "kinv (s\<lparr>sys_ticks := n\<rparr>) = kinv s"
  by (simp_all add: kinv_def sched_inv_def sched_wf_def pid_inv_def)

section \<open>Expired entries\<close>

definition awake :: "task_struct \<Rightarrow> task_struct" where
  "awake x = x\<lparr>status := (if is_sleep (status x) then TASK_READY else status x)\<rparr>"

definition same_frame :: "ksys \<Rightarrow> ksys \<Rightarrow> bool" where
  "same_frame s s' \<longleftrightarrow> thread_all_list s' = thread_all_list s \<and> cur_task s' = cur_task s \<and> idle_thread s' = idle_thread s \<and>
     main_thread s' = main_thread s \<and> pid_bitmap s' = pid_bitmap s \<and> intr_on s' = intr_on s \<and> sys_ticks s' = sys_ticks s"

lemma same_frame_trans: "same_frame a b \<Longrightarrow> same_frame b c \<Longrightarrow> same_frame a c"
  by (simp add: same_frame_def)

lemma wake_one:
  assumes "kinv s" "t \<in> set (thread_all_list s)"
    and "\<And>x. pid (f x) = pid x \<and> status (f x) = status x \<and> ticks (f x) = ticks x \<and> priority (f x) = priority x"
  shows "\<exists>s'. (if is_sleep (status (task (upd_task t f s) t)) then thread_unblock t (upd_task t f s)
      else Some (upd_task t f s)) = Some s' \<and> kinv s' \<and> task s' = (task s)(t := awake (f (task s t))) \<and>
    thread_ready_list s' = (if is_sleep (status (task s t)) then [t] else []) @ thread_ready_list s \<and>
    timer_list s' = timer_list s \<and> alarm_list s' = alarm_list s \<and> same_frame s s'"
proof (cases "is_sleep (status (task s t))")
  case True
  let ?s = "upd_task t f s"
  have k: "kinv ?s" "t \<in> set (thread_all_list ?s)" "is_sleep (status (task ?s t))"
    using kinv_upd [OF assms(1,3)] assms(2,3) True by simp_all
  obtain s' where s': "thread_unblock t ?s = Some s'" "kinv s'"
    using thread_unblock_kinv [OF k] by blast
  have "sched_inv ?s"
    using k(1) by (simp add: kinv_def)
  from thread_unblock_spec(1) [OF this k(2,3)]
  have "s' = upd_task t (\<lambda>x. x\<lparr>status := TASK_READY\<rparr>) (?s\<lparr>thread_ready_list := t # thread_ready_list s\<rparr>)"
    using s'(1) by simp
  then have "task s' = (task s)(t := awake (f (task s t)))" "thread_ready_list s' = t # thread_ready_list s"
      "timer_list s' = timer_list s" "alarm_list s' = alarm_list s" "same_frame s s'"
    using True assms(3) by (simp_all add: awake_def same_frame_def)
  then show ?thesis
    using s' k(3) True by simp
next
  case False
  then have "awake (f (task s t)) = f (task s t)"
    using assms(3) by (simp add: awake_def)
  then show ?thesis
    using False kinv_upd [OF assms(1,3)] assms(3) by (simp add: same_frame_def)
qed

definition timer_due :: "ksys \<Rightarrow> nat \<Rightarrow> bool" where
  "timer_due s t \<longleftrightarrow> 0 < wait_until (task s t) \<and> wait_until (task s t) \<le> sys_ticks s"

definition alarm_due :: "ksys \<Rightarrow> nat \<Rightarrow> bool" where
  "alarm_due s t \<longleftrightarrow> 0 < alarm (task s t) \<and> alarm (task s t) \<le> sys_ticks s"

definition asleep :: "ksys \<Rightarrow> nat \<Rightarrow> bool" where
  "asleep s t \<longleftrightarrow> is_sleep (status (task s t))"

lemma wake_timers_spec:
  "kinv s \<Longrightarrow> distinct xs \<Longrightarrow> set xs \<subseteq> set (thread_all_list s) \<Longrightarrow> timer_list s = xs \<Longrightarrow>
    \<exists>s'. wake_timers xs s = Some s' \<and> kinv s' \<and> timer_list s' = dropWhile (timer_due s) xs \<and> alarm_list s' = alarm_list s \<and>
      thread_ready_list s' = rev (filter (asleep s) (takeWhile (timer_due s) xs)) @ thread_ready_list s \<and>
      (\<forall>t. task s' t = (if t \<in> set (takeWhile (timer_due s) xs) then awake ((task s t)\<lparr>wait_until := 0\<rparr>) else task s t)) \<and>
      same_frame s s'"
proof (induction xs arbitrary: s)
  case Nil
  then show ?case by (simp add: same_frame_def)
next
  case (Cons t xs)
  show ?case
  proof (cases "timer_due s t")
    case False
    then have "wake_timers (t # xs) s = Some s"
      by (auto simp: timer_due_def)
    then show ?thesis
      using Cons.prems False by (intro exI [of _ s]) (simp add: same_frame_def)
  next
    case True
    let ?f = "\<lambda>x. x\<lparr>wait_until := 0\<rparr>" and ?s = "s\<lparr>timer_list := xs\<rparr>"
    obtain s1 where s1: "(if is_sleep (status (task (upd_task t ?f ?s) t)) then thread_unblock t (upd_task t ?f ?s)
        else Some (upd_task t ?f ?s)) = Some s1" "kinv s1" "task s1 = (task s)(t := awake (?f (task s t)))"
        "thread_ready_list s1 = (if asleep s t then [t] else []) @ thread_ready_list s"
        "timer_list s1 = xs" "alarm_list s1 = alarm_list s" "same_frame s s1"
      using wake_one [of ?s t ?f] Cons.prems by (auto simp: asleep_def same_frame_def)
    have c: "timer_due s1 x = timer_due s x" "asleep s1 x = asleep s x" "task s1 x = task s x" if "x \<in> set xs" for x
      using that Cons.prems(2) s1(3,7) by (auto simp: timer_due_def asleep_def same_frame_def)
    have w: "takeWhile (timer_due s1) xs = takeWhile (timer_due s) xs" "dropWhile (timer_due s1) xs = dropWhile (timer_due s) xs"
      using c(1) by (simp_all cong: takeWhile_cong dropWhile_cong)
    have fl: "filter (asleep s1) (takeWhile (timer_due s) xs) = filter (asleep s) (takeWhile (timer_due s) xs)"
      using c(2) by (intro filter_cong) (auto dest: set_takeWhileD)
    obtain s' where s': "wake_timers xs s1 = Some s'" "kinv s'" "timer_list s' = dropWhile (timer_due s) xs"
        "alarm_list s' = alarm_list s"
        "thread_ready_list s' = rev (filter (asleep s) (takeWhile (timer_due s) xs)) @ thread_ready_list s1"
        "\<forall>u. task s' u = (if u \<in> set (takeWhile (timer_due s) xs) then awake (?f (task s1 u)) else task s1 u)"
        "same_frame s1 s'"
      using Cons.IH [of s1] Cons.prems(2,3) s1(2,5,6,7) w fl by (auto simp: same_frame_def)
    have "t \<notin> set (takeWhile (timer_due s) xs)"
      using Cons.prems(2) by (auto dest: set_takeWhileD)
    then have "task s' u = (if u \<in> set (takeWhile (timer_due s) (t # xs)) then awake (?f (task s u)) else task s u)" for u
      using s'(6) s1(3) True by auto
    moreover have "wake_timers (t # xs) s = Some s'"
      using True s1(1) s'(1) by (simp add: timer_due_def)
    ultimately show ?thesis
      using s' s1(4) True same_frame_trans [OF s1(7) s'(7)] by (intro exI [of _ s']) simp
  qed
qed

definition rung :: "task_struct \<Rightarrow> task_struct" where
  "rung x = x\<lparr>signal := signal x OR sigmask SIGALRM, alarm := 0\<rparr>"

lemma rung_eq: "(\<lambda>x. x\<lparr>signal := signal x OR sigmask SIGALRM, alarm := 0\<rparr>) = rung"
  by (rule ext) (simp add: rung_def)

lemma rung_sel [simp]: "status (rung x) = status x" "wait_until (rung x) = wait_until x" "alarm (rung x) = 0"
  by (simp_all add: rung_def)

lemma wake_alarms_spec:
  "kinv s \<Longrightarrow> distinct xs \<Longrightarrow> set xs \<subseteq> set (thread_all_list s) \<Longrightarrow> alarm_list s = xs \<Longrightarrow>
    \<forall>t\<in>set xs. status (task s t) \<noteq> TASK_DIED \<Longrightarrow>
    \<exists>s'. wake_alarms xs s = Some s' \<and> kinv s' \<and> alarm_list s' = dropWhile (alarm_due s) xs \<and> timer_list s' = timer_list s \<and>
      thread_ready_list s' = rev (filter (asleep s) (takeWhile (alarm_due s) xs)) @ thread_ready_list s \<and>
      (\<forall>t. task s' t = (if t \<in> set (takeWhile (alarm_due s) xs) then awake (rung (task s t)) else task s t)) \<and>
      same_frame s s'"
proof (induction xs arbitrary: s)
  case Nil
  then show ?case by (simp add: same_frame_def)
next
  case (Cons t xs)
  show ?case
  proof (cases "alarm_due s t")
    case False
    then have "wake_alarms (t # xs) s = Some s"
      using Cons.prems(5) by (auto simp: alarm_due_def)
    then show ?thesis
      using Cons.prems False by (intro exI [of _ s]) (simp add: same_frame_def)
  next
    case True
    let ?f = rung and ?s = "s\<lparr>alarm_list := xs\<rparr>"
    obtain s1 where s1: "(if is_sleep (status (task (upd_task t ?f ?s) t)) then thread_unblock t (upd_task t ?f ?s)
        else Some (upd_task t ?f ?s)) = Some s1" "kinv s1" "task s1 = (task s)(t := awake (?f (task s t)))"
        "thread_ready_list s1 = (if asleep s t then [t] else []) @ thread_ready_list s"
        "alarm_list s1 = xs" "timer_list s1 = timer_list s" "same_frame s s1"
      using wake_one [of ?s t ?f] Cons.prems by (auto simp: asleep_def same_frame_def rung_def)
    have c: "alarm_due s1 x = alarm_due s x" "asleep s1 x = asleep s x" "task s1 x = task s x" if "x \<in> set xs" for x
      using that Cons.prems(2) s1(3,7) by (auto simp: alarm_due_def asleep_def same_frame_def)
    have w: "takeWhile (alarm_due s1) xs = takeWhile (alarm_due s) xs" "dropWhile (alarm_due s1) xs = dropWhile (alarm_due s) xs"
      using c(1) by (simp_all cong: takeWhile_cong dropWhile_cong)
    have fl: "filter (asleep s1) (takeWhile (alarm_due s) xs) = filter (asleep s) (takeWhile (alarm_due s) xs)"
      using c(2) by (intro filter_cong) (auto dest: set_takeWhileD)
    obtain s' where s': "wake_alarms xs s1 = Some s'" "kinv s'" "alarm_list s' = dropWhile (alarm_due s) xs"
        "timer_list s' = timer_list s"
        "thread_ready_list s' = rev (filter (asleep s) (takeWhile (alarm_due s) xs)) @ thread_ready_list s1"
        "\<forall>u. task s' u = (if u \<in> set (takeWhile (alarm_due s) xs) then awake (?f (task s1 u)) else task s1 u)"
        "same_frame s1 s'"
      using Cons.IH [of s1] Cons.prems(2,3,5) c(3) s1(2,5,6,7) w fl by (auto simp: same_frame_def)
    have "t \<notin> set (takeWhile (alarm_due s) xs)"
      using Cons.prems(2) by (auto dest: set_takeWhileD)
    then have "task s' u = (if u \<in> set (takeWhile (alarm_due s) (t # xs)) then awake (?f (task s u)) else task s u)" for u
      using s'(6) s1(3) True by auto
    moreover have "wake_alarms (t # xs) s = Some s'"
      using True s1(1) s'(1) Cons.prems(5) by (simp add: alarm_due_def rung_eq Let_def)
    ultimately show ?thesis
      using s' s1(4) True same_frame_trans [OF s1(7) s'(7)] by (intro exI [of _ s']) simp
  qed
qed

section \<open>The timer interrupt\<close>

lemma time_slice_effect:
  assumes "kinv s" "\<not> intr_on s"
  shows "\<exists>s'. time_slice s = Some s' \<and> kinv s' \<and> thread_all_list s' = thread_all_list s \<and> sys_ticks s' = sys_ticks s \<and>
    timer_list s' = timer_list s \<and> alarm_list s' = alarm_list s \<and> \<not> intr_on s' \<and>
    (\<forall>t. task s' t = (task s t)\<lparr>status := status (task s' t), ticks := ticks (task s' t)\<rparr>) \<and>
    (\<forall>t. asleep s' t = asleep s t)"
proof (cases "ticks (task s (cur_task s)) = 0")
  case True
  have inv: "sched_inv s"
    using assms(1) by (simp add: kinv_def)
  obtain s' where s': "time_slice s = Some s'" "scheduled s s'"
    using time_slice_zero [OF inv True assms(2)] by blast
  note sc = scheduledD [OF s'(2)]
  have k: "kinv s'"
    using scheduled_kinv [OF s'(2)] assms(1) by (simp add: kinv_def)
  have q: "run_queue s = thread_ready_list s @ [cur_task s]"
    by (rule run_queue_inv [OF inv])
  have "asleep s' t = asleep s t" for t
  proof (cases "t = cur_task s'")
    case True
    have "cur_task s' \<in> set (run_queue s)"
      using sc q by (simp split: if_splits)
    then have "status (task s t) = TASK_READY \<or> status (task s t) = TASK_RUNNING"
      using True q sched_invD(1,3) [OF inv] sched_wfD(3) [of s] sched_wfD(5) [of s t] by auto
    moreover have "status (task s' t) = TASK_RUNNING"
      using True k sched_invD(3) [of s'] by (simp add: kinv_def)
    ultimately show ?thesis
      by (auto simp: asleep_def is_sleep_def)
  next
    case False
    then have "status (task s' t) = status (task (requeue s) t)"
      using sc by blast
    then show ?thesis
      using sched_invD(3) [OF inv] by (simp add: asleep_def requeue_def is_sleep_def)
  qed
  then show ?thesis
    using s'(1) sc k by (intro exI [of _ s']) simp
next
  case False
  have inv: "sched_inv s"
    using assms(1) by (simp add: kinv_def)
  note d = time_slice_dec [OF inv False]
  have "kinv (upd_task (cur_task s) (\<lambda>t. t\<lparr>ticks := ticks t - 1\<rparr>) s)"
    using d(2) assms(1) by (simp add: kinv_def pid_inv_upd)
  then show ?thesis
    using d(1) assms(2) by (simp add: asleep_def)
qed

definition timers_ok :: "ksys \<Rightarrow> bool" where
  "timers_ok s \<longleftrightarrow> distinct (timer_list s) \<and> set (timer_list s) \<subseteq> set (thread_all_list s) \<and>
     sorted (map (\<lambda>t. wait_until (task s t)) (timer_list s)) \<and> (\<forall>t\<in>set (timer_list s). 0 < wait_until (task s t)) \<and>
     distinct (alarm_list s) \<and> set (alarm_list s) \<subseteq> set (thread_all_list s) \<and>
     sorted (map (\<lambda>t. alarm (task s t)) (alarm_list s)) \<and> (\<forall>t\<in>set (alarm_list s). 0 < alarm (task s t))"

definition no_dead :: "ksys \<Rightarrow> bool" where
  "no_dead s \<longleftrightarrow> (\<forall>t\<in>set (thread_all_list s). status (task s t) \<noteq> TASK_DIED)"

text \<open>On a sorted list the scan of the head finds everything that is due.\<close>

lemma takeWhile_sorted:
  fixes f :: "'a \<Rightarrow> 'b :: linorder"
  assumes "sorted (map f xs)"
  shows "takeWhile (\<lambda>x. f x \<le> b) xs = filter (\<lambda>x. f x \<le> b) xs"
    "dropWhile (\<lambda>x. f x \<le> b) xs = filter (\<lambda>x. b < f x) xs"
  using assms
proof (induction xs)
  case (Cons x xs)
  {
    case 1
    then show ?case
      using Cons.IH(1) by (auto intro!: filter_False [symmetric] dest: order_trans)
  next
    case 2
    then show ?case
      using Cons.IH(2) by (auto simp: not_le intro!: filter_True [symmetric] dest: order.strict_trans2)
  }
qed simp_all

lemma due_lists:
  assumes "timers_ok s"
  shows "takeWhile (timer_due s) (timer_list s) = filter (\<lambda>t. wait_until (task s t) \<le> sys_ticks s) (timer_list s)"
    "dropWhile (timer_due s) (timer_list s) = filter (\<lambda>t. sys_ticks s < wait_until (task s t)) (timer_list s)"
    "takeWhile (alarm_due s) (alarm_list s) = filter (\<lambda>t. alarm (task s t) \<le> sys_ticks s) (alarm_list s)"
    "dropWhile (alarm_due s) (alarm_list s) = filter (\<lambda>t. sys_ticks s < alarm (task s t)) (alarm_list s)"
proof -
  have a: "timer_due s t \<longleftrightarrow> wait_until (task s t) \<le> sys_ticks s" if "t \<in> set (timer_list s)" for t
    using assms that by (simp add: timers_ok_def timer_due_def)
  have b: "alarm_due s t \<longleftrightarrow> alarm (task s t) \<le> sys_ticks s" if "t \<in> set (alarm_list s)" for t
    using assms that by (simp add: timers_ok_def alarm_due_def)
  have w: "takeWhile (timer_due s) (timer_list s) = takeWhile (\<lambda>t. wait_until (task s t) \<le> sys_ticks s) (timer_list s)"
      "dropWhile (timer_due s) (timer_list s) = dropWhile (\<lambda>t. wait_until (task s t) \<le> sys_ticks s) (timer_list s)"
    using a by (auto intro: takeWhile_cong dropWhile_cong)
  have v: "takeWhile (alarm_due s) (alarm_list s) = takeWhile (\<lambda>t. alarm (task s t) \<le> sys_ticks s) (alarm_list s)"
      "dropWhile (alarm_due s) (alarm_list s) = dropWhile (\<lambda>t. alarm (task s t) \<le> sys_ticks s) (alarm_list s)"
    using b by (auto intro: takeWhile_cong dropWhile_cong)
  have "sorted (map (\<lambda>t. wait_until (task s t)) (timer_list s))" "sorted (map (\<lambda>t. alarm (task s t)) (alarm_list s))"
    using assms by (simp_all add: timers_ok_def)
  then show "takeWhile (timer_due s) (timer_list s) = filter (\<lambda>t. wait_until (task s t) \<le> sys_ticks s) (timer_list s)"
    "dropWhile (timer_due s) (timer_list s) = filter (\<lambda>t. sys_ticks s < wait_until (task s t)) (timer_list s)"
    "takeWhile (alarm_due s) (alarm_list s) = filter (\<lambda>t. alarm (task s t) \<le> sys_ticks s) (alarm_list s)"
    "dropWhile (alarm_due s) (alarm_list s) = filter (\<lambda>t. sys_ticks s < alarm (task s t)) (alarm_list s)"
    unfolding w v by (simp_all add: takeWhile_sorted)
qed

lemma awake_sel [simp]:
  "wait_until (awake x) = wait_until x" "alarm (awake x) = alarm x" "signal (awake x) = signal x" "\<not> is_sleep (status (awake x))"
  "stack_magic (awake x) = stack_magic x"
  by (simp_all add: awake_def is_sleep_def)

lemma awake_died [simp]: "status (awake x) = TASK_DIED \<longleftrightarrow> status x = TASK_DIED"
  by (auto simp: awake_def is_sleep_def)

lemma sorted_filter_map: "sorted (map f xs) \<Longrightarrow> sorted (map f (filter P xs))"
  by (induction xs) auto

lemma bit_sigmask: "0 < sig \<Longrightarrow> sig \<le> 32 \<Longrightarrow> bit (sigmask sig) k \<longleftrightarrow> k = sig - 1"
  by (auto simp: sigmask_def bit_simps)

lemma timers_ok_sub:
  assumes "timers_ok s" "thread_all_list s' = thread_all_list s"
    and "timer_list s' = filter P (timer_list s)" "alarm_list s' = filter Q (alarm_list s)"
    and "\<And>t. t \<in> set (timer_list s') \<Longrightarrow> wait_until (task s' t) = wait_until (task s t)"
    and "\<And>t. t \<in> set (alarm_list s') \<Longrightarrow> alarm (task s' t) = alarm (task s t)"
  shows "timers_ok s'"
proof -
  have m: "map (\<lambda>t. wait_until (task s' t)) (timer_list s') = map (\<lambda>t. wait_until (task s t)) (timer_list s')"
      "map (\<lambda>t. alarm (task s' t)) (alarm_list s') = map (\<lambda>t. alarm (task s t)) (alarm_list s')"
    using assms(5,6) by simp_all
  have "sorted (map (\<lambda>t. wait_until (task s' t)) (timer_list s'))" "sorted (map (\<lambda>t. alarm (task s' t)) (alarm_list s'))"
    unfolding m using assms(1,3,4) by (simp_all add: timers_ok_def sorted_filter_map)
  moreover have "0 < wait_until (task s' t)" if "t \<in> set (timer_list s')" for t
    using assms(1) assms(5) [OF that] that unfolding assms(3) by (simp add: timers_ok_def)
  moreover have "0 < alarm (task s' t)" if "t \<in> set (alarm_list s')" for t
    using assms(1) assms(6) [OF that] that unfolding assms(4) by (simp add: timers_ok_def)
  moreover have "distinct (timer_list s')" "set (timer_list s') \<subseteq> set (thread_all_list s')"
      "distinct (alarm_list s')" "set (alarm_list s') \<subseteq> set (thread_all_list s')"
    using assms(1) unfolding assms(2-4) by (auto simp: timers_ok_def)
  ultimately show ?thesis
    by (simp add: timers_ok_def)
qed

text \<open>Both loops after each other.\<close>

lemma wake_all:
  assumes "kinv s" "timers_ok s" "no_dead s"
  shows "\<exists>s'. (wake_timers (timer_list s) s \<bind> (\<lambda>s. wake_alarms (alarm_list s) s)) = Some s' \<and> kinv s' \<and> same_frame s s' \<and>
    timer_list s' = filter (\<lambda>t. sys_ticks s < wait_until (task s t)) (timer_list s) \<and>
    alarm_list s' = filter (\<lambda>t. sys_ticks s < alarm (task s t)) (alarm_list s) \<and>
    (\<forall>t. wait_until (task s' t) = (if t \<in> set (timer_list s) \<and> wait_until (task s t) \<le> sys_ticks s then 0 else wait_until (task s t))) \<and>
    (\<forall>t. alarm (task s' t) = (if t \<in> set (alarm_list s) \<and> alarm (task s t) \<le> sys_ticks s then 0 else alarm (task s t))) \<and>
    (\<forall>t. signal (task s' t) = (if t \<in> set (alarm_list s) \<and> alarm (task s t) \<le> sys_ticks s then signal (task s t) OR sigmask SIGALRM else signal (task s t))) \<and>
    (\<forall>t. asleep s' t \<longleftrightarrow> asleep s t \<and> \<not> (t \<in> set (timer_list s) \<and> wait_until (task s t) \<le> sys_ticks s) \<and>
      \<not> (t \<in> set (alarm_list s) \<and> alarm (task s t) \<le> sys_ticks s))"
proof -
  note dl = due_lists [OF assms(2)]
  have t: "distinct (timer_list s)" "set (timer_list s) \<subseteq> set (thread_all_list s)"
      "distinct (alarm_list s)" "set (alarm_list s) \<subseteq> set (thread_all_list s)"
    using assms(2) by (simp_all add: timers_ok_def)
  let ?td = "set (filter (\<lambda>t. wait_until (task s t) \<le> sys_ticks s) (timer_list s))"
  obtain s1 where s1: "wake_timers (timer_list s) s = Some s1" "kinv s1" "alarm_list s1 = alarm_list s"
      "timer_list s1 = filter (\<lambda>t. sys_ticks s < wait_until (task s t)) (timer_list s)" "same_frame s s1"
      "\<And>t. task s1 t = (if t \<in> ?td then awake ((task s t)\<lparr>wait_until := 0\<rparr>) else task s t)"
    using wake_timers_spec [OF assms(1) t(1,2) refl] unfolding dl(1,2) by blast
  have al: "alarm (task s1 t) = alarm (task s t)" for t
    by (simp add: s1(6))
  have due: "alarm_due s1 = alarm_due s"
    using al s1(5) by (auto simp: alarm_due_def fun_eq_iff same_frame_def)
  have nd: "\<forall>t\<in>set (alarm_list s). status (task s1 t) \<noteq> TASK_DIED"
    using assms(3) t(4) by (auto simp: s1(6) no_dead_def)
  have sub: "set (alarm_list s) \<subseteq> set (thread_all_list s1)"
    using t(4) s1(5) by (simp add: same_frame_def)
  let ?ad = "set (filter (\<lambda>t. alarm (task s t) \<le> sys_ticks s) (alarm_list s))"
  obtain s2 where s2: "wake_alarms (alarm_list s) s1 = Some s2" "kinv s2" "timer_list s2 = timer_list s1"
      "alarm_list s2 = filter (\<lambda>t. sys_ticks s < alarm (task s t)) (alarm_list s)" "same_frame s1 s2"
      "\<And>t. task s2 t = (if t \<in> ?ad then awake (rung (task s1 t)) else task s1 t)"
    using wake_alarms_spec [OF s1(2) t(3) sub s1(3) nd] unfolding due dl(3,4) by blast
  have "asleep s2 u \<longleftrightarrow> asleep s u \<and> u \<notin> ?td \<and> u \<notin> ?ad" for u
    by (simp add: asleep_def s2(6) s1(6))
  moreover have "signal (task s2 u) = (if u \<in> ?ad then signal (task s u) OR sigmask SIGALRM else signal (task s u))" for u
    by (simp add: s2(6) s1(6) rung_def awake_def)
  moreover have "wait_until (task s2 u) = (if u \<in> ?td then 0 else wait_until (task s u))" for u
    by (simp add: s2(6) s1(6))
  moreover have "alarm (task s2 u) = (if u \<in> ?ad then 0 else alarm (task s u))" for u
    using al by (simp add: s2(6))
  ultimately show ?thesis
    using s1 s2 same_frame_trans [OF s1(5) s2(5)] by (intro exI [of _ s2]) auto
qed

text \<open>
  C19. A timer interrupt, in a good state with sorted timer lists, advances the clock by one, takes exactly
  the entries that are due off the two lists, clears their deadlines and keeps both lists sorted, makes
  \<^verbatim>\<open>SIGALRM\<close> pending for exactly the tasks with a due alarm and touches no other pending signal, wakes exactly the
  sleeping tasks that have a due entry, and keeps the scheduler invariant, including when it ends in a task
  switch. The last clause is a defect: a due alarm also wakes a task in \<^verbatim>\<open>TASK_BLOCKED\<close>, the state for waits that
  no signal may interrupt, and one in \<^verbatim>\<open>TASK_HANGING\<close>, which has already exited.
\<close>
theorem timer_interrupt:
  assumes "kinv s" "timers_ok s" "no_dead s" "\<not> intr_on s" "stack_magic (task s (cur_task s)) = STACK_MAGIC"
    and "now = sys_ticks s + 1"
  shows "\<exists>s'. intr_handler_timer s = Some s' \<and> kinv s' \<and> timers_ok s' \<and> sys_ticks s' = now \<and>
    timer_list s' = filter (\<lambda>t. now < wait_until (task s t)) (timer_list s) \<and>
    alarm_list s' = filter (\<lambda>t. now < alarm (task s t)) (alarm_list s) \<and>
    (\<forall>t. wait_until (task s' t) = (if t \<in> set (timer_list s) \<and> wait_until (task s t) \<le> now then 0 else wait_until (task s t))) \<and>
    (\<forall>t. alarm (task s' t) = (if t \<in> set (alarm_list s) \<and> alarm (task s t) \<le> now then 0 else alarm (task s t))) \<and>
    (\<forall>t. signal (task s' t) = (if t \<in> set (alarm_list s) \<and> alarm (task s t) \<le> now then signal (task s t) OR sigmask SIGALRM else signal (task s t))) \<and>
    (\<forall>t. asleep s' t \<longleftrightarrow> asleep s t \<and> \<not> (t \<in> set (timer_list s) \<and> wait_until (task s t) \<le> now) \<and>
      \<not> (t \<in> set (alarm_list s) \<and> alarm (task s t) \<le> now)) \<and>
    (\<forall>t. status (task s t) \<in> {TASK_BLOCKED, TASK_HANGING} \<and> t \<in> set (alarm_list s) \<and> alarm (task s t) \<le> now \<longrightarrow>
      asleep s t \<and> \<not> asleep s' t)"
proof -
  let ?s = "(upd_task (cur_task s) (\<lambda>t. t\<lparr>elapsed_ticks := elapsed_ticks t + 1\<rparr>) s)\<lparr>sys_ticks := now\<rparr>"
  have f: "wait_until (task ?s t) = wait_until (task s t)" "alarm (task ?s t) = alarm (task s t)"
      "status (task ?s t) = status (task s t)" "signal (task ?s t) = signal (task s t)" for t
    by simp_all
  have k: "kinv ?s" "timers_ok ?s" "no_dead ?s"
    using kinv_upd [OF assms(1)] assms(2,3) unfolding timers_ok_def no_dead_def f by simp_all
  obtain s1 where s1: "(wake_timers (timer_list ?s) ?s \<bind> (\<lambda>s. wake_alarms (alarm_list s) s)) = Some s1" "kinv s1" "same_frame ?s s1"
      "timer_list s1 = filter (\<lambda>t. now < wait_until (task s t)) (timer_list s)"
      "alarm_list s1 = filter (\<lambda>t. now < alarm (task s t)) (alarm_list s)"
      "\<forall>t. wait_until (task s1 t) = (if t \<in> set (timer_list s) \<and> wait_until (task s t) \<le> now then 0 else wait_until (task s t))"
      "\<forall>t. alarm (task s1 t) = (if t \<in> set (alarm_list s) \<and> alarm (task s t) \<le> now then 0 else alarm (task s t))"
      "\<forall>t. signal (task s1 t) = (if t \<in> set (alarm_list s) \<and> alarm (task s t) \<le> now then signal (task s t) OR sigmask SIGALRM
        else signal (task s t))"
      "\<forall>t. asleep s1 t \<longleftrightarrow> asleep s t \<and> \<not> (t \<in> set (timer_list s) \<and> wait_until (task s t) \<le> now) \<and>
        \<not> (t \<in> set (alarm_list s) \<and> alarm (task s t) \<le> now)"
    using wake_all [OF k] unfolding asleep_def f by auto
  have i: "\<not> intr_on s1"
    using s1(3) assms(4) by (simp add: same_frame_def)
  obtain s' where s': "time_slice s1 = Some s'" "kinv s'" "thread_all_list s' = thread_all_list s1" "sys_ticks s' = sys_ticks s1"
      "timer_list s' = timer_list s1" "alarm_list s' = alarm_list s1"
      "\<And>t. task s' t = (task s1 t)\<lparr>status := status (task s' t), ticks := ticks (task s' t)\<rparr>"
      "\<And>t. asleep s' t = asleep s1 t"
    using time_slice_effect [OF s1(2) i] by blast
  have g: "wait_until (task s' t) = wait_until (task s1 t)" "alarm (task s' t) = alarm (task s1 t)"
      "signal (task s' t) = signal (task s1 t)" for t
    using arg_cong [OF s'(7) [of t], of wait_until] arg_cong [OF s'(7) [of t], of alarm]
      arg_cong [OF s'(7) [of t], of signal] by simp_all
  have "timers_ok s'"
    by (rule timers_ok_sub [OF assms(2)]) (use s1(3-7) s'(3,5,6) g in \<open>auto simp: same_frame_def not_less\<close>)
  moreover have "intr_handler_timer s = Some s'"
    using assms(5,6) s1(1) s'(1) by (simp add: intr_handler_timer_def halting_simps) (metis bind.bind_lunit)
  moreover have "asleep s t" if "status (task s t) \<in> {TASK_BLOCKED, TASK_HANGING}" for t
    using that by (auto simp: asleep_def is_sleep_def)
  ultimately show ?thesis
    using s1 s' g by (intro exI [of _ s']) (simp add: same_frame_def)
qed

section \<open>Sleeping and alarms\<close>


lemma timers_ok_insert_alarm:
  assumes "timers_ok s" "t \<in> set (thread_all_list s)" "t \<notin> set (alarm_list s)" "0 < w"
    and "s' = (upd_task t (\<lambda>x. x\<lparr>alarm := w\<rparr>) s)\<lparr>alarm_list := insert_ascend (\<lambda>x. if x = t then w else alarm (task s x)) t (alarm_list s)\<rparr>"
  shows "timers_ok s'"
proof -
  let ?f = "\<lambda>x. if x = t then w else alarm (task s x)"
  have "map ?f (alarm_list s) = map (\<lambda>x. alarm (task s x)) (alarm_list s)"
    using assms(3) by auto
  then have "sorted (map ?f (alarm_list s))"
    using assms(1) by (simp only: timers_ok_def)
  then have "sorted (map ?f (insert_ascend ?f t (alarm_list s)))"
    by (rule insert_ascend_sorted)
  moreover have "(\<lambda>x. alarm (task s' x)) = ?f" "(\<lambda>x. wait_until (task s' x)) = (\<lambda>x. wait_until (task s x))"
    using assms(5) by (auto simp: fun_eq_iff)
  moreover have "distinct (insert_ascend ?f t (alarm_list s))"
    using assms(1,3) by (intro insert_ascend_distinct) (simp_all add: timers_ok_def)
  ultimately show ?thesis
    using assms(1,2,4,5) by (auto simp: timers_ok_def)
qed




lemma timers_ok_cancel:
  assumes "timers_ok s" "\<And>x. wait_until (f x) = wait_until x"
  shows "timers_ok (upd_task t f (s\<lparr>intr_on := b, alarm_list := remove1 t (alarm_list s)\<rparr>))"
proof -
  let ?s = "upd_task t f (s\<lparr>intr_on := b, alarm_list := remove1 t (alarm_list s)\<rparr>)"
  have d: "distinct (alarm_list s)"
    using assms(1) by (simp add: timers_ok_def)
  show ?thesis
    by (rule timers_ok_sub [OF assms(1), where P = "\<lambda>_. True" and Q = "\<lambda>x. x \<noteq> t"])
      (use d in \<open>auto simp: assms(2) distinct_remove1_removeAll removeAll_filter_not_eq eq_commute\<close>)
qed

text \<open>
  C31. \<^verbatim>\<open>sys_alarm\<close> returns the whole seconds left of the alarm that was set before, or 0; a positive argument
  files the caller under \<open>now + 200 * seconds\<close> in the sorted alarm list, in place of an earlier entry, and
  0 only cancels; as long as that tick does not wrap around, both lists stay sorted and no other task's
  entry changes.
\<close>
theorem alarm_files:
  assumes "kinv s" "timers_ok s" "unat (sys_ticks s) + 200 * unat seconds < 2 ^ 32"
  shows "\<exists>s'. sys_alarm seconds s = Some
      (if sys_ticks s < alarm (task s (cur_task s)) then (alarm (task s (cur_task s)) - sys_ticks s) div 200 else 0, s') \<and>
    kinv s' \<and> timers_ok s' \<and> intr_on s' = intr_on s \<and>
    set (alarm_list s') = (if seconds = 0 then set (alarm_list s) - {cur_task s} else insert (cur_task s) (set (alarm_list s))) \<and>
    unat (alarm (task s' (cur_task s))) = (if seconds = 0 then 0 else unat (sys_ticks s) + 200 * unat seconds) \<and>
    (\<forall>t. t \<noteq> cur_task s \<longrightarrow> task s' t = task s t)"
proof -
  let ?t = "cur_task s"
  have t: "?t \<in> set (thread_all_list s)"
    using assms(1) by (simp add: kinv_def sched_inv_def)
  have d: "distinct (alarm_list s)"
    using assms(2) by (simp add: timers_ok_def)
  define s1 where "s1 = s\<lparr>intr_on := False, alarm_list := remove1 ?t (alarm_list s)\<rparr>"
  have k1: "kinv s1"
    using assms(1) by (simp add: s1_def)
  have r: "(if alarm (task s ?t) > 0 then if alarm (task s ?t) > sys_ticks s then (alarm (task s ?t) - sys_ticks s) div IRQ0_FREQUENCY else 0 else 0) =
      (if sys_ticks s < alarm (task s ?t) then (alarm (task s ?t) - sys_ticks s) div 200 else 0)"
    by (auto simp: IRQ0_FREQUENCY_def word_gt_0)
  have g: "(if ?t \<in> set (alarm_list s) then s\<lparr>intr_on := False, alarm_list := remove1 ?t (alarm_list s)\<rparr>
      else s\<lparr>intr_on := False\<rparr>) = s1"
    by (simp add: s1_def remove1_idem)
  have s1t: "sys_ticks s1 = sys_ticks s"
    by (simp add: s1_def)
  show ?thesis
  proof (cases "seconds = 0")
    case True
    let ?s = "(upd_task ?t (\<lambda>x. x\<lparr>alarm := 0\<rparr>) s1)\<lparr>intr_on := intr_on s\<rparr>"
    have "kinv ?s"
      using kinv_upd [OF k1] by simp
    moreover have "timers_ok ?s"
      using timers_ok_cancel [OF assms(2), of "\<lambda>x. x\<lparr>alarm := 0\<rparr>" ?t "intr_on s"] by (simp add: s1_def upd_task_def)
    moreover have "sys_alarm seconds s = Some
        (if sys_ticks s < alarm (task s ?t) then (alarm (task s ?t) - sys_ticks s) div 200 else 0, ?s)"
      using True by (simp add: sys_alarm_def Let_def g r cong: if_cong)
    ultimately show ?thesis
      using True d by (intro exI [of _ ?s]) (auto simp: s1_def)
  next
    case False
    define w where "w = sys_ticks s + seconds * IRQ0_FREQUENCY"
    have "unat (seconds * 200) = unat seconds * 200"
      using assms(3) by (simp add: unat_word_ariths)
    then have wv: "unat w = unat (sys_ticks s) + 200 * unat seconds"
      using assms(3) by (simp add: w_def IRQ0_FREQUENCY_def unat_plus_no_wrap)
    have sec: "0 < seconds"
      using False by (simp add: word_gt_0)
    then have "0 < unat seconds"
      by (simp add: u32_less)
    then have w0: "0 < w"
      using wv by (simp add: u32_less)
    define s2 where "s2 = (upd_task ?t (\<lambda>x. x\<lparr>alarm := w\<rparr>) s1)\<lparr>alarm_list :=
      insert_ascend (\<lambda>x. if x = ?t then w else alarm (task s1 x)) ?t (alarm_list s1)\<rparr>"
    let ?s = "s2\<lparr>intr_on := intr_on s\<rparr>"
    have ok1: "timers_ok s1"
      using timers_ok_cancel [OF assms(2), of "\<lambda>x. x" ?t False] by (simp add: s1_def upd_task_def)
    have n1: "?t \<notin> set (alarm_list s1)" "?t \<in> set (thread_all_list s1)"
      using d t by (simp_all add: s1_def)
    have "timers_ok s2"
      by (rule timers_ok_insert_alarm [OF ok1 n1(2,1) w0 s2_def])
    then have "timers_ok ?s"
      by (simp add: timers_ok_def)
    moreover have "kinv ?s"
      using kinv_upd [OF k1] by (simp add: s2_def)
    moreover have "list_insert_ascend ?t True (upd_task ?t (\<lambda>x. x\<lparr>alarm := w\<rparr>) s1) = Some s2"
      using n1(1) by (simp add: list_insert_ascend_def s2_def) (rule arg_cong, auto intro: insert_ascend_cong)
    then have "sys_alarm seconds s = Some
        (if sys_ticks s < alarm (task s ?t) then (alarm (task s ?t) - sys_ticks s) div 200 else 0, ?s)"
      using sec by (simp add: sys_alarm_def Let_def g r s1t w_def [symmetric] cong: if_cong)
    ultimately show ?thesis
      using False d wv by (intro exI [of _ ?s]) (auto simp: s2_def s1_def)
  qed
qed

text \<open>The example system with task 1 asleep until tick 1.\<close>

definition ex_timer :: ksys where
  "ex_timer = (upd_task 1 (\<lambda>x. x\<lparr>wait_until := 1\<rparr>) ex_sys)\<lparr>timer_list := [1]\<rparr>"

lemma ex_timer_ok: "kinv ex_timer" "timers_ok ex_timer" "no_dead ex_timer" "\<not> intr_on ex_timer"
  "stack_magic (task ex_timer (cur_task ex_timer)) = STACK_MAGIC"
  using kinv_upd [OF ex_sys_kinv, of "\<lambda>x. x\<lparr>wait_until := 1\<rparr>" 1]
  by (simp_all add: ex_timer_def timers_ok_def no_dead_def ex_sys_def ex_task_def)

theorem timer_interrupt_witness:
  "\<exists>s'. intr_handler_timer ex_timer = Some s' \<and> sys_ticks s' = 1 \<and> timer_list s' = [] \<and> asleep ex_timer 1 \<and> \<not> asleep s' 1"
proof -
  have e: "sys_ticks ex_timer = 0" "timer_list ex_timer = [1]" "wait_until (task ex_timer 1) = 1" "asleep ex_timer 1"
    by (simp_all add: ex_timer_def ex_sys_def ex_task_def asleep_def is_sleep_def)
  obtain s' where s': "intr_handler_timer ex_timer = Some s'" "sys_ticks s' = 1"
      "timer_list s' = filter (\<lambda>t. 1 < wait_until (task ex_timer t)) (timer_list ex_timer)"
      "\<forall>t. asleep s' t \<longleftrightarrow> asleep ex_timer t \<and> \<not> (t \<in> set (timer_list ex_timer) \<and> wait_until (task ex_timer t) \<le> 1) \<and>
        \<not> (t \<in> set (alarm_list ex_timer) \<and> alarm (task ex_timer t) \<le> 1)"
    using timer_interrupt [OF ex_timer_ok, of 1] e(1) by auto
  have "timer_list s' = []" "\<not> asleep s' 1"
    using s'(3,4) e(2,3) by simp_all
  then show ?thesis
    using s'(1,2) e(4) by blast
qed


theorem alarm_files_witness:
  "\<exists>s'. sys_alarm 5 ex_sys = Some (0, s') \<and> timers_ok s' \<and> set (alarm_list s') = {0} \<and> unat (alarm (task s' 0)) = 1000"
proof -
  have e: "timers_ok ex_sys" "sys_ticks ex_sys = 0" "cur_task ex_sys = 0" "alarm_list ex_sys = []" "alarm (task ex_sys 0) = 0"
    by (simp_all add: timers_ok_def ex_sys_def ex_task_def)
  have "unat (sys_ticks ex_sys) + 200 * unat (5 :: u32) < 2 ^ 32"
    using e(2) by simp
  from alarm_files [OF ex_sys_kinv e(1) this] show ?thesis
    unfolding e(2-4) by (auto simp: e(5))
qed

end
