(* ===== verification/Signal.thy ===== *)
theory Signal
  imports Timer
begin

text \<open>
  Signals, \<^verbatim>\<open>kernel/signal.c\<close>. The interrupt frame at the top of the kernel stack is a record of its
  19 words, user memory maps the address of a word to the word. \<^verbatim>\<open>do_signal\<close> ends with a return to the
  user program or in \<^verbatim>\<open>sys_exit\<close>, which does not come back.
\<close>

section \<open>The code\<close>

definition SIGINT :: nat where "SIGINT = 2"
definition SIGILL :: nat where "SIGILL = 4"
definition SIGKILL :: nat where "SIGKILL = 9"
definition SIGSEGV :: nat where "SIGSEGV = 11"
definition SIGPIPE :: nat where "SIGPIPE = 13"
definition SIGTERM :: nat where "SIGTERM = 15"
definition SIGCHLD :: nat where "SIGCHLD = 17"
definition SIGSTOP :: nat where "SIGSTOP = 19"
definition SIG_DFL :: u32 where "SIG_DFL = 0"
definition SIG_IGN :: u32 where "SIG_IGN = 1"
definition SIG_BLOCK :: int where "SIG_BLOCK = 0"
definition SIG_UNBLOCK :: int where "SIG_UNBLOCK = 1"
definition SIG_SETMASK :: int where "SIG_SETMASK = 2"
definition EFAULT :: int where "EFAULT = 14"

record intr_stack =
  i_vec_no :: u32
  i_edi :: u32
  i_esi :: u32
  i_ebp :: u32
  i_esp_dummy :: u32
  i_ebx :: u32
  i_edx :: u32
  i_ecx :: u32
  i_eax :: u32
  i_gs :: u32
  i_fs :: u32
  i_es :: u32
  i_ds :: u32
  i_err_code :: u32
  i_eip :: u32
  i_cs :: u32
  i_eflags :: u32
  i_esp :: u32
  i_ss :: u32

type_synonym user_mem = "u32 \<Rightarrow> u32"

definition frame_words :: "intr_stack \<Rightarrow> u32 list" where
  "frame_words f = [i_vec_no f, i_edi f, i_esi f, i_ebp f, i_esp_dummy f, i_ebx f, i_edx f, i_ecx f, i_eax f,
     i_gs f, i_fs f, i_es f, i_ds f, i_err_code f, i_eip f, i_cs f, i_eflags f, i_esp f, i_ss f]"

definition words_frame :: "u32 list \<Rightarrow> intr_stack" where
  "words_frame ws = \<lparr>i_vec_no = ws ! 0, i_edi = ws ! 1, i_esi = ws ! 2, i_ebp = ws ! 3, i_esp_dummy = ws ! 4,
     i_ebx = ws ! 5, i_edx = ws ! 6, i_ecx = ws ! 7, i_eax = ws ! 8, i_gs = ws ! 9, i_fs = ws ! 10, i_es = ws ! 11,
     i_ds = ws ! 12, i_err_code = ws ! 13, i_eip = ws ! 14, i_cs = ws ! 15, i_eflags = ws ! 16, i_esp = ws ! 17,
     i_ss = ws ! 18\<rparr>"

text \<open>\<^verbatim>\<open>memcpy\<close> of words to and from user memory.\<close>

fun store_words :: "u32 \<Rightarrow> u32 list \<Rightarrow> user_mem \<Rightarrow> user_mem" where
  "store_words a [] m = m"
| "store_words a (w # ws) m = store_words (a + 4) ws (m(a := w))"

fun load_words :: "u32 \<Rightarrow> nat \<Rightarrow> user_mem \<Rightarrow> u32 list" where
  "load_words a 0 m = []"
| "load_words a (Suc n) m = m a # load_words (a + 4) n m"

definition sig_addset :: "u32 \<Rightarrow> nat \<Rightarrow> u32" where
  "sig_addset x sig = x OR sigmask sig"

definition sig_delset :: "u32 \<Rightarrow> nat \<Rightarrow> u32" where
  "sig_delset x sig = x AND NOT (sigmask sig)"

text \<open>\<^verbatim>\<open>sig_ismember\<close> returns before it restores the interrupt state.\<close>

definition sig_ismember :: "u32 \<Rightarrow> nat \<Rightarrow> ksys \<Rightarrow> bool \<times> ksys" where
  "sig_ismember x sig s = (x AND sigmask sig \<noteq> 0, intr_disable s)"

definition setup_frame :: "nat \<Rightarrow> sigaction \<Rightarrow> intr_stack \<Rightarrow> u32 \<Rightarrow> user_mem \<Rightarrow> intr_stack \<times> user_mem" where
  "setup_frame sig sa stack old_blocked m = (let
     stack_size_in_words = DIV_ROUND_UP 76 4 + 3;
     user_esp = i_esp stack - 4 * stack_size_in_words;
     m = store_words (user_esp + 12) (frame_words stack) m;
     m = m(user_esp := sa_restorer sa);
     m = m(user_esp + 4 := of_nat sig);
     m = m(user_esp + 8 := old_blocked)
   in (stack\<lparr>i_esp := user_esp, i_eip := sa_handler sa\<rparr>, m))"

definition sys_sigreturn :: "intr_stack \<Rightarrow> user_mem \<Rightarrow> ksys \<Rightarrow> (intr_stack \<times> ksys) halting" where
  "sys_sigreturn current_stack m s = do {
     let user_esp = i_esp current_stack;
     let s = upd_task (cur_task s) (\<lambda>t. t\<lparr>blocked := m (user_esp + 4)\<rparr>) s;
     let saved_frame = user_esp + 8;
     ASSERT (\<not> saved_frame < 0x1000);
     Some (words_frame (load_words saved_frame 19 m), s)
   }"

fun kill_pgrp_loop :: "nat list \<Rightarrow> int \<Rightarrow> nat \<Rightarrow> ksys \<Rightarrow> ksys" where
  "kill_pgrp_loop [] g sig s = s"
| "kill_pgrp_loop (t # ts) g sig s = kill_pgrp_loop ts g sig
     (if mm (task s t) \<noteq> None \<and> pgrp (task s t) = g
      then upd_task t (\<lambda>x. x\<lparr>signal := sig_addset (signal x) sig\<rparr>) s else s)"

definition kill_pgrp :: "int \<Rightarrow> nat \<Rightarrow> ksys \<Rightarrow> ksys" where
  "kill_pgrp g sig s = kill_pgrp_loop (thread_all_list s) g sig s"

text \<open>The lowest set bit among signals 1 to 31, or 0.\<close>

function find_signal :: "u32 \<Rightarrow> nat \<Rightarrow> nat" where
  "find_signal pending i =
     (if i \<le> 31 then if pending AND sigmask i \<noteq> 0 then i else find_signal pending (i + 1) else 0)"
  by pat_completeness auto
termination
  by (relation "measure (\<lambda>(p, i). 32 - i)") auto

declare find_signal.simps [simp del]

definition fatal_by_default :: "nat \<Rightarrow> bool" where
  "fatal_by_default sig \<longleftrightarrow> sig = SIGALRM \<or> sig = SIGTERM \<or> sig = SIGKILL \<or> sig = SIGINT \<or> sig = SIGPIPE \<or>
     sig = SIGSEGV \<or> sig = SIGILL"

definition unmaskable :: u32 where
  "unmaskable = sigmask SIGKILL OR sigmask SIGSTOP"

datatype sig_outcome = Resume | Exits int

definition do_signal :: "intr_stack \<Rightarrow> user_mem \<Rightarrow> ksys \<Rightarrow> sig_outcome \<times> intr_stack \<times> user_mem \<times> ksys" where
  "do_signal stack m s = (let
     cur = cur_task s;
     s = upd_task cur (\<lambda>t. t\<lparr>blocked := blocked t AND NOT unmaskable\<rparr>) s;
     pending = signal (task s cur) AND NOT (blocked (task s cur))
   in if pending = 0 then (Resume, stack, m, s)
   else let
     old = intr_on s;
     s = intr_disable s;
     sig = find_signal pending 1
   in if sig = 0 then (Resume, stack, m, intr_set_status old s)
   else let
     s = upd_task cur (\<lambda>t. t\<lparr>signal := signal t AND NOT (sigmask sig)\<rparr>) s;
     sa = sigactions (task s cur) ! (sig - 1)
   in if sa_handler sa = SIG_IGN then (Resume, stack, m, intr_set_status old s)
   else if sa_handler sa = SIG_DFL then
     if fatal_by_default sig then (Exits (- int sig), stack, m, s)
     else (Resume, stack, m, intr_set_status old s)
   else if sa_restorer sa = 0 then (Exits (- int sig), stack, m, s)
   else let
     old_blocked = blocked (task s cur);
     s = upd_task cur (\<lambda>t. t\<lparr>blocked := (blocked t OR (sigmask sig OR sa_mask sa)) AND NOT unmaskable\<rparr>) s;
     (stack, m) = setup_frame sig sa stack old_blocked m
   in (Resume, stack, m, intr_set_status old s))"

definition sys_signal :: "int \<Rightarrow> u32 \<Rightarrow> ksys \<Rightarrow> u32 \<times> ksys" where
  "sys_signal sig handler s =
     (if sig < 1 \<or> sig > int SIG_NR - 1 then (- 1, s)
      else let cur = cur_task s; i = nat sig - 1; sa = sigactions (task s cur) ! i
        in (sa_handler sa, upd_task cur (\<lambda>t. t\<lparr>sigactions := (sigactions t)[i :=
             sa\<lparr>sa_handler := handler, sa_mask := 0, sa_flags := 0\<rparr>]\<rparr>) s))"

text \<open>
  The result, what is written through \<^verbatim>\<open>oact\<close>, and the state. \<open>oact\<close> says whether that pointer is not
  null, \<open>act = None\<close> is a null pointer; the two do not overlap.
\<close>

definition sys_sigaction :: "int \<Rightarrow> sigaction option \<Rightarrow> bool \<Rightarrow> ksys \<Rightarrow> int \<times> sigaction option \<times> ksys" where
  "sys_sigaction sig act oact s =
     (if sig < 1 \<or> sig > 32 then (- EINVAL, None, s)
      else let cur = cur_task s; i = nat sig - 1
        in (0, if oact then Some (sigactions (task s cur) ! i) else None, case act of None \<Rightarrow> s
             | Some a \<Rightarrow> upd_task cur (\<lambda>t. t\<lparr>sigactions := (sigactions t)[i := a]\<rparr>) s))"

definition sys_rt_sigaction :: "int \<Rightarrow> sigaction option \<Rightarrow> bool \<Rightarrow> u32 \<Rightarrow> ksys \<Rightarrow> int \<times> sigaction option \<times> ksys" where
  "sys_rt_sigaction sig act oact sigsetsize s =
     (if sigsetsize \<noteq> 8 \<and> sigsetsize \<noteq> 4 then (- EINVAL, None, s) else sys_sigaction sig act oact s)"

definition send_signal :: "nat option \<Rightarrow> int \<Rightarrow> ksys \<Rightarrow> ksys halting" where
  "send_signal target sig s = (case target of None \<Rightarrow> Some s
     | Some t \<Rightarrow>
         if sig > int SIG_NR - 1 \<or> sig < 1 then Some s
         else do {
           let old = intr_on s;
           let s = intr_disable s;
           let s = upd_task t (\<lambda>x. x\<lparr>signal := signal x OR sigmask (nat sig)\<rparr>) s;
           s \<leftarrow> (if blocked (task s t) AND sigmask (nat sig) = 0 then
               if status (task s t) = TASK_WAITING then thread_unblock t s else Some s
             else Some s);
           Some (intr_set_status old s)
         })"

definition sys_kill :: "int \<Rightarrow> int \<Rightarrow> ksys \<Rightarrow> (int \<times> ksys) halting" where
  "sys_kill p sig s = (case pid2thread p s of None \<Rightarrow> Some (- 1, s)
     | Some t \<Rightarrow> do { s \<leftarrow> send_signal (Some t) sig s; Some (0, s) })"

text \<open>\<open>x\<close> is the new set or a null pointer, \<open>want\<close> whether \<^verbatim>\<open>oldset\<close> is not null.\<close>

definition sys_sigprocmask :: "int \<Rightarrow> u32 option \<Rightarrow> bool \<Rightarrow> ksys \<Rightarrow> int \<times> u32 option \<times> ksys" where
  "sys_sigprocmask how x want s = (let
     cur = cur_task s;
     oldset = (if want then Some (blocked (task s cur)) else None);
     put = (\<lambda>f. upd_task cur (\<lambda>t. t\<lparr>blocked := f (blocked t) AND NOT unmaskable\<rparr>) s)
   in case x of None \<Rightarrow> (0, oldset, s)
     | Some new_set \<Rightarrow>
         if how = SIG_BLOCK then (0, oldset, put (\<lambda>b. b OR new_set))
         else if how = SIG_UNBLOCK then (0, oldset, put (\<lambda>b. b AND NOT new_set))
         else if how = SIG_SETMASK then (0, oldset, put (\<lambda>b. new_set))
         else (- EINVAL, oldset, s))"

definition sys_sigpending :: "bool \<Rightarrow> ksys \<Rightarrow> int \<times> u32 option" where
  "sys_sigpending ptr s = (let cur = cur_task s in
     if ptr then (0, Some (signal (task s cur) AND blocked (task s cur))) else (- EFAULT, None))"

section \<open>The user stack frame\<close>

lemma word_offset_inj:
  assumes "j < 2 ^ 30" "k < 2 ^ 30" "a + 4 * of_nat j = a + 4 * (of_nat k :: u32)"
  shows "j = k"
proof -
  have "unat (4 * of_nat n :: u32) = 4 * n" if "n < 2 ^ 30" for n
  proof -
    have "4 * n < 2 ^ 32"
      using that by simp
    from unat_of_nat_small [OF this] show ?thesis
      by (simp only: of_nat_mult of_nat_numeral)
  qed
  then show ?thesis
    using assms by (metis add_left_cancel mult_left_cancel zero_neq_numeral)
qed

lemma store_words_outside:
  "(\<And>k. k < length ws \<Longrightarrow> x \<noteq> a + 4 * of_nat k) \<Longrightarrow> store_words a ws m x = m x"
proof (induction ws arbitrary: a m)
  case (Cons w ws)
  have "x \<noteq> a"
    using Cons.prems [of 0] by simp
  moreover have "x \<noteq> a + 4 + 4 * of_nat k" if "k < length ws" for k
    using Cons.prems [of "Suc k"] that by (simp add: algebra_simps)
  ultimately show ?case
    by (simp add: Cons.IH)
qed simp

lemma store_words_at:
  assumes "k < length ws" "length ws < 2 ^ 30"
  shows "store_words a ws m (a + 4 * of_nat k) = ws ! k"
  using assms
proof (induction ws arbitrary: a m k)
  case (Cons w ws)
  show ?case
  proof (cases k)
    case 0
    have "a \<noteq> a + 4 + 4 * of_nat j" if "j < length ws" for j
      using word_offset_inj [of 0 "Suc j" a] that Cons.prems(2) by (auto simp: algebra_simps)
    then show ?thesis
      using 0 by (simp add: store_words_outside)
  next
    case (Suc j)
    then show ?thesis
      using Cons.IH [of j "a + 4"] Cons.prems by (simp add: algebra_simps)
  qed
qed simp

lemma load_words_map: "load_words a n m = map (\<lambda>k. m (a + 4 * of_nat k)) [0..<n]"
proof (induction n arbitrary: a)
  case (Suc n)
  have "[0..<Suc n] = 0 # map Suc [0..<n]"
    by (simp add: upt_conv_Cons map_Suc_upt del: upt_Suc)
  then show ?case
    using Suc.IH [of "a + 4"] by (simp add: algebra_simps o_def del: upt_Suc)
qed simp

lemma words_frame_words [simp]: "words_frame (frame_words f) = f"
  by (simp add: words_frame_def frame_words_def)

lemma length_frame_words [simp]: "length (frame_words f) = 19"
  by (simp add: frame_words_def)

lemma setup_frame_esp:
  "setup_frame sig sa stack b m = (st, m') \<Longrightarrow> i_esp st = i_esp stack - 88 \<and> i_eip st = sa_handler sa"
  by (auto simp: setup_frame_def Let_def DIV_ROUND_UP_def)

text \<open>The words of the frame as the handler and \<^verbatim>\<open>sys_sigreturn\<close> find them.\<close>

lemma setup_frame_words:
  assumes "setup_frame sig sa stack b m = (st, m')"
  shows "m' (i_esp st) = sa_restorer sa" "m' (i_esp st + 4) = of_nat sig" "m' (i_esp st + 8) = b"
    and "load_words (i_esp st + 12) 19 m' = frame_words stack"
proof -
  define e where "e = i_esp st"
  have m': "m' = (store_words (e + 12) (frame_words stack) m)(e := sa_restorer sa, e + 4 := of_nat sig, e + 8 := b)"
    using assms by (auto simp: setup_frame_def Let_def DIV_ROUND_UP_def e_def)
  show "m' (i_esp st) = sa_restorer sa" "m' (i_esp st + 4) = of_nat sig" "m' (i_esp st + 8) = b"
    by (simp_all add: m' flip: e_def)
  have "m' (e + 12 + 4 * of_nat k) = frame_words stack ! k" if k: "k < 19" for k
  proof -
    have "e + 12 + 4 * of_nat k \<noteq> e + 4 * of_nat j" if "j < 3" for j
      using word_offset_inj [of "3 + k" j e] k that by (auto simp: algebra_simps)
    from this [of 0] this [of 1] this [of 2]
    have "e + 12 + 4 * of_nat k \<noteq> e" "e + 12 + 4 * of_nat k \<noteq> e + 4" "e + 12 + 4 * of_nat k \<noteq> e + 8"
      by simp_all
    moreover have "store_words (e + 12) (frame_words stack) m (e + 12 + 4 * of_nat k) = frame_words stack ! k"
      by (rule store_words_at) (use k in simp_all)
    ultimately show ?thesis
      by (simp only: m' fun_upd_apply if_False)
  qed
  then show "load_words (i_esp st + 12) 19 m' = frame_words stack"
    by (intro nth_equalityI) (simp_all add: load_words_map flip: e_def)
qed

section \<open>The signal that is delivered\<close>

lemma sigmask_member: "0 < i \<Longrightarrow> i \<le> 32 \<Longrightarrow> x AND sigmask i \<noteq> 0 \<longleftrightarrow> bit x (i - 1)"
proof -
  assume i: "0 < i" "i \<le> 32"
  have "bit (x AND sigmask i) k \<longleftrightarrow> bit x k \<and> k = i - 1" for k
    using bit_sigmask [OF i, of k] by (simp add: bit_and_iff)
  moreover have "y = 0 \<longleftrightarrow> (\<forall>k. \<not> bit y k)" for y :: u32
    by (metis bit_0_eq bit_eqI bot_apply bot_bool_def)
  ultimately show ?thesis
    by auto
qed

lemma find_signal_spec:
  assumes "0 < i"
  shows "if \<exists>j. i \<le> j \<and> j \<le> 31 \<and> bit p (j - 1)
    then i \<le> find_signal p i \<and> find_signal p i \<le> 31 \<and> bit p (find_signal p i - 1) \<and>
      (\<forall>j. i \<le> j \<and> j < find_signal p i \<longrightarrow> \<not> bit p (j - 1))
    else find_signal p i = 0"
  using assms
proof (induction p i rule: find_signal.induct)
  case (1 p i)
  consider "31 < i" | "i \<le> 31" "bit p (i - 1)" | "i \<le> 31" "\<not> bit p (i - 1)"
    by linarith
  then show ?case
  proof cases
    case 3
    have e: "find_signal p i = find_signal p (i + 1)"
      using 3 1 by (simp add: find_signal.simps [of p i] sigmask_member del: One_nat_def)
    have none: "p AND sigmask i = 0"
      using 3 1 sigmask_member [of i p] by simp
    have IH: "if \<exists>j. i + 1 \<le> j \<and> j \<le> 31 \<and> bit p (j - 1)
      then i + 1 \<le> find_signal p (i + 1) \<and> find_signal p (i + 1) \<le> 31 \<and> bit p (find_signal p (i + 1) - 1) \<and>
        (\<forall>j. i + 1 \<le> j \<and> j < find_signal p (i + 1) \<longrightarrow> \<not> bit p (j - 1))
      else find_signal p (i + 1) = 0"
      using 1(1) [OF 3(1)] none by simp
    have step: "i \<le> j \<longleftrightarrow> j = i \<or> i + 1 \<le> j" for j
      by auto
    show ?thesis
    proof (cases "\<exists>j. i + 1 \<le> j \<and> j \<le> 31 \<and> bit p (j - 1)")
      case True
      then show ?thesis
        using IH 3 unfolding e step by (smt (verit))
    next
      case False
      then show ?thesis
        using IH 3 unfolding e step by (smt (verit))
    qed
  qed (use 1 in \<open>auto simp: find_signal.simps [of p i] sigmask_member\<close>)
qed

lemma bit_unmaskable: "bit unmaskable k \<longleftrightarrow> k = SIGKILL - 1 \<or> k = SIGSTOP - 1"
  by (simp add: unmaskable_def bit_or_iff bit_sigmask SIGKILL_def SIGSTOP_def)

lemma masked_unmaskable [simp]: "(x AND NOT unmaskable) AND unmaskable = 0"
  by (simp add: and.assoc)

text \<open>Signal \<open>i\<close> is pending for the task and not masked; \<^verbatim>\<open>SIGKILL\<close> and \<^verbatim>\<open>SIGSTOP\<close> cannot be masked.\<close>

definition deliverable :: "task_struct \<Rightarrow> nat \<Rightarrow> bool" where
  "deliverable t i \<longleftrightarrow> 1 \<le> i \<and> i \<le> 31 \<and> bit (signal t) (i - 1) \<and>
     (\<not> bit (blocked t) (i - 1) \<or> i = SIGKILL \<or> i = SIGSTOP)"

definition pending_set :: "task_struct \<Rightarrow> u32" where
  "pending_set t = signal t AND NOT (blocked t AND NOT unmaskable)"

lemma bit_pending_set:
  assumes "1 \<le> i" "i \<le> 31"
  shows "bit (pending_set t) (i - 1) \<longleftrightarrow> deliverable t i"
proof -
  have "i - 1 < 32" "i - 1 = SIGKILL - 1 \<longleftrightarrow> i = SIGKILL" "i - 1 = SIGSTOP - 1 \<longleftrightarrow> i = SIGSTOP"
    using assms by (auto simp: SIGKILL_def SIGSTOP_def)
  then show ?thesis
    using assms by (auto simp: pending_set_def deliverable_def bit_and_iff bit_or_iff bit_not_iff bit_unmaskable)
qed

lemma find_pending:
  shows "find_signal (pending_set t) 1 = 0 \<longleftrightarrow> (\<forall>i. \<not> deliverable t i)"
    and "find_signal (pending_set t) 1 \<noteq> 0 \<Longrightarrow> deliverable t (find_signal (pending_set t) 1)"
    and "deliverable t j \<Longrightarrow> find_signal (pending_set t) 1 \<le> j"
proof -
  let ?n = "find_signal (pending_set t) 1"
  have d: "deliverable t j \<longleftrightarrow> 1 \<le> j \<and> j \<le> 31 \<and> bit (pending_set t) (j - 1)" for j
    using bit_pending_set [of j t] by (auto simp: deliverable_def)
  have f: "if \<exists>j. deliverable t j then 1 \<le> ?n \<and> ?n \<le> 31 \<and> bit (pending_set t) (?n - 1) \<and>
      (\<forall>j. 1 \<le> j \<and> j < ?n \<longrightarrow> \<not> bit (pending_set t) (j - 1)) else ?n = 0"
    using find_signal_spec [of 1 "pending_set t"] unfolding d by simp
  show "?n = 0 \<longleftrightarrow> (\<forall>i. \<not> deliverable t i)"
    using f by (metis not_one_le_zero)
  show "?n \<noteq> 0 \<Longrightarrow> deliverable t ?n"
    using f d [of ?n] by metis
  show "deliverable t j \<Longrightarrow> ?n \<le> j"
    using f d [of j] by (metis not_le)
qed

lemma find_none [simp]: "find_signal 0 i = 0"
proof (induction "0 :: u32" i rule: find_signal.induct)
  case (1 i)
  then show ?case
    by (simp add: find_signal.simps [of 0 i])
qed

text \<open>The task after its mask was cleaned and signal \<open>i\<close> was taken.\<close>

definition taken :: "nat \<Rightarrow> task_struct \<Rightarrow> task_struct" where
  "taken i t = t\<lparr>blocked := blocked t AND NOT unmaskable, signal := signal t AND NOT (sigmask i)\<rparr>"

definition masked_for :: "nat \<Rightarrow> task_struct \<Rightarrow> task_struct" where
  "masked_for i t = (taken i t)\<lparr>blocked := ((blocked t AND NOT unmaskable) OR (sigmask i OR sa_mask (sigactions t ! (i - 1)))) AND NOT unmaskable\<rparr>"

lemma do_signal_cases:
  assumes "t = task s (cur_task s)" "i = find_signal (pending_set t) 1" "sa = sigactions t ! (i - 1)"
  shows "i = 0 \<Longrightarrow> do_signal stack m s = (Resume, stack, m, upd_task (cur_task s) (\<lambda>t. t\<lparr>blocked := blocked t AND NOT unmaskable\<rparr>) s)"
    and "i \<noteq> 0 \<Longrightarrow> sa_handler sa = SIG_IGN \<or> sa_handler sa = SIG_DFL \<and> \<not> fatal_by_default i \<Longrightarrow>
      do_signal stack m s = (Resume, stack, m, upd_task (cur_task s) (taken i) s)"
    and "i \<noteq> 0 \<Longrightarrow> sa_handler sa \<noteq> SIG_IGN \<Longrightarrow> sa_handler sa = SIG_DFL \<and> fatal_by_default i \<or> sa_handler sa \<noteq> SIG_DFL \<and> sa_restorer sa = 0 \<Longrightarrow>
      do_signal stack m s = (Exits (- int i), stack, m, intr_disable (upd_task (cur_task s) (taken i) s))"
    and "i \<noteq> 0 \<Longrightarrow> sa_handler sa \<noteq> SIG_IGN \<Longrightarrow> sa_handler sa \<noteq> SIG_DFL \<Longrightarrow> sa_restorer sa \<noteq> 0 \<Longrightarrow>
      do_signal stack m s = (case setup_frame i sa stack (blocked t AND NOT unmaskable) m of (stack', m') \<Rightarrow>
        (Resume, stack', m', upd_task (cur_task s) (masked_for i) s))"
proof -
  have p: "signal (task s (cur_task s)) AND (NOT (blocked (task s (cur_task s))) OR unmaskable) = pending_set t"
    using assms(1) by (simp add: pending_set_def)
  have i: "find_signal (pending_set t) (Suc 0) = i"
    using assms(2) by simp
  have sa: "sigactions (task s (cur_task s)) ! (i - Suc 0) = sa" "blocked t = blocked (task s (cur_task s))"
    using assms(1,3) by simp_all
  have nz: "pending_set t \<noteq> 0" if "i \<noteq> 0"
    using that assms(2) by auto
  have d: "SIG_DFL \<noteq> SIG_IGN"
    by (simp add: SIG_DFL_def SIG_IGN_def)
  note defs = do_signal_def Let_def upd_task_def intr_disable_def intr_set_status_def taken_def masked_for_def p i sa(1)
  show "do_signal stack m s = (Resume, stack, m, upd_task (cur_task s) (\<lambda>t. t\<lparr>blocked := blocked t AND NOT unmaskable\<rparr>) s)"
    if "i = 0"
    using that by (simp add: defs)
  show "do_signal stack m s = (Resume, stack, m, upd_task (cur_task s) (taken i) s)"
    if "i \<noteq> 0" "sa_handler sa = SIG_IGN \<or> sa_handler sa = SIG_DFL \<and> \<not> fatal_by_default i"
    using that(2) d by (elim disjE conjE; simp add: defs that(1) nz [OF that(1)])
  show "do_signal stack m s = (Exits (- int i), stack, m, intr_disable (upd_task (cur_task s) (taken i) s))"
    if "i \<noteq> 0" "sa_handler sa \<noteq> SIG_IGN" "sa_handler sa = SIG_DFL \<and> fatal_by_default i \<or> sa_handler sa \<noteq> SIG_DFL \<and> sa_restorer sa = 0"
    using that(2,3) d by (elim disjE conjE; simp add: defs that(1) nz [OF that(1)])
  show "do_signal stack m s = (case setup_frame i sa stack (blocked t AND NOT unmaskable) m of (stack', m') \<Rightarrow>
        (Resume, stack', m', upd_task (cur_task s) (masked_for i) s))"
    if "i \<noteq> 0" "sa_handler sa \<noteq> SIG_IGN" "sa_handler sa \<noteq> SIG_DFL" "sa_restorer sa \<noteq> 0"
    using that(2-4) by (simp add: defs that(1) nz [OF that(1)] sa(2) split: prod.split)
qed

lemma taken_kinv: "kinv s \<Longrightarrow> kinv (upd_task t (taken i) s)" "kinv s \<Longrightarrow> kinv (upd_task t (masked_for i) s)"
  by (rule kinv_upd; simp add: taken_def masked_for_def)+

text \<open>What \<^verbatim>\<open>do_signal\<close> does in every case, whatever the actions of the task are.\<close>

lemma do_signal_effect:
  assumes "do_signal stack m s = (r, stack', m', s')" "t = task s (cur_task s)" "t' = task s' (cur_task s)" "kinv s"
  shows "kinv s' \<and> (\<forall>u. u \<noteq> cur_task s \<longrightarrow> task s' u = task s u) \<and> blocked t' AND unmaskable = 0 \<and>
    (r = Resume \<longrightarrow> intr_on s' = intr_on s) \<and>
    (if \<forall>i. \<not> deliverable t i then r = Resume \<and> stack' = stack \<and> m' = m \<and> signal t' = signal t
     else \<exists>i sa. deliverable t i \<and> (\<forall>j. deliverable t j \<longrightarrow> i \<le> j) \<and> sa = sigactions t ! (i - 1) \<and>
       signal t' = signal t AND NOT (sigmask i) \<and>
       (if sa_handler sa = SIG_IGN \<or> sa_handler sa = SIG_DFL \<and> \<not> fatal_by_default i
        then r = Resume \<and> stack' = stack \<and> m' = m
        else if sa_handler sa = SIG_DFL \<or> sa_restorer sa = 0 then r = Exits (- int i)
        else r = Resume \<and> i_eip stack' = sa_handler sa \<and> m' (i_esp stack') = sa_restorer sa \<and>
          m' (i_esp stack' + 4) = of_nat i \<and>
          blocked t' = (blocked t OR sigmask i OR sa_mask sa) AND NOT unmaskable))"
proof -
  define i where "i = find_signal (pending_set t) 1"
  define sa where "sa = sigactions t ! (i - 1)"
  note c = do_signal_cases [OF assms(2) i_def sa_def, of stack m]
  note least = find_pending [of t, folded i_def]
  have mask: "((b AND NOT unmaskable) OR (x OR y)) AND NOT unmaskable = (b OR x OR y) AND NOT unmaskable" for b x y :: u32
    by (rule bit_eqI) (auto simp: bit_simps)
  consider "i = 0"
    | "i \<noteq> 0" "sa_handler sa = SIG_IGN \<or> sa_handler sa = SIG_DFL \<and> \<not> fatal_by_default i"
    | "i \<noteq> 0" "sa_handler sa \<noteq> SIG_IGN" "sa_handler sa = SIG_DFL \<and> fatal_by_default i \<or> sa_handler sa \<noteq> SIG_DFL \<and> sa_restorer sa = 0"
    | "i \<noteq> 0" "sa_handler sa \<noteq> SIG_IGN" "sa_handler sa \<noteq> SIG_DFL" "sa_restorer sa \<noteq> 0"
    by blast
  then show ?thesis
  proof cases
    case 1
    have "kinv s'"
      using c(1) [OF 1] assms(1) kinv_upd [OF assms(4), of "\<lambda>t. t\<lparr>blocked := blocked t AND NOT unmaskable\<rparr>"] by auto
    then show ?thesis
      using c(1) [OF 1] assms(1-3) least(1) 1 by auto
  next
    case 2
    have "s' = upd_task (cur_task s) (taken i) s" "r = Resume" "stack' = stack" "m' = m"
      using c(2) [OF 2] assms(1) by auto
    then show ?thesis
      using assms(2-4) least 2 taken_kinv(1) [OF assms(4)]
      by (auto simp: taken_def sa_def intro!: exI [of _ i])
  next
    case 3
    have "s' = intr_disable (upd_task (cur_task s) (taken i) s)" "r = Exits (- int i)"
      using c(3) [OF 3] assms(1) by auto
    then show ?thesis
      using assms(2-4) least 3 taken_kinv(1) [OF assms(4)]
      by (auto simp: taken_def sa_def intr_disable_def intro!: exI [of _ i])
  next
    case 4
    have f: "setup_frame i sa stack (blocked t AND NOT unmaskable) m = (stack', m')"
      and s': "s' = upd_task (cur_task s) (masked_for i) s" "r = Resume"
      using c(4) [OF 4] assms(1) by (auto split: prod.splits)
    have "blocked t' = (blocked t OR sigmask i OR sa_mask sa) AND NOT unmaskable" "signal t' = signal t AND NOT (sigmask i)"
      using s' assms(2,3) mask by (simp_all add: masked_for_def taken_def sa_def or.assoc)
    then show ?thesis
      using assms(2-4) least 4 s' taken_kinv(2) [OF assms(4)] setup_frame_words(1,2) [OF f] setup_frame_esp [OF f]
      by (auto simp: sa_def intro!: exI [of _ i])
  qed
qed

text \<open>A task that has set the action of \<^verbatim>\<open>SIGKILL\<close> to ignore survives the signal.\<close>

lemma sigkill_ignored:
  assumes "t = task s (cur_task s)" "length (sigactions t) = SIG_NR" "\<forall>j. deliverable t j \<longleftrightarrow> j = SIGKILL"
    and "sys_signal (int SIGKILL) SIG_IGN s = (h, s1)"
  shows "\<exists>s2. do_signal stack m s1 = (Resume, stack, m, s2)"
proof -
  define t1 where "t1 = task s1 (cur_task s1)"
  define i where "i = find_signal (pending_set t1) 1"
  define sa where "sa = sigactions t1 ! (i - 1)"
  have t1: "signal t1 = signal t" "blocked t1 = blocked t" "sa_handler (sigactions t1 ! (SIGKILL - 1)) = SIG_IGN"
    using assms(1,2,4) by (auto simp: t1_def sys_signal_def Let_def SIGKILL_def SIG_NR_def)
  have "deliverable t1 = deliverable t"
    using t1(1,2) by (simp add: deliverable_def fun_eq_iff)
  then have d: "deliverable t1 j \<longleftrightarrow> j = SIGKILL" for j
    using assms(3) by simp
  have "i = SIGKILL"
    using find_pending(1,2) [of t1] unfolding d i_def by blast
  then have "i \<noteq> 0" "sa_handler sa = SIG_IGN"
    using t1(3) by (simp_all add: sa_def SIGKILL_def)
  then show ?thesis
    using do_signal_cases(2) [OF t1_def i_def sa_def, of stack m] by blast
qed

text \<open>
  C22. On the way back to user mode \<^verbatim>\<open>do_signal\<close> takes the lowest-numbered signal among 1 to 31 that is
  pending and not masked, where \<^verbatim>\<open>SIGKILL\<close> and \<^verbatim>\<open>SIGSTOP\<close> count as never masked, and clears exactly that
  pending bit; with no such signal the program resumes untouched. The action decides the rest, for every signal
  but a \<^verbatim>\<open>SIGKILL\<close> whose action was changed: an ignored signal changes nothing more, a fatal default or a handler
  without a restorer ends the process with the negated number, and any other handler is entered with the
  restorer as its return address and the number as its argument. \<^verbatim>\<open>SIGKILL\<close> with its default action ends the
  process. No other task changes and the scheduler invariant is kept. The last clause is a defect: \<^verbatim>\<open>sys_signal\<close>
  lets a process ignore \<^verbatim>\<open>SIGKILL\<close>, and \<^verbatim>\<open>do_signal\<close> then lets it resume untouched.
\<close>
theorem do_signal_delivers:
  assumes "do_signal stack m s = (r, stack', m', s')" "t = task s (cur_task s)" "t' = task s' (cur_task s)" "kinv s"
  shows "kinv s' \<and> (\<forall>u. u \<noteq> cur_task s \<longrightarrow> task s' u = task s u) \<and> blocked t' AND unmaskable = 0 \<and>
    (r = Resume \<longrightarrow> intr_on s' = intr_on s) \<and>
    (if \<forall>i. \<not> deliverable t i then r = Resume \<and> stack' = stack \<and> m' = m \<and> signal t' = signal t
     else \<exists>i sa. deliverable t i \<and> (\<forall>j. deliverable t j \<longrightarrow> i \<le> j) \<and> sa = sigactions t ! (i - 1) \<and>
       signal t' = signal t AND NOT (sigmask i) \<and>
       (i \<noteq> SIGKILL \<longrightarrow>
         (if sa_handler sa = SIG_IGN \<or> sa_handler sa = SIG_DFL \<and> \<not> fatal_by_default i
          then r = Resume \<and> stack' = stack \<and> m' = m
          else if sa_handler sa = SIG_DFL \<or> sa_restorer sa = 0 then r = Exits (- int i)
          else r = Resume \<and> i_eip stack' = sa_handler sa \<and> m' (i_esp stack') = sa_restorer sa \<and>
            m' (i_esp stack' + 4) = of_nat i \<and>
            blocked t' = (blocked t OR sigmask i OR sa_mask sa) AND NOT unmaskable)) \<and>
       (i = SIGKILL \<and> sa_handler sa = SIG_DFL \<longrightarrow> r = Exits (- int SIGKILL))) \<and>
    (length (sigactions t) = SIG_NR \<and> (\<forall>j. deliverable t j \<longleftrightarrow> j = SIGKILL) \<longrightarrow>
      (\<exists>h s1 s2. sys_signal (int SIGKILL) SIG_IGN s = (h, s1) \<and> do_signal stack m s1 = (Resume, stack, m, s2)))"
proof -
  have k: "fatal_by_default SIGKILL" "SIG_DFL \<noteq> SIG_IGN"
    by (simp_all add: fatal_by_default_def SIG_DFL_def SIG_IGN_def)
  have ign: "\<exists>h s1 s2. sys_signal (int SIGKILL) SIG_IGN s = (h, s1) \<and> do_signal stack m s1 = (Resume, stack, m, s2)"
    if "length (sigactions t) = SIG_NR" "\<forall>j. deliverable t j \<longleftrightarrow> j = SIGKILL"
  proof -
    obtain h s1 where "sys_signal (int SIGKILL) SIG_IGN s = (h, s1)"
      by fastforce
    then show ?thesis
      using sigkill_ignored [OF assms(2) that] by blast
  qed
  show ?thesis
  proof (cases "\<forall>i. \<not> deliverable t i")
    case True
    then show ?thesis
      using do_signal_effect [OF assms] ign by simp
  next
    case False
    note e = do_signal_effect [OF assms, unfolded if_not_P [OF False]]
    obtain i where i: "deliverable t i" "\<forall>j. deliverable t j \<longrightarrow> i \<le> j" "signal t' = signal t AND NOT (sigmask i)"
      and act: "let sa = sigactions t ! (i - 1) in
         if sa_handler sa = SIG_IGN \<or> sa_handler sa = SIG_DFL \<and> \<not> fatal_by_default i then r = Resume \<and> stack' = stack \<and> m' = m
         else if sa_handler sa = SIG_DFL \<or> sa_restorer sa = 0 then r = Exits (- int i)
         else r = Resume \<and> i_eip stack' = sa_handler sa \<and> m' (i_esp stack') = sa_restorer sa \<and>
           m' (i_esp stack' + 4) = of_nat i \<and> blocked t' = (blocked t OR sigmask i OR sa_mask sa) AND NOT unmaskable"
      using e unfolding Let_def by blast
    have "i = SIGKILL \<and> sa_handler (sigactions t ! (i - 1)) = SIG_DFL \<longrightarrow> r = Exits (- int SIGKILL)"
      using act k by (auto simp: Let_def)
    then show ?thesis
      using e ign i act False unfolding Let_def if_not_P [OF False] by (intro conjI exI [of _ i] exI [of _ "sigactions t ! (i - 1)"])
        (simp_all del: One_nat_def)
  qed
qed

text \<open>
  C24. Running a handler is invisible to the interrupted program: when \<^verbatim>\<open>do_signal\<close> has entered a handler,
  the handler has returned through the restorer with the saved words of its frame intact, and
  \<^verbatim>\<open>sys_sigreturn\<close> runs, then every register of the interrupted program is restored and the signal mask
  is the one it had before, whatever the handler did to the mask.
\<close>
theorem signal_round_trip:
  assumes "do_signal stack m s = (Resume, st1, m1, s1)" "st1 \<noteq> stack"
    and "i_esp st2 = i_esp st1 + 4" "\<forall>k<20. m2 (i_esp st1 + 8 + 4 * of_nat k) = m1 (i_esp st1 + 8 + 4 * of_nat k)"
    and "cur_task s2 = cur_task s" "0x1000 \<le> i_esp st1 + 12"
  shows "sys_sigreturn st2 m2 s2 = Some (stack,
    upd_task (cur_task s) (\<lambda>t. t\<lparr>blocked := blocked (task s (cur_task s)) AND NOT unmaskable\<rparr>) s2)"
proof -
  define t where "t = task s (cur_task s)"
  define i where "i = find_signal (pending_set t) 1"
  define sa where "sa = sigactions t ! (i - 1)"
  note c = do_signal_cases [OF t_def i_def sa_def, of stack m]
  have h: "i \<noteq> 0" "sa_handler sa \<noteq> SIG_IGN" "sa_handler sa \<noteq> SIG_DFL" "sa_restorer sa \<noteq> 0"
    using assms(1,2) c(1-3) by (auto dest: sym)
  have f: "setup_frame i sa stack (blocked t AND NOT unmaskable) m = (st1, m1)"
    using c(4) [OF h] assms(1) by (auto split: prod.splits)
  have "m2 (i_esp st1 + 12 + 4 * of_nat k) = m1 (i_esp st1 + 12 + 4 * of_nat k)" if "k < 19" for k
    using assms(4) [rule_format, of "Suc k"] that by (simp add: algebra_simps)
  then have "load_words (i_esp st1 + 12) 19 m2 = load_words (i_esp st1 + 12) 19 m1"
    unfolding load_words_map by (intro map_cong) simp_all
  then have "load_words (i_esp st1 + 12) 19 m2 = frame_words stack"
    using setup_frame_words(4) [OF f] by simp
  moreover have "m2 (i_esp st1 + 8) = blocked t AND NOT unmaskable"
    using assms(4) [rule_format, of 0] setup_frame_words(3) [OF f] by simp
  ultimately show ?thesis
    using assms(3,5,6) by (simp add: sys_sigreturn_def t_def add.assoc halting_simps not_less)
qed

section \<open>Sending signals\<close>

lemma kill_pgrp_loop_spec:
  "distinct ts \<Longrightarrow> kill_pgrp_loop ts g sig s = s\<lparr>task := (\<lambda>u. if u \<in> set ts \<and> mm (task s u) \<noteq> None \<and> pgrp (task s u) = g
     then (task s u)\<lparr>signal := signal (task s u) OR sigmask sig\<rparr> else task s u)\<rparr>"
proof (induction ts arbitrary: s)
  case (Cons t ts)
  define hit where "hit u \<longleftrightarrow> mm (task s u) \<noteq> None \<and> pgrp (task s u) = g" for u
  define s1 where "s1 = (if hit t then upd_task t (\<lambda>x. x\<lparr>signal := sig_addset (signal x) sig\<rparr>) s else s)"
  have frame: "s1\<lparr>task := f\<rparr> = s\<lparr>task := f\<rparr>" for f
    by (simp add: s1_def upd_task_def)
  have other: "task s1 u = task s u" if "u \<noteq> t" for u
    using that by (simp add: s1_def)
  have this_one: "task s1 t = (if hit t then (task s t)\<lparr>signal := signal (task s t) OR sigmask sig\<rparr> else task s t)"
    by (simp add: s1_def sig_addset_def)
  have "kill_pgrp_loop (t # ts) g sig s = kill_pgrp_loop ts g sig s1"
    by (simp add: s1_def hit_def)
  also have "\<dots> = s\<lparr>task := (\<lambda>u. if u \<in> set ts \<and> mm (task s1 u) \<noteq> None \<and> pgrp (task s1 u) = g
      then (task s1 u)\<lparr>signal := signal (task s1 u) OR sigmask sig\<rparr> else task s1 u)\<rparr>"
    using Cons by (simp add: frame)
  also have "(\<lambda>u. if u \<in> set ts \<and> mm (task s1 u) \<noteq> None \<and> pgrp (task s1 u) = g
      then (task s1 u)\<lparr>signal := signal (task s1 u) OR sigmask sig\<rparr> else task s1 u) =
    (\<lambda>u. if u \<in> set (t # ts) \<and> hit u then (task s u)\<lparr>signal := signal (task s u) OR sigmask sig\<rparr> else task s u)"
    (is "?f = ?g")
  proof
    show "?f u = ?g u" for u
    proof (cases "u = t")
      case True
      then show ?thesis
        using Cons.prems this_one by simp
    next
      case False
      then show ?thesis
        using other [OF False] by (auto simp: hit_def)
    qed
  qed
  finally show ?case
    by (simp add: hit_def)
qed simp

lemma send_signal_spec:
  assumes "kinv s" "t \<in> set (thread_all_list s)" "1 \<le> sig" "sig \<le> 31"
  shows "\<exists>s'. send_signal (Some t) sig s = Some s' \<and> kinv s' \<and> intr_on s' = intr_on s \<and>
    (\<forall>u. u \<noteq> t \<longrightarrow> task s' u = task s u) \<and> signal (task s' t) = signal (task s t) OR sigmask (nat sig) \<and>
    (if status (task s t) = TASK_WAITING \<and> \<not> bit (blocked (task s t)) (nat sig - 1)
     then status (task s' t) = TASK_READY \<and> thread_ready_list s' = t # thread_ready_list s
     else status (task s' t) = status (task s t) \<and> thread_ready_list s' = thread_ready_list s)"
proof -
  define s1 where "s1 = upd_task t (\<lambda>x. x\<lparr>signal := signal x OR sigmask (nat sig)\<rparr>) (intr_disable s)"
  have k: "kinv s1"
    unfolding s1_def using assms(1) by (intro kinv_upd) (simp_all add: intr_disable_def)
  have n: "0 < nat sig" "nat sig \<le> 32"
    using assms(3,4) by linarith+
  have b: "blocked (task s t) AND sigmask (nat sig) = 0 \<longleftrightarrow> \<not> bit (blocked (task s t)) (nat sig - 1)"
    using sigmask_member [OF n, of "blocked (task s t)"] by blast
  have f: "blocked (task s1 t) = blocked (task s t)" "status (task s1 t) = status (task s t)"
      "thread_all_list s1 = thread_all_list s" "thread_ready_list s1 = thread_ready_list s"
    by (simp_all add: s1_def intr_disable_def)
  have e: "send_signal (Some t) sig s = (if status (task s t) = TASK_WAITING \<and> \<not> bit (blocked (task s t)) (nat sig - 1)
      then thread_unblock t s1 else Some s1) \<bind> (\<lambda>x. Some (intr_set_status (intr_on s) x))"
    using assms(3,4) b by (simp add: send_signal_def SIG_NR_def Let_def s1_def)
  show ?thesis
  proof (cases "status (task s t) = TASK_WAITING \<and> \<not> bit (blocked (task s t)) (nat sig - 1)")
    case True
    have "sched_inv s1" "t \<in> set (thread_all_list s1)" "is_sleep (status (task s1 t))"
      using k assms(2) f True by (auto simp: kinv_def is_sleep_def)
    note u = thread_unblock_spec [OF this]
    define s2 where "s2 = upd_task t (\<lambda>x. x\<lparr>status := TASK_READY\<rparr>) (s1\<lparr>thread_ready_list := t # thread_ready_list s1\<rparr>)"
    have "kinv s2"
      using u k by (simp add: kinv_def pid_inv_upd flip: s2_def) (simp add: s2_def pid_inv_upd)
    moreover have "send_signal (Some t) sig s = Some (intr_set_status (intr_on s) s2)"
      using e True u(1) by (simp add: s2_def)
    ultimately show ?thesis
      using True by (simp add: intr_set_status_def s2_def s1_def intr_disable_def)
  next
    case False
    then have "send_signal (Some t) sig s = Some (intr_set_status (intr_on s) s1)"
      using e by auto
    then show ?thesis
      using False k by (simp add: intr_set_status_def s1_def intr_disable_def)
  qed
qed

text \<open>
  C28. \<^verbatim>\<open>sys_kill\<close> with a valid signal number never stops the machine: it reports an error exactly when no
  task has the process id; otherwise it makes this signal, and no other, pending for that task and no other, puts the task
  on the ready queue exactly when it was in an interruptible wait and does not mask the signal, and keeps
  the scheduler invariant and the interrupt state.
\<close>
theorem sys_kill_correct:
  assumes "kinv s" "1 \<le> sig" "sig \<le> 31"
  shows "case pid2thread p s of
      None \<Rightarrow> sys_kill p sig s = Some (- 1, s)
    | Some t \<Rightarrow> \<exists>s'. sys_kill p sig s = Some (0, s') \<and> kinv s' \<and> intr_on s' = intr_on s \<and>
        pid (task s t) = p \<and> (\<forall>u. u \<noteq> t \<longrightarrow> task s' u = task s u) \<and> bit (signal (task s' t)) (nat sig - 1) \<and>
        (\<forall>k. k \<noteq> nat sig - 1 \<longrightarrow> bit (signal (task s' t)) k = bit (signal (task s t)) k) \<and>
        (if status (task s t) = TASK_WAITING \<and> \<not> bit (blocked (task s t)) (nat sig - 1)
         then status (task s' t) = TASK_READY \<and> thread_ready_list s' = t # thread_ready_list s
         else status (task s' t) = status (task s t) \<and> thread_ready_list s' = thread_ready_list s)"
proof (cases "pid2thread p s")
  case (Some t)
  have t: "t \<in> set (thread_all_list s)" "pid (task s t) = p"
    using Some by (auto simp: pid2thread_def find_Some_iff)
  have n: "0 < nat sig" "nat sig \<le> 32"
    using assms(2,3) by linarith+
  have "bit (x OR sigmask (nat sig)) k \<longleftrightarrow> bit x k \<or> k = nat sig - 1" for x :: u32 and k
    using bit_sigmask [OF n, of k] by (simp add: bit_or_iff)
  then show ?thesis
    using send_signal_spec [OF assms(1) t(1) assms(2,3)] t(2) Some
    by (auto simp: sys_kill_def)
qed (simp add: sys_kill_def)

text \<open>
  \<^verbatim>\<open>sys_sigprocmask\<close> never lets \<^verbatim>\<open>SIGKILL\<close> or \<^verbatim>\<open>SIGSTOP\<close> into the mask it stores, and it is undone by
  setting the mask it reported: after any accepted change of the mask, \<^verbatim>\<open>SIG_SETMASK\<close> with the old value
  gives the old mask without these two. An unknown operation is refused and changes nothing.
\<close>
theorem sigprocmask_round_trip:
  assumes "sys_sigprocmask how (Some x) True s = (r, old, s')"
  shows "if how \<in> {SIG_BLOCK, SIG_UNBLOCK, SIG_SETMASK}
    then r = 0 \<and> old = Some (blocked (task s (cur_task s))) \<and> blocked (task s' (cur_task s)) AND unmaskable = 0 \<and>
      (\<exists>o2. sys_sigprocmask SIG_SETMASK old True s' =
        (0, o2, upd_task (cur_task s) (\<lambda>t. t\<lparr>blocked := blocked t AND NOT unmaskable\<rparr>) s))
    else r = - EINVAL \<and> s' = s"
  using assms
  by (auto simp: sys_sigprocmask_def Let_def upd_task_def SIG_BLOCK_def SIG_UNBLOCK_def SIG_SETMASK_def split: if_splits)

section \<open>Examples\<close>

text \<open>
  The running task 0 has \<^verbatim>\<open>SIGALRM\<close> and \<^verbatim>\<open>SIGTERM\<close> pending and handles both; \<open>ex_wait\<close> has task 2 in an
  interruptible wait.
\<close>

definition ex_sig :: ksys where
  "ex_sig = upd_task 0 (\<lambda>t. t\<lparr>signal := 0x6000, sigactions :=
     replicate 32 \<lparr>sa_handler = 0x8048000, sa_mask = 1, sa_flags = 0, sa_restorer = 0x8049000\<rparr>\<rparr>) ex_sys"

definition ex_wait :: ksys where
  "ex_wait = (upd_task 2 (\<lambda>t. t\<lparr>status := TASK_WAITING\<rparr>) ex_sys)\<lparr>thread_ready_list := []\<rparr>"

definition ex_frame :: intr_stack where
  "ex_frame = (words_frame (map of_nat [0..<19]))\<lparr>i_esp := 0xBFFFF000\<rparr>"

lemma ex_sig_kinv: "kinv ex_sig"
  unfolding ex_sig_def by (rule kinv_upd [OF ex_sys_kinv]) simp

lemma ex_wait_kinv: "kinv ex_wait"
  using ex_sys_kinv
  by (auto simp: kinv_def sched_inv_def sched_wf_def pid_inv_def ex_wait_def ex_sys_def ex_task_def ticks_ok_def inj_on_def)

lemma ex_find: "find_signal (pending_set (task ex_sig 0)) 1 = 14"
proof -
  have b: "bit (0x6000 :: u32) k \<longleftrightarrow> k = 13 \<or> k = 14" for k
  proof -
    have "(0x6000 :: u32) = push_bit 13 1 OR push_bit 14 1"
      by simp
    then show ?thesis
      by (auto simp only: bit_or_iff bit_push_bit_iff) (auto simp: bit_1_iff)
  qed
  have v: "signal (task ex_sig 0) = 0x6000" "blocked (task ex_sig 0) = 0"
    by (simp_all add: ex_sig_def ex_sys_def ex_task_def)
  have d: "deliverable (task ex_sig 0) i \<longleftrightarrow> i = 14 \<or> i = 15" for i
    unfolding deliverable_def v b by auto
  define n where "n = find_signal (pending_set (task ex_sig 0)) 1"
  note f = find_pending [of "task ex_sig 0", folded n_def, unfolded d]
  have "n \<noteq> 0" "n \<le> 14"
    using f(1) f(3) [of 14] by auto
  then show ?thesis
    using f(2) unfolding n_def [symmetric] by auto
qed

lemma ex_delivery:
  "do_signal ex_frame m ex_sig = (case setup_frame 14 \<lparr>sa_handler = 0x8048000, sa_mask = 1, sa_flags = 0, sa_restorer = 0x8049000\<rparr> ex_frame 0 m of
     (st, m') \<Rightarrow> (Resume, st, m', upd_task 0 (masked_for 14) ex_sig))"
proof -
  have e: "cur_task ex_sig = 0" "sigactions (task ex_sig 0) ! 13 =
      \<lparr>sa_handler = 0x8048000, sa_mask = 1, sa_flags = 0, sa_restorer = 0x8049000\<rparr>" "blocked (task ex_sig 0) = 0"
    by (simp_all add: ex_sig_def ex_sys_def ex_task_def)
  show ?thesis
    using do_signal_cases(4) [of "task ex_sig 0" ex_sig 14 "sigactions (task ex_sig 0) ! (14 - 1)" ex_frame m] ex_find
    by (simp add: e SIG_IGN_def SIG_DFL_def)
qed

theorem do_signal_delivers_witness:
  "\<exists>st m' s'. do_signal ex_frame (\<lambda>_. 0) ex_sig = (Resume, st, m', s') \<and> kinv s' \<and>
    blocked (task s' 0) AND unmaskable = 0"
proof -
  obtain st m' s' where d: "do_signal ex_frame (\<lambda>_. 0) ex_sig = (Resume, st, m', s')"
    using ex_delivery [of "\<lambda>_. 0"] by (cases "setup_frame 14 \<lparr>sa_handler = 0x8048000, sa_mask = 1, sa_flags = 0, sa_restorer = 0x8049000\<rparr> ex_frame 0 (\<lambda>_. 0)") simp
  have "cur_task ex_sig = 0"
    by (simp add: ex_sig_def ex_sys_def)
  then show ?thesis
    using do_signal_delivers [OF d refl refl ex_sig_kinv] d by auto
qed

theorem signal_round_trip_witness:
  "\<exists>st m' s' s2. do_signal ex_frame (\<lambda>_. 0) ex_sig = (Resume, st, m', s') \<and>
    sys_sigreturn (st\<lparr>i_esp := i_esp st + 4\<rparr>) m' s' = Some (ex_frame, s2) \<and> blocked (task s2 0) = 0"
proof -
  obtain st m' where f: "setup_frame 14 \<lparr>sa_handler = 0x8048000, sa_mask = 1, sa_flags = 0, sa_restorer = 0x8049000\<rparr> ex_frame 0 (\<lambda>_. 0) = (st, m')"
    by fastforce
  define s' where "s' = upd_task 0 (masked_for 14) ex_sig"
  have d: "do_signal ex_frame (\<lambda>_. 0) ex_sig = (Resume, st, m', s')"
    using ex_delivery [of "\<lambda>_. 0"] f by (simp add: s'_def)
  have c: "cur_task ex_sig = 0" "cur_task s' = 0" "blocked (task ex_sig 0) = 0"
    by (simp_all add: s'_def ex_sig_def ex_sys_def ex_task_def)
  have e: "i_esp st = 0xBFFFEFA8"
    using setup_frame_esp [OF f] by (simp add: ex_frame_def)
  then have n: "st \<noteq> ex_frame"
    by (auto simp: ex_frame_def)
  have "sys_sigreturn (st\<lparr>i_esp := i_esp st + 4\<rparr>) m' s' = Some (ex_frame,
      upd_task (cur_task ex_sig) (\<lambda>t. t\<lparr>blocked := blocked (task ex_sig (cur_task ex_sig)) AND NOT unmaskable\<rparr>) s')"
    by (rule signal_round_trip [OF d n]) (simp_all add: c e)
  then show ?thesis
    using d c by auto
qed

theorem sys_kill_correct_witness:
  "\<exists>s'. sys_kill 2 15 ex_wait = Some (0, s') \<and> status (task s' 2) = TASK_READY \<and> thread_ready_list s' = [2]"
proof -
  have e: "pid2thread 2 ex_wait = Some 2" "status (task ex_wait 2) = TASK_WAITING" "blocked (task ex_wait 2) = 0"
      "thread_ready_list ex_wait = []"
    by (simp_all add: pid2thread_def ex_wait_def ex_sys_def ex_task_def)
  show ?thesis
    using sys_kill_correct [OF ex_wait_kinv, of 15 2] by (auto simp: e)
qed

end
