(* ===== verification/Buddy.thy ===== *)
theory Buddy
  imports Kernel_Prelude
begin

text \<open>
  The physical page allocator, \<^verbatim>\<open>mm/buddy.c\<close>. A \<^verbatim>\<open>struct page*\<close> is its index in the page array, which the pools share; a null
  pointer is \<open>None\<close>. The free lists are lists of head pages. The bodies run under the lock of the pool.
\<close>

section \<open>The code\<close>

definition MAX_ORDER :: nat where "MAX_ORDER = 11"

record page =
  pg_flags :: u32
  ref_count :: u32
  pg_order :: int

record free_area =
  free_list :: "nat list"
  nr_free :: u32

record buddy_pool =
  areas :: "nat \<Rightarrow> free_area"
  phy_addr_start :: u32
  pool_size :: u32

type_synonym page_array = "nat \<Rightarrow> page"

definition PAGE_TO_ADDR :: "nat \<Rightarrow> u32" where
  "PAGE_TO_ADDR pg = push_bit 12 (of_nat pg)"

definition ADDR_TO_PAGE :: "u32 \<Rightarrow> nat" where
  "ADDR_TO_PAGE a = unat (drop_bit 12 a)"

definition upd_area :: "nat \<Rightarrow> (free_area \<Rightarrow> free_area) \<Rightarrow> buddy_pool \<Rightarrow> buddy_pool" where
  "upd_area k f bpool = bpool\<lparr>areas := (areas bpool)(k := f (areas bpool k))\<rparr>"

definition upd_page :: "nat \<Rightarrow> (page \<Rightarrow> page) \<Rightarrow> page_array \<Rightarrow> page_array" where
  "upd_page p f pgs = pgs(p := f (pgs p))"

definition area_push_back :: "nat \<Rightarrow> nat \<Rightarrow> buddy_pool \<Rightarrow> buddy_pool" where
  "area_push_back k p = upd_area k (\<lambda>a. a\<lparr>free_list := free_list a @ [p], nr_free := nr_free a + 1\<rparr>)"

definition area_push_front :: "nat \<Rightarrow> nat \<Rightarrow> buddy_pool \<Rightarrow> buddy_pool" where
  "area_push_front k p = upd_area k (\<lambda>a. a\<lparr>free_list := p # free_list a, nr_free := nr_free a + 1\<rparr>)"

text \<open>The largest aligned order that fits between \<open>curr_pfn\<close> and \<open>end_pfn\<close>.\<close>

fun init_order :: "nat \<Rightarrow> nat \<Rightarrow> nat \<Rightarrow> nat" where
  "init_order curr_pfn end_pfn 0 = 0"
| "init_order curr_pfn end_pfn (Suc k) =
     (if curr_pfn mod 2 ^ Suc k = 0 \<and> curr_pfn + 2 ^ Suc k \<le> end_pfn then Suc k
      else init_order curr_pfn end_pfn k)"

function init_blocks :: "nat \<Rightarrow> nat \<Rightarrow> buddy_pool \<Rightarrow> page_array \<Rightarrow> buddy_pool \<times> page_array" where
  "init_blocks curr_pfn end_pfn bpool pgs =
     (if curr_pfn < end_pfn then
        let order = init_order curr_pfn end_pfn (MAX_ORDER - 1);
          pgs = upd_page curr_pfn (\<lambda>p. p\<lparr>pg_order := int order, pg_flags := 0\<rparr>) pgs
        in init_blocks (curr_pfn + 2 ^ order) end_pfn (area_push_back order curr_pfn bpool) pgs
      else (bpool, pgs))"
  by pat_completeness auto
termination
  by (relation "measure (\<lambda>(c, e, _). e - c)") (auto intro: diff_less_mono2)

declare init_blocks.simps [simp del]

definition buddy_init :: "u32 \<Rightarrow> u32 \<Rightarrow> page_array \<Rightarrow> buddy_pool \<times> page_array" where
  "buddy_init start_addr sz pgs = (let
     bpool = \<lparr>areas = (\<lambda>_. \<lparr>free_list = [], nr_free = 0\<rparr>), phy_addr_start = start_addr, pool_size = sz\<rparr>
   in init_blocks (unat (drop_bit 12 start_addr)) (unat (drop_bit 12 (start_addr + sz))) bpool pgs)"

function find_order :: "buddy_pool \<Rightarrow> nat \<Rightarrow> nat" where
  "find_order bpool k =
     (if k < MAX_ORDER \<and> free_list (areas bpool k) = [] then find_order bpool (k + 1) else k)"
  by pat_completeness auto
termination
  by (relation "measure (\<lambda>(_, k). MAX_ORDER - k)") auto

declare find_order.simps [simp del]

fun split_block :: "nat \<Rightarrow> nat \<Rightarrow> nat \<Rightarrow> buddy_pool \<Rightarrow> page_array \<Rightarrow> buddy_pool \<times> page_array" where
  "split_block order pg 0 bpool pgs = (bpool, pgs)"
| "split_block order pg (Suc k) bpool pgs =
     (if Suc k > order then
        let buddy = pg + 2 ^ k in
        if PAGE_TO_ADDR buddy \<ge> phy_addr_start bpool + pool_size bpool then split_block order pg k bpool pgs
        else split_block order pg k (area_push_back k buddy bpool)
          (upd_page buddy (\<lambda>p. p\<lparr>pg_order := int k, pg_flags := 0\<rparr>) pgs)
      else (bpool, pgs))"

definition palloc_pages :: "nat \<Rightarrow> buddy_pool \<Rightarrow> page_array \<Rightarrow> (nat option \<times> buddy_pool \<times> page_array) halting" where
  "palloc_pages order bpool pgs = do {
     ASSERT (order < MAX_ORDER);
     let k = find_order bpool order;
     if k = MAX_ORDER then Some (None, bpool, pgs)
     else case free_list (areas bpool k) of
         [] \<Rightarrow> None
       | pg # rest \<Rightarrow> do {
           let bpool = upd_area k (\<lambda>a. a\<lparr>free_list := rest, nr_free := nr_free a - 1\<rparr>) bpool;
           let (bpool, pgs) = split_block order pg k bpool pgs;
           let pgs = upd_page pg (\<lambda>p. p\<lparr>pg_order := int order, pg_flags := pg_flags p OR 1\<rparr>) pgs;
           Some (Some pg, bpool, pgs)
         }
   }"

definition get_buddy_page :: "buddy_pool \<Rightarrow> nat \<Rightarrow> nat \<Rightarrow> nat option" where
  "get_buddy_page bpool pg order = (let
     buddy_idx = pg XOR 2 ^ order;
     pool_start_pfn = unat (drop_bit 12 (phy_addr_start bpool));
     pool_end_pfn = unat (drop_bit 12 (phy_addr_start bpool + pool_size bpool))
   in if buddy_idx < pool_start_pfn \<or> buddy_idx \<ge> pool_end_pfn then None else Some buddy_idx)"

definition page_is_allocated :: "page \<Rightarrow> bool" where
  "page_is_allocated p \<longleftrightarrow> pg_flags p AND 1 \<noteq> 0"

text \<open>
  The loop of \<^verbatim>\<open>pfree_pages\<close>. \<open>null_addr\<close> is what \<^verbatim>\<open>PAGE_TO_ADDR\<close> computes for the null pointer of a page
  without a buddy, a difference of unrelated pointers that C leaves undefined; when it happens to lie in
  the pool the code goes on to read through the null pointer.
\<close>

function merge_blocks :: "u32 \<Rightarrow> nat \<Rightarrow> nat \<Rightarrow> buddy_pool \<Rightarrow> page_array \<Rightarrow> (nat \<times> nat \<times> buddy_pool \<times> page_array) halting" where
  "merge_blocks null_addr cpg k bpool pgs =
     (if k < MAX_ORDER - 1 then
        let buddy = get_buddy_page bpool cpg k;
          buddy_phy_addr = (case buddy of None \<Rightarrow> null_addr | Some b \<Rightarrow> PAGE_TO_ADDR b)
        in if buddy_phy_addr < phy_addr_start bpool \<or> buddy_phy_addr \<ge> phy_addr_start bpool + pool_size bpool
        then Some (cpg, k, bpool, pgs)
        else case buddy of None \<Rightarrow> None
          | Some b \<Rightarrow>
              if page_is_allocated (pgs b) \<or> pg_order (pgs b) \<noteq> int k then Some (cpg, k, bpool, pgs)
              else (case unlink b (free_list (areas bpool k)) of None \<Rightarrow> None
                | Some fl \<Rightarrow> merge_blocks null_addr (min cpg b) (k + 1)
                    (upd_area k (\<lambda>a. a\<lparr>free_list := fl, nr_free := nr_free a - 1\<rparr>) bpool)
                    (upd_page (min cpg b) (\<lambda>p. p\<lparr>pg_order := int (k + 1)\<rparr>) pgs))
      else Some (cpg, k, bpool, pgs))"
  by pat_completeness auto
termination
  by (relation "measure (\<lambda>(_, _, k, _). MAX_ORDER - k)") auto

declare merge_blocks.simps [simp del]

definition pfree_pages :: "u32 \<Rightarrow> nat \<Rightarrow> nat \<Rightarrow> buddy_pool \<Rightarrow> page_array \<Rightarrow> (buddy_pool \<times> page_array) halting" where
  "pfree_pages null_addr pg order bpool pgs = do {
     ASSERT (order < MAX_ORDER);
     (cpg, k, bpool, pgs) \<leftarrow> merge_blocks null_addr pg order bpool pgs;
     ASSERT (cpg \<notin> set (free_list (areas bpool k)));
     let pgs = upd_page cpg (\<lambda>p. p\<lparr>pg_flags := pg_flags p AND NOT 1, pg_order := int k\<rparr>) pgs;
     Some (area_push_front k cpg bpool, pgs)
   }"

section \<open>Tilings\<close>

text \<open>A block is a head page and an order; a set of blocks tiles the pages from \<open>lo\<close> up to \<open>hi\<close>.\<close>

type_synonym block = "nat \<times> nat"

definition blk :: "block \<Rightarrow> nat set" where
  "blk b = {fst b ..< fst b + 2 ^ snd b}"

definition tiles :: "nat \<Rightarrow> nat \<Rightarrow> block set \<Rightarrow> bool" where
  "tiles lo hi B \<longleftrightarrow> (\<forall>(p, k)\<in>B. 2 ^ k dvd p \<and> k < MAX_ORDER) \<and> \<Union> (blk ` B) = {lo ..< hi} \<and>
     (\<forall>b\<in>B. \<forall>c\<in>B. b \<noteq> c \<longrightarrow> blk b \<inter> blk c = {})"

lemma blk_nonempty: "p \<in> blk (p, k)"
  by (simp add: blk_def)

lemma blk_split: "blk (p, Suc k) = blk (p, k) \<union> blk (p + 2 ^ k, k)" "blk (p, k) \<inter> blk (p + 2 ^ k, k) = {}"
  by (auto simp: blk_def)

lemma tilesD:
  assumes "tiles lo hi B" "(p, k) \<in> B"
  shows "2 ^ k dvd p" "k < MAX_ORDER" "lo \<le> p" "p + 2 ^ k \<le> hi" "blk (p, k) \<subseteq> {lo ..< hi}"
proof -
  show "2 ^ k dvd p" "k < MAX_ORDER"
    using assms by (auto simp: tiles_def)
  show s: "blk (p, k) \<subseteq> {lo ..< hi}"
    using assms by (auto simp: tiles_def)
  have pos: "(0 :: nat) < 2 ^ k"
    by simp
  then have "p \<in> blk (p, k)" "p + (2 ^ k - 1) \<in> blk (p, k)"
    unfolding blk_def fst_conv snd_conv atLeastLessThan_iff by linarith+
  then have "p \<in> {lo ..< hi}" "p + (2 ^ k - 1) \<in> {lo ..< hi}"
    using s by blast+
  then show "lo \<le> p" "p + 2 ^ k \<le> hi"
    using pos unfolding atLeastLessThan_iff by linarith+
qed

lemma tiles_unique: "tiles lo hi B \<Longrightarrow> b \<in> B \<Longrightarrow> c \<in> B \<Longrightarrow> x \<in> blk b \<Longrightarrow> x \<in> blk c \<Longrightarrow> b = c"
  unfolding tiles_def by blast

text \<open>Cutting a block into its halves and joining two halves are one fact.\<close>

lemma tiles_halves:
  assumes "2 ^ Suc k dvd p" "Suc k < MAX_ORDER" "(p, Suc k) \<notin> C" "(p, k) \<notin> C" "(p + 2 ^ k, k) \<notin> C"
  shows "tiles lo hi (insert (p, Suc k) C) \<longleftrightarrow> tiles lo hi (insert (p, k) (insert (p + 2 ^ k, k) C))"
proof -
  have d: "2 ^ k dvd p" "2 ^ k dvd p + 2 ^ k"
    using assms(1) by (auto intro: dvd_trans [OF le_imp_power_dvd [of k "Suc k"]])
  have ne: "(p, k) \<noteq> (p + 2 ^ k, k)"
    by simp
  have dis: "(\<forall>b\<in>insert x C. \<forall>c\<in>insert x C. b \<noteq> c \<longrightarrow> blk b \<inter> blk c = {}) \<longleftrightarrow>
      (\<forall>c\<in>C. blk x \<inter> blk c = {}) \<and> (\<forall>b\<in>C. \<forall>c\<in>C. b \<noteq> c \<longrightarrow> blk b \<inter> blk c = {})" if "x \<notin> C" for x and C :: "block set"
    using that by (auto simp: Int_commute) blast+
  have c1: "(\<forall>c\<in>insert (p + 2 ^ k, k) C. blk (p, k) \<inter> blk c = {}) \<longleftrightarrow> (\<forall>c\<in>C. blk (p, k) \<inter> blk c = {})"
    using blk_split(2) [of p k] by simp
  have c2: "(\<forall>c\<in>C. blk (p, Suc k) \<inter> blk c = {}) \<longleftrightarrow>
      (\<forall>c\<in>C. blk (p, k) \<inter> blk c = {}) \<and> (\<forall>c\<in>C. blk (p + 2 ^ k, k) \<inter> blk c = {})"
    unfolding blk_split(1) by (simp add: Int_Un_distrib2) blast
  have n: "(p, k) \<notin> insert (p + 2 ^ k, k) C"
    using assms(4) ne by simp
  show ?thesis
    unfolding tiles_def dis [OF assms(3)] dis [OF n] dis [OF assms(5)] c1 c2
    using assms(1,2) d by (auto simp: blk_split(1) Un_assoc)
qed

lemma xor_buddy:
  assumes "2 ^ k dvd (p :: nat)"
  shows "p XOR 2 ^ k = (if 2 ^ Suc k dvd p then p + 2 ^ k else p - 2 ^ k)"
    and "\<not> 2 ^ Suc k dvd p \<Longrightarrow> 2 ^ Suc k dvd p - 2 ^ k \<and> 2 ^ k \<le> p"
proof -
  obtain q where q: "p = 2 ^ k * q"
    using assms by blast
  have x: "q XOR 1 = (if even q then q + 1 else q - 1)"
    by (simp add: xor_Suc_0_eq)
  have "p XOR 2 ^ k = push_bit k (q XOR 1)"
    by (simp add: push_bit_xor) (simp add: push_bit_eq_mult q mult.commute)
  moreover have "2 ^ Suc k dvd p \<longleftrightarrow> even q"
    by (simp add: q mult.commute)
  ultimately show "p XOR 2 ^ k = (if 2 ^ Suc k dvd p then p + 2 ^ k else p - 2 ^ k)"
    using x by (auto simp: push_bit_eq_mult q algebra_simps diff_mult_distrib)
  assume "\<not> 2 ^ Suc k dvd p"
  then have "odd q"
    by (simp add: q mult.commute)
  then obtain r where "q = 2 * r + 1"
    by (rule oddE)
  then show "2 ^ Suc k dvd p - 2 ^ k \<and> 2 ^ k \<le> p"
    by (simp add: q algebra_simps)
qed

section \<open>The pool invariant\<close>

definition pool_lo :: "buddy_pool \<Rightarrow> nat" where
  "pool_lo bpool = unat (drop_bit 12 (phy_addr_start bpool))"

definition pool_hi :: "buddy_pool \<Rightarrow> nat" where
  "pool_hi bpool = unat (drop_bit 12 (phy_addr_start bpool + pool_size bpool))"

definition pool_ok :: "buddy_pool \<Rightarrow> bool" where
  "pool_ok bpool \<longleftrightarrow> 4096 dvd unat (phy_addr_start bpool) \<and> 4096 dvd unat (pool_size bpool) \<and>
     unat (phy_addr_start bpool) + unat (pool_size bpool) < 2 ^ 32"

definition free_blocks :: "buddy_pool \<Rightarrow> block set" where
  "free_blocks bpool = {(p, k). k < MAX_ORDER \<and> p \<in> set (free_list (areas bpool k))}"

definition lists_ok :: "buddy_pool \<Rightarrow> bool" where
  "lists_ok bpool \<longleftrightarrow> (\<forall>k. distinct (free_list (areas bpool k)) \<and> nr_free (areas bpool k) = of_nat (length (free_list (areas bpool k))))"

definition heads_ok :: "block set \<Rightarrow> block set \<Rightarrow> page_array \<Rightarrow> bool" where
  "heads_ok F A pgs \<longleftrightarrow> (\<forall>(p, k)\<in>F. \<not> page_is_allocated (pgs p) \<and> pg_order (pgs p) = int k) \<and>
     (\<forall>(p, k)\<in>A. page_is_allocated (pgs p))"

text \<open>No two free blocks are buddies.\<close>

definition coalesced :: "block set \<Rightarrow> bool" where
  "coalesced F \<longleftrightarrow> (\<forall>(p, k)\<in>F. k < MAX_ORDER - 1 \<longrightarrow> (p XOR 2 ^ k, k) \<notin> F)"

text \<open>\<open>A\<close> are the allocated blocks; \<open>floating\<close> has one more block that is neither free nor allocated.\<close>

definition buddy_inv :: "block set \<Rightarrow> buddy_pool \<Rightarrow> page_array \<Rightarrow> bool" where
  "buddy_inv A bpool pgs \<longleftrightarrow> pool_ok bpool \<and> lists_ok bpool \<and> free_blocks bpool \<inter> A = {} \<and>
     tiles (pool_lo bpool) (pool_hi bpool) (free_blocks bpool \<union> A) \<and> heads_ok (free_blocks bpool) A pgs \<and>
     coalesced (free_blocks bpool)"

definition floating :: "block set \<Rightarrow> block \<Rightarrow> buddy_pool \<Rightarrow> page_array \<Rightarrow> bool" where
  "floating A b bpool pgs \<longleftrightarrow> pool_ok bpool \<and> lists_ok bpool \<and> free_blocks bpool \<inter> A = {} \<and>
     b \<notin> free_blocks bpool \<union> A \<and> tiles (pool_lo bpool) (pool_hi bpool) (insert b (free_blocks bpool \<union> A)) \<and>
     heads_ok (free_blocks bpool) A pgs \<and> coalesced (free_blocks bpool)"

lemma pool_addr:
  assumes "pool_ok bpool"
  shows "unat (phy_addr_start bpool) = 4096 * pool_lo bpool"
    and "unat (phy_addr_start bpool + pool_size bpool) = 4096 * pool_hi bpool" "pool_hi bpool < 2 ^ 20"
proof -
  have s: "unat (phy_addr_start bpool + pool_size bpool) = unat (phy_addr_start bpool) + unat (pool_size bpool)"
    using assms by (intro unat_plus_no_wrap) (simp add: pool_ok_def)
  have d: "unat (drop_bit 12 a :: u32) = unat a div 4096" for a
    by (simp add: drop_bit_eq_div unat_div)
  show "unat (phy_addr_start bpool) = 4096 * pool_lo bpool"
    using assms by (simp add: pool_ok_def pool_lo_def d)
  show h: "unat (phy_addr_start bpool + pool_size bpool) = 4096 * pool_hi bpool"
    using assms unfolding pool_hi_def d s by (simp add: pool_ok_def)
  show "pool_hi bpool < 2 ^ 20"
    using assms h s by (simp add: pool_ok_def)
qed

lemma page_addr:
  assumes "p < 2 ^ 20"
  shows "unat (PAGE_TO_ADDR p) = 4096 * p"
proof -
  have "PAGE_TO_ADDR p = of_nat (4096 * p)"
    by (simp add: PAGE_TO_ADDR_def push_bit_eq_mult mult.commute)
  then show ?thesis
    using unat_of_nat_small [of "4096 * p"] assms by simp
qed

lemma page_in_pool:
  assumes "pool_ok bpool" "p < 2 ^ 20"
  shows "PAGE_TO_ADDR p < phy_addr_start bpool + pool_size bpool \<longleftrightarrow> p < pool_hi bpool"
    and "PAGE_TO_ADDR p < phy_addr_start bpool \<longleftrightarrow> p < pool_lo bpool"
  using pool_addr [OF assms(1)] page_addr [OF assms(2)] by (simp_all add: word_less_nat_alt)

lemma upd_area_sel [simp]:
  "areas (upd_area k f bpool) = (areas bpool)(k := f (areas bpool k))"
  "phy_addr_start (upd_area k f bpool) = phy_addr_start bpool" "pool_size (upd_area k f bpool) = pool_size bpool"
  "pool_lo (upd_area k f bpool) = pool_lo bpool" "pool_hi (upd_area k f bpool) = pool_hi bpool"
  "pool_ok (upd_area k f bpool) = pool_ok bpool"
  by (simp_all add: upd_area_def pool_lo_def pool_hi_def pool_ok_def)

lemma push_sel [simp]:
  "phy_addr_start (area_push_back k p bpool) = phy_addr_start bpool" "pool_size (area_push_back k p bpool) = pool_size bpool"
  "pool_lo (area_push_back k p bpool) = pool_lo bpool" "pool_hi (area_push_back k p bpool) = pool_hi bpool"
  "pool_ok (area_push_back k p bpool) = pool_ok bpool"
  "pool_lo (area_push_front k p bpool) = pool_lo bpool" "pool_hi (area_push_front k p bpool) = pool_hi bpool"
  "pool_ok (area_push_front k p bpool) = pool_ok bpool"
  by (simp_all add: area_push_back_def area_push_front_def)

lemma push_free_blocks [simp]:
  "k < MAX_ORDER \<Longrightarrow> free_blocks (area_push_back k p bpool) = insert (p, k) (free_blocks bpool)"
  "k < MAX_ORDER \<Longrightarrow> free_blocks (area_push_front k p bpool) = insert (p, k) (free_blocks bpool)"
  by (auto simp: free_blocks_def area_push_back_def area_push_front_def split: if_splits)

lemma push_lists_ok:
  assumes "lists_ok bpool" "(p, k) \<notin> free_blocks bpool" "k < MAX_ORDER"
  shows "lists_ok (area_push_back k p bpool)" "lists_ok (area_push_front k p bpool)"
  using assms by (auto simp: lists_ok_def free_blocks_def area_push_back_def area_push_front_def)

lemma remove_block:
  assumes "lists_ok bpool" "p \<in> set (free_list (areas bpool k))" "k < MAX_ORDER"
    and "bpool' = upd_area k (\<lambda>a. a\<lparr>free_list := remove1 p (free_list (areas bpool k)), nr_free := nr_free a - 1\<rparr>) bpool"
  shows "lists_ok bpool'" "free_blocks bpool' = free_blocks bpool - {(p, k)}"
proof -
  have "length (free_list (areas bpool k)) \<ge> 1"
    using assms(2) by (cases "free_list (areas bpool k)") auto
  then have "(of_nat (length (remove1 p (free_list (areas bpool k)))) :: u32) = of_nat (length (free_list (areas bpool k))) - 1"
    using assms(2) by (simp add: length_remove1 of_nat_diff)
  then show "lists_ok bpool'"
    using assms(1) by (simp add: assms(4) lists_ok_def)
  show "free_blocks bpool' = free_blocks bpool - {(p, k)}"
    using assms(1) by (auto simp: assms(4) free_blocks_def lists_ok_def split: if_splits)
qed

lemma xor_cancel: "(p XOR a) XOR a = (p :: nat)"
  by (simp only: xor.assoc xor_self_eq xor.right_neutral)

lemma coalesced_insert:
  assumes "coalesced F" "k < MAX_ORDER - 1 \<longrightarrow> (p XOR 2 ^ k, k) \<notin> F"
  shows "coalesced (insert (p, k) F)"
proof -
  have ne: "p XOR 2 ^ k \<noteq> p"
  proof
    assume "p XOR 2 ^ k = p"
    then have "p XOR (p XOR 2 ^ k) = p XOR p"
      by simp
    then show False
      by (simp flip: xor.assoc)
  qed
  have "(p XOR 2 ^ k, k) \<in> F" if "q XOR 2 ^ k = p" "(q, k) \<in> F" for q
    using that xor_cancel [of q "2 ^ k"] by simp
  then show ?thesis
    using assms ne unfolding coalesced_def by auto
qed

section \<open>Allocation\<close>

lemma floating_head:
  assumes "floating A b bpool pgs" "x \<in> blk b" "(x, j) \<in> free_blocks bpool \<union> A"
  shows False
proof -
  have "(x, j) = b"
    using assms tiles_unique [of "pool_lo bpool" "pool_hi bpool" "insert b (free_blocks bpool \<union> A)" "(x, j)" b x] blk_nonempty [of x j]
    by (auto simp: floating_def)
  then show False
    using assms(1,3) by (simp add: floating_def)
qed

lemma heads_upd:
  assumes "heads_ok F A pgs" "\<forall>j. (x, j) \<notin> F \<union> A"
  shows "heads_ok F A (upd_page x f pgs)"
  using assms unfolding heads_ok_def upd_page_def by (fastforce split: if_splits)

lemma allocated_odd: "page_is_allocated p \<longleftrightarrow> odd (pg_flags p)"
  by (simp add: page_is_allocated_def and_one_eq odd_iff_mod_2_eq_one)

lemma heads_insert:
  "heads_ok (insert (p, k) F) A pgs \<longleftrightarrow> \<not> page_is_allocated (pgs p) \<and> pg_order (pgs p) = int k \<and> heads_ok F A pgs"
  "heads_ok F (insert (p, k) A) pgs \<longleftrightarrow> page_is_allocated (pgs p) \<and> heads_ok F A pgs"
  by (auto simp: heads_ok_def)

lemma floating_page:
  assumes "floating A b bpool pgs" "x \<in> blk b"
  shows "floating A b bpool (upd_page x f pgs)"
proof -
  have "\<forall>j. (x, j) \<notin> free_blocks bpool \<union> A"
    using floating_head [OF assms] by blast
  then show ?thesis
    using assms(1) heads_upd [of "free_blocks bpool" A pgs x f] by (simp add: floating_def)
qed

lemma floating_alloc:
  assumes "floating A (p, k) bpool pgs" "page_is_allocated (pgs p)"
  shows "buddy_inv (insert (p, k) A) bpool pgs"
  using assms by (simp add: buddy_inv_def floating_def heads_insert)

lemma split_step:
  assumes "floating A (pg, Suc k) bpool pgs"
  shows "floating A (pg, k) (area_push_back k (pg + 2 ^ k) bpool)
    (upd_page (pg + 2 ^ k) (\<lambda>p. p\<lparr>pg_order := int k, pg_flags := 0\<rparr>) pgs)"
    and "PAGE_TO_ADDR (pg + 2 ^ k) < phy_addr_start bpool + pool_size bpool"
proof -
  let ?b = "pg + 2 ^ k" and ?F = "free_blocks bpool"
  note fl = assms [unfolded floating_def]
  have in_blk: "pg \<in> blk (pg, Suc k)" "?b \<in> blk (pg, Suc k)"
    by (simp_all add: blk_def)
  note no = floating_head [OF assms in_blk(1)] floating_head [OF assms in_blk(2)]
  have t: "2 ^ Suc k dvd pg" "Suc k < MAX_ORDER" "pg + 2 ^ Suc k \<le> pool_hi bpool"
    using fl tilesD [of "pool_lo bpool" "pool_hi bpool" "insert (pg, Suc k) (?F \<union> A)" pg "Suc k"] by auto
  have hi: "?b < pool_hi bpool"
    using t(3) zero_less_power [of "2 :: nat" k] unfolding power_Suc by linarith
  then show "PAGE_TO_ADDR ?b < phy_addr_start bpool + pool_size bpool"
    using fl page_in_pool(1) [of bpool ?b] pool_addr(3) [of bpool] by auto
  have tl: "tiles (pool_lo bpool) (pool_hi bpool) (insert (pg, k) (insert (?b, k) (?F \<union> A)))"
    using fl tiles_halves [OF t(1,2), of "?F \<union> A"] no by auto
  have "pg XOR 2 ^ k = ?b"
    using xor_buddy(1) [of k pg] t(1) dvd_trans [OF le_imp_power_dvd [of k "Suc k"] t(1)] by simp
  then have "?b XOR 2 ^ k = pg"
    using xor_cancel [of pg "2 ^ k"] by simp
  then have "coalesced (insert (?b, k) ?F)"
    using fl no(1) by (intro coalesced_insert) auto
  moreover have "heads_ok (insert (?b, k) ?F) A (upd_page ?b (\<lambda>p. p\<lparr>pg_order := int k, pg_flags := 0\<rparr>) pgs)"
    (is "heads_ok _ _ ?P")
  proof -
    have "heads_ok ?F A ?P"
      using fl no(2) by (intro heads_upd) blast+
    then show ?thesis
      by (simp add: heads_insert) (simp add: upd_page_def page_is_allocated_def)
  qed
  moreover have "lists_ok (area_push_back k ?b bpool)"
    using push_lists_ok(1) [of bpool ?b k] fl no(2) t(2) by auto
  ultimately show "floating A (pg, k) (area_push_back k ?b bpool)
      (upd_page ?b (\<lambda>p. p\<lparr>pg_order := int k, pg_flags := 0\<rparr>) pgs)"
    using fl tl no t(2) unfolding floating_def by (auto simp: insert_commute)
qed

lemma split_block_floating:
  assumes "floating A (pg, k) bpool pgs" "order \<le> k" "split_block order pg k bpool pgs = (bpool', pgs')"
  shows "floating A (pg, order) bpool' pgs' \<and> phy_addr_start bpool' = phy_addr_start bpool \<and> pool_size bpool' = pool_size bpool \<and>
    (\<forall>x. x \<notin> blk (pg, k) \<longrightarrow> pgs' x = pgs x)"
  using assms
proof (induction k arbitrary: bpool pgs)
  case (Suc k)
  show ?case
  proof (cases "order = Suc k")
    case False
    note st = split_step [OF Suc.prems(1)]
    have "split_block order pg k (area_push_back k (pg + 2 ^ k) bpool)
        (upd_page (pg + 2 ^ k) (\<lambda>p. p\<lparr>pg_order := int k, pg_flags := 0\<rparr>) pgs) = (bpool', pgs')"
      using Suc.prems(2,3) False st(2) by (simp add: Let_def not_le split: if_splits)
    from Suc.IH [OF st(1) _ this] False Suc.prems(2) show ?thesis
      by (auto simp: blk_split(1) upd_page_def) (simp add: blk_def)
  qed (use Suc.prems in auto)
qed auto

lemma find_order_spec:
  "k \<le> MAX_ORDER \<Longrightarrow> k \<le> find_order bpool k \<and> find_order bpool k \<le> MAX_ORDER \<and>
    (find_order bpool k < MAX_ORDER \<longrightarrow> free_list (areas bpool (find_order bpool k)) \<noteq> []) \<and>
    (\<forall>j. k \<le> j \<and> j < find_order bpool k \<longrightarrow> free_list (areas bpool j) = [])"
proof (induction bpool k rule: find_order.induct)
  case (1 bpool k)
  show ?case
  proof (cases "k < MAX_ORDER \<and> free_list (areas bpool k) = []")
    case True
    have "find_order bpool k = find_order bpool (k + 1)"
      using True by (simp add: find_order.simps [of bpool k])
    then show ?thesis
      using 1(1) [OF True] True by (metis Suc_eq_plus1 Suc_leD Suc_leI le_neq_implies_less)
  next
    case False
    then have "find_order bpool k = k"
      by (subst find_order.simps) auto
    then show ?thesis
      using False 1(2) by auto
  qed
qed

lemma palloc_pages_spec:
  assumes "buddy_inv A bpool pgs" "order < MAX_ORDER"
  shows "case palloc_pages order bpool pgs of None \<Rightarrow> False
    | Some (None, bpool', pgs') \<Rightarrow> bpool' = bpool \<and> pgs' = pgs \<and> (\<forall>(p, k)\<in>free_blocks bpool. k < order)
    | Some (Some pg, bpool', pgs') \<Rightarrow> buddy_inv (insert (pg, order) A) bpool' pgs' \<and> 2 ^ order dvd pg \<and>
        (\<forall>b\<in>A. blk (pg, order) \<inter> blk b = {}) \<and> blk (pg, order) \<subseteq> {pool_lo bpool ..< pool_hi bpool} \<and>
        phy_addr_start bpool' = phy_addr_start bpool \<and> pool_size bpool' = pool_size bpool \<and>
        (\<forall>x. x \<notin> {pool_lo bpool ..< pool_hi bpool} \<longrightarrow> pgs' x = pgs x)"
proof -
  define k where "k = find_order bpool order"
  have k: "order \<le> k" "k \<le> MAX_ORDER" "k < MAX_ORDER \<longrightarrow> free_list (areas bpool k) \<noteq> []"
      "\<forall>j. order \<le> j \<and> j < k \<longrightarrow> free_list (areas bpool j) = []"
    using find_order_spec [of order bpool] assms(2) by (simp_all add: k_def)
  show ?thesis
  proof (cases "k = MAX_ORDER")
    case True
    have "\<forall>(p, j)\<in>free_blocks bpool. j < order"
      using k(4) True by (force simp: free_blocks_def not_le [symmetric])
    then show ?thesis
      using True assms(2) by (simp add: palloc_pages_def flip: k_def)
  next
    case False
    then have lt: "k < MAX_ORDER"
      using k(2) by simp
    obtain pg rest where fl: "free_list (areas bpool k) = pg # rest"
      using k(3) lt by (cases "free_list (areas bpool k)") auto
    define b1 where "b1 = upd_area k (\<lambda>a. a\<lparr>free_list := rest, nr_free := nr_free a - 1\<rparr>) bpool"
    have inv: "lists_ok bpool" "pool_ok bpool" "free_blocks bpool \<inter> A = {}"
        "tiles (pool_lo bpool) (pool_hi bpool) (free_blocks bpool \<union> A)" "heads_ok (free_blocks bpool) A pgs" "coalesced (free_blocks bpool)"
      using assms(1) by (simp_all add: buddy_inv_def)
    have mem: "(pg, k) \<in> free_blocks bpool"
      using fl lt by (simp add: free_blocks_def)
    have b1: "lists_ok b1" "free_blocks b1 = free_blocks bpool - {(pg, k)}"
      using remove_block [OF inv(1), of pg k b1] fl lt by (simp_all add: b1_def)
    have "insert (pg, k) (free_blocks b1 \<union> A) = free_blocks bpool \<union> A"
      using mem b1(2) by auto
    then have "floating A (pg, k) b1 pgs"
      using inv b1 mem unfolding floating_def by (auto simp: b1_def heads_ok_def coalesced_def)
    obtain b2 p2 where sp: "split_block order pg k b1 pgs = (b2, p2)"
      by fastforce
    note f2 = split_block_floating [OF \<open>floating A (pg, k) b1 pgs\<close> k(1) sp]
    define p3 where "p3 = upd_page pg (\<lambda>p. p\<lparr>pg_order := int order, pg_flags := pg_flags p OR 1\<rparr>) p2"
    have res: "palloc_pages order bpool pgs = Some (Some pg, b2, p3)"
      using False assms(2) fl sp by (simp add: palloc_pages_def b1_def p3_def Let_def flip: k_def)
    have f3: "floating A (pg, order) b2 p3"
      using f2 blk_nonempty [of pg order] floating_page by (simp add: p3_def)
    have lohi: "pool_lo b2 = pool_lo bpool" "pool_hi b2 = pool_hi bpool"
      using f2 by (simp_all add: pool_lo_def pool_hi_def b1_def)
    have tl: "tiles (pool_lo bpool) (pool_hi bpool) (insert (pg, order) (free_blocks b2 \<union> A))"
      using f3 lohi by (simp add: floating_def)
    have alloc: "page_is_allocated (p3 pg)"
      by (simp add: p3_def upd_page_def allocated_odd even_or_iff)
    have inv': "buddy_inv (insert (pg, order) A) b2 p3"
      by (rule floating_alloc [OF f3 alloc])
    have dis: "\<forall>b\<in>A. blk (pg, order) \<inter> blk b = {}"
    proof
      fix b
      assume "b \<in> A"
      moreover from this have "b \<noteq> (pg, order)"
        using f3 by (auto simp: floating_def)
      ultimately show "blk (pg, order) \<inter> blk b = {}"
        using tl by (auto simp: tiles_def)
    qed
    have sub: "blk (pg, k) \<subseteq> {pool_lo bpool ..< pool_hi bpool}"
      using tilesD(5) [OF inv(4), of pg k] mem by simp
    have frame: "\<forall>x. x \<notin> {pool_lo bpool ..< pool_hi bpool} \<longrightarrow> p3 x = pgs x"
    proof (intro allI impI)
      fix x
      assume "x \<notin> {pool_lo bpool ..< pool_hi bpool}"
      then have "x \<notin> blk (pg, k)"
        using sub by blast
      then show "p3 x = pgs x"
        using f2 blk_nonempty [of pg k] by (auto simp: p3_def upd_page_def)
    qed
    have "phy_addr_start b2 = phy_addr_start bpool" "pool_size b2 = pool_size bpool"
      using f2 by (simp_all add: b1_def)
    then show ?thesis
      using inv' dis frame tilesD(1,5) [OF tl, of pg order] by (simp add: res)
  qed
qed

text \<open>
  C6. \<^verbatim>\<open>palloc_pages\<close> hands out a block of exactly the order asked for, aligned to its size, inside the pool
  and disjoint from every block handed out before, whatever splitting that takes; it fails only when no
  free block is large enough. The free and the allocated blocks tile the pool afterwards as before, no two
  free blocks are buddies, and no page outside of the pool is touched.
\<close>
theorem palloc_pages_correct:
  assumes "buddy_inv A bpool pgs" "order < MAX_ORDER"
  shows "case palloc_pages order bpool pgs of None \<Rightarrow> False
    | Some (None, bpool', pgs') \<Rightarrow> bpool' = bpool \<and> pgs' = pgs \<and> (\<forall>(p, k)\<in>free_blocks bpool. k < order)
    | Some (Some pg, bpool', pgs') \<Rightarrow> buddy_inv (insert (pg, order) A) bpool' pgs' \<and> 2 ^ order dvd pg \<and>
        (\<forall>b\<in>A. blk (pg, order) \<inter> blk b = {}) \<and> blk (pg, order) \<subseteq> {pool_lo bpool ..< pool_hi bpool} \<and>
        phy_addr_start bpool' = phy_addr_start bpool \<and> pool_size bpool' = pool_size bpool \<and>
        (\<forall>x. x \<notin> {pool_lo bpool ..< pool_hi bpool} \<longrightarrow> pgs' x = pgs x)"
  by (rule palloc_pages_spec [OF assms])

section \<open>Freeing\<close>

lemma blk_div: "2 ^ j dvd q \<Longrightarrow> x \<in> blk (q, j) \<longleftrightarrow> x div 2 ^ j = q div 2 ^ j"
proof -
  assume "2 ^ j dvd q"
  then obtain r where q: "q = 2 ^ j * r"
    by blast
  have "x div 2 ^ j = r \<longleftrightarrow> 2 ^ j * r \<le> x \<and> x < 2 ^ j * r + 2 ^ j"
    by (metis add.commute div_nat_eqI dividend_less_div_times mult.commute mult_Suc times_div_less_eq_dividend zero_less_numeral zero_less_power)
  then show ?thesis
    by (simp add: q blk_def)
qed

lemma xor_same_parent: "(c XOR 2 ^ k) div 2 ^ Suc k = (c :: nat) div 2 ^ Suc k"
proof -
  have "drop_bit (Suc k) (c XOR 2 ^ k) = drop_bit (Suc k) c XOR drop_bit (Suc k) (2 ^ k)"
    by (rule drop_bit_xor)
  also have "drop_bit (Suc k) (2 ^ k :: nat) = 0"
    by (simp add: drop_bit_eq_div)
  finally show ?thesis
    by (simp add: drop_bit_eq_div)
qed

text \<open>The head page of the buddy region is the head of a block that is at most as large.\<close>

lemma buddy_block:
  assumes "tiles lo hi (insert (c, k) B)" "(c, k) \<notin> B" "lo \<le> c XOR 2 ^ k" "c XOR 2 ^ k < hi"
  shows "\<exists>j\<le>k. (c XOR 2 ^ k, j) \<in> B"
proof -
  let ?b = "c XOR 2 ^ k"
  have c: "2 ^ k dvd c"
    using tilesD(1) [OF assms(1)] by simp
  have "?b \<in> \<Union> (blk ` insert (c, k) B)"
    using assms(1,3,4) by (simp add: tiles_def)
  then obtain q j where qj: "(q, j) \<in> insert (c, k) B" "?b \<in> blk (q, j)"
    by (metis UN_E surj_pair)
  have dq: "2 ^ j dvd q"
    using tilesD(1) [OF assms(1) qj(1)] .
  have dk: "2 ^ k dvd ?b"
    using c xor_buddy(1) [OF c] by auto
  show ?thesis
  proof (cases "j \<le> k")
    case True
    then have "2 ^ j dvd ?b"
      using dk dvd_trans [OF le_imp_power_dvd [OF True]] by blast
    then have "?b = q"
      using qj(2) dq by (simp add: blk_div) (metis dvd_div_mult_self)
    moreover have "?b \<noteq> c"
      using c xor_buddy [OF c] by (auto split: if_splits)
    ultimately show ?thesis
      using qj True by auto
  next
    case False
    then obtain d where d: "j = Suc k + d"
      by (metis add_Suc less_iff_Suc_add not_le)
    have "c div 2 ^ j = ?b div 2 ^ j"
      unfolding d power_add div_mult2_eq xor_same_parent ..
    then have "c \<in> blk (q, j)"
      using qj(2) dq by (simp add: blk_div)
    then have "(q, j) = (c, k)"
      using tiles_unique [OF assms(1) qj(1), of "(c, k)" c] blk_nonempty [of c k] by simp
    then show ?thesis
      using False by simp
  qed
qed

lemma merge_step:
  assumes "floating A (c, k) bpool pgs" "Suc k < MAX_ORDER" "b = c XOR 2 ^ k" "(b, k) \<in> free_blocks bpool"
    and "bpool' = upd_area k (\<lambda>a. a\<lparr>free_list := remove1 b (free_list (areas bpool k)), nr_free := nr_free a - 1\<rparr>) bpool"
  shows "floating A (min c b, Suc k) bpool' (upd_page (min c b) f pgs)" "blk (min c b, Suc k) = blk (c, k) \<union> blk (b, k)"
proof -
  let ?l = "min c b" and ?F = "free_blocks bpool"
  note fl = assms(1) [unfolded floating_def]
  have c: "2 ^ k dvd c"
    using fl tilesD(1) by blast
  have lc: "2 ^ Suc k dvd ?l \<and> {(c, k), (b, k)} = {(?l, k), (?l + 2 ^ k, k)}"
    using xor_buddy [OF c] assms(3) by (cases "2 ^ Suc k dvd c") auto
  have blks: "blk (?l, Suc k) = blk (c, k) \<union> blk (b, k)"
  proof -
    have "blk ` {(c, k), (b, k)} = blk ` {(?l, k), (?l + 2 ^ k, k)}"
      using lc by simp
    then have "\<Union> (blk ` {(c, k), (b, k)}) = \<Union> (blk ` {(?l, k), (?l + 2 ^ k, k)})"
      by simp
    then show ?thesis
      by (simp add: blk_split(1))
  qed
  then show "blk (?l, Suc k) = blk (c, k) \<union> blk (b, k)" .
  have bp: "lists_ok bpool'" "free_blocks bpool' = ?F - {(b, k)}"
    using remove_block [of bpool b k bpool'] fl assms(4,5) by (auto simp: free_blocks_def)
  define C where "C = free_blocks bpool' \<union> A"
  have C: "insert (c, k) (?F \<union> A) = insert (?l, k) (insert (?l + 2 ^ k, k) C)" "(b, k) \<notin> C" "(c, k) \<notin> C"
  proof -
    show "(b, k) \<notin> C" "(c, k) \<notin> C"
      using fl bp(2) assms(4) by (auto simp: C_def)
    have "insert (c, k) (?F \<union> A) = {(c, k), (b, k)} \<union> C"
      using bp(2) assms(4) by (auto simp: C_def)
    then show "insert (c, k) (?F \<union> A) = insert (?l, k) (insert (?l + 2 ^ k, k) C)"
      using lc by simp
  qed
  have nC: "(?l, k) \<notin> C" "(?l + 2 ^ k, k) \<notin> C"
    using C(2,3) lc by (metis insert_iff singletonD)+
  have tl: "tiles (pool_lo bpool) (pool_hi bpool) (insert (c, k) (?F \<union> A))"
    using fl by simp
  have head: "(x, j) \<notin> C" if "x \<in> blk (?l, Suc k)" for x j
  proof
    assume xj: "(x, j) \<in> C"
    have "(x, j) \<in> insert (c, k) (?F \<union> A)" "(c, k) \<in> insert (c, k) (?F \<union> A)" "(b, k) \<in> insert (c, k) (?F \<union> A)"
      using xj assms(4) bp(2) by (auto simp: C_def)
    moreover have "x \<in> blk (c, k) \<or> x \<in> blk (b, k)"
      using that blks by simp
    ultimately have "(x, j) = (c, k) \<or> (x, j) = (b, k)"
      using tiles_unique [OF tl] blk_nonempty [of x j] by metis
    then show False
      using xj C(2,3) by auto
  qed
  have lin: "?l \<in> blk (?l, Suc k)"
    by (rule blk_nonempty)
  have "tiles (pool_lo bpool) (pool_hi bpool) (insert (?l, Suc k) C)"
    using tl unfolding C(1) using tiles_halves [of k ?l C] lc assms(2) head [OF lin] nC by blast
  moreover have "coalesced (free_blocks bpool')" "heads_ok (free_blocks bpool') A pgs"
    using fl bp(2) by (auto simp: coalesced_def heads_ok_def)
  moreover have "free_blocks bpool' \<inter> A = {}" "pool_ok bpool'" "pool_lo bpool' = pool_lo bpool" "pool_hi bpool' = pool_hi bpool"
    using fl bp(2) assms(5) by auto
  ultimately show "floating A (?l, Suc k) bpool' (upd_page ?l f pgs)"
    using bp(1) head [OF lin] heads_upd [of "free_blocks bpool'" A pgs ?l f] by (simp add: floating_def C_def)
qed

text \<open>The null page of a block without a buddy is not taken for a page of the pool.\<close>

definition null_outside :: "u32 \<Rightarrow> buddy_pool \<Rightarrow> bool" where
  "null_outside null_addr bpool \<longleftrightarrow>
     null_addr < phy_addr_start bpool \<or> null_addr \<ge> phy_addr_start bpool + pool_size bpool"

lemma merge_blocks_floating:
  assumes "floating A (c, k) bpool pgs" "null_outside null_addr bpool"
  shows "\<exists>c' k' bpool' pgs'. merge_blocks null_addr c k bpool pgs = Some (c', k', bpool', pgs') \<and>
    floating A (c', k') bpool' pgs' \<and> (k' < MAX_ORDER - 1 \<longrightarrow> (c' XOR 2 ^ k', k') \<notin> free_blocks bpool') \<and>
    phy_addr_start bpool' = phy_addr_start bpool \<and> pool_size bpool' = pool_size bpool \<and>
    (\<forall>x. x \<notin> {pool_lo bpool ..< pool_hi bpool} \<longrightarrow> pgs' x = pgs x)"
  using assms
proof (induction null_addr c k bpool pgs rule: merge_blocks.induct)
  case (1 null_addr c k bpool pgs)
  let ?F = "free_blocks bpool" and ?b = "c XOR 2 ^ k"
  note fl = 1(2) [unfolded floating_def]
  have lt: "k < MAX_ORDER"
    using fl tilesD(2) by blast
  have stop: ?case if "merge_blocks null_addr c k bpool pgs = Some (c, k, bpool, pgs)"
      "k < MAX_ORDER - 1 \<longrightarrow> (?b, k) \<notin> ?F"
    using that 1(2) by auto
  have range: "(?b, j) \<in> ?F \<union> A \<Longrightarrow> pool_lo bpool \<le> ?b \<and> ?b < pool_hi bpool" for j
    using fl tilesD(3,4) [of "pool_lo bpool" "pool_hi bpool" "insert (c, k) (?F \<union> A)" ?b j] zero_less_power [of "2 :: nat" j]
    by (metis add_lessD1 insertI2 less_add_same_cancel1 order_less_le_trans zero_less_numeral)
  show ?case
  proof (cases "k < MAX_ORDER - 1 \<and> pool_lo bpool \<le> ?b \<and> ?b < pool_hi bpool")
    case False
    have "merge_blocks null_addr c k bpool pgs = Some (c, k, bpool, pgs)"
      using False 1(3) unfolding null_outside_def
      by (subst merge_blocks.simps) (auto simp: get_buddy_page_def Let_def pool_lo_def pool_hi_def)
    then show ?thesis
      using stop False range by blast
  next
    case True
    have gb: "get_buddy_page bpool c k = Some ?b"
      using True by (simp add: get_buddy_page_def Let_def pool_lo_def pool_hi_def)
    have "?b < 2 ^ 20"
      using True pool_addr(3) [of bpool] fl by linarith
    then have inp: "\<not> PAGE_TO_ADDR ?b < phy_addr_start bpool" "\<not> PAGE_TO_ADDR ?b \<ge> phy_addr_start bpool + pool_size bpool"
      using page_in_pool [of bpool ?b] True fl by auto
    obtain j where j: "j \<le> k" "(?b, j) \<in> ?F \<union> A"
      using buddy_block [of "pool_lo bpool" "pool_hi bpool" c k "?F \<union> A"] fl True by blast
    show ?thesis
    proof (cases "(?b, k) \<in> ?F")
      case False
      have "page_is_allocated (pgs ?b) \<or> pg_order (pgs ?b) \<noteq> int k"
        using j False fl unfolding heads_ok_def by force
      then have "merge_blocks null_addr c k bpool pgs = Some (c, k, bpool, pgs)"
        using True inp by (subst merge_blocks.simps) (simp add: gb Let_def)
      then show ?thesis
        using stop False by blast
    next
      case free: True
      have pg: "\<not> page_is_allocated (pgs ?b)" "pg_order (pgs ?b) = int k"
        using free fl unfolding heads_ok_def by auto
      have u: "unlink ?b (free_list (areas bpool k)) = Some (remove1 ?b (free_list (areas bpool k)))"
        using free by (simp add: free_blocks_def)
      define bp' where "bp' = upd_area k (\<lambda>a. a\<lparr>free_list := remove1 ?b (free_list (areas bpool k)), nr_free := nr_free a - 1\<rparr>) bpool"
      define pgs' where "pgs' = upd_page (min c ?b) (\<lambda>p. p\<lparr>pg_order := int (k + 1)\<rparr>) pgs"
      have Sk: "Suc k < MAX_ORDER"
        using True by linarith
      note st = merge_step [OF 1(2) Sk refl free bp'_def]
      have next1: "floating A (min c ?b, k + 1) bp' pgs'"
        using st(1) by (simp add: pgs'_def)
      have na: "null_outside null_addr bp'"
        using 1(3) by (simp add: null_outside_def bp'_def)
      have eq: "merge_blocks null_addr c k bpool pgs = merge_blocks null_addr (min c ?b) (k + 1) bp' pgs'"
        using True inp pg by (subst merge_blocks.simps) (simp add: gb u Let_def bp'_def pgs'_def)
      have lohi: "pool_lo bp' = pool_lo bpool" "pool_hi bp' = pool_hi bpool"
          "phy_addr_start bp' = phy_addr_start bpool" "pool_size bp' = pool_size bpool"
        by (simp_all add: bp'_def)
      have "pool_lo bpool \<le> c" "c + 2 ^ k \<le> pool_hi bpool"
        using fl tilesD(3,4) [of "pool_lo bpool" "pool_hi bpool" "insert (c, k) (?F \<union> A)" c k] by auto
      then have "c \<in> {pool_lo bpool ..< pool_hi bpool}"
        using zero_less_power [of "2 :: nat" k] unfolding atLeastLessThan_iff by linarith
      then have frame: "pgs' x = pgs x" if "x \<notin> {pool_lo bpool ..< pool_hi bpool}" for x
        using that True by (auto simp: pgs'_def upd_page_def min_def)
      have IH: "\<exists>c' k' bpool' pgs''. merge_blocks null_addr (min c ?b) (k + 1) bp' pgs' = Some (c', k', bpool', pgs'') \<and>
          floating A (c', k') bpool' pgs'' \<and> (k' < MAX_ORDER - 1 \<longrightarrow> (c' XOR 2 ^ k', k') \<notin> free_blocks bpool') \<and>
          phy_addr_start bpool' = phy_addr_start bp' \<and> pool_size bpool' = pool_size bp' \<and>
          (\<forall>x. x \<notin> {pool_lo bp' ..< pool_hi bp'} \<longrightarrow> pgs'' x = pgs' x)"
        using 1(1) [OF conjunct1 [OF True] refl refl _ _ _ u, unfolded gb option.case] inp pg gb next1 na
        unfolding bp'_def pgs'_def by auto
      then show ?thesis
        unfolding eq lohi using frame by auto
    qed
  qed
qed

text \<open>The pages of the free blocks.\<close>

definition free_pages :: "buddy_pool \<Rightarrow> nat set" where
  "free_pages bpool = \<Union> (blk ` free_blocks bpool)"

lemma tiles_Union:
  assumes "tiles lo hi (B \<union> C)" "B \<inter> C = {}"
  shows "\<Union> (blk ` B) = {lo ..< hi} - \<Union> (blk ` C)"
proof -
  have "\<Union> (blk ` B) \<union> \<Union> (blk ` C) = {lo ..< hi}"
    using assms(1) unfolding tiles_def image_Un Union_Un_distrib by simp
  moreover have "\<Union> (blk ` B) \<inter> \<Union> (blk ` C) = {}"
  proof (rule ccontr)
    assume "\<Union> (blk ` B) \<inter> \<Union> (blk ` C) \<noteq> {}"
    then obtain x b c where "b \<in> B" "c \<in> C" "x \<in> blk b" "x \<in> blk c"
      by blast
    moreover from this have "b = c"
      using tiles_unique [OF assms(1), of b c x] by simp
    ultimately show False
      using assms(2) by blast
  qed
  ultimately show ?thesis
    by blast
qed

lemma pfree_floating:
  assumes "floating A (pg, order) bpool pgs" "null_outside null_addr bpool"
  shows "\<exists>bpool' pgs'. pfree_pages null_addr pg order bpool pgs = Some (bpool', pgs') \<and> buddy_inv A bpool' pgs' \<and>
    free_pages bpool' = {pool_lo bpool ..< pool_hi bpool} - \<Union> (blk ` A) \<and>
    phy_addr_start bpool' = phy_addr_start bpool \<and> pool_size bpool' = pool_size bpool \<and>
    (\<forall>x. x \<notin> {pool_lo bpool ..< pool_hi bpool} \<longrightarrow> pgs' x = pgs x)"
proof -
  obtain c k bp1 p1 where m: "merge_blocks null_addr pg order bpool pgs = Some (c, k, bp1, p1)" "floating A (c, k) bp1 p1"
      "k < MAX_ORDER - 1 \<longrightarrow> (c XOR 2 ^ k, k) \<notin> free_blocks bp1"
      "phy_addr_start bp1 = phy_addr_start bpool" "pool_size bp1 = pool_size bpool"
      "\<forall>x. x \<notin> {pool_lo bpool ..< pool_hi bpool} \<longrightarrow> p1 x = pgs x"
    using merge_blocks_floating [OF assms] by blast
  note fl = m(2) [unfolded floating_def]
  have lohi: "pool_lo bp1 = pool_lo bpool" "pool_hi bp1 = pool_hi bpool"
    using m(4,5) by (simp_all add: pool_lo_def pool_hi_def)
  have order: "order < MAX_ORDER" and k: "k < MAX_ORDER"
    using assms(1) fl tilesD(2) unfolding floating_def by blast+
  have notin: "c \<notin> set (free_list (areas bp1 k))"
    using fl k by (simp add: free_blocks_def)
  define p2 where "p2 = upd_page c (\<lambda>p. p\<lparr>pg_flags := pg_flags p AND NOT 1, pg_order := int k\<rparr>) p1"
  have res: "pfree_pages null_addr pg order bpool pgs = Some (area_push_front k c bp1, p2)"
    using order m(1) notin by (simp add: pfree_pages_def p2_def Let_def)
  have "floating A (c, k) bp1 p2"
    using floating_page [OF m(2) blk_nonempty] by (simp add: p2_def)
  moreover have "\<not> page_is_allocated (p2 c)" "pg_order (p2 c) = int k"
    by (simp_all add: p2_def upd_page_def allocated_odd even_and_iff even_not_iff)
  moreover have "lists_ok (area_push_front k c bp1)"
    using push_lists_ok(2) [of bp1 c k] fl k by blast
  ultimately have inv: "buddy_inv A (area_push_front k c bp1) p2"
    using coalesced_insert [of "free_blocks bp1" k c] m(3) k by (simp add: floating_def buddy_inv_def heads_insert)
  then have "free_pages (area_push_front k c bp1) = {pool_lo bpool ..< pool_hi bpool} - \<Union> (blk ` A)"
    using tiles_Union lohi unfolding buddy_inv_def free_pages_def by (metis push_sel(6,7))
  moreover have "c \<in> {pool_lo bpool ..< pool_hi bpool}"
    using fl tilesD(5) [of "pool_lo bp1" "pool_hi bp1" "insert (c, k) (free_blocks bp1 \<union> A)" c k] blk_nonempty [of c k] lohi by auto
  then have "\<forall>x. x \<notin> {pool_lo bpool ..< pool_hi bpool} \<longrightarrow> p2 x = pgs x"
    using m(6) by (auto simp: p2_def upd_page_def)
  ultimately show ?thesis
    using res inv m(4,5) by (auto simp: area_push_front_def)
qed

lemma inv_float:
  assumes "buddy_inv A bpool pgs" "b \<in> A"
  shows "floating (A - {b}) b bpool pgs"
proof -
  have "insert b (free_blocks bpool \<union> (A - {b})) = free_blocks bpool \<union> A"
    using assms(2) by auto
  moreover have "b \<notin> free_blocks bpool"
    using assms by (auto simp: buddy_inv_def)
  ultimately show ?thesis
    using assms(1) by (auto simp: buddy_inv_def floating_def heads_ok_def)
qed

text \<open>
  C8. \<^verbatim>\<open>pfree_pages\<close> of an allocated block never faults and gives back exactly the pages of that block: the
  free pages grow by them, all other allocated blocks stay as they are, and merging goes as far as it can,
  so that again no two free blocks are buddies. The one assumption is that the address the code computes
  for a missing buddy does not lie in the pool.
\<close>
theorem pfree_pages_correct:
  assumes "buddy_inv A bpool pgs" "(pg, order) \<in> A" "null_outside null_addr bpool"
  shows "\<exists>bpool' pgs'. pfree_pages null_addr pg order bpool pgs = Some (bpool', pgs') \<and>
    buddy_inv (A - {(pg, order)}) bpool' pgs' \<and> free_pages bpool' = free_pages bpool \<union> blk (pg, order) \<and>
    coalesced (free_blocks bpool') \<and> phy_addr_start bpool' = phy_addr_start bpool \<and> pool_size bpool' = pool_size bpool \<and>
    (\<forall>x. x \<notin> {pool_lo bpool ..< pool_hi bpool} \<longrightarrow> pgs' x = pgs x)"
proof -
  have inv: "tiles (pool_lo bpool) (pool_hi bpool) (free_blocks bpool \<union> A)" "free_blocks bpool \<inter> A = {}"
    using assms(1) by (simp_all add: buddy_inv_def)
  obtain bpool' pgs' where r: "pfree_pages null_addr pg order bpool pgs = Some (bpool', pgs')"
      "buddy_inv (A - {(pg, order)}) bpool' pgs'"
      "free_pages bpool' = {pool_lo bpool ..< pool_hi bpool} - \<Union> (blk ` (A - {(pg, order)}))"
      "phy_addr_start bpool' = phy_addr_start bpool" "pool_size bpool' = pool_size bpool"
      "\<forall>x. x \<notin> {pool_lo bpool ..< pool_hi bpool} \<longrightarrow> pgs' x = pgs x"
    using pfree_floating [OF inv_float [OF assms(1,2)] assms(3)] by blast
  have "(free_blocks bpool \<union> {(pg, order)}) \<union> (A - {(pg, order)}) = free_blocks bpool \<union> A"
      "(free_blocks bpool \<union> {(pg, order)}) \<inter> (A - {(pg, order)}) = {}"
    using assms(2) inv(2) by auto
  then have "\<Union> (blk ` (free_blocks bpool \<union> {(pg, order)})) = {pool_lo bpool ..< pool_hi bpool} - \<Union> (blk ` (A - {(pg, order)}))"
    using tiles_Union [of "pool_lo bpool" "pool_hi bpool" "free_blocks bpool \<union> {(pg, order)}" "A - {(pg, order)}"] inv(1) by simp
  then have "free_pages bpool' = free_pages bpool \<union> blk (pg, order)"
    using r(3) by (simp add: free_pages_def Un_commute)
  then show ?thesis
    using r by (auto simp: buddy_inv_def)
qed

section \<open>Initialisation\<close>

lemma init_order_spec:
  assumes "c < e"
  shows "init_order c e n \<le> n \<and> 2 ^ init_order c e n dvd c \<and> c + 2 ^ init_order c e n \<le> e \<and>
    (\<forall>j. init_order c e n < j \<and> j \<le> n \<longrightarrow> \<not> (2 ^ j dvd c \<and> c + 2 ^ j \<le> e))"
proof (induction n)
  case (Suc n)
  show ?case
  proof (cases "c mod 2 ^ Suc n = 0 \<and> c + 2 ^ Suc n \<le> e")
    case True
    then show ?thesis
      by (auto simp: mod_eq_0_iff_dvd)
  next
    case False
    have e: "init_order c e (Suc n) = init_order c e n"
      by (simp only: init_order.simps False if_False)
    have "\<not> (2 ^ j dvd c \<and> c + 2 ^ j \<le> e)" if "init_order c e n < j" "j \<le> Suc n" for j
    proof (cases "j = Suc n")
      case True
      then show ?thesis
        using False unfolding True mod_eq_0_iff_dvd by blast
    next
      case False
      then show ?thesis
        using that Suc.IH by simp
    qed
    then show ?thesis
      using Suc.IH unfolding e by auto
  qed
qed (use assms in auto)

lemma tiles_extend:
  assumes "tiles lo c B" "2 ^ k dvd c" "k < MAX_ORDER" "lo \<le> c"
  shows "tiles lo (c + 2 ^ k) (insert (c, k) B)"
proof -
  have cov: "\<Union> (blk ` B) = {lo ..< c}" and al: "\<forall>(p, k)\<in>B. 2 ^ k dvd p \<and> k < MAX_ORDER"
    and dj: "\<forall>b\<in>B. \<forall>c\<in>B. b \<noteq> c \<longrightarrow> blk b \<inter> blk c = {}"
    using assms(1) by (simp_all add: tiles_def)
  have d: "blk b \<inter> blk (c, k) = {}" if "b \<in> B" for b
  proof -
    have "blk b \<subseteq> {lo ..< c}"
      using that cov by blast
    then show ?thesis
      by (auto simp: blk_def)
  qed
  have "\<Union> (blk ` insert (c, k) B) = {lo ..< c + 2 ^ k}"
    unfolding image_insert Union_insert cov using assms(4) by (auto simp: blk_def)
  moreover have "\<forall>b\<in>insert (c, k) B. \<forall>c\<in>insert (c, k) B. b \<noteq> c \<longrightarrow> blk b \<inter> blk c = {}"
    using dj d by (metis Int_commute insert_iff)
  ultimately show ?thesis
    using al assms(2,3) by (simp add: tiles_def)
qed

text \<open>What is filed so far tiles the pages up to \<open>c\<close>, each block with the order the greedy choice gives.\<close>

definition init_inv :: "nat \<Rightarrow> nat \<Rightarrow> buddy_pool \<Rightarrow> page_array \<Rightarrow> bool" where
  "init_inv c e bpool pgs \<longleftrightarrow> lists_ok bpool \<and> tiles (pool_lo bpool) c (free_blocks bpool) \<and> heads_ok (free_blocks bpool) {} pgs \<and>
     coalesced (free_blocks bpool) \<and> (\<forall>(p, k)\<in>free_blocks bpool. k = init_order p e (MAX_ORDER - 1) \<and> p < c) \<and> pool_lo bpool \<le> c \<and> c \<le> e"

lemma init_step:
  assumes "init_inv c e bpool pgs" "c < e" "k = init_order c e (MAX_ORDER - 1)"
  shows "init_inv (c + 2 ^ k) e (area_push_back k c bpool) (upd_page c (\<lambda>p. p\<lparr>pg_order := int k, pg_flags := 0\<rparr>) pgs)"
proof -
  let ?F = "free_blocks bpool"
  note inv = assms(1) [unfolded init_inv_def]
  note o = init_order_spec [OF assms(2), of "MAX_ORDER - 1", folded assms(3)]
  have k: "k < MAX_ORDER"
    using o by (simp add: MAX_ORDER_def)
  have new: "(c, j) \<notin> ?F" for j
    using inv by auto
  have "(c XOR 2 ^ k, k) \<notin> ?F" if "k < MAX_ORDER - 1"
  proof
    assume f: "(c XOR 2 ^ k, k) \<in> ?F"
    then have b: "k = init_order (c XOR 2 ^ k) e (MAX_ORDER - 1)" "c XOR 2 ^ k < c"
      using inv by auto
    then have n: "\<not> 2 ^ Suc k dvd c"
      using xor_buddy(1) [of k c] o by (auto split: if_splits)
    then have p: "c XOR 2 ^ k = c - 2 ^ k" "2 ^ Suc k dvd c - 2 ^ k" "2 ^ k \<le> c"
      using xor_buddy [of k c] o by auto
    have "c XOR 2 ^ k < e"
      using b(2) assms(2) by simp
    then have "\<not> (2 ^ Suc k dvd c - 2 ^ k \<and> c - 2 ^ k + 2 ^ Suc k \<le> e)"
      using init_order_spec [of "c XOR 2 ^ k" e "MAX_ORDER - 1"] b(1) that p(1) by (metis Suc_leI lessI)
    then show False
      using p o by simp
  qed
  then have "coalesced (insert (c, k) ?F)"
    using inv by (intro coalesced_insert) auto
  moreover have "heads_ok ?F {} (upd_page c (\<lambda>p. p\<lparr>pg_order := int k, pg_flags := 0\<rparr>) pgs)"
    using inv new by (intro heads_upd) auto
  moreover have "tiles (pool_lo bpool) (c + 2 ^ k) (insert (c, k) ?F)"
    using inv o k by (intro tiles_extend) auto
  moreover have "lists_ok (area_push_back k c bpool)"
    using inv new k by (intro push_lists_ok) auto
  moreover have "p < c + 2 ^ k" if "(p, j) \<in> ?F" for p j
    using that inv by (metis (no_types, lifting) case_prodD trans_less_add1)
  ultimately show ?thesis
    using inv o k assms(3) unfolding init_inv_def
    by (auto simp: heads_insert) (simp_all add: upd_page_def allocated_odd)
qed

lemma init_blocks_inv:
  assumes "init_inv c e bpool pgs" "init_blocks c e bpool pgs = (bpool', pgs')"
  shows "init_inv e e bpool' pgs' \<and> phy_addr_start bpool' = phy_addr_start bpool \<and> pool_size bpool' = pool_size bpool"
  using assms
proof (induction c e bpool pgs rule: init_blocks.induct)
  case (1 c e bpool pgs)
  show ?case
  proof (cases "c < e")
    case True
    have "init_blocks (c + 2 ^ init_order c e (MAX_ORDER - 1)) e (area_push_back (init_order c e (MAX_ORDER - 1)) c bpool)
        (upd_page c (\<lambda>p. p\<lparr>pg_order := int (init_order c e (MAX_ORDER - 1)), pg_flags := 0\<rparr>) pgs) = (bpool', pgs')"
      using 1(3) True by (simp add: init_blocks.simps [of c] Let_def)
    from 1(1) [OF True refl refl init_step [OF 1(2) True refl] this] show ?thesis
      by simp
  next
    case False
    then have "c = e"
      using 1(2) by (simp add: init_inv_def)
    then show ?thesis
      using 1(2,3) init_blocks.simps [of e e bpool pgs] by simp
  qed
qed

lemma buddy_init_spec:
  assumes "4096 dvd unat start_addr" "4096 dvd unat sz" "unat start_addr + unat sz < 2 ^ 32"
  shows "case buddy_init start_addr sz pgs of (bpool, pgs') \<Rightarrow> buddy_inv {} bpool pgs' \<and>
    free_pages bpool = {unat start_addr div 4096 ..< (unat start_addr + unat sz) div 4096} \<and>
    phy_addr_start bpool = start_addr \<and> pool_size bpool = sz"
proof -
  define b0 where "b0 = \<lparr>areas = (\<lambda>_. \<lparr>free_list = [], nr_free = 0\<rparr>), phy_addr_start = start_addr, pool_size = sz\<rparr>"
  have ok: "pool_ok b0"
    using assms by (simp add: b0_def pool_ok_def)
  have e: "free_blocks b0 = {}"
    by (simp add: b0_def free_blocks_def)
  have s: "unat (start_addr + sz) = unat start_addr + unat sz"
    using assms(3) by (intro unat_plus_no_wrap) simp
  have lohi: "pool_lo b0 = unat start_addr div 4096" "pool_hi b0 = (unat start_addr + unat sz) div 4096"
    using s by (simp_all add: pool_lo_def pool_hi_def b0_def drop_bit_eq_div unat_div)
  have "init_inv (pool_lo b0) (pool_hi b0) b0 pgs"
    unfolding init_inv_def e lohi
    by (auto simp: lists_ok_def b0_def tiles_def heads_ok_def coalesced_def intro: div_le_mono)
  moreover obtain bpool pgs' where r: "buddy_init start_addr sz pgs = (bpool, pgs')"
    by fastforce
  then have "init_blocks (pool_lo b0) (pool_hi b0) b0 pgs = (bpool, pgs')"
    by (simp add: buddy_init_def b0_def pool_lo_def pool_hi_def)
  ultimately have f: "init_inv (pool_hi b0) (pool_hi b0) bpool pgs'" "phy_addr_start bpool = start_addr" "pool_size bpool = sz"
    using init_blocks_inv [of "pool_lo b0" "pool_hi b0" b0 pgs bpool pgs'] by (simp_all add: b0_def)
  have lh: "pool_lo bpool = pool_lo b0" "pool_hi bpool = pool_hi b0" "pool_ok bpool"
    using f(2,3) ok by (simp_all add: pool_lo_def pool_hi_def pool_ok_def b0_def)
  have "buddy_inv {} bpool pgs'"
    using f(1) lh by (simp add: init_inv_def buddy_inv_def)
  moreover have "free_pages bpool = {pool_lo b0 ..< pool_hi b0}"
    using f(1) lh unfolding free_pages_def init_inv_def tiles_def by simp
  ultimately show ?thesis
    using r f(2,3) lohi by simp
qed

text \<open>
  C33. \<^verbatim>\<open>buddy_init\<close> establishes the invariant of the allocator for every page-aligned region below 4 GiB:
  all pages of the region are free, they are tiled by aligned blocks of at most 1024 pages, and the
  blocks are as large as possible, no two of them being buddies.
\<close>
theorem buddy_init_correct:
  assumes "4096 dvd unat start_addr" "4096 dvd unat sz" "unat start_addr + unat sz < 2 ^ 32"
  shows "case buddy_init start_addr sz pgs of (bpool, pgs') \<Rightarrow> buddy_inv {} bpool pgs' \<and>
    free_pages bpool = {unat start_addr div 4096 ..< (unat start_addr + unat sz) div 4096} \<and>
    phy_addr_start bpool = start_addr \<and> pool_size bpool = sz"
  by (rule buddy_init_spec [OF assms])

section \<open>An example pool\<close>

text \<open>Eight pages from 2 MiB on, one block of order 3; \<open>ex_used\<close> is the state after two pages were taken.\<close>

definition ex_pages :: page_array where
  "ex_pages = (\<lambda>_. \<lparr>pg_flags = 0, ref_count = 0, pg_order = 0\<rparr>)"

definition ex_mem :: "buddy_pool \<times> page_array" where
  "ex_mem = buddy_init 0x200000 0x8000 ex_pages"

definition ex_used :: "nat option \<times> buddy_pool \<times> page_array" where
  "ex_used = the (palloc_pages 1 (fst ex_mem) (snd ex_mem))"

lemma ex_mem_inv: "buddy_inv {} (fst ex_mem) (snd ex_mem)" "phy_addr_start (fst ex_mem) = 0x200000" "pool_size (fst ex_mem) = 0x8000"
  using buddy_init_spec [of "0x200000" "0x8000" ex_pages] by (simp_all add: ex_mem_def split: prod.splits)

lemma ex_mem_free: "free_list (areas (fst ex_mem) 3) = [512]"
  by code_simp

lemma ex_alloc:
  "\<exists>bpool' pgs'. palloc_pages 1 (fst ex_mem) (snd ex_mem) = Some (Some 512, bpool', pgs') \<and> ex_used = (Some 512, bpool', pgs')"
proof -
  have "palloc_pages 1 (fst ex_mem) (snd ex_mem) \<noteq> None" "fst (the (palloc_pages 1 (fst ex_mem) (snd ex_mem))) = Some 512"
    by code_simp+
  then show ?thesis
    by (cases "the (palloc_pages 1 (fst ex_mem) (snd ex_mem))") (auto simp: ex_used_def)
qed

lemma ex_used_inv:
  "buddy_inv {(512, 1)} (fst (snd ex_used)) (snd (snd ex_used))" "phy_addr_start (fst (snd ex_used)) = 0x200000"
proof -
  obtain bpool' pgs' where a: "palloc_pages 1 (fst ex_mem) (snd ex_mem) = Some (Some 512, bpool', pgs')" "ex_used = (Some 512, bpool', pgs')"
    using ex_alloc by blast
  have "buddy_inv {(512, 1)} bpool' pgs'" "phy_addr_start bpool' = 0x200000"
    using palloc_pages_spec [OF ex_mem_inv(1), of 1] unfolding a(1) by (simp_all add: MAX_ORDER_def ex_mem_inv(2))
  then show "buddy_inv {(512, 1)} (fst (snd ex_used)) (snd (snd ex_used))" "phy_addr_start (fst (snd ex_used)) = 0x200000"
    by (simp_all add: a(2))
qed

theorem buddy_init_correct_witness:
  "free_pages (fst (buddy_init 0x200000 0x8000 ex_pages)) = {512 ..< 520}"
  using buddy_init_correct [of "0x200000" "0x8000" ex_pages] by (simp split: prod.splits)

theorem palloc_pages_correct_witness:
  "\<exists>bpool' pgs'. palloc_pages 1 (fst ex_mem) (snd ex_mem) = Some (Some 512, bpool', pgs') \<and> buddy_inv {(512, 1)} bpool' pgs'"
proof -
  obtain bpool' pgs' where a: "palloc_pages 1 (fst ex_mem) (snd ex_mem) = Some (Some 512, bpool', pgs')"
    using ex_alloc by blast
  show ?thesis
    using palloc_pages_correct [OF ex_mem_inv(1), of 1] unfolding a by (simp add: MAX_ORDER_def)
qed

theorem pfree_pages_correct_witness:
  "\<exists>bpool' pgs'. pfree_pages 0 512 1 (fst (snd ex_used)) (snd (snd ex_used)) = Some (bpool', pgs') \<and> buddy_inv {} bpool' pgs'"
proof -
  have "null_outside 0 (fst (snd ex_used))"
    by (simp add: null_outside_def ex_used_inv(2))
  then show ?thesis
    using pfree_pages_correct [OF ex_used_inv(1), of 512 1 0] by auto
qed

end
