(* ===== verification/Vma.thy ===== *)
theory Vma
  imports Inode_Cache
begin

text \<open>
  The memory areas of a process, \<^verbatim>\<open>mm/vma.c\<close>: a list sorted by address, with merging of adjacent areas on
  insertion and two searches for a free range. The bodies run under the lock of the address space.
  What a page of an area shows is what \<^verbatim>\<open>mm/swap.c\<close> puts into it on a page fault.
  Opening the file of an area again while it is open gives the same inode (theory Inode_Cache), so what an
  area does to its inode is to count one reference up or down; \<open>irefs\<close> are these counts. Whether \<^verbatim>\<open>kmalloc\<close>
  succeeds and whether the device of an inode has a partition are parameters.
\<close>

section \<open>The code\<close>

definition USER_VADDR_START :: u32 where "USER_VADDR_START = 0x8048000"
definition USER_STACK_SIZE :: u32 where "USER_STACK_SIZE = 0x800000"
definition USER_STACK_BASE :: u32 where "USER_STACK_BASE = 0xC0000000"
definition USER_MMAP_SEARCH_TOP :: u32 where "USER_MMAP_SEARCH_TOP = USER_STACK_BASE - USER_STACK_SIZE"

record vm_area =
  vma_start :: u32
  vma_end :: u32
  vma_flags :: u32
  vma_filesz :: u32
  vma_pgoff :: u32
  vma_inode :: addr

record vmas =
  vma_list :: "vm_area list"
  irefs :: "addr \<Rightarrow> int"

definition ref_inode :: "addr \<Rightarrow> int \<Rightarrow> vmas \<Rightarrow> vmas" where
  "ref_inode i d s = (if i = NULL then s else s\<lparr>irefs := (irefs s)(i := irefs s i + d)\<rparr>)"

definition vma_contains_address :: "u32 \<Rightarrow> vm_area \<Rightarrow> bool" where
  "vma_contains_address target_vaddr vma \<longleftrightarrow> target_vaddr \<ge> vma_start vma \<and> target_vaddr < vma_end vma"

definition find_vma :: "u32 \<Rightarrow> vmas \<Rightarrow> vm_area option" where
  "find_vma vaddr s = List.find (vma_contains_address vaddr) (vma_list s)"

definition vma_after_address :: "u32 \<Rightarrow> vm_area \<Rightarrow> bool" where
  "vma_after_address new_start vma \<longleftrightarrow> vma_start vma > new_start"

text \<open>The tests for joining a new area to its two neighbours.\<close>

definition joins_prev :: "vm_area \<Rightarrow> u32 \<Rightarrow> u32 \<Rightarrow> addr \<Rightarrow> u32 \<Rightarrow> bool" where
  "joins_prev p start pgoff inode flags \<longleftrightarrow> vma_end p = start \<and> vma_flags p = flags \<and> vma_inode p = inode \<and>
     (inode = NULL \<or> vma_pgoff p + (vma_end p - vma_start p) div PG_SIZE = pgoff)"

definition joins_next :: "vm_area \<Rightarrow> u32 \<Rightarrow> addr \<Rightarrow> u32 \<Rightarrow> bool" where
  "joins_next n end inode flags \<longleftrightarrow> vma_start n = end \<and> vma_flags n = flags \<and> vma_inode n = inode"

definition add_vma_sorted :: "bool \<Rightarrow> (addr \<Rightarrow> bool) \<Rightarrow> u32 \<Rightarrow> u32 \<Rightarrow> u32 \<Rightarrow> addr \<Rightarrow> u32 \<Rightarrow> u32 \<Rightarrow> vmas \<Rightarrow> vmas halting" where
  "add_vma_sorted kmalloc_ok part_ok start end pgoff inode flags filesz s = (let
     pre = takeWhile (\<lambda>v. \<not> vma_after_address start v) (vma_list s);
     suf = dropWhile (\<lambda>v. \<not> vma_after_address start v) (vma_list s)
   in if pre \<noteq> [] \<and> joins_prev (last pre) start pgoff inode flags then
     (if suf \<noteq> [] \<and> joins_next (hd suf) end inode flags then
        Some (ref_inode (vma_inode (hd suf)) (- 1)
          (s\<lparr>vma_list := butlast pre @ (last pre)\<lparr>vma_end := vma_end (hd suf)\<rparr> # tl suf\<rparr>))
      else Some (s\<lparr>vma_list := butlast pre @ (last pre)\<lparr>vma_end := end\<rparr> # suf\<rparr>))
   else if suf \<noteq> [] \<and> joins_next (hd suf) end inode flags then
     Some (s\<lparr>vma_list := pre @ (hd suf)\<lparr>vma_start := start\<rparr> # tl suf\<rparr>)
   else do {
     ASSERT kmalloc_ok;
     ASSERT (inode = NULL \<or> part_ok inode);
     let vma = \<lparr>vma_start = start, vma_end = end, vma_flags = flags, vma_filesz = filesz, vma_pgoff = pgoff, vma_inode = inode\<rparr>;
     Some (ref_inode inode 1 (s\<lparr>vma_list := pre @ vma # suf\<rparr>))
   })"

text \<open>\<^verbatim>\<open>remove_vma\<close> of the area at position \<open>i\<close>.\<close>

definition remove_vma :: "nat \<Rightarrow> vmas \<Rightarrow> vmas halting" where
  "remove_vma i s = do {
     ASSERT (i < length (vma_list s));
     Some (ref_inode (vma_inode (vma_list s ! i)) (- 1)
       (s\<lparr>vma_list := take i (vma_list s) @ drop (Suc i) (vma_list s)\<rparr>))
   }"

fun clear_loop :: "vm_area list \<Rightarrow> vmas \<Rightarrow> vmas" where
  "clear_loop [] s = s"
| "clear_loop (v # vs) s = clear_loop vs (ref_inode (vma_inode v) (- 1) (s\<lparr>vma_list := vs\<rparr>))"

definition clear_vma_list :: "vmas \<Rightarrow> vmas" where
  "clear_vma_list s = clear_loop (vma_list s) s"

text \<open>The copy for a child: the answers of \<^verbatim>\<open>kmalloc\<close> are a list; the second component is the list built.\<close>

fun copy_loop :: "bool list \<Rightarrow> (addr \<Rightarrow> bool) \<Rightarrow> vm_area list \<Rightarrow> vm_area list \<Rightarrow> vmas \<Rightarrow> (bool \<times> vm_area list \<times> vmas) halting" where
  "copy_loop oks part_ok [] acc s = Some (True, acc, s)"
| "copy_loop [] part_ok (v # vs) acc s = Some (False, acc, s)"
| "copy_loop (ok # oks) part_ok (v # vs) acc s =
     (if \<not> ok then Some (False, acc, s)
      else do {
        ASSERT (vma_inode v = NULL \<or> part_ok (vma_inode v));
        copy_loop oks part_ok vs (acc @ [v]) (ref_inode (vma_inode v) 1 s)
      })"

definition copy_vma_list :: "bool list \<Rightarrow> (addr \<Rightarrow> bool) \<Rightarrow> vmas \<Rightarrow> vm_area list \<Rightarrow> (bool \<times> vm_area list \<times> vmas) halting" where
  "copy_vma_list oks part_ok parent child = copy_loop oks part_ok (vma_list parent) child parent"

fun gap_loop :: "vm_area list \<Rightarrow> u32 \<Rightarrow> u32 \<Rightarrow> u32 + u32" where
  "gap_loop [] search_ptr sz = Inr search_ptr"
| "gap_loop (v # vs) search_ptr sz =
     (if vma_start v > search_ptr \<and> vma_start v - search_ptr \<ge> sz then Inl search_ptr
      else gap_loop vs (if vma_end v > search_ptr then vma_end v else search_ptr) sz)"

definition vma_find_gap :: "u32 \<Rightarrow> vmas \<Rightarrow> u32" where
  "vma_find_gap pg_cnt s = (let
     sz = pg_cnt * PG_SIZE;
     upper_limit = USER_STACK_BASE - USER_STACK_SIZE
   in if vma_list s = [] then USER_VADDR_START
   else case gap_loop (vma_list s) USER_VADDR_START sz of
       Inl p \<Rightarrow> p
     | Inr p \<Rightarrow> if upper_limit - p \<ge> sz then p else 0)"

text \<open>The reverse search walks the list from its end.\<close>

fun gap_rev_loop :: "vm_area list \<Rightarrow> u32 \<Rightarrow> u32 \<Rightarrow> u32 + u32" where
  "gap_rev_loop [] search_end sz = Inr search_end"
| "gap_rev_loop (v # vs) search_end sz =
     (if search_end > vma_end v \<and> search_end - vma_end v \<ge> sz then Inl (search_end - sz)
      else gap_rev_loop vs (if vma_start v < search_end then vma_start v else search_end) sz)"

definition vma_find_gap_reverse :: "u32 \<Rightarrow> vmas \<Rightarrow> u32" where
  "vma_find_gap_reverse pg_cnt s = (let
     sz = pg_cnt * PG_SIZE;
     lower_limit = USER_VADDR_START;
     search_end = USER_MMAP_SEARCH_TOP
   in if search_end \<le> lower_limit \<or> search_end - lower_limit < sz then 0
   else if vma_list s = [] then search_end - sz
   else case gap_rev_loop (rev (vma_list s)) search_end sz of
       Inl p \<Rightarrow> p
     | Inr e \<Rightarrow> if e > lower_limit \<and> e - lower_limit \<ge> sz then e - sz else 0)"

text \<open>\<^verbatim>\<open>vma_split\<close> of the area at position \<open>i\<close>; \<open>False\<close> when there is no memory for the new area.\<close>

definition vma_split :: "bool \<Rightarrow> (addr \<Rightarrow> bool) \<Rightarrow> nat \<Rightarrow> u32 \<Rightarrow> vmas \<Rightarrow> (bool \<times> vmas) halting" where
  "vma_split kmalloc_ok part_ok i a s = do {
     ASSERT (i < length (vma_list s));
     if \<not> kmalloc_ok then Some (False, s)
     else do {
       let v = vma_list s ! i;
       let n = v\<lparr>vma_start := a, vma_pgoff := vma_pgoff v + (a - vma_start v) div PG_SIZE\<rparr>;
       ASSERT (vma_inode v = NULL \<or> part_ok (vma_inode v));
       Some (True, ref_inode (vma_inode v) 1
         (s\<lparr>vma_list := take i (vma_list s) @ v\<lparr>vma_end := a\<rparr> # n # drop (Suc i) (vma_list s)\<rparr>))
     }
   }"

text \<open>
  What \<^verbatim>\<open>swap_page\<close> puts into a fresh page of an area: zeros, or a number of bytes of the file from a position on
  followed by zeros. The position is \<^verbatim>\<open>vma_pgoff\<close> plus an offset in bytes.
\<close>

datatype page_source = Zero_page | File_page addr u32 u32

definition fill_page :: "vm_area \<Rightarrow> u32 \<Rightarrow> page_source" where
  "fill_page vma page_vaddr =
     (if vma_inode vma \<noteq> NULL then let offset_in_vma = page_vaddr - vma_start vma in
        if offset_in_vma < vma_filesz vma then
          let read_size = (if offset_in_vma + PG_SIZE > vma_filesz vma then vma_filesz vma - offset_in_vma else PG_SIZE)
          in File_page (vma_inode vma) (vma_pgoff vma + offset_in_vma) read_size
        else Zero_page
      else Zero_page)"

section \<open>The address map\<close>

definition vma_ok :: "vm_area list \<Rightarrow> bool" where
  "vma_ok l \<longleftrightarrow> (\<forall>v\<in>set l. vma_start v < vma_end v) \<and> sorted_wrt (\<lambda>v w. vma_end v \<le> vma_start w) l"

text \<open>What a process sees of a page: its access rights, its file, and what a page fault brings in.\<close>

type_synonym page_view = "u32 \<times> addr \<times> page_source"

definition attrs :: "vm_area \<Rightarrow> u32 \<Rightarrow> page_view" where
  "attrs v x = (vma_flags v, vma_inode v, fill_page v x)"

definition vmap :: "vm_area list \<Rightarrow> u32 \<rightharpoonup> page_view" where
  "vmap l x = map_option (\<lambda>v. attrs v x) (List.find (vma_contains_address x) l)"

definition rights :: "page_view \<Rightarrow> u32 \<times> addr" where
  "rights a = (fst a, fst (snd a))"

text \<open>The area ends where a new one starts, is like it, and its file offset, counted in pages, goes on there.\<close>

definition continued_by :: "vm_area \<Rightarrow> vm_area \<Rightarrow> bool" where
  "continued_by v m \<longleftrightarrow> vma_end v = vma_start m \<and> vma_flags v = vma_flags m \<and> vma_inode v = vma_inode m \<and>
     vma_pgoff v + (vma_end v - vma_start v) div PG_SIZE = vma_pgoff m"

definition precedes_like :: "vm_area \<Rightarrow> vm_area \<Rightarrow> bool" where
  "precedes_like m v \<longleftrightarrow> vma_start v = vma_end m \<and> vma_flags v = vma_flags m \<and> vma_inode v = vma_inode m"

text \<open>The number of areas that hold a reference to an inode.\<close>

definition held :: "vm_area list \<Rightarrow> addr \<Rightarrow> int" where
  "held l i = int (length (filter (\<lambda>v. vma_inode v = i \<and> i \<noteq> NULL) l))"

lemma held_simps [simp]: "held [] i = 0" "held (v # l) i = (if vma_inode v = i \<and> i \<noteq> NULL then 1 else 0) + held l i"
    "held (l @ l') i = held l i + held l' i"
  by (simp_all add: held_def)

lemma ref_inode_sel [simp]:
  "vma_list (ref_inode i d s) = vma_list s" "irefs (ref_inode i d s) j = irefs s j + (if j = i \<and> i \<noteq> NULL then d else 0)"
  by (simp_all add: ref_inode_def)

lemma vmap_append: "vmap (l @ l') x = (case vmap l x of None \<Rightarrow> vmap l' x | Some a \<Rightarrow> Some a)"
  by (induction l) (auto simp: vmap_def)

lemma vmap_Cons: "vmap (v # l) x = (if vma_contains_address x v then Some (attrs v x) else vmap l x)"
  by (simp add: vmap_def)

lemma vmap_Nil [simp]: "vmap [] x = None"
  by (simp add: vmap_def)

lemma vmap_out: "(\<And>v. v \<in> set l \<Longrightarrow> \<not> vma_contains_address x v) \<Longrightarrow> vmap l x = None"
  by (simp add: vmap_def find_None_iff)

lemma vma_ok_Cons: "vma_ok (v # l) \<longleftrightarrow> vma_start v < vma_end v \<and> (\<forall>w\<in>set l. vma_end v \<le> vma_start w) \<and> vma_ok l"
  by (auto simp: vma_ok_def)

lemma vma_ok_append: "vma_ok (l @ l') \<longleftrightarrow> vma_ok l \<and> vma_ok l' \<and> (\<forall>v\<in>set l. \<forall>w\<in>set l'. vma_end v \<le> vma_start w)"
  by (auto simp: vma_ok_def sorted_wrt_append)

lemma vma_split_position:
  assumes "vma_ok l" "pre = takeWhile (\<lambda>v. \<not> vma_after_address start v) l" "suf = dropWhile (\<lambda>v. \<not> vma_after_address start v) l"
    and "start < end" "\<forall>v\<in>set l. vma_end v \<le> start \<or> end \<le> vma_start v"
  shows "l = pre @ suf" "\<forall>v\<in>set pre. vma_end v \<le> start" "\<forall>v\<in>set suf. end \<le> vma_start v"
proof -
  show l: "l = pre @ suf"
    by (simp add: assms(2,3))
  have "\<not> vma_after_address start v" if "v \<in> set pre" for v
    using that assms(2) set_takeWhileD by fastforce
  then show "\<forall>v\<in>set pre. vma_end v \<le> start"
    using assms(4,5) l by (fastforce simp: vma_after_address_def)
  show "\<forall>v\<in>set suf. end \<le> vma_start v"
  proof (cases suf)
    case (Cons w ws)
    have w: "vma_after_address start w"
      using Cons assms(3) by (metis hd_dropWhile list.distinct(1) list.sel(1))
    have ok: "vma_ok (w # ws)"
      using assms(1) l Cons by (simp add: vma_ok_append)
    show ?thesis
    proof
      fix v
      assume v: "v \<in> set suf"
      have "vma_start w \<le> vma_start v" "vma_start v < vma_end v"
        using ok v Cons by (auto simp: vma_ok_def intro: order.trans [OF less_imp_le])
      then have "\<not> vma_end v \<le> start"
        using w unfolding vma_after_address_def by auto
      then show "end \<le> vma_start v"
        using assms(5) l v by auto
    qed
  qed simp
qed

lemma vmap_below: "\<forall>v\<in>set l. vma_end v \<le> b \<Longrightarrow> b \<le> x \<Longrightarrow> vmap l x = None"
  by (rule vmap_out) (auto simp: vma_contains_address_def)

lemma vmap_above: "\<forall>v\<in>set l. b \<le> vma_start v \<Longrightarrow> x < b \<Longrightarrow> vmap l x = None"
  by (rule vmap_out) (auto simp: vma_contains_address_def)

text \<open>A list of areas around a position: below, at it, above.\<close>

lemma vmap_around:
  assumes "\<forall>v\<in>set l. vma_end v \<le> vma_start m" "\<forall>v\<in>set r. vma_end m \<le> vma_start v" "vma_start m < vma_end m"
  shows "vmap (l @ m # r) x = (if x < vma_start m then vmap l x else if x < vma_end m then Some (attrs m x) else vmap r x)"
proof -
  have "vmap l x = None" if "vma_start m \<le> x"
    using assms(1) that by (rule vmap_below)
  moreover have "vmap r x = None" if "x < vma_end m"
    using assms(2) that by (rule vmap_above)
  ultimately show ?thesis
    using assms(3) by (auto simp: vmap_append vmap_Cons vma_contains_address_def not_less split: option.splits)
qed

text \<open>
  The effect of adding an area on any aspect \<open>g\<close> of the address map that like areas agree on, or on all of
  it when no neighbour is joined.
\<close>

lemma add_vma_map:
  assumes "vma_ok (vma_list s)" "start < end" "\<forall>v\<in>set (vma_list s). vma_end v \<le> start \<or> end \<le> vma_start v"
    and "inode = NULL \<or> part_ok inode"
    and m: "m = \<lparr>vma_start = start, vma_end = end, vma_flags = flags, vma_filesz = filesz, vma_pgoff = pgoff, vma_inode = inode\<rparr>"
    and like: "(\<forall>v w x. vma_flags v = flags \<and> vma_inode v = inode \<and> vma_flags w = flags \<and> vma_inode w = inode \<longrightarrow>
        g (attrs v x) = g (attrs w x)) \<or>
      inode \<noteq> NULL \<and> (\<forall>v\<in>set (vma_list s). \<not> continued_by v m \<and> \<not> precedes_like m v)"
  shows "\<exists>s'. add_vma_sorted True part_ok start end pgoff inode flags filesz s = Some s' \<and> vma_ok (vma_list s') \<and>
    (\<forall>x. map_option g (vmap (vma_list s') x) =
      (if start \<le> x \<and> x < end then Some (g (attrs m x)) else map_option g (vmap (vma_list s) x))) \<and>
    (\<forall>i. irefs s' i - held (vma_list s') i = irefs s i - held (vma_list s) i)"
proof -
  define pre where "pre = takeWhile (\<lambda>v. \<not> vma_after_address start v) (vma_list s)"
  define suf where "suf = dropWhile (\<lambda>v. \<not> vma_after_address start v) (vma_list s)"
  note pos = vma_split_position [OF assms(1) pre_def suf_def assms(2,3)]
  have ok: "vma_ok pre" "vma_ok suf"
    using assms(1) pos(1) by (auto simp: vma_ok_append)
  have se: "vmap (vma_list s) x = (if x < start then vmap pre x else if x < end then None else vmap suf x)" for x
    using vmap_below [OF pos(2), of x] vmap_above [OF pos(3), of x] assms(2) unfolding pos(1)
    by (auto simp: vmap_append split: option.splits)
  have new: ?thesis if "s' = ref_inode r d (s\<lparr>vma_list := l @ k # u\<rparr>)"
      and "add_vma_sorted True part_ok start end pgoff inode flags filesz s = Some s'"
      and "vma_ok l" "vma_ok u" "\<forall>v\<in>set l. vma_end v \<le> vma_start k" "\<forall>v\<in>set u. vma_end k \<le> vma_start v"
      and "vma_start k \<le> start" "end \<le> vma_end k" "\<forall>x. g (attrs k x) = g (attrs m x)"
      and "\<forall>x < start. map_option g (vmap pre x) = (if x < vma_start k then map_option g (vmap l x) else Some (g (attrs k x)))"
      and "\<forall>x\<ge>end. map_option g (vmap suf x) = (if x < vma_end k then Some (g (attrs k x)) else map_option g (vmap u x))"
      and "\<forall>i. held (l @ k # u) i = held (vma_list s) i + (if i = r \<and> r \<noteq> NULL then d else 0)" for s' l k u r d
  proof -
    have k: "vma_start k < vma_end k"
      using that(7,8) assms(2) by auto
    have "map_option g (vmap (l @ k # u) x) =
        (if start \<le> x \<and> x < end then Some (g (attrs m x)) else map_option g (vmap (vma_list s) x))" for x
      unfolding vmap_around [OF that(5,6) k] se using that(7-11) assms(2) by (auto simp: not_less simp del: map_option_eq_Some)
    moreover have "vma_ok (l @ k # u)"
      using that(3-6) k by (fastforce simp: vma_ok_append vma_ok_Cons)
    ultimately show ?thesis
      using that(1,2,12) by (intro exI [of _ s']) simp
  qed
  have agree: "g (attrs v x) = g (attrs w x)"
    if "\<exists>p\<in>set (vma_list s). joins_prev p start pgoff inode flags \<or> joins_next p end inode flags"
      "vma_flags v = flags" "vma_inode v = inode" "vma_flags w = flags" "vma_inode w = inode" for v w x
    using like that by (auto simp: m continued_by_def precedes_like_def joins_prev_def joins_next_def)
  note unf = add_vma_sorted_def Let_def pre_def [symmetric] suf_def [symmetric]
  consider (both) q p n r where "pre = q @ [p]" "joins_prev p start pgoff inode flags" "suf = n # r" "joins_next n end inode flags"
    | (prev) q p where "pre = q @ [p]" "joins_prev p start pgoff inode flags" "suf = [] \<or> \<not> joins_next (hd suf) end inode flags"
    | (nxt) n r where "pre = [] \<or> \<not> joins_prev (last pre) start pgoff inode flags" "suf = n # r" "joins_next n end inode flags"
    | (none) "pre = [] \<or> \<not> joins_prev (last pre) start pgoff inode flags" "suf = [] \<or> \<not> joins_next (hd suf) end inode flags"
    by (metis append_butlast_last_id list.exhaust_sel)
  then show ?thesis
  proof cases
    case both
    let ?k = "p\<lparr>vma_end := vma_end n\<rparr>"
    have j: "vma_end p = start" "vma_flags p = flags" "vma_inode p = inode" "vma_start n = end" "vma_flags n = flags" "vma_inode n = inode"
      using both(2,4) by (auto simp: joins_prev_def joins_next_def)
    have "p \<in> set (vma_list s)"
      using pos(1) both(1) by simp
    then have g: "g (attrs ?k x) = g (attrs m x)" "g (attrs p x) = g (attrs m x)" "g (attrs n x) = g (attrs m x)" for x
      using both(2) j by (auto intro!: agree simp: m)
    have o: "\<forall>v\<in>set q. vma_end v \<le> vma_start p" "vma_start p < start" "\<forall>v\<in>set r. vma_end n \<le> vma_start v" "end < vma_end n"
        "vma_ok q" "vma_ok r"
      using ok both(1,3) j by (auto simp: vma_ok_append vma_ok_Cons)
    show ?thesis
    proof (rule new [of _ "inode" "- 1" q ?k r])
      show "add_vma_sorted True part_ok start end pgoff inode flags filesz s =
          Some (ref_inode inode (- 1) (s\<lparr>vma_list := q @ ?k # r\<rparr>))"
        using both j(6) by (simp add: unf)
      show "\<forall>x < start. map_option g (vmap pre x) = (if x < vma_start ?k then map_option g (vmap q x) else Some (g (attrs ?k x)))"
        using vmap_around [OF o(1), of "[]"] o(2) j(1) both(1) by (auto simp: g)
      show "\<forall>x\<ge>end. map_option g (vmap suf x) = (if x < vma_end ?k then Some (g (attrs ?k x)) else map_option g (vmap r x))"
        using j both(3) by (auto simp: vmap_Cons vma_contains_address_def g)
    qed (use o j pos(1) both(1,3) g in auto)
  next
    case prev
    let ?k = "p\<lparr>vma_end := end\<rparr>"
    have j: "vma_end p = start" "vma_flags p = flags" "vma_inode p = inode"
      using prev(2) by (auto simp: joins_prev_def)
    have "p \<in> set (vma_list s)"
      using pos(1) prev(1) by simp
    then have g: "g (attrs ?k x) = g (attrs m x)" "g (attrs p x) = g (attrs m x)" for x
      using prev(2) j by (auto intro!: agree simp: m)
    have o: "\<forall>v\<in>set q. vma_end v \<le> vma_start p" "vma_start p < start" "vma_ok q"
      using ok prev(1) j by (auto simp: vma_ok_append vma_ok_Cons)
    show ?thesis
    proof (rule new [of _ NULL 0 q ?k suf])
      show "add_vma_sorted True part_ok start end pgoff inode flags filesz s =
          Some (ref_inode NULL 0 (s\<lparr>vma_list := q @ ?k # suf\<rparr>))"
        using prev by (auto simp: unf ref_inode_def)
      show "\<forall>x < start. map_option g (vmap pre x) = (if x < vma_start ?k then map_option g (vmap q x) else Some (g (attrs ?k x)))"
        using vmap_around [OF o(1), of "[]"] o(2) j(1) prev(1) by (auto simp: g)
    qed (use o j ok(2) pos(1,3) prev(1) g in auto)
  next
    case nxt
    let ?k = "n\<lparr>vma_start := start\<rparr>"
    have j: "vma_start n = end" "vma_flags n = flags" "vma_inode n = inode"
      using nxt(3) by (auto simp: joins_next_def)
    have "n \<in> set (vma_list s)"
      using pos(1) nxt(2) by simp
    then have g: "g (attrs ?k x) = g (attrs m x)" "g (attrs n x) = g (attrs m x)" for x
      using nxt(3) j by (auto intro!: agree simp: m)
    have o: "\<forall>v\<in>set r. vma_end n \<le> vma_start v" "end < vma_end n" "vma_ok r"
      using ok nxt(2) j by (auto simp: vma_ok_Cons)
    show ?thesis
    proof (rule new [of _ NULL 0 pre ?k r])
      show "add_vma_sorted True part_ok start end pgoff inode flags filesz s =
          Some (ref_inode NULL 0 (s\<lparr>vma_list := pre @ ?k # r\<rparr>))"
        using nxt by (auto simp: unf ref_inode_def)
      show "\<forall>x\<ge>end. map_option g (vmap suf x) = (if x < vma_end ?k then Some (g (attrs ?k x)) else map_option g (vmap r x))"
        using j nxt(2) by (auto simp: vmap_Cons vma_contains_address_def g)
    qed (use o j ok(1) pos(1,2) nxt(2) g in auto)
  next
    case none
    show ?thesis
    proof (rule new [of _ inode 1 pre m suf])
      show "add_vma_sorted True part_ok start end pgoff inode flags filesz s = Some (ref_inode inode 1 (s\<lparr>vma_list := pre @ m # suf\<rparr>))"
        using none assms(4) by (auto simp: unf m)
    qed (use ok pos in \<open>auto simp: m\<close>)
  qed
qed

text \<open>
  A mapping placed directly below a like mapping of the same file: the pages of the old one move by the length
  of the new one.
\<close>

lemma add_vma_next_moves:
  assumes "vma_ok (vma_list s)" "start < end" "\<forall>v\<in>set (vma_list s). vma_end v \<le> start \<or> end \<le> vma_start v"
    and m: "m = \<lparr>vma_start = start, vma_end = end, vma_flags = flags, vma_filesz = filesz, vma_pgoff = pgoff, vma_inode = inode\<rparr>"
    and "inode \<noteq> NULL" "\<forall>v\<in>set (vma_list s). \<not> continued_by v m" "n \<in> set (vma_list s)" "precedes_like m n"
    and "end \<le> x" "x < vma_end n" "x - start < vma_filesz n"
  shows "\<exists>s' p r r'. add_vma_sorted ok part_ok start end pgoff inode flags filesz s = Some s' \<and>
    vmap (vma_list s) x = Some (flags, inode, File_page inode p r) \<and>
    vmap (vma_list s') x = Some (flags, inode, File_page inode (p + (end - start)) r')"
proof -
  define pre where "pre = takeWhile (\<lambda>v. \<not> vma_after_address start v) (vma_list s)"
  define suf where "suf = dropWhile (\<lambda>v. \<not> vma_after_address start v) (vma_list s)"
  note pos = vma_split_position [OF assms(1) pre_def suf_def assms(2,3)]
  have j: "vma_start n = end" "vma_flags n = flags" "vma_inode n = inode"
    using assms(8) by (simp_all add: m precedes_like_def)
  have n: "vma_start n < vma_end n"
    using assms(1,7) by (simp add: vma_ok_def)
  have "n \<in> set suf"
  proof (rule ccontr)
    assume "n \<notin> set suf"
    then have "vma_end n \<le> start"
      using assms(7) pos(1,2) by auto
    then show False
      using n j(1) assms(2) by (meson less_le_trans not_less less_imp_le)
  qed
  then obtain w r where w: "suf = w # r"
    by (cases suf) auto
  have okw: "vma_ok (w # r)"
    using assms(1) pos(1) w by (simp add: vma_ok_append)
  have wn: "w = n"
  proof (rule ccontr)
    assume "w \<noteq> n"
    then have "vma_end w \<le> end" "vma_start w < vma_end w" "end \<le> vma_start w"
      using \<open>n \<in> set suf\<close> okw pos(3) w j(1) by (auto simp: vma_ok_Cons)
    then show False
      by (meson leD order.trans)
  qed
  have np: "\<not> (pre \<noteq> [] \<and> joins_prev (last pre) start pgoff inode flags)"
  proof
    assume "pre \<noteq> [] \<and> joins_prev (last pre) start pgoff inode flags"
    then have "last pre \<in> set (vma_list s)" "continued_by (last pre) m"
      using pos(1) assms(5) by (auto simp: m continued_by_def joins_prev_def)
    then show False
      using assms(6) by blast
  qed
  have a: "add_vma_sorted ok part_ok start end pgoff inode flags filesz s =
      Some (s\<lparr>vma_list := pre @ n\<lparr>vma_start := start\<rparr> # r\<rparr>)"
    using np w wn j by (auto simp: add_vma_sorted_def Let_def joins_next_def simp flip: pre_def suf_def)
  have o: "\<forall>v\<in>set r. vma_end n \<le> vma_start v" "\<forall>v\<in>set pre. vma_end v \<le> vma_start n" "start < vma_end n"
    using okw wn pos(2) j(1) assms(2) n by (auto simp: vma_ok_Cons)
  have b: "x - end < vma_filesz n"
  proof -
    have "start \<le> x"
      using assms(2,9) by simp
    then have "unat (x - end) \<le> unat (x - start)"
      using assms(2,9) by (simp add: unat_minus_no_wrap word_le_nat_alt word_less_nat_alt)
    then show ?thesis
      using assms(11) by (simp add: word_less_nat_alt)
  qed
  have "vmap (vma_list s) x = Some (attrs n x)"
    using vmap_around [OF o(2,1) n] assms(9,10) j(1) pos(1) w wn by auto
  moreover have "vmap (pre @ n\<lparr>vma_start := start\<rparr> # r) x = Some (attrs (n\<lparr>vma_start := start\<rparr>) x)"
    using vmap_around [of pre "n\<lparr>vma_start := start\<rparr>" r x] o(1,3) pos(2) assms(2,9,10) by auto
  moreover have "\<exists>r. attrs n x = (flags, inode, File_page inode (vma_pgoff n + (x - end)) r)"
    using b j assms(5) by (simp add: attrs_def fill_page_def Let_def)
  moreover have "\<exists>r. attrs (n\<lparr>vma_start := start\<rparr>) x = (flags, inode, File_page inode (vma_pgoff n + (x - end) + (end - start)) r)"
    using j assms(5,11) by (simp add: attrs_def fill_page_def Let_def)
  ultimately show ?thesis
    using a by fastforce
qed

text \<open>
  C20. Adding an area to a sorted list of disjoint areas keeps it sorted and disjoint whatever merging with
  the neighbours takes place; addresses in the new range get the access rights and the file given, all others
  keep theirs; and every area goes on holding exactly one reference to its file. What page faults bring in is
  exactly as it should be as well, the new range showing the file from the offset given and every other page
  showing what it showed before, for anonymous memory and for every file mapping that is not joined to a
  neighbour: no area of the same kind starts at its end, and none that ends at its start has the file offset
  the code compares with. The last clause is a defect: a mapping of a file placed directly below a like mapping
  of it is joined without a look at the offsets, and every page of the old mapping then shows the file at a
  position that is too high by the length of the new one.
\<close>
theorem add_vma_correct:
  assumes "vma_ok (vma_list s)" "start < end" "\<forall>v\<in>set (vma_list s). vma_end v \<le> start \<or> end \<le> vma_start v"
    and "inode = NULL \<or> part_ok inode"
    and "m = \<lparr>vma_start = start, vma_end = end, vma_flags = flags, vma_filesz = filesz, vma_pgoff = pgoff, vma_inode = inode\<rparr>"
  shows "\<exists>s'. add_vma_sorted True part_ok start end pgoff inode flags filesz s = Some s' \<and> vma_ok (vma_list s') \<and>
    (\<forall>x. map_option rights (vmap (vma_list s') x) =
      (if start \<le> x \<and> x < end then Some (flags, inode) else map_option rights (vmap (vma_list s) x))) \<and>
    (\<forall>i. irefs s' i - held (vma_list s') i = irefs s i - held (vma_list s) i) \<and>
    (inode = NULL \<or> (\<forall>v\<in>set (vma_list s). \<not> continued_by v m \<and> \<not> precedes_like m v) \<longrightarrow>
      (\<forall>x. vmap (vma_list s') x =
        (if start \<le> x \<and> x < end then Some (flags, inode, fill_page m x) else vmap (vma_list s) x))) \<and>
    (\<forall>n x. inode \<noteq> NULL \<and> (\<forall>v\<in>set (vma_list s). \<not> continued_by v m) \<and> n \<in> set (vma_list s) \<and> precedes_like m n \<and>
        end \<le> x \<and> x < vma_end n \<and> x - start < vma_filesz n \<longrightarrow>
      (\<exists>p r r'. vmap (vma_list s) x = Some (flags, inode, File_page inode p r) \<and>
        vmap (vma_list s') x = Some (flags, inode, File_page inode (p + (end - start)) r')))"
proof -
  note add = add_vma_map [of s start "end" inode part_ok, OF assms]
  have rt: "rights (attrs v x) = (vma_flags v, vma_inode v)" for v x
    by (simp add: rights_def attrs_def)
  obtain s' where s': "add_vma_sorted True part_ok start end pgoff inode flags filesz s = Some s'" "vma_ok (vma_list s')"
      "\<forall>x. map_option rights (vmap (vma_list s') x) =
        (if start \<le> x \<and> x < end then Some (flags, inode) else map_option rights (vmap (vma_list s) x))"
      "\<forall>i. irefs s' i - held (vma_list s') i = irefs s i - held (vma_list s) i"
    using add [of rights] unfolding rt by (auto simp: assms(5))
  have am: "attrs m x = (flags, inode, fill_page m x)" for x
    by (simp add: attrs_def assms(5))
  have "vmap (vma_list s') x = (if start \<le> x \<and> x < end then Some (flags, inode, fill_page m x) else vmap (vma_list s) x)"
    if "inode = NULL \<or> (\<forall>v\<in>set (vma_list s). \<not> continued_by v m \<and> \<not> precedes_like m v)" for x
  proof -
    have "(\<forall>v w x. vma_flags v = flags \<and> vma_inode v = inode \<and> vma_flags w = flags \<and> vma_inode w = inode \<longrightarrow>
          attrs v x = attrs w x) \<or>
        inode \<noteq> NULL \<and> (\<forall>v\<in>set (vma_list s). \<not> continued_by v m \<and> \<not> precedes_like m v)"
      using that by (cases "inode = NULL") (simp_all add: attrs_def fill_page_def)
    from add [of "\<lambda>a. a", OF this] show ?thesis
      using s'(1) by (simp add: am option.map_ident)
  qed
  then show ?thesis
    using s' add_vma_next_moves [OF assms(1-3,5), of _ _ True part_ok] by (intro exI [of _ s']) auto
qed

section \<open>Free ranges\<close>

text \<open>The range of \<open>sz\<close> bytes at \<open>q\<close> ends at or below \<open>e\<close> and meets no area of the list.\<close>

definition gap_at :: "vm_area list \<Rightarrow> u32 \<Rightarrow> u32 \<Rightarrow> u32 \<Rightarrow> bool" where
  "gap_at l sz e q \<longleftrightarrow> unat q + unat sz \<le> unat e \<and> (\<forall>v\<in>set l. vma_end v \<le> q \<or> unat q + unat sz \<le> unat (vma_start v))"

lemma gap_rev_loop_spec:
  assumes "sorted_wrt (\<lambda>v w. vma_end w \<le> vma_start v) l" "\<forall>v\<in>set l. vma_start v < vma_end v" "0 < unat sz"
  shows "case gap_rev_loop l e sz of
      Inl p \<Rightarrow> gap_at l sz e p \<and> (\<exists>v\<in>set l. vma_end v \<le> p) \<and> (\<forall>q. gap_at l sz e q \<longrightarrow> q \<le> p)
    | Inr e' \<Rightarrow> e' \<le> e \<and> (\<forall>v\<in>set l. e' \<le> vma_start v) \<and> (\<forall>q. gap_at l sz e q \<longrightarrow> unat q + unat sz \<le> unat e')"
  using assms
proof (induction l arbitrary: e)
  case (Cons v vs)
  have low: "\<forall>w\<in>set vs. vma_end w \<le> vma_start v" "vma_start v < vma_end v"
    using Cons.prems by auto
  show ?case
  proof (cases "e > vma_end v \<and> e - vma_end v \<ge> sz")
    case True
    have d: "unat (e - vma_end v) = unat e - unat (vma_end v)"
      using True by (intro unat_minus_no_wrap) (simp add: word_less_nat_alt)
    then have le: "unat (vma_end v) + unat sz \<le> unat e"
      using True by (auto simp: word_less_nat_alt word_le_nat_alt)
    have p: "unat (e - sz) = unat e - unat sz"
      using le by (intro unat_minus_no_wrap) simp
    have end_v: "vma_end v \<le> e - sz"
      using le p by (simp add: word_le_nat_alt)
    moreover have "vma_end w \<le> e - sz" if "w \<in> set vs" for w
      using that low end_v by (meson less_imp_le order.trans)
    moreover have "unat (e - sz) + unat sz \<le> unat e"
      using le p by simp
    moreover have "q \<le> e - sz" if "gap_at (v # vs) sz e q" for q
    proof -
      have "unat q + unat sz \<le> unat e"
        using that by (simp add: gap_at_def)
      then show ?thesis
        unfolding word_le_nat_alt p by linarith
    qed
    ultimately show ?thesis
      using True by (auto simp: gap_at_def)
  next
    case False
    define e1 where "e1 = (if vma_start v < e then vma_start v else e)"
    have e1: "e1 \<le> e" "e1 \<le> vma_start v"
      by (auto simp: e1_def)
    have down: "gap_at vs sz e1 q" if q: "gap_at (v # vs) sz e q" for q
    proof -
      have "\<not> vma_end v \<le> q"
      proof
        assume "vma_end v \<le> q"
        then have le: "unat (vma_end v) + unat sz \<le> unat e"
          using q by (simp add: gap_at_def word_le_nat_alt)
        then have "unat (e - vma_end v) = unat e - unat (vma_end v)"
          by (intro unat_minus_no_wrap) simp
        then show False
          using False le Cons.prems(3) by (simp add: word_less_nat_alt word_le_nat_alt)
      qed
      then show ?thesis
        using q by (auto simp: gap_at_def e1_def)
    qed
    have up: "gap_at (v # vs) sz e q" if "gap_at vs sz e1 q" for q
      using that e1 by (auto simp: gap_at_def word_le_nat_alt)
    have IH: "case gap_rev_loop vs e1 sz of
        Inl p \<Rightarrow> gap_at vs sz e1 p \<and> (\<exists>v\<in>set vs. vma_end v \<le> p) \<and> (\<forall>q. gap_at vs sz e1 q \<longrightarrow> q \<le> p)
      | Inr e' \<Rightarrow> e' \<le> e1 \<and> (\<forall>v\<in>set vs. e' \<le> vma_start v) \<and> (\<forall>q. gap_at vs sz e1 q \<longrightarrow> unat q + unat sz \<le> unat e')"
      using Cons.IH [of e1] Cons.prems by simp
    have eq: "gap_rev_loop (v # vs) e sz = gap_rev_loop vs e1 sz"
      using False by (auto simp: e1_def)
    show ?thesis
      unfolding eq using IH e1 by (cases "gap_rev_loop vs e1 sz") (auto dest: down intro: up order.trans)
  qed
qed (simp add: gap_at_def)

lemma pages_size: "unat n < 2 ^ 20 \<Longrightarrow> unat (n * PG_SIZE) = unat n * 4096"
  by (simp add: unat_word_ariths PG_SIZE_def)

text \<open>
  C21. The search for a free range from the top down returns the highest range of the requested number of
  pages that lies in the user area below the stack and meets no existing area; it returns 0 only when there
  is no such range at all.
\<close>
theorem vma_find_gap_reverse_correct:
  assumes "vma_ok (vma_list s)" "\<forall>v\<in>set (vma_list s). USER_VADDR_START \<le> vma_start v" "0 < unat pg_cnt" "unat pg_cnt < 2 ^ 20"
    and "r = vma_find_gap_reverse pg_cnt s"
    and "\<forall>p. fits p \<longleftrightarrow> USER_VADDR_START \<le> p \<and> gap_at (vma_list s) (pg_cnt * PG_SIZE) USER_MMAP_SEARCH_TOP p"
  shows "if r = 0 then \<not> (\<exists>p. fits p) else fits r \<and> (\<forall>p. fits p \<longrightarrow> p \<le> r)"
proof -
  let ?l = "rev (vma_list s)" and ?sz = "pg_cnt * PG_SIZE" and ?lo = USER_VADDR_START and ?hi = USER_MMAP_SEARCH_TOP
  have sz: "0 < unat ?sz"
    using assms(3) pages_size [OF assms(4)] by simp
  have c: "unat ?lo = 0x8048000" "unat ?hi = 0xBF800000"
    by (simp_all add: USER_VADDR_START_def USER_MMAP_SEARCH_TOP_def USER_STACK_BASE_def USER_STACK_SIZE_def)
  have hl: "\<not> ?hi \<le> ?lo" "unat (?hi - ?lo) = unat ?hi - unat ?lo"
    using c by (simp add: word_le_nat_alt) (intro unat_minus_no_wrap, simp add: c)
  have gl: "gap_at ?l z e q = gap_at (vma_list s) z e q" for z e q
    by (simp add: gap_at_def)
  have pos: "p \<noteq> 0" if "?lo \<le> p" for p
    using that c(1) by (auto simp: word_le_nat_alt)
  have at: "?lo \<le> e - ?sz \<and> unat (e - ?sz) = unat e - unat ?sz" if "unat ?lo + unat ?sz \<le> unat e" for e
  proof -
    have "unat (e - ?sz) = unat e - unat ?sz"
      using that by (intro unat_minus_no_wrap) simp
    then show ?thesis
      using that by (simp add: word_le_nat_alt)
  qed
  have spec: "case gap_rev_loop ?l ?hi ?sz of
      Inl p \<Rightarrow> gap_at ?l ?sz ?hi p \<and> (\<exists>v\<in>set ?l. vma_end v \<le> p) \<and> (\<forall>q. gap_at ?l ?sz ?hi q \<longrightarrow> q \<le> p)
    | Inr e' \<Rightarrow> e' \<le> ?hi \<and> (\<forall>v\<in>set ?l. e' \<le> vma_start v) \<and> (\<forall>q. gap_at ?l ?sz ?hi q \<longrightarrow> unat q + unat ?sz \<le> unat e')"
    using assms(1) sz by (intro gap_rev_loop_spec) (auto simp: vma_ok_def sorted_wrt_rev)
  show ?thesis
  proof (cases "?hi - ?lo < ?sz")
    case True
    then have "r = 0"
      using assms(5) by (simp add: vma_find_gap_reverse_def Let_def)
    moreover have "\<not> fits p" for p
      using True hl(2) assms(6) by (auto simp: gap_at_def word_less_nat_alt word_le_nat_alt)
    ultimately show ?thesis
      by simp
  next
    case room: False
    have r: "r = (if vma_list s = [] then ?hi - ?sz else case gap_rev_loop ?l ?hi ?sz of Inl p \<Rightarrow> p
        | Inr e \<Rightarrow> if e > ?lo \<and> e - ?lo \<ge> ?sz then e - ?sz else 0)"
      using room hl(1) assms(5) by (simp add: vma_find_gap_reverse_def Let_def)
    have res: "r = (case gap_rev_loop ?l ?hi ?sz of Inl p \<Rightarrow> p | Inr e \<Rightarrow> if e > ?lo \<and> e - ?lo \<ge> ?sz then e - ?sz else 0)"
      using r room hl(1) by (cases "vma_list s = []") (auto simp: not_less not_le)
    show ?thesis
    proof (cases "gap_rev_loop ?l ?hi ?sz")
      case (Inl p)
      then obtain v where v: "v \<in> set (vma_list s)" "vma_end v \<le> p" "gap_at (vma_list s) ?sz ?hi p"
          "\<forall>q. gap_at (vma_list s) ?sz ?hi q \<longrightarrow> q \<le> p"
        using spec by (auto simp: gl)
      have "?lo \<le> p"
        using v(1,2) assms(1,2) by (fastforce simp: vma_ok_def)
      then show ?thesis
        using Inl res v(3,4) pos assms(6) by auto
    next
      case (Inr e)
      have e: "e \<le> ?hi" "\<forall>v\<in>set (vma_list s). e \<le> vma_start v" "\<forall>q. gap_at (vma_list s) ?sz ?hi q \<longrightarrow> unat q + unat ?sz \<le> unat e"
        using spec Inr by (auto simp: gl)
      show ?thesis
      proof (cases "unat ?lo + unat ?sz \<le> unat e")
        case True
        have d: "unat (e - ?lo) = unat e - unat ?lo"
          using True by (intro unat_minus_no_wrap) simp
        have "e > ?lo" "e - ?lo \<ge> ?sz"
          unfolding word_less_nat_alt word_le_nat_alt d using True sz by linarith+
        then have "r = e - ?sz"
          using res Inr by simp
        moreover have "gap_at (vma_list s) ?sz ?hi (e - ?sz)"
          using at [OF True] True e(1,2) by (auto simp: gap_at_def word_le_nat_alt)
        moreover have "q \<le> e - ?sz" if "gap_at (vma_list s) ?sz ?hi q" for q
        proof -
          have "unat q + unat ?sz \<le> unat e" "unat (e - ?sz) = unat e - unat ?sz"
            using that e(3) at [OF True] by blast+
          then show ?thesis
            unfolding word_le_nat_alt by linarith
        qed
        ultimately show ?thesis
          using at [OF True] pos assms(6) by auto
      next
        case False
        have "\<not> fits q" for q
          using e(3) False assms(6) by (fastforce simp: word_le_nat_alt)
        moreover have "r = 0"
        proof -
          have "\<not> (e > ?lo \<and> e - ?lo \<ge> ?sz)"
          proof
            assume a: "e > ?lo \<and> e - ?lo \<ge> ?sz"
            then have "unat (e - ?lo) = unat e - unat ?lo"
              by (intro unat_minus_no_wrap) (simp add: word_less_nat_alt)
            moreover have "unat ?lo < unat e" "unat ?sz \<le> unat (e - ?lo)"
              using a unfolding word_less_nat_alt word_le_nat_alt by simp_all
            ultimately show False
              using False by linarith
          qed
          then show ?thesis
            using res Inr by auto
        qed
        ultimately show ?thesis
          by simp
      qed
    qed
  qed
qed

section \<open>Splitting, clearing and copying\<close>

text \<open>
  Cutting an area in two changes neither the access rights nor the balance of references, nor what the pages of
  an anonymous area show. In a file mapping the upper half is moved: \<^verbatim>\<open>vma_split\<close> adds the distance in pages to
  \<^verbatim>\<open>vma_pgoff\<close>, which \<^verbatim>\<open>swap_page\<close> reads as a number of bytes.
\<close>

lemma vma_split_spec:
  assumes "vma_ok (vma_list s)" "i < length (vma_list s)" "v = vma_list s ! i" "vma_start v < a" "a < vma_end v"
    and "vma_inode v = NULL \<or> part_ok (vma_inode v)"
  shows "\<exists>s'. vma_split True part_ok i a s = Some (True, s') \<and> vma_ok (vma_list s') \<and>
    (\<forall>x. map_option rights (vmap (vma_list s') x) = map_option rights (vmap (vma_list s) x)) \<and>
    (vma_inode v = NULL \<longrightarrow> vmap (vma_list s') = vmap (vma_list s)) \<and>
    (\<forall>j. irefs s' j - held (vma_list s') j = irefs s j - held (vma_list s) j)"
proof -
  let ?q = "take i (vma_list s)" and ?r = "drop (Suc i) (vma_list s)"
  have l: "vma_list s = ?q @ v # ?r"
    using assms(2,3) by (simp add: id_take_nth_drop)
  have o: "vma_ok ?q" "vma_ok ?r" "\<forall>w\<in>set ?q. vma_end w \<le> vma_start v" "\<forall>w\<in>set ?r. vma_end v \<le> vma_start w"
      "\<forall>w\<in>set ?q. \<forall>u\<in>set ?r. vma_end w \<le> vma_start u"
    using assms(1) l by (metis vma_ok_append vma_ok_Cons list.set_intros(1,2))+
  define n where "n = v\<lparr>vma_start := a, vma_pgoff := vma_pgoff v + (a - vma_start v) div PG_SIZE\<rparr>"
  define s' where "s' = ref_inode (vma_inode v) 1 (s\<lparr>vma_list := ?q @ v\<lparr>vma_end := a\<rparr> # n # ?r\<rparr>)"
  have view: "map_option g (vmap (vma_list s') x) = map_option g (vmap (vma_list s) x)"
    if "\<And>x. g (attrs (v\<lparr>vma_end := a\<rparr>) x) = g (attrs v x)" "\<And>x. g (attrs n x) = g (attrs v x)" for g :: "page_view \<Rightarrow> 'b" and x
  proof -
    have "map_option g (vmap (vma_list s') x) = map_option g (vmap (?q @ v # ?r) x)"
      using assms(4,5) that by (auto simp: s'_def n_def vmap_append vmap_Cons vma_contains_address_def
          simp del: map_option_eq_Some split: option.splits)
    then show ?thesis
      using l by simp
  qed
  have "vma_split True part_ok i a s = Some (True, s')"
    using assms(2,3,6) by (simp add: vma_split_def s'_def n_def Let_def)
  moreover have "vma_ok (vma_list s')"
    using o assms(4,5) by (fastforce simp: s'_def n_def vma_ok_append vma_ok_Cons)
  moreover have "map_option rights (vmap (vma_list s') x) = map_option rights (vmap (vma_list s) x)" for x
    by (rule view) (simp_all add: attrs_def rights_def n_def)
  moreover have "vmap (vma_list s') = vmap (vma_list s)" if "vma_inode v = NULL"
    using view [of "\<lambda>a. a"] that by (simp add: attrs_def fill_page_def n_def option.map_ident fun_eq_iff)
  moreover have "irefs s' j - held (vma_list s') j = irefs s j - held (vma_list s) j" for j
  proof -
    have "held (vma_list s) j = held (?q @ v # ?r) j"
      using l by simp
    then show ?thesis
      by (simp add: s'_def n_def)
  qed
  ultimately show ?thesis
    by (intro exI [of _ s']) simp
qed

lemma vma_split_moves:
  assumes "n = v\<lparr>vma_start := a, vma_pgoff := vma_pgoff v + (a - vma_start v) div PG_SIZE\<rparr>" "vma_inode v \<noteq> NULL"
    and "x - vma_start v < vma_filesz v" "x - a < vma_filesz v" "d = a - vma_start v"
  shows "\<exists>p r r'. fill_page v x = File_page (vma_inode v) p r \<and> fill_page n x = File_page (vma_inode v) (p - d + d div PG_SIZE) r'"
proof -
  have "vma_pgoff v + d div PG_SIZE + (x - a) = vma_pgoff v + (x - vma_start v) - d + d div PG_SIZE"
    using assms(5) by simp
  then show ?thesis
    using assms by (simp add: fill_page_def Let_def)
qed

lemma clear_loop_spec: "vma_list s = l \<Longrightarrow> vma_list (clear_loop l s) = [] \<and> (\<forall>i. irefs (clear_loop l s) i = irefs s i - held l i)"
  by (induction l arbitrary: s) auto

lemma copy_loop_spec:
  "length oks = length l \<Longrightarrow> list_all id oks \<Longrightarrow> \<forall>v\<in>set l. vma_inode v = NULL \<or> part_ok (vma_inode v) \<Longrightarrow>
    \<exists>s'. copy_loop oks part_ok l acc s = Some (True, acc @ l, s') \<and> (\<forall>i. irefs s' i = irefs s i + held l i)"
proof (induction l arbitrary: oks acc s)
  case (Cons v l)
  obtain oks' where oks: "oks = True # oks'"
    using Cons.prems(1,2) by (cases oks) auto
  obtain s' where "copy_loop oks' part_ok l (acc @ [v]) (ref_inode (vma_inode v) 1 s) = Some (True, (acc @ [v]) @ l, s')"
      "\<forall>i. irefs s' i = irefs (ref_inode (vma_inode v) 1 s) i + held l i"
    using Cons.IH [of oks' "acc @ [v]" "ref_inode (vma_inode v) 1 s"] Cons.prems oks by auto
  then show ?case
    using Cons.prems(3) by (auto simp: oks)
qed auto

text \<open>
  C39. The upward search fails silently when the user area is full: if it finds no gap between the areas and
  the last one ends at the base of the user stack, the subtraction from the upper limit wraps around and
  the address returned is the first address of the kernel, for every request of up to 786432 pages.
\<close>
theorem vma_find_gap_overrun:
  assumes "vma_list s \<noteq> []" "gap_loop (vma_list s) USER_VADDR_START (pg_cnt * PG_SIZE) = Inr USER_STACK_BASE"
    and "unat pg_cnt \<le> 0xC0000"
  shows "vma_find_gap pg_cnt s = 0xC0000000"
proof -
  have "unat (pg_cnt * PG_SIZE) = unat pg_cnt * 4096"
    using assms(3) by (intro pages_size) simp
  then have "pg_cnt * PG_SIZE \<le> - USER_STACK_SIZE"
    using assms(3) by (simp add: word_le_nat_alt USER_STACK_SIZE_def)
  then show ?thesis
    using assms(1,2) by (simp add: vma_find_gap_def Let_def) (simp add: USER_STACK_BASE_def)
qed

section \<open>Examples\<close>

definition ex_vma :: "u32 \<Rightarrow> u32 \<Rightarrow> vm_area" where
  "ex_vma a b = \<lparr>vma_start = a, vma_end = b, vma_flags = 3, vma_filesz = 0, vma_pgoff = 0, vma_inode = NULL\<rparr>"

text \<open>Two areas with a hole of one page, and a full user area.\<close>

definition ex_hole :: vmas where
  "ex_hole = \<lparr>vma_list = [ex_vma 0x8048000 0x8049000, ex_vma 0x804A000 0x804B000], irefs = (\<lambda>_. 0)\<rparr>"

definition ex_full :: vmas where
  "ex_full = \<lparr>vma_list = [ex_vma 0x8048000 0xBF800000, ex_vma 0xBF800000 0xC0000000], irefs = (\<lambda>_. 0)\<rparr>"

lemma ex_hole_ok: "vma_ok (vma_list ex_hole)"
  by (simp add: ex_hole_def ex_vma_def vma_ok_def)

text \<open>Two pages of the start of file 77, mapped at \<^verbatim>\<open>0x8049000\<close>.\<close>

definition ex_file :: vmas where
  "ex_file = \<lparr>vma_list = [\<lparr>vma_start = 0x8049000, vma_end = 0x804B000, vma_flags = 3, vma_filesz = 0x2000, vma_pgoff = 0,
     vma_inode = 77\<rparr>], irefs = (\<lambda>_. 1)\<rparr>"

theorem add_vma_correct_witness:
  "(\<exists>s'. add_vma_sorted True (\<lambda>_. False) 0x8049000 0x804A000 0 NULL 3 0 ex_hole = Some s' \<and> vma_ok (vma_list s') \<and>
     vmap (vma_list s') 0x8049000 = Some (3, NULL, Zero_page)) \<and>
   (\<exists>s' p r r'. add_vma_sorted True (\<lambda>_. True) 0x8048000 0x8049000 0 77 3 0x1000 ex_file = Some s' \<and>
     vmap (vma_list ex_file) 0x8049000 = Some (3, 77, File_page 77 p r) \<and>
     vmap (vma_list s') 0x8049000 = Some (3, 77, File_page 77 (p + 0x1000) r'))"
proof
  let ?m = "\<lparr>vma_start = 0x8049000, vma_end = 0x804A000, vma_flags = 3, vma_filesz = 0, vma_pgoff = 0, vma_inode = NULL\<rparr>"
  have "\<forall>v\<in>set (vma_list ex_hole). vma_end v \<le> 0x8049000 \<or> 0x804A000 \<le> vma_start v"
    by (simp add: ex_hole_def ex_vma_def)
  moreover have "fill_page ?m x = Zero_page" for x
    by (simp add: fill_page_def)
  ultimately show "\<exists>s'. add_vma_sorted True (\<lambda>_. False) 0x8049000 0x804A000 0 NULL 3 0 ex_hole = Some s' \<and> vma_ok (vma_list s') \<and>
      vmap (vma_list s') 0x8049000 = Some (3, NULL, Zero_page)"
    using add_vma_correct [OF ex_hole_ok, of "0x8049000" "0x804A000" NULL "\<lambda>_. False" ?m 3 0 0] by fastforce
next
  let ?n = "\<lparr>vma_start = 0x8049000, vma_end = 0x804B000, vma_flags = 3, vma_filesz = 0x2000, vma_pgoff = 0, vma_inode = 77 :: addr\<rparr>"
  let ?m = "\<lparr>vma_start = 0x8048000, vma_end = 0x8049000, vma_flags = 3, vma_filesz = 0x1000, vma_pgoff = 0, vma_inode = 77 :: addr\<rparr>"
  have l: "vma_list ex_file = [?n]" and ok: "vma_ok (vma_list ex_file)"
    by (simp_all add: ex_file_def vma_ok_def)
  obtain s' where a: "add_vma_sorted True (\<lambda>_. True) 0x8048000 0x8049000 0 77 3 0x1000 ex_file = Some s'"
      and d: "\<forall>n x. (77 :: addr) \<noteq> NULL \<and> (\<forall>v\<in>set (vma_list ex_file). \<not> continued_by v ?m) \<and> n \<in> set (vma_list ex_file) \<and>
        precedes_like ?m n \<and> 0x8049000 \<le> x \<and> x < vma_end n \<and> x - 0x8048000 < vma_filesz n \<longrightarrow>
      (\<exists>p r r'. vmap (vma_list ex_file) x = Some (3, 77, File_page 77 p r) \<and>
        vmap (vma_list s') x = Some (3, 77, File_page 77 (p + (0x8049000 - 0x8048000)) r'))"
    using add_vma_correct [OF ok, of "0x8048000" "0x8049000" 77 "\<lambda>_. True" ?m 3 "0x1000" 0] by (auto simp: l)
  have c: "\<not> continued_by ?n ?m" "precedes_like ?m ?n"
    by (simp_all add: continued_by_def precedes_like_def)
  show "\<exists>s' p r r'. add_vma_sorted True (\<lambda>_. True) 0x8048000 0x8049000 0 77 3 0x1000 ex_file = Some s' \<and>
     vmap (vma_list ex_file) 0x8049000 = Some (3, 77, File_page 77 p r) \<and>
     vmap (vma_list s') 0x8049000 = Some (3, 77, File_page 77 (p + 0x1000) r')"
    using a d [rule_format, of ?n "0x8049000"] c by (auto simp: l)
qed

theorem vma_find_gap_reverse_correct_witness:
  "let r = vma_find_gap_reverse 1 ex_hole in r \<noteq> 0 \<and> gap_at (vma_list ex_hole) (1 * PG_SIZE) USER_MMAP_SEARCH_TOP r"
proof -
  have "vma_find_gap_reverse 1 ex_hole \<noteq> 0"
    by code_simp
  moreover have "\<forall>v\<in>set (vma_list ex_hole). USER_VADDR_START \<le> vma_start v"
    by (simp add: ex_hole_def ex_vma_def USER_VADDR_START_def)
  ultimately show ?thesis
    using vma_find_gap_reverse_correct [OF ex_hole_ok, of 1 _
        "\<lambda>p. USER_VADDR_START \<le> p \<and> gap_at (vma_list ex_hole) (1 * PG_SIZE) USER_MMAP_SEARCH_TOP p", OF _ _ _ refl]
    by (auto simp: Let_def)
qed

theorem vma_find_gap_overrun_witness: "vma_find_gap 1 ex_full = 0xC0000000"
proof (rule vma_find_gap_overrun)
  show "vma_list ex_full \<noteq> []"
    by (simp add: ex_full_def)
  show "gap_loop (vma_list ex_full) USER_VADDR_START (1 * PG_SIZE) = Inr USER_STACK_BASE"
    by (simp add: ex_full_def ex_vma_def USER_VADDR_START_def USER_STACK_BASE_def PG_SIZE_def)
qed simp

end
