(* ===== verification/Ext2_Disk.thy ===== *)
theory Ext2_Disk
  imports Bitmap Inode_Cache
begin

text \<open>
  What the ext2 code under \<^verbatim>\<open>fs/ext2\<close> works on: the mounted super block with the cached group
  descriptors, the partition as a store of bytes reached in sectors through \<^verbatim>\<open>partition_read\<close> and
  \<^verbatim>\<open>partition_write\<close>, and the little-endian fields of the structures on disk. The store is what the
  buffer cache shows for the sectors of the partition (theory Partition_IO relates the two).
  \<^verbatim>\<open>kmalloc\<close> and \<^verbatim>\<open>sys_time\<close> answer from the outside: the fields \<open>kmem\<close> and \<open>clock\<close> give the
  answer to the n-th question, and \<open>events\<close> counts the questions.
\<close>

section \<open>The code\<close>

definition ENOENT :: int where "ENOENT = 2"
definition EIO :: int where "EIO = 5"
definition ENOMEM :: int where "ENOMEM = 12"
definition EFBIG :: int where "EFBIG = 27"
definition ENOSPC :: int where "ENOSPC = 28"

definition EXT2_BLOCK_UNIT :: u32 where "EXT2_BLOCK_UNIT = 1024"

record ext2_group_desc =
  bg_block_bitmap :: u32
  bg_inode_bitmap :: u32
  bg_inode_table :: u32
  bg_free_blocks_count :: u16
  bg_free_inodes_count :: u16
  bg_used_dirs_count :: u16
  bg_rest :: "u8 list"

text \<open>
  The fields of \<^verbatim>\<open>struct super_block\<close>, \<^verbatim>\<open>struct ext2_sb_info\<close> and the raw super block that the code uses; the
  other bytes of the raw super block are in \<open>sb_raw\<close>, the padding of a descriptor in \<open>bg_rest\<close>, and what the
  last sector of the descriptor table holds behind the descriptors in \<open>gdt_rest\<close>.
\<close>

record super_block =
  s_block_size :: u32
  s_root_ino :: u32
  s_log_block_size :: u32
  s_first_data_block :: u32
  s_blocks_per_group :: u32
  s_inodes_per_group :: u32
  s_free_blocks_count :: u32
  s_free_inodes_count :: u32
  group_desc_cnt :: u32
  group_desc :: "ext2_group_desc list"
  gdt_rest :: "u8 list"
  sb_raw :: "u8 list"

record ext2_fs =
  sb :: super_block
  store :: "nat \<Rightarrow> u8"
  kmem :: "nat \<Rightarrow> bool"
  clock :: "nat \<Rightarrow> u32"
  events :: nat

definition BLOCK_TO_SECTOR :: "super_block \<Rightarrow> u32 \<Rightarrow> u32" where
  "BLOCK_TO_SECTOR s n = n * (s_block_size s div of_nat SECTOR_SIZE)"

definition partition_read :: "u32 \<Rightarrow> u32 \<Rightarrow> ext2_fs \<Rightarrow> u8 list" where
  "partition_read logic_lba count fs =
     map (store fs) [unat logic_lba * SECTOR_SIZE ..< (unat logic_lba + unat count) * SECTOR_SIZE]"

definition partition_write :: "u32 \<Rightarrow> u8 list \<Rightarrow> u32 \<Rightarrow> ext2_fs \<Rightarrow> ext2_fs halting" where
  "partition_write logic_lba buf count fs = do {
     ASSERT (unat count * SECTOR_SIZE \<le> length buf);
     Some (fs\<lparr>store := (\<lambda>i. if unat logic_lba * SECTOR_SIZE \<le> i \<and> i < (unat logic_lba + unat count) * SECTOR_SIZE
       then buf ! (i - unat logic_lba * SECTOR_SIZE) else store fs i)\<rparr>)
   }"

text \<open>Reading and writing one whole block, as almost every call does.\<close>

definition read_block :: "u32 \<Rightarrow> ext2_fs \<Rightarrow> u8 list" where
  "read_block b fs =
     partition_read (BLOCK_TO_SECTOR (sb fs) b) (s_block_size (sb fs) div of_nat SECTOR_SIZE) fs"

definition write_block :: "u32 \<Rightarrow> u8 list \<Rightarrow> ext2_fs \<Rightarrow> ext2_fs halting" where
  "write_block b buf fs =
     partition_write (BLOCK_TO_SECTOR (sb fs) b) buf (s_block_size (sb fs) div of_nat SECTOR_SIZE) fs"

definition kmalloc :: "ext2_fs \<Rightarrow> bool \<times> ext2_fs" where
  "kmalloc fs = (kmem fs (events fs), fs\<lparr>events := Suc (events fs)\<rparr>)"

definition sys_time :: "ext2_fs \<Rightarrow> u32 \<times> ext2_fs" where
  "sys_time fs = (clock fs (events fs), fs\<lparr>events := Suc (events fs)\<rparr>)"

text \<open>Fields inside a buffer; an access beyond its end faults.\<close>

definition overlay :: "u8 list \<Rightarrow> nat \<Rightarrow> u8 list \<Rightarrow> u8 list" where
  "overlay buf off xs = take off buf @ xs @ drop (off + length xs) buf"

definition memcpy_to :: "u8 list \<Rightarrow> nat \<Rightarrow> u8 list \<Rightarrow> u8 list halting" where
  "memcpy_to buf off xs = do { ASSERT (off + length xs \<le> length buf); Some (overlay buf off xs) }"

definition memcpy_from :: "u8 list \<Rightarrow> nat \<Rightarrow> nat \<Rightarrow> u8 list halting" where
  "memcpy_from buf off n = do { ASSERT (off + n \<le> length buf); Some (take n (drop off buf)) }"

definition le16 :: "u8 list \<Rightarrow> nat \<Rightarrow> u16" where
  "le16 buf off = ucast (buf ! off) OR push_bit 8 (ucast (buf ! (off + 1)))"

definition le32 :: "u8 list \<Rightarrow> nat \<Rightarrow> u32" where
  "le32 buf off = ucast (buf ! off) OR push_bit 8 (ucast (buf ! (off + 1)))
     OR push_bit 16 (ucast (buf ! (off + 2))) OR push_bit 24 (ucast (buf ! (off + 3)))"

definition bytes16 :: "u16 \<Rightarrow> u8 list" where
  "bytes16 v = [ucast v, ucast (drop_bit 8 v)]"

definition bytes32 :: "u32 \<Rightarrow> u8 list" where
  "bytes32 v = [ucast v, ucast (drop_bit 8 v), ucast (drop_bit 16 v), ucast (drop_bit 24 v)]"

definition rd8 :: "u8 list \<Rightarrow> nat \<Rightarrow> u8 halting" where
  "rd8 buf off = do { ASSERT (off < length buf); Some (buf ! off) }"

definition rd16 :: "u8 list \<Rightarrow> nat \<Rightarrow> u16 halting" where
  "rd16 buf off = do { ASSERT (off + 2 \<le> length buf); Some (le16 buf off) }"

definition rd32 :: "u8 list \<Rightarrow> nat \<Rightarrow> u32 halting" where
  "rd32 buf off = do { ASSERT (off + 4 \<le> length buf); Some (le32 buf off) }"

section \<open>Fields and buffers\<close>

lemma length_bytes [simp]: "length (bytes16 v) = 2" "length (bytes32 w) = 4"
  by (simp_all add: bytes16_def bytes32_def)

lemma length_overlay [simp]: "off + length xs \<le> length buf \<Longrightarrow> length (overlay buf off xs) = length buf"
  by (simp add: overlay_def)

lemma nth_overlay:
  assumes "off + length xs \<le> length buf"
  shows "overlay buf off xs ! i = (if off \<le> i \<and> i < off + length xs then xs ! (i - off) else buf ! i)"
  using assms by (auto simp: overlay_def nth_append)

lemma take_drop_overlay:
  assumes "off + length xs \<le> length buf"
  shows "take (length xs) (drop off (overlay buf off xs)) = xs"
  using assms by (simp add: overlay_def)

lemma take_drop_overlay_other:
  assumes "off + length xs \<le> length buf" "off + length xs \<le> i \<or> i + n \<le> off" "i + n \<le> length buf"
  shows "take n (drop i (overlay buf off xs)) = take n (drop i buf)"
proof (rule nth_equalityI)
  show "length (take n (drop i (overlay buf off xs))) = length (take n (drop i buf))"
    using assms by simp
  fix j assume "j < length (take n (drop i (overlay buf off xs)))"
  then show "take n (drop i (overlay buf off xs)) ! j = take n (drop i buf) ! j"
    using assms by (auto simp: nth_overlay)
qed

lemma u32_of_bytes:
  "(ucast (ucast v :: u8) OR push_bit 8 (ucast (ucast (drop_bit 8 v) :: u8))
     OR push_bit 16 (ucast (ucast (drop_bit 16 v) :: u8)) OR push_bit 24 (ucast (ucast (drop_bit 24 v) :: u8)) :: u32) = v"
proof (rule bit_word_eqI)
  fix n assume "n < LENGTH(32)"
  then show "bit (ucast (ucast v :: u8) OR push_bit 8 (ucast (ucast (drop_bit 8 v) :: u8))
     OR push_bit 16 (ucast (ucast (drop_bit 16 v) :: u8)) OR push_bit 24 (ucast (ucast (drop_bit 24 v) :: u8)) :: u32) n
     = bit v n"
    by (cases "n < 16"; cases "n < 24") (auto simp: bit_simps)
qed

lemma u16_of_bytes: "(ucast (ucast v :: u8) OR push_bit 8 (ucast (ucast (drop_bit 8 v) :: u8)) :: u16) = v"
proof (rule bit_word_eqI)
  fix n assume "n < LENGTH(16)"
  then show "bit (ucast (ucast v :: u8) OR push_bit 8 (ucast (ucast (drop_bit 8 v) :: u8)) :: u16) n = bit v n"
    by (auto simp: bit_simps)
qed

lemma le32_overlay [simp]: "off + 4 \<le> length buf \<Longrightarrow> le32 (overlay buf off (bytes32 v)) off = v"
  by (simp add: le32_def nth_overlay bytes32_def u32_of_bytes)

lemma le16_overlay [simp]: "off + 2 \<le> length buf \<Longrightarrow> le16 (overlay buf off (bytes16 v)) off = v"
  by (simp add: le16_def nth_overlay bytes16_def u16_of_bytes)

lemma le_overlay_other:
  "\<lbrakk>off + length xs \<le> length buf; i + 4 \<le> off \<or> off + length xs \<le> i\<rbrakk> \<Longrightarrow> le32 (overlay buf off xs) i = le32 buf i"
  "\<lbrakk>off + length xs \<le> length buf; i + 2 \<le> off \<or> off + length xs \<le> i\<rbrakk> \<Longrightarrow> le16 (overlay buf off xs) i = le16 buf i"
  by (auto simp: le32_def le16_def nth_overlay)

lemma le32_zero: "i + 4 \<le> n \<Longrightarrow> le32 (replicate n 0) i = 0"
  by (simp add: le32_def)

lemma memcpy_to_eq [simp]: "off + length xs \<le> length buf \<Longrightarrow> memcpy_to buf off xs = Some (overlay buf off xs)"
  by (simp add: memcpy_to_def)

lemma memcpy_from_eq [simp]: "off + n \<le> length buf \<Longrightarrow> memcpy_from buf off n = Some (take n (drop off buf))"
  by (simp add: memcpy_from_def)

lemma rd_eq [simp]:
  "off < length buf \<Longrightarrow> rd8 buf off = Some (buf ! off)"
  "off + 2 \<le> length buf \<Longrightarrow> rd16 buf off = Some (le16 buf off)"
  "off + 4 \<le> length buf \<Longrightarrow> rd32 buf off = Some (le32 buf off)"
  by (simp_all add: rd8_def rd16_def rd32_def)

section \<open>Blocks\<close>

text \<open>The block sizes ext2 knows: 1024, 2048 and 4096 bytes.\<close>

definition bs_ok :: "super_block \<Rightarrow> bool" where
  "bs_ok s \<longleftrightarrow> s_log_block_size s \<le> 2 \<and> s_block_size s = push_bit (unat (s_log_block_size s)) EXT2_BLOCK_UNIT"

definition bsz :: "ext2_fs \<Rightarrow> nat" where
  "bsz fs = unat (s_block_size (sb fs))"

text \<open>Block \<open>b\<close> of the store, and the store with a block replaced.\<close>

definition blk :: "ext2_fs \<Rightarrow> nat \<Rightarrow> u8 list" where
  "blk fs b = map (store fs) [b * bsz fs ..< b * bsz fs + bsz fs]"

definition put_blk :: "nat \<Rightarrow> u8 list \<Rightarrow> ext2_fs \<Rightarrow> ext2_fs" where
  "put_blk b buf fs = fs\<lparr>store := (\<lambda>i. if b * bsz fs \<le> i \<and> i < b * bsz fs + bsz fs
     then buf ! (i - b * bsz fs) else store fs i)\<rparr>"

text \<open>A block number whose sectors can be addressed.\<close>

definition vblk :: "ext2_fs \<Rightarrow> nat \<Rightarrow> bool" where
  "vblk fs b \<longleftrightarrow> b * (bsz fs div 512) < 2 ^ 32"

lemma bs_ok_cases:
  assumes "bs_ok s"
  obtains "s_block_size s = 1024" "s_log_block_size s = 0" | "s_block_size s = 2048" "s_log_block_size s = 1"
    | "s_block_size s = 4096" "s_log_block_size s = 2"
proof -
  have "unat (s_log_block_size s) \<le> 2"
    using assms by (simp add: bs_ok_def word_le_nat_alt)
  then consider "unat (s_log_block_size s) = 0" | "unat (s_log_block_size s) = 1" | "unat (s_log_block_size s) = 2"
    by linarith
  then show thesis
  proof cases
    case 1
    then show thesis
      using assms that(1) by (simp add: bs_ok_def EXT2_BLOCK_UNIT_def unat_eq_zero)
  next
    case 2
    then have "s_log_block_size s = 1"
      by (simp add: word_unat_eq_iff)
    then show thesis
      using assms that(2) by (simp add: bs_ok_def EXT2_BLOCK_UNIT_def)
  next
    case 3
    then have "s_log_block_size s = 2"
      by (simp add: word_unat_eq_iff)
    then show thesis
      using assms that(3) by (simp add: bs_ok_def EXT2_BLOCK_UNIT_def)
  qed
qed

lemma bsz_cases: "bs_ok (sb fs) \<Longrightarrow> bsz fs \<in> {1024, 2048, 4096}"
  by (erule bs_ok_cases) (simp_all add: bsz_def)

lemma length_blk [simp]: "length (blk fs b) = bsz fs"
  by (simp add: blk_def)

lemma unat_sects: "bs_ok (sb fs) \<Longrightarrow> unat (s_block_size (sb fs) div of_nat SECTOR_SIZE) * SECTOR_SIZE = bsz fs"
  by (erule bs_ok_cases) (simp_all add: bsz_def SECTOR_SIZE_def)

lemma unat_BLOCK_TO_SECTOR:
  assumes "bs_ok (sb fs)" "vblk fs (unat b)"
  shows "unat (BLOCK_TO_SECTOR (sb fs) b) * SECTOR_SIZE = unat b * bsz fs"
proof -
  have "unat (s_block_size (sb fs) div of_nat SECTOR_SIZE) = bsz fs div 512"
    by (simp add: bsz_def unat_div SECTOR_SIZE_def)
  then have "unat (BLOCK_TO_SECTOR (sb fs) b) = unat b * (bsz fs div 512)"
    using assms(2) by (simp add: BLOCK_TO_SECTOR_def vblk_def unat_word_ariths)
  then show ?thesis
    using bsz_cases [OF assms(1)] by (auto simp: SECTOR_SIZE_def)
qed

lemma read_block_eq:
  assumes "bs_ok (sb fs)" "vblk fs (unat b)"
  shows "read_block b fs = blk fs (unat b)"
  using unat_BLOCK_TO_SECTOR [OF assms] unat_sects [OF assms(1)]
  by (simp add: read_block_def partition_read_def blk_def add_mult_distrib)

lemma write_block_eq:
  assumes "bs_ok (sb fs)" "vblk fs (unat b)" "length buf = bsz fs"
  shows "write_block b buf fs = Some (put_blk (unat b) buf fs)"
  using unat_BLOCK_TO_SECTOR [OF assms(1,2)] unat_sects [OF assms(1)] assms(3)
  by (simp add: write_block_def partition_write_def put_blk_def add_mult_distrib cong: if_cong)

lemma put_blk_simps [simp]:
  "sb (put_blk b buf fs) = sb fs" "kmem (put_blk b buf fs) = kmem fs" "clock (put_blk b buf fs) = clock fs"
  "events (put_blk b buf fs) = events fs" "bsz (put_blk b buf fs) = bsz fs" "vblk (put_blk b buf fs) = vblk fs"
  by (simp_all add: put_blk_def bsz_def vblk_def fun_eq_iff)

lemma block_disjoint:
  assumes "b \<noteq> b'" "b' * n \<le> i" "i < b' * n + n"
  shows "\<not> (b * n \<le> i \<and> i < b * n + (n::nat))"
proof -
  have "i div n = b'"
    using assms(2,3) by (intro div_nat_eqI) (auto simp: algebra_simps)
  moreover have "i div n = b" if "b * n \<le> i" "i < b * n + n"
    using that by (intro div_nat_eqI) (auto simp: algebra_simps)
  ultimately show ?thesis
    using assms(1) by blast
qed

lemma blk_put_blk:
  assumes "length buf = bsz fs"
  shows "blk (put_blk b buf fs) b' = (if b' = b then buf else blk fs b')"
proof (cases "b' = b")
  case True
  then show ?thesis
    using assms by (intro nth_equalityI) (auto simp: blk_def put_blk_def bsz_def)
next
  case False
  have "store (put_blk b buf fs) i = store fs i" if "i \<in> set [b' * bsz fs..<b' * bsz fs + bsz fs]" for i
    using that block_disjoint [of b b' "bsz fs" i] False by (auto simp: put_blk_def)
  then show ?thesis
    using False unfolding blk_def by (intro nth_equalityI) simp_all
qed

lemma kmalloc_simps [simp]:
  "sb (snd (kmalloc fs)) = sb fs" "store (snd (kmalloc fs)) = store fs" "kmem (snd (kmalloc fs)) = kmem fs"
  "clock (snd (kmalloc fs)) = clock fs"
  by (simp_all add: kmalloc_def)

end
