(* ===== verification/Ext2_Alloc.thy ===== *)
theory Ext2_Alloc
  imports Ext2_Disk
begin

text \<open>
  Allocation of inode numbers and blocks from the bitmaps of the block groups: \<^verbatim>\<open>ext2_resource_alloc\<close> and
  \<^verbatim>\<open>ext2_resource_free\<close> of \<^verbatim>\<open>fs/ext2/inode.c\<close>. What a bitmap of the disk promises is a set of free numbers.
\<close>

section \<open>The code\<close>

datatype ext2_bitmap_type = EXT2_INODE_BITMAP | EXT2_BLOCK_BITMAP

text \<open>The metadata of a group and the counters, by the kind of bitmap.\<close>

fun bg_bitmap :: "ext2_bitmap_type \<Rightarrow> ext2_group_desc \<Rightarrow> u32" where
  "bg_bitmap EXT2_INODE_BITMAP gd = bg_inode_bitmap gd"
| "bg_bitmap EXT2_BLOCK_BITMAP gd = bg_block_bitmap gd"

fun bits_per_group :: "ext2_bitmap_type \<Rightarrow> super_block \<Rightarrow> u32" where
  "bits_per_group EXT2_INODE_BITMAP s = s_inodes_per_group s"
| "bits_per_group EXT2_BLOCK_BITMAP s = s_blocks_per_group s"

fun bg_free_count :: "ext2_bitmap_type \<Rightarrow> ext2_group_desc \<Rightarrow> u16" where
  "bg_free_count EXT2_INODE_BITMAP gd = bg_free_inodes_count gd"
| "bg_free_count EXT2_BLOCK_BITMAP gd = bg_free_blocks_count gd"

fun upd_counts :: "ext2_bitmap_type \<Rightarrow> nat \<Rightarrow> (u16 \<Rightarrow> u16) \<Rightarrow> (u32 \<Rightarrow> u32) \<Rightarrow> super_block \<Rightarrow> super_block" where
  "upd_counts EXT2_INODE_BITMAP grp f g s =
     s\<lparr>group_desc := (group_desc s)[grp := bg_free_inodes_count_update f (group_desc s ! grp)],
       s_free_inodes_count := g (s_free_inodes_count s)\<rparr>"
| "upd_counts EXT2_BLOCK_BITMAP grp f g s =
     s\<lparr>group_desc := (group_desc s)[grp := bg_free_blocks_count_update f (group_desc s ! grp)],
       s_free_blocks_count := g (s_free_blocks_count s)\<rparr>"

text \<open>The first number of the first group.\<close>

fun first_number :: "ext2_bitmap_type \<Rightarrow> super_block \<Rightarrow> u32" where
  "first_number EXT2_INODE_BITMAP s = 1"
| "first_number EXT2_BLOCK_BITMAP s = s_first_data_block s"

definition group_desc_at :: "super_block \<Rightarrow> u32 \<Rightarrow> ext2_group_desc halting" where
  "group_desc_at s grp = do {
     ASSERT (unat grp < length (group_desc s));
     Some (group_desc s ! unat grp)
   }"

text \<open>One round of the loop over the groups: the number that was taken, or nothing.\<close>

definition alloc_in_group :: "ext2_bitmap_type \<Rightarrow> u32 \<Rightarrow> ext2_fs \<Rightarrow> (u32 option \<times> ext2_fs) halting" where
  "alloc_in_group type grp fs = do {
     gd \<leftarrow> group_desc_at (sb fs) grp;
     let btmp_block = bg_bitmap type gd;
     if bg_free_count type gd = 0 then Some (None, fs)
     else do {
       let btmp = \<lparr>btmp_bytes_len = bits_per_group type (sb fs) div 8, bits = read_block btmp_block fs\<rparr>;
       bit_idx \<leftarrow> bitmap_scan btmp 1;
       if bit_idx \<noteq> - 1 then do {
         btmp \<leftarrow> bitmap_set btmp bit_idx 1;
         fs \<leftarrow> write_block btmp_block (bits btmp) fs;
         Some (Some (first_number type (sb fs) + grp * bits_per_group type (sb fs) + bit_idx),
           fs\<lparr>sb := upd_counts type (unat grp) (\<lambda>n. n - 1) (\<lambda>n. n - 1) (sb fs)\<rparr>)
       } else Some (None, fs)
     }
   }"

fun alloc_loop :: "ext2_bitmap_type \<Rightarrow> u32 \<Rightarrow> nat list \<Rightarrow> ext2_fs \<Rightarrow> (u32 \<times> ext2_fs) halting" where
  "alloc_loop type start_group [] fs = Some (- 1, fs)"
| "alloc_loop type start_group (i # is) fs = do {
     (r, fs) \<leftarrow> alloc_in_group type ((start_group + of_nat i) mod group_desc_cnt (sb fs)) fs;
     case r of Some n \<Rightarrow> Some (n, fs) | None \<Rightarrow> alloc_loop type start_group is fs
   }"

definition ext2_resource_alloc :: "u32 \<Rightarrow> ext2_bitmap_type \<Rightarrow> ext2_fs \<Rightarrow> (u32 \<times> ext2_fs) halting" where
  "ext2_resource_alloc start_group type fs = do {
     let (io_buf, fs) = kmalloc fs;
     if \<not> io_buf then Some (of_int (- ENOMEM), fs)
     else alloc_loop type start_group [0..<unat (group_desc_cnt (sb fs))] fs
   }"

definition ext2_resource_free :: "u32 \<Rightarrow> ext2_bitmap_type \<Rightarrow> ext2_fs \<Rightarrow> ext2_fs halting" where
  "ext2_resource_free index type fs = do {
     let real_idx = index - first_number type (sb fs);
     ASSERT (bits_per_group type (sb fs) \<noteq> 0);
     let grp = real_idx div bits_per_group type (sb fs);
     let bit_idx = real_idx mod bits_per_group type (sb fs);
     gd \<leftarrow> group_desc_at (sb fs) grp;
     let btmp_block = bg_bitmap type gd;
     let (io_buf, fs) = kmalloc fs;
     ASSERT io_buf;
     let btmp = \<lparr>btmp_bytes_len = bits_per_group type (sb fs) div 8, bits = read_block btmp_block fs\<rparr>;
     used \<leftarrow> bitmap_bit_check btmp bit_idx;
     if \<not> used then Some fs
     else do {
       btmp \<leftarrow> bitmap_set btmp bit_idx 0;
       fs \<leftarrow> write_block btmp_block (bits btmp) fs;
       Some (fs\<lparr>sb := upd_counts type (unat grp) (\<lambda>n. n + 1) (\<lambda>n. n + 1) (sb fs)\<rparr>)
     }
   }"

section \<open>Geometry and frames\<close>

text \<open>What no operation on a mounted file system changes.\<close>

definition geom :: "super_block \<Rightarrow> u32 list \<times> (u32 \<times> u32 \<times> u32 \<times> nat) list \<times> nat \<times> nat" where
  "geom s = ([s_block_size s, s_root_ino s, s_log_block_size s, s_first_data_block s, s_blocks_per_group s,
     s_inodes_per_group s, group_desc_cnt s],
     map (\<lambda>gd. (bg_block_bitmap gd, bg_inode_bitmap gd, bg_inode_table gd, length (bg_rest gd))) (group_desc s),
     length (gdt_rest s), length (sb_raw s))"

definition same_but :: "nat set \<Rightarrow> ext2_fs \<Rightarrow> ext2_fs \<Rightarrow> bool" where
  "same_but X fs fs' \<longleftrightarrow> geom (sb fs') = geom (sb fs) \<and> kmem fs' = kmem fs \<and> clock fs' = clock fs \<and>
     (\<forall>b. b \<notin> X \<longrightarrow> blk fs' b = blk fs b)"

definition ngroups :: "ext2_fs \<Rightarrow> nat" where
  "ngroups fs = length (group_desc (sb fs))"

definition bitmap_blk :: "ext2_fs \<Rightarrow> ext2_bitmap_type \<Rightarrow> nat \<Rightarrow> nat" where
  "bitmap_blk fs type g = unat (bg_bitmap type (group_desc (sb fs) ! g))"

definition bitmap_blks :: "ext2_fs \<Rightarrow> nat set" where
  "bitmap_blks fs = {bitmap_blk fs type g | type g. g < ngroups fs}"

definition group_bm :: "ext2_fs \<Rightarrow> ext2_bitmap_type \<Rightarrow> nat \<Rightarrow> bitmap" where
  "group_bm fs type g = \<lparr>btmp_bytes_len = bits_per_group type (sb fs) div 8, bits = blk fs (bitmap_blk fs type g)\<rparr>"

definition res_id :: "ext2_fs \<Rightarrow> ext2_bitmap_type \<Rightarrow> nat \<Rightarrow> nat \<Rightarrow> nat" where
  "res_id fs type g i = unat (first_number type (sb fs)) + g * unat (bits_per_group type (sb fs)) + i"

text \<open>The free numbers: the clear bits of all groups.\<close>

definition free_set :: "ext2_fs \<Rightarrow> ext2_bitmap_type \<Rightarrow> nat set" where
  "free_set fs type = {res_id fs type g i | g i. g < ngroups fs \<and> i \<in> bm_free (group_bm fs type g)}"

definition bitmaps_apart :: "ext2_fs \<Rightarrow> bool" where
  "bitmaps_apart fs \<longleftrightarrow> (\<forall>type g type' g'. g < ngroups fs \<and> g' < ngroups fs \<and>
     bitmap_blk fs type g = bitmap_blk fs type' g' \<longrightarrow> type = type' \<and> g = g')"

definition geom_ok :: "ext2_fs \<Rightarrow> bool" where
  "geom_ok fs \<longleftrightarrow> bs_ok (sb fs) \<and> 0 < ngroups fs \<and> ngroups fs = unat (group_desc_cnt (sb fs)) \<and>
     (\<forall>type. 0 < unat (bits_per_group type (sb fs)) \<and> 8 dvd unat (bits_per_group type (sb fs)) \<and>
       unat (bits_per_group type (sb fs)) \<le> 8 * bsz fs \<and>
       unat (first_number type (sb fs)) + ngroups fs * unat (bits_per_group type (sb fs)) \<le> 2 ^ 31 \<and>
       (\<forall>g<ngroups fs. vblk fs (bitmap_blk fs type g))) \<and>
     bitmaps_apart fs"

definition free_count :: "ext2_bitmap_type \<Rightarrow> super_block \<Rightarrow> u32" where
  "free_count type s = (case type of EXT2_INODE_BITMAP \<Rightarrow> s_free_inodes_count s | EXT2_BLOCK_BITMAP \<Rightarrow> s_free_blocks_count s)"

text \<open>The counters say what the bitmaps say.\<close>

definition counts_ok :: "ext2_fs \<Rightarrow> ext2_bitmap_type \<Rightarrow> bool" where
  "counts_ok fs type \<longleftrightarrow> (\<forall>g<ngroups fs.
       unat (bg_free_count type (group_desc (sb fs) ! g)) = card (bm_free (group_bm fs type g))) \<and>
     unat (free_count type (sb fs)) = card (free_set fs type)"

lemma same_but_refl [simp]: "same_but X fs fs"
  by (simp add: same_but_def)

lemma same_but_trans: "same_but X fs fs' \<Longrightarrow> same_but Y fs' fs'' \<Longrightarrow> same_but (X \<union> Y) fs fs''"
  by (simp add: same_but_def)

lemma same_but_mono: "same_but X fs fs' \<Longrightarrow> X \<subseteq> Y \<Longrightarrow> same_but Y fs fs'"
  by (auto simp: same_but_def)

lemma same_but_blk: "same_but X fs fs' \<Longrightarrow> b \<notin> X \<Longrightarrow> blk fs' b = blk fs b"
  by (simp add: same_but_def)

lemma same_but_put: "length buf = bsz fs \<Longrightarrow> same_but {b} fs (put_blk b buf fs)"
  by (simp add: same_but_def blk_put_blk)

lemma same_but_events [simp]: "same_but X fs (fs\<lparr>events := n\<rparr>)" "same_but X (fs\<lparr>events := n\<rparr>) fs"
  by (simp_all add: same_but_def blk_def bsz_def)

lemma geom_fields:
  assumes "geom s' = geom s"
  shows "s_block_size s' = s_block_size s" "s_root_ino s' = s_root_ino s" "s_log_block_size s' = s_log_block_size s"
    "s_first_data_block s' = s_first_data_block s" "s_blocks_per_group s' = s_blocks_per_group s"
    "s_inodes_per_group s' = s_inodes_per_group s" "group_desc_cnt s' = group_desc_cnt s"
    "length (group_desc s') = length (group_desc s)" "length (gdt_rest s') = length (gdt_rest s)"
    "length (sb_raw s') = length (sb_raw s)"
  using assms by (auto simp: geom_def dest: map_eq_imp_length_eq)

lemma geom_group:
  assumes "geom s' = geom s" "g < length (group_desc s)"
  shows "bg_block_bitmap (group_desc s' ! g) = bg_block_bitmap (group_desc s ! g)"
    "bg_inode_bitmap (group_desc s' ! g) = bg_inode_bitmap (group_desc s ! g)"
    "bg_inode_table (group_desc s' ! g) = bg_inode_table (group_desc s ! g)"
    "length (bg_rest (group_desc s' ! g)) = length (bg_rest (group_desc s ! g))"
proof -
  have "map (\<lambda>gd. (bg_block_bitmap gd, bg_inode_bitmap gd, bg_inode_table gd, length (bg_rest gd))) (group_desc s') ! g =
      map (\<lambda>gd. (bg_block_bitmap gd, bg_inode_bitmap gd, bg_inode_table gd, length (bg_rest gd))) (group_desc s) ! g"
    using assms(1) by (simp add: geom_def)
  then show "bg_block_bitmap (group_desc s' ! g) = bg_block_bitmap (group_desc s ! g)"
    "bg_inode_bitmap (group_desc s' ! g) = bg_inode_bitmap (group_desc s ! g)"
    "bg_inode_table (group_desc s' ! g) = bg_inode_table (group_desc s ! g)"
    "length (bg_rest (group_desc s' ! g)) = length (bg_rest (group_desc s ! g))"
    using assms geom_fields(8) [OF assms(1)] by simp_all
qed

lemma same_but_geom:
  assumes "same_but X fs fs'"
  shows "bsz fs' = bsz fs" "vblk fs' = vblk fs" "ngroups fs' = ngroups fs" "bs_ok (sb fs') = bs_ok (sb fs)"
    "bits_per_group type (sb fs') = bits_per_group type (sb fs)"
    "first_number type (sb fs') = first_number type (sb fs)"
    "group_desc_cnt (sb fs') = group_desc_cnt (sb fs)" "res_id fs' = res_id fs"
    "g < ngroups fs \<Longrightarrow> bitmap_blk fs' type g = bitmap_blk fs type g"
    "kmem fs' = kmem fs" "clock fs' = clock fs"
proof -
  have g: "geom (sb fs') = geom (sb fs)"
    using assms by (simp add: same_but_def)
  note f = geom_fields [OF g]
  show b: "bsz fs' = bsz fs"
    by (simp add: bsz_def f)
  then show "vblk fs' = vblk fs"
    by (simp add: vblk_def fun_eq_iff)
  show "ngroups fs' = ngroups fs" "bs_ok (sb fs') = bs_ok (sb fs)" "group_desc_cnt (sb fs') = group_desc_cnt (sb fs)"
    by (simp_all add: ngroups_def bs_ok_def f)
  have p: "bits_per_group t (sb fs') = bits_per_group t (sb fs)" "first_number t (sb fs') = first_number t (sb fs)" for t
    by (cases t; simp add: f)+
  then show "bits_per_group type (sb fs') = bits_per_group type (sb fs)"
    "first_number type (sb fs') = first_number type (sb fs)" "res_id fs' = res_id fs"
    by (simp_all add: res_id_def fun_eq_iff)
  show "bitmap_blk fs' type g = bitmap_blk fs type g" if "g < ngroups fs"
    using geom_group [OF g] that by (cases type) (simp_all add: bitmap_blk_def ngroups_def)
  show "kmem fs' = kmem fs" "clock fs' = clock fs"
    using assms by (simp_all add: same_but_def)
qed

lemma same_but_bitmap_blks: "same_but X fs fs' \<Longrightarrow> bitmap_blks fs' = bitmap_blks fs"
  by (auto simp: bitmap_blks_def same_but_geom(3)) (metis same_but_geom(9))+

lemma geom_ok_cong:
  assumes "same_but X fs fs'"
  shows "geom_ok fs' = geom_ok fs"
proof -
  note s = same_but_geom [OF assms]
  have "(\<forall>g<ngroups fs. vblk fs (bitmap_blk fs' t g)) = (\<forall>g<ngroups fs. vblk fs (bitmap_blk fs t g))" for t
    using s(9) by auto
  moreover have "(g < ngroups fs \<and> g' < ngroups fs \<and> bitmap_blk fs' t g = bitmap_blk fs' t' g' \<longrightarrow> t = t' \<and> g = g') =
      (g < ngroups fs \<and> g' < ngroups fs \<and> bitmap_blk fs t g = bitmap_blk fs t' g' \<longrightarrow> t = t' \<and> g = g')" for t t' g g'
    using s(9) [of g t] s(9) [of g' t'] by auto
  ultimately show ?thesis
    unfolding geom_ok_def bitmaps_apart_def by (simp only: s)
qed

lemma group_bm_cong:
  assumes "same_but X fs fs'" "g < ngroups fs" "bitmap_blk fs type g \<notin> X"
  shows "group_bm fs' type g = group_bm fs type g"
  using assms same_but_geom [OF assms(1)] by (simp add: group_bm_def same_but_blk [OF assms(1)])

section \<open>Free numbers\<close>

lemma same_but_sb:
  assumes "geom s' = geom (sb fs)"
  shows "same_but X fs (fs\<lparr>sb := s'\<rparr>)"
  using assms geom_fields(1) [OF assms] by (simp add: same_but_def blk_def bsz_def)

lemma upd_counts_geom:
  assumes "g < length (group_desc s)"
  shows "geom (upd_counts type g f h s) = geom s"
  using assms by (cases type) (auto simp: geom_def map_update list_update_same_conv)

lemma upd_counts_free:
  assumes "g < length (group_desc s)" "g' < length (group_desc s)"
  shows "bg_free_count type' (group_desc (upd_counts type g f h s) ! g') =
      (if type' = type \<and> g' = g then f (bg_free_count type (group_desc s ! g)) else bg_free_count type' (group_desc s ! g'))"
    "free_count type' (upd_counts type g f h s) = (if type' = type then h (free_count type s) else free_count type' s)"
  using assms by (cases type; cases type'; auto simp: free_count_def nth_list_update)+

lemma group_bm_wf:
  assumes "geom_ok fs"
  shows "bm_wf (group_bm fs type g)" "bm_nr (group_bm fs type g) = unat (bits_per_group type (sb fs))"
proof -
  have d: "8 dvd unat (bits_per_group type (sb fs))" "unat (bits_per_group type (sb fs)) \<le> 8 * bsz fs"
    using assms by (auto simp: geom_ok_def)
  have n: "bm_nr (group_bm fs type g) = unat (bits_per_group type (sb fs))" for g
    using d(1) by (simp add: bm_nr_def group_bm_def unat_div)
  then show "bm_nr (group_bm fs type g) = unat (bits_per_group type (sb fs))" .
  have "bsz fs \<le> 4096"
    using assms bsz_cases [of fs] by (auto simp: geom_ok_def)
  then have "unat (bits_per_group type (sb fs)) < 2 ^ 31"
    using d(2) by simp
  moreover have "unat (bits_per_group type (sb fs) div 8) \<le> bsz fs"
    using d(2) by (simp add: unat_div)
  ultimately show "bm_wf (group_bm fs type g)"
    by (simp add: bm_wf_def n) (simp add: group_bm_def)
qed

lemma bm_free_range: "geom_ok fs \<Longrightarrow> i \<in> bm_free (group_bm fs type g) \<Longrightarrow> i < unat (bits_per_group type (sb fs))"
  using group_bm_wf(2) [of fs type g] by (simp add: bm_free_def)

lemma res_id_inj:
  assumes "res_id fs type g i = res_id fs type g' i'"
    and "i < unat (bits_per_group type (sb fs))" "i' < unat (bits_per_group type (sb fs))"
  shows "g = g' \<and> i = i'"
proof -
  let ?n = "unat (bits_per_group type (sb fs))"
  have e: "g * ?n + i = g' * ?n + i'"
    using assms(1) by (simp add: res_id_def)
  have "(g * ?n + i) div ?n = g" "(g' * ?n + i') div ?n = g'"
    using assms(2,3) by (simp_all add: div_add1_eq)
  then show ?thesis
    using e by auto
qed

lemma finite_free_set [simp]: "finite (free_set fs type)"
proof -
  have "free_set fs type = (\<lambda>(g, i). res_id fs type g i) ` (SIGMA g:{..<ngroups fs}. bm_free (group_bm fs type g))"
    by (auto simp: free_set_def image_iff)
  then show ?thesis
    by (simp add: bm_free_def)
qed

lemma geom_okD:
  assumes "geom_ok fs"
  shows "bs_ok (sb fs)" "0 < ngroups fs" "ngroups fs = unat (group_desc_cnt (sb fs))"
    "0 < unat (bits_per_group type (sb fs))" "8 dvd unat (bits_per_group type (sb fs))"
    "unat (bits_per_group type (sb fs)) \<le> 8 * bsz fs"
    "unat (first_number type (sb fs)) + ngroups fs * unat (bits_per_group type (sb fs)) \<le> 2 ^ 31"
    "g < ngroups fs \<Longrightarrow> vblk fs (bitmap_blk fs type g)"
  using assms unfolding geom_ok_def by blast+

lemma bitmap_blk_inj:
  assumes "geom_ok fs" "g < ngroups fs" "g' < ngroups fs" "bitmap_blk fs type g = bitmap_blk fs type' g'"
  shows "type = type' \<and> g = g'"
proof -
  have "bitmaps_apart fs"
    using assms(1) by (simp add: geom_ok_def)
  then show ?thesis
    using assms(2-4) unfolding bitmaps_apart_def by blast
qed

text \<open>A change of one bitmap block changes the free numbers of that group only.\<close>

lemma free_set_change:
  assumes "geom_ok fs" "same_but {bitmap_blk fs type g} fs fs'" "g < ngroups fs"
  shows "free_set fs' type = {res_id fs type g' i | g' i. g' < ngroups fs \<and>
      i \<in> bm_free (group_bm (if g' = g then fs' else fs) type g')}"
    "type' \<noteq> type \<Longrightarrow> free_set fs' type' = free_set fs type'"
    "type' \<noteq> type \<or> g' \<noteq> g \<Longrightarrow> g' < ngroups fs \<Longrightarrow> group_bm fs' type' g' = group_bm fs type' g'"
proof -
  have inj: "type' = type \<and> g' = g" if "g' < ngroups fs" "bitmap_blk fs type' g' = bitmap_blk fs type g" for type' g'
    using bitmap_blk_inj [OF assms(1) that(1) assms(3) that(2)] by simp
  show o: "group_bm fs' type' g' = group_bm fs type' g'" if "type' \<noteq> type \<or> g' \<noteq> g" "g' < ngroups fs" for type' g'
  proof (rule group_bm_cong [OF assms(2) that(2)])
    show "bitmap_blk fs type' g' \<notin> {bitmap_blk fs type g}"
      using inj [OF that(2)] that(1) by auto
  qed
  show "free_set fs' type' = free_set fs type'" if "type' \<noteq> type"
    unfolding free_set_def same_but_geom(3,8) [OF assms(2)] using o [OF disjI1 [OF that]] by force
  show "free_set fs' type = {res_id fs type g' i | g' i. g' < ngroups fs \<and>
      i \<in> bm_free (group_bm (if g' = g then fs' else fs) type g')}"
    unfolding free_set_def same_but_geom(3,8) [OF assms(2)] using o [OF disjI2] by force
qed

lemma free_set_remove:
  assumes "geom_ok fs" "same_but {bitmap_blk fs type g} fs fs'" "g < ngroups fs"
    and "bm_free (group_bm fs' type g) = bm_free (group_bm fs type g) - {i}" "i < unat (bits_per_group type (sb fs))"
  shows "free_set fs' type = free_set fs type - {res_id fs type g i}"
proof (rule set_eqI)
  fix x
  let ?bits = "\<lambda>g'. bm_free (group_bm (if g' = g then fs' else fs) type g')"
  have m: "i' \<in> ?bits g' \<longleftrightarrow> i' \<in> bm_free (group_bm fs type g') \<and> res_id fs type g' i' \<noteq> res_id fs type g i"
    if "g' < ngroups fs" for g' i'
    using assms(4,5) res_id_inj [of fs type g' i' g i] bm_free_range [OF assms(1), of i' type g'] by auto
  have "x \<in> free_set fs' type \<longleftrightarrow> (\<exists>g' i'. x = res_id fs type g' i' \<and> g' < ngroups fs \<and> i' \<in> ?bits g')"
    unfolding free_set_change(1) [OF assms(1-3)] by simp
  also have "\<dots> \<longleftrightarrow> x \<in> free_set fs type - {res_id fs type g i}"
    using m by (fastforce simp: free_set_def)
  finally show "x \<in> free_set fs' type \<longleftrightarrow> x \<in> free_set fs type - {res_id fs type g i}" .
qed

lemma free_set_insert:
  assumes "geom_ok fs" "same_but {bitmap_blk fs type g} fs fs'" "g < ngroups fs"
    and "bm_free (group_bm fs' type g) = insert i (bm_free (group_bm fs type g))"
  shows "free_set fs' type = insert (res_id fs type g i) (free_set fs type)"
  unfolding free_set_change(1) [OF assms(1-3)]
  using assms(3,4) by (auto simp: free_set_def split: if_splits)

section \<open>Taking a number and giving it back\<close>

definition taken :: "ext2_bitmap_type \<Rightarrow> nat \<Rightarrow> ext2_fs \<Rightarrow> ext2_fs \<Rightarrow> bool" where
  "taken type r fs fs' \<longleftrightarrow> r \<in> free_set fs type \<and>
     (\<forall>t. free_set fs' t = (if t = type then free_set fs t - {r} else free_set fs t)) \<and>
     (\<forall>t. counts_ok fs t \<longrightarrow> counts_ok fs' t) \<and> same_but (bitmap_blks fs) fs fs'"

definition released :: "ext2_bitmap_type \<Rightarrow> nat \<Rightarrow> ext2_fs \<Rightarrow> ext2_fs \<Rightarrow> bool" where
  "released type r fs fs' \<longleftrightarrow>
     (\<forall>t. free_set fs' t = (if t = type then insert r (free_set fs t) else free_set fs t)) \<and>
     (\<forall>t. counts_ok fs t \<longrightarrow> counts_ok fs' t) \<and> same_but (bitmap_blks fs) fs fs'"

lemma count_step:
  assumes "geom_ok fs" "g < ngroups fs" "counts_ok fs t" "same_but {bitmap_blk fs type g} fs fs'"
    and "sb fs' = upd_counts type g f h (sb fs)"
    and "counts_ok fs type \<Longrightarrow> unat (f (bg_free_count type (group_desc (sb fs) ! g))) = card (bm_free (group_bm fs' type g))"
    and "counts_ok fs type \<Longrightarrow> unat (h (free_count type (sb fs))) = card (free_set fs' type)"
  shows "counts_ok fs' t"
proof -
  have l: "g < length (group_desc (sb fs))"
    using assms(2) by (simp add: ngroups_def)
  show ?thesis
  proof (cases "t = type")
    case True
    have "unat (bg_free_count t (group_desc (sb fs') ! g')) = card (bm_free (group_bm fs' t g'))" if "g' < ngroups fs" for g'
      using assms(3,6) True that upd_counts_free(1) [OF l, of g' t type f h]
        free_set_change(3) [OF assms(1,4,2) _ that, of t]
      by (cases "g' = g") (auto simp: assms(5) counts_ok_def ngroups_def)
    then show ?thesis
      using assms(3,7) True upd_counts_free(2) [OF l l, of t type f h]
      by (simp add: counts_ok_def assms(5) same_but_geom(3) [OF assms(4)])
  next
    case False
    have "unat (bg_free_count t (group_desc (sb fs') ! g')) = card (bm_free (group_bm fs' t g'))" if "g' < ngroups fs" for g'
      using assms(3) False that upd_counts_free(1) [OF l, of g' t type f h]
        free_set_change(3) [OF assms(1,4,2) _ that, of t]
      by (auto simp: assms(5) counts_ok_def ngroups_def)
    then show ?thesis
      using assms(3) False upd_counts_free(2) [OF l l, of t type f h] free_set_change(2) [OF assms(1,4,2) False]
      by (simp add: counts_ok_def assms(5) same_but_geom(3) [OF assms(4)])
  qed
qed

text \<open>Writing a bitmap block back together with the counters.\<close>

lemma bitmap_write:
  fixes f h
  assumes "geom_ok fs" "g < ngroups fs" "length (bits btmp) = bsz fs"
    and "btmp_bytes_len btmp = bits_per_group type (sb fs) div 8"
  defines "fs' \<equiv> (put_blk (bitmap_blk fs type g) (bits btmp) fs)\<lparr>sb := upd_counts type g f h (sb fs)\<rparr>"
  shows "same_but {bitmap_blk fs type g} fs fs'" "group_bm fs' type g = btmp" "sb fs' = upd_counts type g f h (sb fs)"
    "same_but (bitmap_blks fs) fs fs'"
proof -
  let ?fs1 = "put_blk (bitmap_blk fs type g) (bits btmp) fs"
  have g: "geom (upd_counts type g f h (sb ?fs1)) = geom (sb ?fs1)"
    using assms(2) by (intro upd_counts_geom) (simp add: ngroups_def)
  have "same_but {bitmap_blk fs type g} ?fs1 fs'"
    using same_but_sb [OF g] by (simp add: fs'_def)
  then show s: "same_but {bitmap_blk fs type g} fs fs'"
    using same_but_trans [OF same_but_put [OF assms(3), of "bitmap_blk fs type g"]] by fastforce
  show "sb fs' = upd_counts type g f h (sb fs)"
    by (simp add: fs'_def)
  have "blk fs' (bitmap_blk fs type g) = blk ?fs1 (bitmap_blk fs type g)"
    using geom_fields(1) [OF g] by (simp add: fs'_def blk_def bsz_def)
  also have "\<dots> = bits btmp"
    by (simp add: blk_put_blk [OF assms(3)])
  finally show "group_bm fs' type g = btmp"
    using assms(2,4) by (simp add: group_bm_def same_but_geom [OF s])
  show "same_but (bitmap_blks fs) fs fs'"
    using s assms(2) by (rule_tac same_but_mono) (auto simp: bitmap_blks_def)
qed

lemma free_set_bound:
  assumes "geom_ok fs" "r \<in> free_set fs type"
  shows "r < 2 ^ 31"
proof -
  obtain g i where r: "r = res_id fs type g i" "g < ngroups fs" "i \<in> bm_free (group_bm fs type g)"
    using assms(2) by (auto simp: free_set_def)
  let ?n = "unat (bits_per_group type (sb fs))"
  have "Suc g * ?n \<le> ngroups fs * ?n"
    using r(2) by (intro mult_le_mono1) simp
  moreover have "unat (first_number type (sb fs)) + ngroups fs * ?n \<le> 2 ^ 31"
    by (rule geom_okD(7) [OF assms(1)])
  ultimately show ?thesis
    using r(1) bm_free_range [OF assms(1) r(3)] by (simp add: res_id_def)
qed

lemma card_free_set: "geom_ok fs \<Longrightarrow> card (free_set fs type) \<le> 2 ^ 31"
  using card_mono [of "{..<2 ^ 31}" "free_set fs type"] free_set_bound by fastforce

lemma unat_number:
  assumes "geom_ok fs" "g < ngroups fs" "i < unat (bits_per_group type (sb fs))"
  shows "first_number type (sb fs) + of_nat g * bits_per_group type (sb fs) + of_nat i = of_nat (res_id fs type g i)"
  by (simp add: res_id_def)

lemma of_nat_not_m1: "i < 2 ^ 31 \<Longrightarrow> of_nat i \<noteq> (- 1 :: u32)"
proof
  assume i: "i < 2 ^ 31" "of_nat i = (- 1 :: u32)"
  then have "unat (of_nat i :: u32) = unat (- 1 :: u32)"
    by simp
  then have "i = 2 ^ 32 - 1"
    using i(1) by (simp add: unat_of_nat_small unsigned_minus_1_eq_mask mask_eq_exp_minus_1)
  then show False
    using i(1) by simp
qed

lemma alloc_in_group_spec:
  assumes "geom_ok fs" "counts_ok fs type" "unat grp < ngroups fs"
  shows "if bm_free (group_bm fs type (unat grp)) = {} then alloc_in_group type grp fs = Some (None, fs)
    else \<exists>r fs'. alloc_in_group type grp fs = Some (Some (of_nat r), fs') \<and> taken type r fs fs'"
proof -
  let ?g = "unat grp"
  let ?bm = "group_bm fs type ?g"
  have gd: "group_desc_at (sb fs) grp = Some (group_desc (sb fs) ! ?g)"
    using assms(3) by (simp add: group_desc_at_def ngroups_def)
  have cnt: "unat (bg_free_count type (group_desc (sb fs) ! ?g)) = card (bm_free ?bm)"
    using assms(2,3) by (simp add: counts_ok_def)
  have fin: "finite (bm_free ?bm)"
    by (simp add: bm_free_def)
  show ?thesis
  proof (cases "bm_free ?bm = {}")
    case True
    then have "bg_free_count type (group_desc (sb fs) ! ?g) = 0"
      using cnt by (simp add: unat_eq_zero)
    then show ?thesis
      using True gd by (simp add: alloc_in_group_def)
  next
    case False
    then have c: "bg_free_count type (group_desc (sb fs) ! ?g) \<noteq> 0"
      using cnt fin by (metis card_eq_0_iff unat_0)
    note wf = group_bm_wf [OF assms(1), of type ?g]
    define i where "i = Min (bm_free ?bm)"
    have i: "bitmap_scan ?bm 1 = Some (of_nat i)" "unat (of_nat i :: u32) = i" "i \<in> bm_free ?bm"
      using bitmap_scan_one [OF wf(1) False] Min_in [OF fin False] by (simp_all add: i_def)
    have ir: "i < unat (bits_per_group type (sb fs))"
      using bm_free_range [OF assms(1) i(3)] .
    have bs: "bs_ok (sb fs)" and v: "vblk fs (bitmap_blk fs type ?g)"
      using geom_okD(1,8) [OF assms(1)] assms(3) by simp_all
    have rd: "\<lparr>btmp_bytes_len = bits_per_group type (sb fs) div 8,
        bits = read_block (bg_bitmap type (group_desc (sb fs) ! ?g)) fs\<rparr> = ?bm"
      using read_block_eq [OF bs] v by (simp add: group_bm_def bitmap_blk_def)
    obtain btmp where b: "bitmap_set ?bm (of_nat i) 1 = Some btmp" "length (bits btmp) = length (bits ?bm)"
        "btmp_bytes_len btmp = btmp_bytes_len ?bm" "bm_bit btmp = (bm_bit ?bm)(i := True)"
      using bitmap_set_spec [of "of_nat i" ?bm 1] wf i(2) ir by (auto simp: bm_wf_def bm_nr_def)
    have bf: "bm_free btmp = bm_free ?bm - {i}"
      using b(3,4) by (auto simp: bm_free_def bm_nr_def)
    have m1: "of_nat i \<noteq> (- 1 :: u32)"
      using ir group_bm_wf [OF assms(1), of type ?g] by (intro of_nat_not_m1) (simp add: bm_wf_def)
    have len: "length (bits btmp) = bsz fs" "btmp_bytes_len btmp = bits_per_group type (sb fs) div 8"
      using b(2,3) by (simp_all add: group_bm_def)
    define fs' where "fs' = (put_blk (bitmap_blk fs type ?g) (bits btmp) fs)
      \<lparr>sb := upd_counts type ?g (\<lambda>n. n - 1) (\<lambda>n. n - 1) (sb fs)\<rparr>"
    note w = bitmap_write [OF assms(1,3) len, where f = "\<lambda>n. n - 1" and h = "\<lambda>n. n - 1", folded fs'_def]
    have fs1: "free_set fs' type = free_set fs type - {res_id fs type ?g i}"
      using free_set_remove [OF assms(1) w(1) assms(3) _ ir] bf w(2) by simp
    have mem: "res_id fs type ?g i \<in> free_set fs type"
      using i(3) assms(3) by (auto simp: free_set_def)
    have run: "alloc_in_group type grp fs = Some (Some (of_nat (res_id fs type ?g i)), fs')"
      using gd c rd i(1) m1 b(1) write_block_eq [OF bs, of "bg_bitmap type (group_desc (sb fs) ! ?g)"] v len(1)
        unat_number [OF assms(1,3) ir]
      by (simp add: alloc_in_group_def bitmap_blk_def fs'_def)
    have "counts_ok fs' t" if "counts_ok fs t" for t
    proof (rule count_step [OF assms(1,3) that w(1,3)])
      show "unat (bg_free_count type (group_desc (sb fs) ! ?g) - 1) = card (bm_free (group_bm fs' type ?g))"
        using cnt c i(3) fin by (simp add: unat_minus_one w(2) bf)
      show "unat (free_count type (sb fs) - 1) = card (free_set fs' type)" if "counts_ok fs type"
      proof -
        have "unat (free_count type (sb fs)) = card (free_set fs type)"
          using that by (simp add: counts_ok_def)
        moreover from this have "free_count type (sb fs) \<noteq> 0"
          using mem by (auto simp: card_eq_0_iff)
        ultimately show ?thesis
          using mem by (simp add: unat_minus_one fs1)
      qed
    qed
    then have "taken type (res_id fs type ?g i) fs fs'"
      using mem fs1 free_set_change(2) [OF assms(1) w(1) assms(3)] w(4) by (simp add: taken_def)
    then show ?thesis
      using False run by auto
  qed
qed

lemma all_groups:
  assumes "g < n" "unat start + n \<le> 2 ^ 32" "n = unat (cnt :: u32)"
  shows "\<exists>i<n. unat ((start + of_nat i) mod cnt) = g"
proof -
  define s where "s = unat start"
  define i where "i = (g + (n - s mod n)) mod n"
  have n: "0 < n"
    using assms(1) by simp
  have "(s + i) mod n = (s mod n + (g + (n - s mod n))) mod n"
    by (simp add: i_def mod_simps)
  also have "s mod n + (g + (n - s mod n)) = g + n"
    using mod_less_divisor [OF n, of s] by linarith
  finally have m: "(s + i) mod n = g"
    using assms(1) by simp
  have i: "i < n"
    using n by (simp add: i_def)
  then have "unat (start + of_nat i) = s + i"
    using assms(2,3) unat_u32_bound [of cnt] by (simp add: unat_plus_no_wrap unat_of_nat_small s_def)
  then have "unat ((start + of_nat i) mod cnt) = g"
    using m assms(3) by (simp add: unat_mod)
  then show ?thesis
    using i by blast
qed

lemma alloc_loop_spec:
  assumes "geom_ok fs" "counts_ok fs type"
  shows "if \<forall>i\<in>set is. bm_free (group_bm fs type (unat ((start_group + of_nat i) mod group_desc_cnt (sb fs)))) = {}
    then alloc_loop type start_group is fs = Some (- 1, fs)
    else \<exists>r fs'. alloc_loop type start_group is fs = Some (of_nat r, fs') \<and> taken type r fs fs'"
proof (induction "is")
  case Nil
  then show ?case by simp
next
  case (Cons i "is")
  have "unat ((start_group + of_nat i) mod group_desc_cnt (sb fs)) < ngroups fs"
    using geom_okD(2,3) [OF assms(1)] by (simp add: unat_mod)
  from alloc_in_group_spec [OF assms this] show ?case
    using Cons by (auto split: if_splits)
qed

lemma events_simps [simp]:
  "blk (fs\<lparr>events := n\<rparr>) = blk fs" "bsz (fs\<lparr>events := n\<rparr>) = bsz fs" "vblk (fs\<lparr>events := n\<rparr>) = vblk fs"
  "ngroups (fs\<lparr>events := n\<rparr>) = ngroups fs" "bitmap_blk (fs\<lparr>events := n\<rparr>) = bitmap_blk fs"
  "bitmap_blks (fs\<lparr>events := n\<rparr>) = bitmap_blks fs" "group_bm (fs\<lparr>events := n\<rparr>) = group_bm fs"
  "res_id (fs\<lparr>events := n\<rparr>) = res_id fs" "free_set (fs\<lparr>events := n\<rparr>) = free_set fs"
  "geom_ok (fs\<lparr>events := n\<rparr>) = geom_ok fs" "counts_ok (fs\<lparr>events := n\<rparr>) = counts_ok fs"
proof -
  have s: "same_but {} fs (fs\<lparr>events := n\<rparr>)"
    by simp
  show b: "blk (fs\<lparr>events := n\<rparr>) = blk fs" "bsz (fs\<lparr>events := n\<rparr>) = bsz fs" "vblk (fs\<lparr>events := n\<rparr>) = vblk fs"
    "ngroups (fs\<lparr>events := n\<rparr>) = ngroups fs" "bitmap_blk (fs\<lparr>events := n\<rparr>) = bitmap_blk fs"
    "bitmap_blks (fs\<lparr>events := n\<rparr>) = bitmap_blks fs" "res_id (fs\<lparr>events := n\<rparr>) = res_id fs"
    "geom_ok (fs\<lparr>events := n\<rparr>) = geom_ok fs"
    using same_but_geom(1,2,3,8) [OF s] same_but_bitmap_blks [OF s] geom_ok_cong [OF s]
    by (simp_all add: fun_eq_iff same_but_blk [OF s] bitmap_blk_def)
  then show g: "group_bm (fs\<lparr>events := n\<rparr>) = group_bm fs"
    by (simp add: group_bm_def fun_eq_iff)
  then show f: "free_set (fs\<lparr>events := n\<rparr>) = free_set fs"
    using b by (simp add: free_set_def fun_eq_iff)
  show "counts_ok (fs\<lparr>events := n\<rparr>) = counts_ok fs"
    using b g f by (simp add: counts_ok_def fun_eq_iff)
qed

lemma taken_events [simp]: "taken type r (fs\<lparr>events := n\<rparr>) fs' = taken type r fs fs'"
  by (simp add: taken_def same_but_def)

lemma released_events [simp]: "released type r (fs\<lparr>events := n\<rparr>) fs' = released type r fs fs'"
  by (simp add: released_def same_but_def)

lemma ext2_resource_alloc_spec:
  assumes "geom_ok fs" "counts_ok fs type" "kmem fs (events fs)" "unat start_group + ngroups fs \<le> 2 ^ 32"
  shows "if free_set fs type = {} then ext2_resource_alloc start_group type fs = Some (- 1, fs\<lparr>events := Suc (events fs)\<rparr>)
    else \<exists>r fs'. ext2_resource_alloc start_group type fs = Some (of_nat r, fs') \<and> taken type r fs fs'"
proof -
  let ?fs = "fs\<lparr>events := Suc (events fs)\<rparr>"
  have n: "ngroups fs = unat (group_desc_cnt (sb fs))"
    by (rule geom_okD(3) [OF assms(1)])
  have "(\<forall>i\<in>set [0..<unat (group_desc_cnt (sb fs))].
        bm_free (group_bm ?fs type (unat ((start_group + of_nat i) mod group_desc_cnt (sb ?fs)))) = {})
      \<longleftrightarrow> (\<forall>g<ngroups fs. bm_free (group_bm fs type g) = {})"
  proof
    assume a: "\<forall>i\<in>set [0..<unat (group_desc_cnt (sb fs))].
        bm_free (group_bm ?fs type (unat ((start_group + of_nat i) mod group_desc_cnt (sb ?fs)))) = {}"
    show "\<forall>g<ngroups fs. bm_free (group_bm fs type g) = {}"
    proof (intro allI impI)
      fix g assume "g < ngroups fs"
      from all_groups [OF this assms(4) n] show "bm_free (group_bm fs type g) = {}"
        using a n by auto
    qed
  next
    assume "\<forall>g<ngroups fs. bm_free (group_bm fs type g) = {}"
    then show "\<forall>i\<in>set [0..<unat (group_desc_cnt (sb fs))].
        bm_free (group_bm ?fs type (unat ((start_group + of_nat i) mod group_desc_cnt (sb ?fs)))) = {}"
      using geom_okD(2) [OF assms(1)] n by (simp add: unat_mod)
  qed
  also have "\<dots> \<longleftrightarrow> free_set fs type = {}"
    by (auto simp: free_set_def)
  finally show ?thesis
    using alloc_loop_spec [of ?fs type "[0..<unat (group_desc_cnt (sb fs))]" start_group] assms
    by (simp add: ext2_resource_alloc_def kmalloc_def split: if_splits)
qed

text \<open>The numbers the groups cover.\<close>

definition in_range :: "ext2_fs \<Rightarrow> ext2_bitmap_type \<Rightarrow> nat \<Rightarrow> bool" where
  "in_range fs type r \<longleftrightarrow> unat (first_number type (sb fs)) \<le> r \<and>
     r < unat (first_number type (sb fs)) + ngroups fs * unat (bits_per_group type (sb fs))"

lemma in_range_events [simp]: "in_range (fs\<lparr>events := n\<rparr>) = in_range fs"
  by (simp add: in_range_def fun_eq_iff)

lemma free_set_in_range:
  assumes "geom_ok fs" "r \<in> free_set fs type"
  shows "in_range fs type r"
proof -
  obtain g i where r: "r = res_id fs type g i" "g < ngroups fs" "i \<in> bm_free (group_bm fs type g)"
    using assms(2) by (auto simp: free_set_def)
  let ?n = "unat (bits_per_group type (sb fs))"
  have "Suc g * ?n \<le> ngroups fs * ?n"
    using r(2) by (intro mult_le_mono1) simp
  then show ?thesis
    using r(1) bm_free_range [OF assms(1) r(3)] by (simp add: res_id_def in_range_def)
qed

lemma in_range_split:
  assumes "geom_ok fs" "in_range fs type r"
  obtains g i where "g < ngroups fs" "i < unat (bits_per_group type (sb fs))" "r = res_id fs type g i"
    "(of_nat r - first_number type (sb fs)) div bits_per_group type (sb fs) = of_nat g"
    "(of_nat r - first_number type (sb fs)) mod bits_per_group type (sb fs) = of_nat i"
    "unat (of_nat g :: u32) = g" "unat (of_nat i :: u32) = i"
proof -
  let ?n = "unat (bits_per_group type (sb fs))" and ?f = "unat (first_number type (sb fs))"
  define g where "g = (r - ?f) div ?n"
  define i where "i = (r - ?f) mod ?n"
  note k = geom_okD(3) [OF assms(1)] geom_okD(4,7) [OF assms(1), where type = type]
  have r: "r < 2 ^ 32" "?f \<le> r" "r - ?f < ngroups fs * ?n"
    using assms(2) k(3) by (auto simp: in_range_def)
  have g: "g < ngroups fs" "i < ?n"
    using r(3) k(2) by (simp_all add: g_def i_def less_mult_imp_div_less)
  have "r = res_id fs type g i"
    using r(2) by (simp add: res_id_def g_def i_def)
  moreover have u: "unat (of_nat r - first_number type (sb fs)) = r - ?f"
    using r(1,2) by (simp add: unat_minus_no_wrap unat_of_nat_small)
  moreover have s: "unat (of_nat g :: u32) = g" "unat (of_nat i :: u32) = i"
    using less_trans [OF g(1) [unfolded k(1)] unat_u32_bound] less_trans [OF g(2) unat_u32_bound]
    by (simp_all add: unat_of_nat_small)
  moreover have "(of_nat r - first_number type (sb fs)) div bits_per_group type (sb fs) = of_nat g"
    "(of_nat r - first_number type (sb fs)) mod bits_per_group type (sb fs) = of_nat i"
    using u s by (simp_all add: word_unat_eq_iff unat_div unat_mod g_def i_def)
  ultimately show thesis
    using that [OF g] by blast
qed

lemma ext2_resource_free_spec:
  assumes "geom_ok fs" "kmem fs (events fs)" "in_range fs type r"
  shows "if r \<in> free_set fs type then ext2_resource_free (of_nat r) type fs = Some (fs\<lparr>events := Suc (events fs)\<rparr>)
    else \<exists>fs'. ext2_resource_free (of_nat r) type fs = Some fs' \<and> released type r fs fs'"
proof -
  obtain g i where gi: "g < ngroups fs" "i < unat (bits_per_group type (sb fs))" "r = res_id fs type g i"
    and dm: "(of_nat r - first_number type (sb fs)) div bits_per_group type (sb fs) = of_nat g"
    "(of_nat r - first_number type (sb fs)) mod bits_per_group type (sb fs) = of_nat i"
    and u: "unat (of_nat g :: u32) = g" "unat (of_nat i :: u32) = i"
    using in_range_split [OF assms(1,3)] by metis
  let ?fs = "fs\<lparr>events := Suc (events fs)\<rparr>" and ?bm = "group_bm fs type g"
  have geo: "geom_ok ?fs" "g < ngroups ?fs"
    using assms(1) gi(1) by simp_all
  have gd: "group_desc_at (sb fs) (of_nat g) = Some (group_desc (sb fs) ! g)"
    using gi(1) u(1) by (simp add: group_desc_at_def ngroups_def)
  have bs: "bs_ok (sb fs)" "vblk fs (bitmap_blk fs type g)"
    using geom_okD(1,8) [OF assms(1)] gi(1) by simp_all
  have rd: "\<lparr>btmp_bytes_len = bits_per_group type (sb fs) div 8,
      bits = read_block (bg_bitmap type (group_desc (sb fs) ! g)) ?fs\<rparr> = ?bm"
    using read_block_eq [of ?fs "bg_bitmap type (group_desc (sb fs) ! g)"] bs by (simp add: group_bm_def bitmap_blk_def)
  note wf = group_bm_wf [OF assms(1), of type g]
  have il: "unat (of_nat i :: u32) < 8 * length (bits ?bm)"
    using wf gi(2) u(2) by (simp add: bm_wf_def bm_nr_def)
  have mem: "r \<in> free_set fs type \<longleftrightarrow> \<not> bm_bit ?bm i"
  proof
    assume "r \<in> free_set fs type"
    then obtain g' i' where h: "r = res_id fs type g' i'" "i' \<in> bm_free (group_bm fs type g')"
      by (auto simp: free_set_def)
    then have "g = g' \<and> i = i'"
      using res_id_inj [of fs type g i g' i'] gi bm_free_range [OF assms(1) h(2)] by simp
    then show "\<not> bm_bit ?bm i"
      using h(2) by (simp add: bm_free_def)
  next
    assume "\<not> bm_bit ?bm i"
    then have "i \<in> bm_free ?bm"
      using gi(2) wf(2) by (simp add: bm_free_def)
    then show "r \<in> free_set fs type"
      using gi by (auto simp: free_set_def)
  qed
  have n0: "bits_per_group type (sb fs) \<noteq> 0"
    using geom_okD(4) [OF assms(1), of type] by auto
  show ?thesis
  proof (cases "bm_bit ?bm i")
    case False
    then show ?thesis
      using mem n0 dm gd assms(2) rd bitmap_bit_check_eq [OF il] u(2)
      by (simp add: ext2_resource_free_def kmalloc_def)
  next
    case True
    obtain btmp where b: "bitmap_set ?bm (of_nat i) 0 = Some btmp" "length (bits btmp) = length (bits ?bm)"
        "btmp_bytes_len btmp = btmp_bytes_len ?bm" "bm_bit btmp = (bm_bit ?bm)(i := False)"
      using bitmap_set_spec [OF il, of 0] u(2) by auto
    have bf: "bm_free btmp = insert i (bm_free ?bm)" "i \<notin> bm_free ?bm"
      using b(3,4) wf(2) gi(2) True by (auto simp: bm_free_def bm_nr_def)
    have len: "length (bits btmp) = bsz ?fs" "btmp_bytes_len btmp = bits_per_group type (sb ?fs) div 8"
      using b(2,3) by (simp_all add: group_bm_def)
    define fs' where "fs' = (put_blk (bitmap_blk fs type g) (bits btmp) ?fs)
      \<lparr>sb := upd_counts type g (\<lambda>n. n + 1) (\<lambda>n. n + 1) (sb ?fs)\<rparr>"
    note w = bitmap_write [OF geo len, where f = "\<lambda>n. n + 1" and h = "\<lambda>n. n + 1", simplified events_simps, folded fs'_def]
    have fs1: "free_set fs' type = insert r (free_set fs type)"
      using free_set_insert [OF geo(1), of type g fs' i] w(1,2) bf(1) gi by simp
    have run: "ext2_resource_free (of_nat r) type fs = Some fs'"
      using True n0 dm gd assms(2) rd bitmap_bit_check_eq [OF il] u b(1) bs len(1)
        write_block_eq [of ?fs "bg_bitmap type (group_desc (sb fs) ! g)" "bits btmp"]
      by (simp add: ext2_resource_free_def kmalloc_def bitmap_blk_def fs'_def)
    have fin: "finite (bm_free ?bm)"
      by (simp add: bm_free_def)
    have "counts_ok fs' t" if "counts_ok ?fs t" for t
    proof (rule count_step [OF geo that, where type = type and f = "\<lambda>n. n + 1" and h = "\<lambda>n. n + 1"])
      show "same_but {bitmap_blk ?fs type g} ?fs fs'" "sb fs' = upd_counts type g (\<lambda>n. n + 1) (\<lambda>n. n + 1) (sb ?fs)"
        using w(1,3) by simp_all
      show "unat (bg_free_count type (group_desc (sb ?fs) ! g) + 1) = card (bm_free (group_bm fs' type g))"
        if "counts_ok ?fs type"
      proof -
        have c: "unat (bg_free_count type (group_desc (sb fs) ! g)) = card (bm_free ?bm)"
          using that gi(1) by (simp add: counts_ok_def)
        have "card (bm_free btmp) \<le> unat (bits_per_group type (sb fs))"
          using card_mono [of "{..<unat (bits_per_group type (sb fs))}" "bm_free btmp"] b(3) wf(2)
          by (auto simp: bm_free_def bm_nr_def)
        also have "\<dots> < 2 ^ 16"
          using geom_okD(6) [OF assms(1), of type] bsz_cases [OF bs(1)] by auto
        finally show ?thesis
          using c bf fin by (simp add: w(2) unat_plus_no_wrap)
      qed
      show "unat (free_count type (sb ?fs) + 1) = card (free_set fs' type)" if "counts_ok ?fs type"
      proof -
        have c: "unat (free_count type (sb fs)) = card (free_set fs type)"
          using that by (simp add: counts_ok_def)
        have "card (free_set fs type) \<le> 2 ^ 31"
          by (rule card_free_set [OF assms(1)])
        then show ?thesis
          using c mem True by (simp add: fs1 unat_plus_no_wrap)
      qed
    qed
    then have "released type r fs fs'"
      using fs1 free_set_change(2) [OF geo(1), of type g fs'] w(1,4) gi(1)
      by (simp add: released_def same_but_def)
    then show ?thesis
      using run True mem by auto
  qed
qed

end
