(* ===== verification/Ext2_Map.thy ===== *)
theory Ext2_Map
  imports Ext2_Alloc
begin

text \<open>
  The map from the blocks of a file to blocks of the disk: \<^verbatim>\<open>ext2_bmap\<close>, \<^verbatim>\<open>get_or_alloc_index\<close> and
  \<^verbatim>\<open>ext2_append_block_to_inode\<close> of \<^verbatim>\<open>fs/ext2/inode.c\<close>, with twelve direct pointers and three trees of
  index blocks.
\<close>

section \<open>The code\<close>

text \<open>\<^verbatim>\<open>struct inode\<close> with its ext2 part.\<close>

record einode = inode +
  i_nlink :: u32
  i_blocks :: u32
  i_rdev :: u32
  i_block :: "u32 list"
  i_links_count :: u16
  i_dtime :: u32

definition get_or_alloc_index :: "u32 \<Rightarrow> ext2_fs \<Rightarrow> (u32 \<times> bool \<times> ext2_fs) halting" where
  "get_or_alloc_index parent_block_ptr fs =
     (if parent_block_ptr \<noteq> 0 then Some (parent_block_ptr, False, fs)
      else do {
        (new_idx_phys, fs) \<leftarrow> ext2_resource_alloc 0 EXT2_BLOCK_BITMAP fs;
        if new_idx_phys = - 1 then Some (- 1, False, fs)
        else do {
          let (empty_block, fs) = kmalloc fs;
          ASSERT empty_block;
          fs \<leftarrow> write_block new_idx_phys (replicate (unat (s_block_size (sb fs))) 0) fs;
          Some (new_idx_phys, True, fs)
        }
      })"

text \<open>
  The index block an entry of \<^verbatim>\<open>i_block\<close> names, the index block an entry of an index block names, both
  made when they are missing, and the store of a pointer into an index block. All use the one buffer
  of the caller, which is null when \<^verbatim>\<open>kmalloc\<close> failed.
\<close>

definition count_block :: "ext2_fs \<Rightarrow> einode \<Rightarrow> einode" where
  "count_block fs ino = ino\<lparr>i_blocks := i_blocks ino + s_block_size (sb fs) div of_nat SECTOR_SIZE\<rparr>"

definition index_root :: "nat \<Rightarrow> einode \<Rightarrow> ext2_fs \<Rightarrow> (u32 \<times> einode \<times> ext2_fs) halting" where
  "index_root n ino fs = do {
     (idx_block, is_new, fs) \<leftarrow> get_or_alloc_index (i_block ino ! n) fs;
     if idx_block = - 1 then Some (- 1, ino, fs)
     else Some (idx_block, if is_new then count_block fs (ino\<lparr>i_block := (i_block ino)[n := idx_block]\<rparr>) else ino, fs)
   }"

definition index_child :: "bool \<Rightarrow> u32 \<Rightarrow> u32 \<Rightarrow> einode \<Rightarrow> ext2_fs \<Rightarrow> (u32 \<times> einode \<times> ext2_fs) halting" where
  "index_child buf top_idx level_idx ino fs = do {
     ASSERT buf;
     let b = read_block top_idx fs;
     ptr \<leftarrow> rd32 b (4 * unat level_idx);
     (sec_idx, is_new, fs) \<leftarrow> get_or_alloc_index ptr fs;
     if sec_idx = - 1 then Some (- 1, ino, fs)
     else if is_new then do {
       b \<leftarrow> memcpy_to b (4 * unat level_idx) (bytes32 sec_idx);
       fs \<leftarrow> write_block top_idx b fs;
       Some (sec_idx, count_block fs ino, fs)
     }
     else Some (sec_idx, ino, fs)
   }"

definition set_pointer :: "bool \<Rightarrow> u32 \<Rightarrow> u32 \<Rightarrow> u32 \<Rightarrow> ext2_fs \<Rightarrow> ext2_fs halting" where
  "set_pointer buf idx_block level_idx phys_block fs = do {
     ASSERT buf;
     b \<leftarrow> memcpy_to (read_block idx_block fs) (4 * unat level_idx) (bytes32 phys_block);
     write_block idx_block b fs
   }"

definition ext2_append_block_to_inode :: "u32 \<Rightarrow> einode \<Rightarrow> ext2_fs \<Rightarrow> (int \<times> einode \<times> ext2_fs) halting" where
  "ext2_append_block_to_inode phys_block ino fs = do {
     let bsize = s_block_size (sb fs);
     let pnts = bsize div 4;
     ASSERT (bsize \<noteq> 0);
     let logical_idx = i_size ino div bsize;
     let (buf, fs) = kmalloc fs;
     if logical_idx < 12 then
       Some (0, count_block fs (ino\<lparr>i_block := (i_block ino)[unat logical_idx := phys_block]\<rparr>), fs)
     else if logical_idx < 12 + pnts then do {
       (idx_block, ino, fs) \<leftarrow> index_root 12 ino fs;
       if idx_block = - 1 then Some (- ENOSPC, ino, fs)
       else do {
         fs \<leftarrow> set_pointer buf idx_block (logical_idx - 12) phys_block fs;
         Some (0, count_block fs ino, fs)
       }
     }
     else if logical_idx < 12 + pnts + pnts * pnts then do {
       let rel_idx = logical_idx - (12 + pnts);
       (top_idx, ino, fs) \<leftarrow> index_root 13 ino fs;
       if top_idx = - 1 then Some (- ENOSPC, ino, fs)
       else do {
         (sec_idx, ino, fs) \<leftarrow> index_child buf top_idx (rel_idx div pnts) ino fs;
         if sec_idx = - 1 then Some (- ENOSPC, ino, fs)
         else do {
           fs \<leftarrow> set_pointer buf sec_idx (rel_idx mod pnts) phys_block fs;
           Some (0, count_block fs ino, fs)
         }
       }
     }
     else do {
       let pnts2 = pnts * pnts;
       let rel_idx = logical_idx - (12 + pnts + pnts2);
       let level1_idx = rel_idx div pnts2;
       (top_idx, ino, fs) \<leftarrow> index_root 14 ino fs;
       if top_idx = - 1 then Some (- ENOSPC, ino, fs)
       else do {
         (mid_idx, ino, fs) \<leftarrow> index_child buf top_idx level1_idx ino fs;
         if mid_idx = - 1 then Some (- ENOSPC, ino, fs)
         else do {
           (bot_idx, ino, fs) \<leftarrow> index_child buf mid_idx (rel_idx mod pnts2 div pnts) ino fs;
           if bot_idx = - 1 then Some (- ENOSPC, ino, fs)
           else do {
             fs \<leftarrow> set_pointer buf bot_idx (rel_idx mod pnts) phys_block fs;
             if level1_idx \<ge> pnts then Some (- EFBIG, ino, fs)
             else Some (0, count_block fs ino, fs)
           }
         }
       }
     }
   }"

text \<open>\<^verbatim>\<open>ext2_bmap\<close>; its reads take the length of a block from \<^verbatim>\<open>s_log_block_size\<close>.\<close>

definition read_index :: "u32 \<Rightarrow> ext2_fs \<Rightarrow> u8 list" where
  "read_index b fs = partition_read (BLOCK_TO_SECTOR (sb fs) b)
     (push_bit (unat (s_log_block_size (sb fs))) EXT2_BLOCK_UNIT div of_nat SECTOR_SIZE) fs"

definition ext2_bmap :: "einode \<Rightarrow> u32 \<Rightarrow> ext2_fs \<Rightarrow> (u32 \<times> ext2_fs) halting" where
  "ext2_bmap ino index fs = do {
     let block_size = push_bit (unat (s_log_block_size (sb fs))) EXT2_BLOCK_UNIT;
     let pnts_per_block = block_size div 4;
     let (buf, fs) = kmalloc fs;
     if \<not> buf then Some (0, fs)
     else if index < 12 then Some (i_block ino ! unat index, fs)
     else do {
       let index = index - 12;
       if index < pnts_per_block then
         (if i_block ino ! 12 = 0 then Some (0, fs)
          else do {
            phys_block \<leftarrow> rd32 (read_index (i_block ino ! 12) fs) (4 * unat index);
            Some (phys_block, fs)
          })
       else do {
         let index = index - pnts_per_block;
         if index < pnts_per_block * pnts_per_block then do {
           first \<leftarrow> rd32 (read_index (i_block ino ! 13) fs) (4 * unat (index div pnts_per_block));
           phys_block \<leftarrow> rd32 (read_index first fs) (4 * unat (index mod pnts_per_block));
           Some (phys_block, fs)
         }
         else do {
           let index = index - pnts_per_block * pnts_per_block;
           let pnts_per_level2 = pnts_per_block * pnts_per_block;
           if index < pnts_per_level2 * pnts_per_block then
             (if i_block ino ! 14 = 0 then Some (0, fs)
              else do {
                next_block \<leftarrow> rd32 (read_index (i_block ino ! 14) fs) (4 * unat (index div pnts_per_level2));
                if next_block = 0 then Some (0, fs)
                else do {
                  let remain = index mod pnts_per_level2;
                  next_block \<leftarrow> rd32 (read_index next_block fs) (4 * unat (remain div pnts_per_block));
                  if next_block = 0 then Some (0, fs)
                  else do {
                    phys_block \<leftarrow> rd32 (read_index next_block fs) (4 * unat (remain mod pnts_per_block));
                    Some (phys_block, fs)
                  }
                }
              })
           else Some (0, fs)
         }
       }
     }
   }"

section \<open>Trees of index blocks\<close>

definition ppb :: "ext2_fs \<Rightarrow> nat" where
  "ppb fs = bsz fs div 4"

definition ent :: "ext2_fs \<Rightarrow> u32 \<Rightarrow> nat \<Rightarrow> u32" where
  "ent fs r i = le32 (blk fs (unat r)) (4 * i)"

text \<open>What a tree of \<open>n\<close> levels of index blocks maps an index to, and all its blocks.\<close>

fun lookup :: "ext2_fs \<Rightarrow> nat \<Rightarrow> u32 \<Rightarrow> nat \<Rightarrow> u32" where
  "lookup fs 0 r i = r"
| "lookup fs (Suc n) r i = (if r = 0 then 0 else lookup fs n (ent fs r (i div ppb fs ^ n)) (i mod ppb fs ^ n))"

fun tb :: "ext2_fs \<Rightarrow> nat \<Rightarrow> u32 \<Rightarrow> nat set" where
  "tb fs 0 r = (if r = 0 then {} else {unat r})"
| "tb fs (Suc n) r = (if r = 0 then {} else insert (unat r) (\<Union>i<ppb fs. tb fs n (ent fs r i)))"

text \<open>No block is used twice.\<close>

fun tree_ok :: "ext2_fs \<Rightarrow> nat \<Rightarrow> u32 \<Rightarrow> bool" where
  "tree_ok fs 0 r = True"
| "tree_ok fs (Suc n) r \<longleftrightarrow> r = 0 \<or>
     (\<forall>i<ppb fs. tree_ok fs n (ent fs r i) \<and> unat r \<notin> tb fs n (ent fs r i) \<and>
       (\<forall>j<ppb fs. i \<noteq> j \<longrightarrow> tb fs n (ent fs r i) \<inter> tb fs n (ent fs r j) = {}))"

lemma tree_zero [simp]: "lookup fs n 0 i = 0" "tb fs n 0 = {}" "tree_ok fs n 0"
  by (cases n; simp)+

lemma tb_root: "r \<noteq> 0 \<Longrightarrow> unat r \<in> tb fs n r"
  by (cases n) simp_all

text \<open>A tree does not change when none of its blocks does.\<close>

lemma tree_frame:
  assumes "same_but X fs fs'" "tb fs n r \<inter> X = {}"
  shows "(i < ppb fs ^ n \<longrightarrow> lookup fs' n r i = lookup fs n r i) \<and> tb fs' n r = tb fs n r \<and> tree_ok fs' n r = tree_ok fs n r"
  using assms(2)
proof (induction n arbitrary: r i)
  case 0
  then show ?case by simp
next
  case (Suc n)
  have p: "ppb fs' = ppb fs"
    by (simp add: ppb_def same_but_geom [OF assms(1)])
  show ?case
  proof (cases "r = 0")
    case False
    then have "blk fs' (unat r) = blk fs (unat r)"
      using Suc.prems by (intro same_but_blk [OF assms(1)]) auto
    then have e: "ent fs' r j = ent fs r j" for j
      by (simp add: ent_def)
    have c: "(i < ppb fs ^ n \<longrightarrow> lookup fs' n (ent fs r j) i = lookup fs n (ent fs r j) i) \<and> tb fs' n (ent fs r j) = tb fs n (ent fs r j) \<and>
        tree_ok fs' n (ent fs r j) = tree_ok fs n (ent fs r j)" if "j < ppb fs" for i j
      using Suc.prems that False by (intro Suc.IH) auto
    have "i div ppb fs ^ n < ppb fs \<and> i mod ppb fs ^ n < ppb fs ^ n" if "i < ppb fs ^ Suc n"
      using that by (cases "ppb fs = 0") (auto simp: less_mult_imp_div_less)
    then show ?thesis
      using False p e c by auto
  qed simp
qed

text \<open>A tree below one entry of the root is replaced by one that has the blocks \<open>A\<close> in addition.\<close>

lemma tree_grow:
  assumes "r \<noteq> 0" "tree_ok fs (Suc n) r" "k < ppb fs" "same_but X fs fs'"
    and "\<forall>j<ppb fs. j \<noteq> k \<longrightarrow> tb fs n (ent fs r j) \<inter> X = {} \<and> ent fs' r j = ent fs r j"
    and "tree_ok fs' n (ent fs' r k)" "tb fs' n (ent fs' r k) = tb fs n (ent fs r k) \<union> A" "A \<inter> tb fs (Suc n) r = {}"
  shows "tree_ok fs' (Suc n) r" "tb fs' (Suc n) r = tb fs (Suc n) r \<union> A"
    "i < ppb fs ^ Suc n \<Longrightarrow> lookup fs' (Suc n) r i =
      (if i div ppb fs ^ n = k then lookup fs' n (ent fs' r k) (i mod ppb fs ^ n) else lookup fs (Suc n) r i)"
proof -
  have p: "ppb fs' = ppb fs"
    by (simp add: ppb_def same_but_geom [OF assms(4)])
  define T where "T j = tb fs n (ent fs r j)" for j
  have old: "tree_ok fs n (ent fs r j)" "unat r \<notin> T j" if "j < ppb fs" for j
    using assms(1,2) that by (auto simp: T_def)
  have dis: "T i \<inter> T j = {}" if "i < ppb fs" "j < ppb fs" "i \<noteq> j" for i j
    using assms(1,2) that by (auto simp: T_def)
  have A: "A \<inter> T j = {}" "unat r \<notin> A" if "j < ppb fs" for j
    using assms(1,8) that by (auto simp: T_def)
  have o: "(i < ppb fs ^ n \<longrightarrow> lookup fs' n (ent fs r j) i = lookup fs n (ent fs r j) i) \<and> tb fs' n (ent fs' r j) = T j \<and>
      tree_ok fs' n (ent fs' r j)" if "j < ppb fs" "j \<noteq> k" for i j
    using tree_frame [OF assms(4), of n "ent fs r j" i] assms(5) that old [OF that(1)] by (auto simp: T_def)
  have new: "tb fs' n (ent fs' r j) = (if j = k then T k \<union> A else T j)" if "j < ppb fs" for j
    using o [OF that] assms(7) by (simp add: T_def)
  show "tree_ok fs' (Suc n) r"
  proof -
    have "tree_ok fs' n (ent fs' r i) \<and> unat r \<notin> tb fs' n (ent fs' r i)" if "i < ppb fs" for i
      using new [OF that] old [OF that] A [OF that] assms(6) o [OF that] by auto
    moreover have "tb fs' n (ent fs' r i) \<inter> tb fs' n (ent fs' r j) = {}" if "i < ppb fs" "j < ppb fs" "i \<noteq> j" for i j
      using new [OF that(1)] new [OF that(2)] dis [OF that] A(1) [OF that(1)] A(1) [OF that(2)] that(3)
      by (auto split: if_splits)
    ultimately show ?thesis
      by (simp add: p)
  qed
  have "(\<Union>i<ppb fs. tb fs' n (ent fs' r i)) = (\<Union>i<ppb fs. T i) \<union> A"
    using new assms(3) by (fastforce split: if_splits)
  then show "tb fs' (Suc n) r = tb fs (Suc n) r \<union> A"
    using assms(1) p by (simp add: T_def)
  show "lookup fs' (Suc n) r i =
      (if i div ppb fs ^ n = k then lookup fs' n (ent fs' r k) (i mod ppb fs ^ n) else lookup fs (Suc n) r i)"
    if "i < ppb fs ^ Suc n"
  proof -
    have "i div ppb fs ^ n < ppb fs" "i mod ppb fs ^ n < ppb fs ^ n"
      using that by (cases "ppb fs = 0"; auto simp: less_mult_imp_div_less)+
    then show ?thesis
      using o [of "i div ppb fs ^ n" "i mod ppb fs ^ n"] assms(1,5) p by auto
  qed
qed

section \<open>Growing a tree\<close>

abbreviation "free_blocks fs \<equiv> free_set fs EXT2_BLOCK_BITMAP"

text \<open>
  The bitmaps and counters agree, memory is available, and the free blocks are usable: addressable, not
  block 0, and none of them holds a bitmap.
\<close>

definition blocks_ok :: "ext2_fs \<Rightarrow> bool" where
  "blocks_ok fs \<longleftrightarrow> geom_ok fs \<and> (\<forall>t. counts_ok fs t) \<and> (\<forall>n. kmem fs n) \<and>
     (\<forall>b\<in>free_blocks fs. vblk fs b \<and> b \<noteq> 0 \<and> b \<notin> bitmap_blks fs)"

text \<open>From \<open>fs\<close> to \<open>fs'\<close> the blocks \<open>N\<close> were allocated and, but for them and the bitmaps, only \<open>X\<close> was written.\<close>

definition grown :: "nat set \<Rightarrow> nat set \<Rightarrow> ext2_fs \<Rightarrow> ext2_fs \<Rightarrow> bool" where
  "grown N X fs fs' \<longleftrightarrow> blocks_ok fs' \<and> N \<subseteq> free_blocks fs \<and> free_blocks fs' = free_blocks fs - N \<and>
     free_set fs' EXT2_INODE_BITMAP = free_set fs EXT2_INODE_BITMAP \<and> same_but (bitmap_blks fs \<union> N \<union> X) fs fs'"

lemma grown_refl: "blocks_ok fs \<Longrightarrow> grown {} X fs fs"
  by (simp add: grown_def)

lemma grown_trans:
  assumes "grown N X fs fs'" "grown N' X' fs' fs''"
  shows "grown (N \<union> N') (X \<union> X') fs fs''"
proof -
  have "same_but ((bitmap_blks fs \<union> N \<union> X) \<union> (bitmap_blks fs' \<union> N' \<union> X')) fs fs''"
    using assms by (auto simp: grown_def intro: same_but_trans)
  moreover have "bitmap_blks fs' = bitmap_blks fs"
    using assms(1) same_but_bitmap_blks [of "bitmap_blks fs \<union> N \<union> X" fs fs'] by (simp add: grown_def)
  ultimately have "same_but (bitmap_blks fs \<union> (N \<union> N') \<union> (X \<union> X')) fs fs''"
    by (rule_tac same_but_mono) auto
  then show ?thesis
    using assms by (auto simp: grown_def)
qed

lemma grown_mono: "grown N X fs fs' \<Longrightarrow> X \<subseteq> Y \<union> N \<Longrightarrow> grown N Y fs fs'"
  by (auto simp: grown_def elim!: same_but_mono)

lemma blocks_ok_events [simp]: "blocks_ok (fs\<lparr>events := n\<rparr>) = blocks_ok fs"
  by (simp add: blocks_ok_def)

lemma grown_events [simp]: "grown {} X fs (fs\<lparr>events := n\<rparr>) = blocks_ok fs"
  "grown N X (fs\<lparr>events := n\<rparr>) fs' = grown N X fs fs'"
  by (simp_all add: grown_def same_but_def)

lemma free_block_word:
  assumes "blocks_ok fs" "b \<in> free_blocks fs"
  shows "unat (of_nat b :: u32) = b" "of_nat b \<noteq> (0 :: u32)" "of_nat b \<noteq> (- 1 :: u32)"
proof -
  have b: "b < 2 ^ 31" "b \<noteq> 0"
    using assms free_set_bound [of fs b EXT2_BLOCK_BITMAP] by (auto simp: blocks_ok_def)
  then show u: "unat (of_nat b :: u32) = b"
    by (intro unat_of_nat_small) simp
  show "of_nat b \<noteq> (0 :: u32)"
    using u b(2) by (metis unat_0)
  show "of_nat b \<noteq> (- 1 :: u32)"
    using b(1) by (rule of_nat_not_m1)
qed

text \<open>Writing blocks that hold no bitmap.\<close>

lemma grown_same:
  assumes "blocks_ok fs" "same_but X fs fs'" "X \<inter> bitmap_blks fs = {}" "group_desc (sb fs') = group_desc (sb fs)"
    and "\<forall>t. free_count t (sb fs') = free_count t (sb fs)"
  shows "grown {} X fs fs'"
proof -
  note s = assms(2)
  have g: "group_bm fs' t i = group_bm fs t i" if "i < ngroups fs" for t i
  proof (rule group_bm_cong [OF s that])
    show "bitmap_blk fs t i \<notin> X"
      using assms(3) that by (auto simp: bitmap_blks_def)
  qed
  have f: "free_set fs' t = free_set fs t" for t
    unfolding free_set_def same_but_geom(3,8) [OF s] using g by force
  have c: "counts_ok fs' t = counts_ok fs t" for t
    using g f assms(4,5) by (simp add: counts_ok_def same_but_geom(3) [OF s])
  show ?thesis
    using assms(1) f c s geom_ok_cong [OF s] same_but_bitmap_blks [OF s] same_but_geom(2,10) [OF s]
    by (auto simp: grown_def blocks_ok_def elim!: same_but_mono)
qed

lemma grown_put:
  assumes "blocks_ok fs" "length buf = bsz fs" "b \<notin> bitmap_blks fs"
  shows "grown {} {b} fs (put_blk b buf fs)"
  using assms same_but_put [OF assms(2)] by (intro grown_same) simp_all

lemma blocks_okD:
  assumes "blocks_ok fs"
  shows "geom_ok fs" "counts_ok fs t" "kmem fs n" "bs_ok (sb fs)"
    "b \<in> free_blocks fs \<Longrightarrow> vblk fs b" "b \<in> free_blocks fs \<Longrightarrow> b \<noteq> 0" "b \<in> free_blocks fs \<Longrightarrow> b \<notin> bitmap_blks fs"
  using assms geom_okD(1) [of fs] by (auto simp: blocks_ok_def)

lemma taken_grown:
  assumes "blocks_ok fs" "taken EXT2_BLOCK_BITMAP b fs fs'"
  shows "grown {b} {} fs fs'"
proof -
  have s: "same_but (bitmap_blks fs) fs fs'"
    using assms(2) by (simp add: taken_def)
  have "blocks_ok fs'"
    using assms geom_ok_cong [OF s] same_but_bitmap_blks [OF s] same_but_geom(2,10) [OF s]
    by (auto simp: blocks_ok_def taken_def)
  then show ?thesis
    using assms(2) by (auto simp: grown_def taken_def elim!: same_but_mono)
qed

lemma get_or_alloc_index_spec:
  assumes "blocks_ok fs"
  shows "if free_blocks fs = {} then get_or_alloc_index 0 fs = Some (- 1, False, fs\<lparr>events := Suc (events fs)\<rparr>)
    else \<exists>b fs'. get_or_alloc_index 0 fs = Some (of_nat b, True, fs') \<and> b \<in> free_blocks fs \<and>
      grown {b} {} fs fs' \<and> blk fs' b = replicate (bsz fs) 0"
proof (cases "free_blocks fs = {}")
  case True
  then show ?thesis
    using ext2_resource_alloc_spec [of fs EXT2_BLOCK_BITMAP 0] blocks_okD(1,2,3) [OF assms] geom_okD(3) [of fs]
    by (simp add: get_or_alloc_index_def less_imp_le)
next
  case False
  obtain b f1 where b: "ext2_resource_alloc 0 EXT2_BLOCK_BITMAP fs = Some (of_nat b, f1)" "taken EXT2_BLOCK_BITMAP b fs f1"
    using ext2_resource_alloc_spec [of fs EXT2_BLOCK_BITMAP 0] blocks_okD(1,2,3) [OF assms] geom_okD(3) [of fs] False
    by (auto simp: less_imp_le)
  have bf: "b \<in> free_blocks fs"
    using b(2) by (simp add: taken_def)
  note w = free_block_word [OF assms bf]
  have g1: "grown {b} {} fs f1"
    by (rule taken_grown [OF assms b(2)])
  let ?f2 = "f1\<lparr>events := Suc (events f1)\<rparr>"
  have s1: "same_but (bitmap_blks fs \<union> {b} \<union> {}) fs f1"
    using g1 by (simp add: grown_def)
  note sg = same_but_geom [OF s1]
  have ok: "blocks_ok ?f2" "b \<notin> bitmap_blks ?f2" "b \<notin> free_blocks ?f2" "bsz ?f2 = bsz fs" "vblk ?f2 b"
    using g1 blocks_okD(5,7) [OF assms bf] same_but_bitmap_blks [OF s1] sg by (auto simp: grown_def)
  let ?z = "replicate (bsz fs) (0::u8)"
  have z: "replicate (unat (s_block_size (sb f1))) 0 = ?z"
    using sg(1) by (simp add: bsz_def)
  have "write_block (of_nat b) ?z ?f2 = Some (put_blk b ?z ?f2)"
    using write_block_eq [of ?f2 "of_nat b" ?z] ok blocks_okD(4) [OF ok(1)] w(1) by simp
  then have run: "get_or_alloc_index 0 fs = Some (of_nat b, True, put_blk b ?z ?f2)"
    using b(1) w blocks_okD(3) [of f1] g1 z by (simp add: get_or_alloc_index_def kmalloc_def grown_def)
  have "grown {} {b} ?f2 (put_blk b ?z ?f2)"
    using ok by (intro grown_put) simp_all
  then have "grown ({b} \<union> {}) ({} \<union> {b}) fs (put_blk b ?z ?f2)"
    by (intro grown_trans [OF g1]) simp
  then have "grown {b} {} fs (put_blk b ?z ?f2)"
    by (rule_tac grown_mono) auto
  moreover have "blk (put_blk b ?z ?f2) b = ?z"
    using blk_put_blk [of ?z ?f2 b b] ok(4) by simp
  ultimately show ?thesis
    using False run bf by auto
qed

lemma ppb_bsz: "bs_ok (sb fs) \<Longrightarrow> bsz fs = 4 * ppb fs"
  using bsz_cases [of fs] by (auto simp: ppb_def)

lemma ent_put:
  assumes "bs_ok (sb fs)" "k < ppb fs" "j < ppb fs"
  shows "ent (put_blk (unat r) (overlay (blk fs (unat r)) (4 * k) (bytes32 v)) fs) r j = (if j = k then v else ent fs r j)"
proof -
  have l: "4 * k + 4 \<le> bsz fs" "4 * j + 4 \<le> bsz fs"
    using assms by (simp_all add: ppb_bsz [OF assms(1)])
  have "4 * j + 4 \<le> 4 * k \<or> 4 * k + 4 \<le> 4 * j" if "j \<noteq> k"
    using that by arith
  then show ?thesis
    using l le_overlay_other(1) [of "4 * k" "bytes32 v" "blk fs (unat r)" "4 * j"]
    by (auto simp: ent_def blk_put_blk)
qed

lemma set_pointer_spec:
  assumes "blocks_ok fs" "vblk fs (unat r)" "unat r \<notin> free_blocks fs" "unat r \<notin> bitmap_blks fs" "unat k < ppb fs"
  shows "\<exists>fs'. set_pointer True r k v fs = Some fs' \<and> grown {} {unat r} fs fs' \<and>
    (\<forall>j<ppb fs. ent fs' r j = (if j = unat k then v else ent fs r j))"
proof -
  note bs = blocks_okD(4) [OF assms(1)]
  let ?b = "overlay (blk fs (unat r)) (4 * unat k) (bytes32 v)"
  have l: "4 * unat k + 4 \<le> bsz fs"
    using assms(5) by (simp add: ppb_bsz [OF bs])
  have "set_pointer True r k v fs = Some (put_blk (unat r) ?b fs)"
    using l read_block_eq [OF bs assms(2)] write_block_eq [OF bs assms(2), of ?b] by (simp add: set_pointer_def)
  moreover have "grown {} {unat r} fs (put_blk (unat r) ?b fs)"
    using assms l by (intro grown_put) simp_all
  ultimately show ?thesis
    using ent_put [OF bs assms(5)] by auto
qed

lemma count_block_cong: "bsz fs' = bsz fs \<Longrightarrow> count_block fs' ino = count_block fs ino"
  using u32_eqI [of "s_block_size (sb fs')" "s_block_size (sb fs)"] by (simp add: count_block_def bsz_def)

lemma index_child_spec:
  assumes "blocks_ok fs" "vblk fs (unat r)" "unat r \<notin> free_blocks fs" "unat r \<notin> bitmap_blks fs" "unat k < ppb fs"
    and "ent fs r (unat k) = 0"
  shows "if free_blocks fs = {} then index_child True r k ino fs = Some (- 1, ino, fs\<lparr>events := Suc (events fs)\<rparr>)
    else \<exists>b fs'. index_child True r k ino fs = Some (of_nat b, count_block fs ino, fs') \<and> b \<in> free_blocks fs \<and>
      grown {b} {unat r} fs fs' \<and> blk fs' b = replicate (bsz fs) 0 \<and>
      (\<forall>j<ppb fs. ent fs' r j = (if j = unat k then of_nat b else ent fs r j))"
proof -
  note bs = blocks_okD(4) [OF assms(1)]
  have l: "4 * unat k + 4 \<le> bsz fs"
    using assms(5) by (simp add: ppb_bsz [OF bs])
  have rd: "rd32 (read_block r fs) (4 * unat k) = Some 0"
    using assms(6) l read_block_eq [OF bs assms(2)] by (simp add: ent_def)
  show ?thesis
  proof (cases "free_blocks fs = {}")
    case True
    then show ?thesis
      using get_or_alloc_index_spec [OF assms(1)] rd by (simp add: index_child_def)
  next
    case False
    obtain b f1 where b: "get_or_alloc_index 0 fs = Some (of_nat b, True, f1)" "b \<in> free_blocks fs"
        "grown {b} {} fs f1" "blk f1 b = replicate (bsz fs) 0"
      using get_or_alloc_index_spec [OF assms(1)] False by auto
    note w = free_block_word [OF assms(1) b(2)]
    have s1: "same_but (bitmap_blks fs \<union> {b} \<union> {}) fs f1"
      using b(3) by (simp add: grown_def)
    have ne: "unat r \<noteq> b"
      using assms(3) b(2) by auto
    have same: "blk f1 (unat r) = blk fs (unat r)"
      using assms(4) ne by (intro same_but_blk [OF s1]) simp
    note sg = same_but_geom [OF s1]
    have ok: "blocks_ok f1" "unat r \<notin> bitmap_blks f1" "unat r \<notin> free_blocks f1" "bsz f1 = bsz fs" "vblk f1 (unat r)"
      "bs_ok (sb f1)" "ppb f1 = ppb fs"
      using b(3) assms(2-4) same_but_bitmap_blks [OF s1] sg bs by (auto simp: grown_def ppb_def)
    let ?b = "overlay (blk fs (unat r)) (4 * unat k) (bytes32 (of_nat b))"
    let ?fs = "put_blk (unat r) ?b f1"
    have run: "index_child True r k ino fs = Some (of_nat b, count_block fs ino, ?fs)"
      using rd b(1) w l read_block_eq [OF bs assms(2)] write_block_eq [OF ok(6,5), of ?b] ok(4)
        count_block_cong [of ?fs fs] by (simp add: index_child_def)
    have "grown {} {unat r} f1 ?fs"
      using ok l by (intro grown_put) simp_all
    then have "grown ({b} \<union> {}) ({} \<union> {unat r}) fs ?fs"
      by (rule grown_trans [OF b(3)])
    moreover have "blk ?fs b = replicate (bsz fs) 0"
      using blk_put_blk [of ?b f1 "unat r" b] l ok(4) ne b(4) by simp
    moreover have "ent ?fs r j = (if j = unat k then of_nat b else ent fs r j)" if "j < ppb fs" for j
      using ent_put [OF ok(6), of "unat k" j r "of_nat b"] assms(5) that ok(7) same by (simp add: ent_def)
    ultimately show ?thesis
      using False run b(2) by auto
  qed
qed

text \<open>A block in use: addressable, not free, and not a bitmap.\<close>

definition usable :: "ext2_fs \<Rightarrow> nat \<Rightarrow> bool" where
  "usable fs b \<longleftrightarrow> vblk fs b \<and> b \<notin> free_blocks fs \<and> b \<notin> bitmap_blks fs"

lemma usable_events [simp]: "usable (fs\<lparr>events := n\<rparr>) = usable fs"
  by (simp add: usable_def fun_eq_iff)

lemma grownD:
  assumes "grown N X fs fs'"
  shows "blocks_ok fs'" "N \<subseteq> free_blocks fs" "free_blocks fs' = free_blocks fs - N"
    "same_but (bitmap_blks fs \<union> N \<union> X) fs fs'" "bitmap_blks fs' = bitmap_blks fs" "ppb fs' = ppb fs" "bsz fs' = bsz fs"
    "vblk fs' = vblk fs" "finite N"
proof -
  show s: "same_but (bitmap_blks fs \<union> N \<union> X) fs fs'" and n: "N \<subseteq> free_blocks fs"
    using assms by (simp_all add: grown_def)
  show "bitmap_blks fs' = bitmap_blks fs" "ppb fs' = ppb fs" "bsz fs' = bsz fs" "vblk fs' = vblk fs"
    using same_but_bitmap_blks [OF s] same_but_geom [OF s] by (simp_all add: ppb_def)
  show "blocks_ok fs'" "free_blocks fs' = free_blocks fs - N"
    using assms by (simp_all add: grown_def)
  show "finite N"
    using n by (rule finite_subset) simp
qed

lemma grown_usable:
  assumes "grown N X fs fs'" "blocks_ok fs"
  shows "usable fs b \<Longrightarrow> usable fs' b" "b \<in> N \<Longrightarrow> usable fs' b"
  using grownD [OF assms(1)] blocks_okD(5,7) [OF assms(2), of b] by (auto simp: usable_def)

lemma usable_not_m1:
  fixes b :: u32
  assumes "blocks_ok fs" "usable fs (unat b)"
  shows "b \<noteq> - 1"
proof
  assume "b = - 1"
  then have "(2 ^ 32 - 1) * (bsz fs div 512) < (2 ^ 32 :: nat)"
    using assms(2) by (simp add: usable_def vblk_def unsigned_minus_1_eq_mask mask_eq_exp_minus_1)
  then show False
    using bsz_cases [OF blocks_okD(4) [OF assms(1)]] by auto
qed

text \<open>The recursion that the branches of \<^verbatim>\<open>ext2_append_block_to_inode\<close> unroll, for a tree of \<open>n + 1\<close> levels.\<close>

fun tput :: "nat \<Rightarrow> nat \<Rightarrow> u32 \<Rightarrow> nat \<Rightarrow> u32 \<Rightarrow> einode \<Rightarrow> ext2_fs \<Rightarrow> (bool \<times> einode \<times> ext2_fs) halting" where
  "tput p 0 r i v ino fs = do {
     fs \<leftarrow> set_pointer True r (of_nat i) v fs;
     Some (True, ino, fs)
   }"
| "tput p (Suc n) r i v ino fs = do {
     (c, ino, fs) \<leftarrow> index_child True r (of_nat (i div p ^ Suc n)) ino fs;
     if c = - 1 then Some (False, ino, fs) else tput p n c (i mod p ^ Suc n) v ino fs
   }"

definition ready :: "nat \<Rightarrow> u32 \<Rightarrow> nat \<Rightarrow> u32 \<Rightarrow> ext2_fs \<Rightarrow> bool" where
  "ready n r i v fs \<longleftrightarrow> blocks_ok fs \<and> r \<noteq> 0 \<and> tree_ok fs n r \<and> (\<forall>b\<in>tb fs n r. usable fs b) \<and>
     i < ppb fs ^ n \<and> lookup fs n r i = 0 \<and> v \<noteq> 0 \<and> unat v \<notin> tb fs n r \<and> usable fs (unat v)"

definition counted :: "nat set \<Rightarrow> ext2_fs \<Rightarrow> einode \<Rightarrow> einode" where
  "counted N fs ino = ino\<lparr>i_blocks := i_blocks ino + of_nat (card N) * (s_block_size (sb fs) div of_nat SECTOR_SIZE)\<rparr>"

lemma ppb_small: "bs_ok (sb fs) \<Longrightarrow> ppb fs \<in> {256, 512, 1024}"
  using bsz_cases [of fs] by (auto simp: ppb_def)

lemma unat_ppb: "\<lbrakk>bs_ok (sb fs); k < ppb fs\<rbrakk> \<Longrightarrow> unat (of_nat k :: u32) = k"
  using ppb_small [of fs] by (intro unat_of_nat_small) auto

lemma index_child_hit:
  assumes "blocks_ok fs" "vblk fs (unat r)" "unat k < ppb fs" "ent fs r (unat k) \<noteq> 0" "ent fs r (unat k) \<noteq> - 1"
  shows "index_child True r k ino fs = Some (ent fs r (unat k), ino, fs)"
proof -
  note bs = blocks_okD(4) [OF assms(1)]
  have l: "4 * unat k + 4 \<le> bsz fs"
    using assms(3) by (simp add: ppb_bsz [OF bs])
  then have "rd32 (read_block r fs) (4 * unat k) = Some (ent fs r (unat k))"
    using read_block_eq [OF bs assms(2)] by (simp add: ent_def)
  then show ?thesis
    using assms(4,5) by (simp add: index_child_def get_or_alloc_index_def)
qed

lemma zero_tree:
  assumes "blk fs (unat r) = replicate (bsz fs) 0" "r \<noteq> 0" "bs_ok (sb fs)"
  shows "tree_ok fs n r" "tb fs n r = {unat r}" "0 < n \<Longrightarrow> i < ppb fs ^ n \<Longrightarrow> lookup fs n r i = 0"
proof -
  have e: "ent fs r j = 0" if "j < ppb fs" for j
    using that assms(1) le32_zero [of "4 * j" "bsz fs"] by (simp add: ent_def ppb_bsz [OF assms(3)])
  show "tree_ok fs n r"
    using e by (cases n) simp_all
  show "tb fs n r = {unat r}"
    using e assms(2) by (cases n) simp_all
  show "lookup fs n r i = 0" if "0 < n" "i < ppb fs ^ n"
  proof (cases n)
    case (Suc m)
    then have "i div ppb fs ^ m < ppb fs"
      using that(2) by (simp add: less_mult_imp_div_less)
    then show ?thesis
      using Suc e by simp
  qed (use that in simp)
qed

declare tb.simps(2) [simp del] tree_ok.simps(2) [simp del] lookup.simps(2) [simp del]

lemma tree_child:
  assumes "r \<noteq> 0" "j < ppb fs"
  shows "tb fs n (ent fs r j) \<subseteq> tb fs (Suc n) r" "tree_ok fs (Suc n) r \<Longrightarrow> tree_ok fs n (ent fs r j)"
    "tree_ok fs (Suc n) r \<Longrightarrow> unat r \<notin> tb fs n (ent fs r j)"
    "tree_ok fs (Suc n) r \<Longrightarrow> j' < ppb fs \<Longrightarrow> j \<noteq> j' \<Longrightarrow> tb fs n (ent fs r j) \<inter> tb fs n (ent fs r j') = {}"
  using assms by (auto simp: tb.simps(2) tree_ok.simps(2))

lemma lookup_step: "r \<noteq> 0 \<Longrightarrow> lookup fs (Suc n) r i = lookup fs n (ent fs r (i div ppb fs ^ n)) (i mod ppb fs ^ n)"
  by (simp add: lookup.simps(2))

lemma lookup_in_tb: "lookup fs n r i \<noteq> 0 \<Longrightarrow> i < ppb fs ^ n \<Longrightarrow> unat (lookup fs n r i) \<in> tb fs n r"
proof (induction n arbitrary: r i)
  case (Suc n)
  have r: "r \<noteq> 0"
    using Suc.prems(1) by (auto simp: lookup.simps(2))
  have p: "i div ppb fs ^ n < ppb fs" "0 < ppb fs"
    using Suc.prems(2) by (auto simp: less_mult_imp_div_less intro: Nat.gr0I)
  show ?case
    using Suc.IH [of "ent fs r (i div ppb fs ^ n)" "i mod ppb fs ^ n"] Suc.prems(1) r p tree_child(1) [OF r p(1), of n]
    by (auto simp: lookup_step [OF r])
qed simp

text \<open>The blocks of data below a tree, the values of its map.\<close>

definition leaves :: "ext2_fs \<Rightarrow> nat \<Rightarrow> u32 \<Rightarrow> nat set" where
  "leaves fs n r = (\<lambda>i. unat (lookup fs n r i)) ` {i. i < ppb fs ^ n \<and> lookup fs n r i \<noteq> 0}"

lemma leaves_child:
  assumes "tree_ok fs (Suc n) r" "r \<noteq> 0" "k < ppb fs"
  shows "tb fs n (ent fs r k) - leaves fs n (ent fs r k) \<subseteq> tb fs (Suc n) r - leaves fs (Suc n) r" "unat r \<notin> leaves fs (Suc n) r"
proof -
  have e: "\<exists>j<ppb fs. x \<in> tb fs n (ent fs r j) \<and> x \<in> leaves fs n (ent fs r j)" if "x \<in> leaves fs (Suc n) r" for x
  proof -
    obtain i where i: "i < ppb fs ^ Suc n" "x = unat (lookup fs (Suc n) r i)" "lookup fs (Suc n) r i \<noteq> 0"
      using \<open>x \<in> leaves fs (Suc n) r\<close> by (auto simp: leaves_def)
    have p: "i div ppb fs ^ n < ppb fs" "i mod ppb fs ^ n < ppb fs ^ n"
      using i(1) assms(3) by (simp_all add: less_mult_imp_div_less)
    then show ?thesis
      using lookup_in_tb [OF _ p(2), of "ent fs r (i div ppb fs ^ n)"] i(2,3) by (auto simp: lookup_step [OF assms(2)] leaves_def)
  qed
  show "unat r \<notin> leaves fs (Suc n) r"
    using e tree_child(3) [OF assms(2) _ assms(1)] by blast
  have "x \<notin> leaves fs (Suc n) r" if "x \<in> tb fs n (ent fs r k)" "x \<notin> leaves fs n (ent fs r k)" for x
    using e [of x] that tree_child(4) [OF assms(2,3,1)] by blast
  then show "tb fs n (ent fs r k) - leaves fs n (ent fs r k) \<subseteq> tb fs (Suc n) r - leaves fs (Suc n) r"
    using tree_child(1) [OF assms(2,3), of n] by auto
qed

lemma leaves_cong:
  "ppb fs' = ppb fs \<Longrightarrow> \<forall>j<ppb fs ^ n. lookup fs' n r j = lookup fs n r j \<Longrightarrow> leaves fs' n r = leaves fs n r"
  by (auto simp: leaves_def)

definition inserted :: "nat \<Rightarrow> u32 \<Rightarrow> nat \<Rightarrow> u32 \<Rightarrow> nat set \<Rightarrow> bool \<Rightarrow> ext2_fs \<Rightarrow> ext2_fs \<Rightarrow> bool" where
  "inserted n r i v N done fs fs' \<longleftrightarrow> grown N (tb fs n r - leaves fs n r) fs fs' \<and> tree_ok fs' n r \<and>
     tb fs' n r = tb fs n r \<union> N \<union> (if done then {unat v} else {}) \<and>
     (\<forall>j<ppb fs ^ n. lookup fs' n r j = (if done \<and> j = i then v else lookup fs n r j)) \<and>
     (\<not> done \<longrightarrow> free_blocks fs' = {})"

lemma tput_leaf:
  assumes "ready (Suc 0) r i v fs"
  shows "\<exists>fs'. tput p 0 r i v ino fs = Some (True, ino, fs') \<and> inserted (Suc 0) r i v {} True fs fs'"
proof -
  have a: "blocks_ok fs" "r \<noteq> 0" "tree_ok fs (Suc 0) r" "\<And>b. b \<in> tb fs (Suc 0) r \<Longrightarrow> usable fs b" "i < ppb fs"
      "ent fs r i = 0" "v \<noteq> 0" "unat v \<notin> tb fs (Suc 0) r"
    using assms lookup_step [of r fs 0 i] by (auto simp: ready_def)
  have r: "usable fs (unat r)"
    using a(2,4) tb_root [of r fs "Suc 0"] by blast
  have i: "unat (of_nat i :: u32) = i"
    using unat_ppb [OF blocks_okD(4) [OF a(1)] a(5)] .
  obtain fs' where fs': "set_pointer True r (of_nat i) v fs = Some fs'" "grown {} {unat r} fs fs'"
      "\<forall>j<ppb fs. ent fs' r j = (if j = i then v else ent fs r j)"
    using set_pointer_spec [OF a(1), of r "of_nat i" v] r a(5) i by (auto simp: usable_def)
  note g = grownD [OF fs'(2)]
  have o: "tb fs 0 (ent fs r j) \<inter> (bitmap_blks fs \<union> {} \<union> {unat r}) = {} \<and> ent fs' r j = ent fs r j"
    if "j < ppb fs" "j \<noteq> i" for j
    using tree_child(1,3) [OF a(2) that(1), of 0] a(3,4) fs'(3) that by (fastforce simp: usable_def)
  then have oo: "\<forall>j<ppb fs. j \<noteq> i \<longrightarrow> tb fs 0 (ent fs r j) \<inter> (bitmap_blks fs \<union> {} \<union> {unat r}) = {} \<and> ent fs' r j = ent fs r j"
    by blast
  have t: "tb fs' 0 (ent fs' r i) = tb fs 0 (ent fs r i) \<union> {unat v}"
    using fs'(3) a(5-7) by simp
  have A: "{unat v} \<inter> tb fs (Suc 0) r = {}" and t0: "tree_ok fs' 0 (ent fs' r i)"
    using a(8) by simp_all
  note tg = tree_grow [OF a(2,3,5) g(4) oo t0 t A]
  have "inserted (Suc 0) r i v {} True fs fs'"
    unfolding inserted_def
  proof (intro conjI)
    show "grown {} (tb fs (Suc 0) r - leaves fs (Suc 0) r) fs fs'"
      using fs'(2) by (rule grown_mono) (use tb_root [OF a(2)] leaves_child(2) [OF a(3,2,5)] in auto)
    show "tree_ok fs' (Suc 0) r" "tb fs' (Suc 0) r = tb fs (Suc 0) r \<union> {} \<union> (if True then {unat v} else {})"
      using tg(1,2) by (simp_all only: Un_empty_right if_True)
    have v: "ent fs' r i = v"
      using fs'(3) a(5) by simp
    show "\<forall>j<ppb fs ^ Suc 0. lookup fs' (Suc 0) r j = (if True \<and> j = i then v else lookup fs (Suc 0) r j)"
      using tg(3) unfolding v by simp
  qed simp
  then show ?thesis
    using fs'(1) by simp
qed

lemma counted_union:
  "finite N \<Longrightarrow> finite N' \<Longrightarrow> N \<inter> N' = {} \<Longrightarrow> counted N' fs (counted N fs ino) = counted (N \<union> N') fs ino"
  by (simp add: counted_def card_Un_disjoint algebra_simps)

lemma counted_simps [simp]: "counted {} fs ino = ino" "counted {b} fs ino = count_block fs ino"
  by (simp_all add: counted_def count_block_def)

lemma counted_cong: "bsz fs' = bsz fs \<Longrightarrow> counted N fs' ino = counted N fs ino"
  using u32_eqI [of "s_block_size (sb fs')" "s_block_size (sb fs)"] by (simp add: counted_def bsz_def)

text \<open>Inserting below an entry that has its index block already.\<close>

lemma tput_descend:
  assumes IH: "\<And>c j. ready (Suc n) c j v fs \<Longrightarrow>
      \<exists>done N fs'. tput (ppb fs) n c j v ino fs = Some (done, counted N fs ino, fs') \<and> card N \<le> n \<and>
        inserted (Suc n) c j v N done fs fs'"
    and rd: "ready (Suc (Suc n)) r i v fs" and k: "k = i div ppb fs ^ Suc n" and c: "ent fs r k \<noteq> 0"
  shows "\<exists>done N fs'. tput (ppb fs) n (ent fs r k) (i mod ppb fs ^ Suc n) v ino fs = Some (done, counted N fs ino, fs') \<and>
    card N \<le> n \<and> inserted (Suc (Suc n)) r i v N done fs fs'"
proof -
  have a: "blocks_ok fs" "r \<noteq> 0" "tree_ok fs (Suc (Suc n)) r" "\<And>b. b \<in> tb fs (Suc (Suc n)) r \<Longrightarrow> usable fs b"
      "i < ppb fs ^ Suc (Suc n)" "lookup fs (Suc (Suc n)) r i = 0" "v \<noteq> 0" "unat v \<notin> tb fs (Suc (Suc n)) r"
      "usable fs (unat v)"
    using rd by (auto simp: ready_def)
  let ?T = "\<lambda>j. tb fs (Suc n) (ent fs r j)"
  have kp: "k < ppb fs"
    using a(5) k by (simp add: less_mult_imp_div_less)
  have p: "0 < ppb fs"
    using kp by simp
  note sub = tree_child(1) [OF a(2), of _ fs "Suc n"]
  note ok = tree_child(2-4) [OF a(2) _ a(3)]
  have "ready (Suc n) (ent fs r k) (i mod ppb fs ^ Suc n) v fs"
    using a c ok(1) [OF kp] sub [OF kp] p lookup_step [OF a(2), of fs "Suc n" i, folded k]
    by (auto simp: ready_def)
  from IH [OF this] obtain don N fs' where f: "tput (ppb fs) n (ent fs r k) (i mod ppb fs ^ Suc n) v ino fs = Some (don, counted N fs ino, fs')"
      "inserted (Suc n) (ent fs r k) (i mod ppb fs ^ Suc n) v N don fs fs'" "card N \<le> n"
    by blast
  let ?A = "N \<union> (if don then {unat v} else {})"
  let ?I = "?T k - leaves fs (Suc n) (ent fs r k)"
  have g: "grown N ?I fs fs'" "tree_ok fs' (Suc n) (ent fs r k)" "tb fs' (Suc n) (ent fs r k) = ?T k \<union> ?A"
      "\<And>j. j < ppb fs ^ Suc n \<Longrightarrow> lookup fs' (Suc n) (ent fs r k) j =
        (if don \<and> j = i mod ppb fs ^ Suc n then v else lookup fs (Suc n) (ent fs r k) j)"
      "\<not> don \<Longrightarrow> free_blocks fs' = {}"
    using f(2) by (simp_all add: inserted_def Un_assoc)
  note gd = grownD [OF g(1)]
  let ?X = "bitmap_blks fs \<union> N \<union> ?I"
  have out: "b \<notin> bitmap_blks fs" "b \<notin> N" if "usable fs b" for b
    using that gd(2) by (auto simp: usable_def)
  have "unat r \<notin> ?X"
    using out [OF a(4) [OF tb_root [OF a(2)]]] ok(2) [OF kp] by auto
  then have e: "ent fs' r j = ent fs r j" for j
    using same_but_blk [OF gd(4), of "unat r"] by (simp add: ent_def)
  have "?T j \<inter> ?X = {} \<and> ent fs' r j = ent fs r j" if "j < ppb fs" "j \<noteq> k" for j
    using out a(4) sub [OF that(1)] ok(3) [OF that(1) kp that(2)] e by blast
  then have o: "\<forall>j<ppb fs. j \<noteq> k \<longrightarrow> ?T j \<inter> ?X = {} \<and> ent fs' r j = ent fs r j"
    by blast
  have dis: "?A \<inter> tb fs (Suc (Suc n)) r = {}"
    using out a(4,8) by auto
  have g': "tree_ok fs' (Suc n) (ent fs' r k)" "tb fs' (Suc n) (ent fs' r k) = ?T k \<union> ?A"
    using g(2,3) by (simp_all only: e)
  note tg = tree_grow [OF a(2,3) kp gd(4) o g' dis, unfolded e]
  have "inserted (Suc (Suc n)) r i v N don fs fs'"
    unfolding inserted_def
  proof (intro conjI)
    show "grown N (tb fs (Suc (Suc n)) r - leaves fs (Suc (Suc n)) r) fs fs'"
      using g(1) by (rule grown_mono) (use leaves_child(1) [OF a(3,2) kp] in blast)
    show "tree_ok fs' (Suc (Suc n)) r" "tb fs' (Suc (Suc n)) r = tb fs (Suc (Suc n)) r \<union> N \<union> (if don then {unat v} else {})"
      using tg(1,2) by (simp_all only: Un_assoc)
    show "\<not> don \<longrightarrow> free_blocks fs' = {}"
      using g(5) by simp
    show "\<forall>j<ppb fs ^ Suc (Suc n). lookup fs' (Suc (Suc n)) r j =
        (if don \<and> j = i then v else lookup fs (Suc (Suc n)) r j)"
    proof (intro allI impI)
      fix j assume j: "j < ppb fs ^ Suc (Suc n)"
      have "j = i \<longleftrightarrow> j div ppb fs ^ Suc n = k \<and> j mod ppb fs ^ Suc n = i mod ppb fs ^ Suc n"
        unfolding k by (metis div_mult_mod_eq)
      then show "lookup fs' (Suc (Suc n)) r j = (if don \<and> j = i then v else lookup fs (Suc (Suc n)) r j)"
        using tg(3) [OF j] g(4) [of "j mod ppb fs ^ Suc n"] p lookup_step [OF a(2), of fs "Suc n" j] by auto
    qed
  qed
  then show ?thesis
    using f(1,3) by blast
qed

lemma tree_events [simp]:
  "ppb (fs\<lparr>events := m\<rparr>) = ppb fs" "tb (fs\<lparr>events := m\<rparr>) n r = tb fs n r" "tree_ok (fs\<lparr>events := m\<rparr>) n r = tree_ok fs n r"
  "i < ppb fs ^ n \<Longrightarrow> lookup (fs\<lparr>events := m\<rparr>) n r i = lookup fs n r i"
  using tree_frame [of "{}" fs "fs\<lparr>events := m\<rparr>" n r i] by (simp_all add: ppb_def)

text \<open>A new, empty index block below an entry of the root changes no pointer.\<close>

lemma attach:
  assumes "ready (Suc (Suc n)) r i v fs" "k < ppb fs" "ent fs r k = 0" "b \<in> free_blocks fs"
    and "grown {b} {unat r} fs f1" "blk f1 b = replicate (bsz fs) 0"
    and "\<forall>j<ppb fs. ent f1 r j = (if j = k then of_nat b else ent fs r j)"
  shows "ready (Suc (Suc n)) r i v f1" "tb f1 (Suc (Suc n)) r = tb fs (Suc (Suc n)) r \<union> {b}"
    "\<forall>j<ppb fs ^ Suc (Suc n). lookup f1 (Suc (Suc n)) r j = lookup fs (Suc (Suc n)) r j"
proof -
  have a: "blocks_ok fs" "r \<noteq> 0" "tree_ok fs (Suc (Suc n)) r" "\<And>b. b \<in> tb fs (Suc (Suc n)) r \<Longrightarrow> usable fs b"
      "i < ppb fs ^ Suc (Suc n)" "lookup fs (Suc (Suc n)) r i = 0" "v \<noteq> 0" "unat v \<notin> tb fs (Suc (Suc n)) r"
      "usable fs (unat v)"
    using assms(1) by (auto simp: ready_def)
  note gd = grownD [OF assms(5)] and w = free_block_word [OF a(1) assms(4)]
  have z: "blk f1 (unat (of_nat b :: u32)) = replicate (bsz f1) 0"
    using assms(6) w(1) gd(7) by simp
  note zt = zero_tree [OF z w(2) blocks_okD(4) [OF gd(1)]]
  have out: "c \<notin> bitmap_blks fs" "c \<noteq> b" if "usable fs c" for c
    using that assms(4) by (auto simp: usable_def)
  have "tb fs (Suc n) (ent fs r j) \<inter> (bitmap_blks fs \<union> {b} \<union> {unat r}) = {} \<and> ent f1 r j = ent fs r j"
    if "j < ppb fs" "j \<noteq> k" for j
    using out a(4) tree_child(1) [OF a(2) that(1), of "Suc n"] tree_child(3) [OF a(2) that(1) a(3)] assms(7) that
    by fastforce
  then have o: "\<forall>j<ppb fs. j \<noteq> k \<longrightarrow> tb fs (Suc n) (ent fs r j) \<inter> (bitmap_blks fs \<union> {b} \<union> {unat r}) = {} \<and>
      ent f1 r j = ent fs r j"
    by blast
  have ek: "ent f1 r k = of_nat b"
    using assms(2,7) by simp
  have t: "tree_ok f1 (Suc n) (ent f1 r k)" "tb f1 (Suc n) (ent f1 r k) = tb fs (Suc n) (ent fs r k) \<union> {b}"
    using zt(1,2) w(1) assms(3) by (simp_all add: ek)
  have A: "{b} \<inter> tb fs (Suc (Suc n)) r = {}"
    using out a(4) by auto
  note tg = tree_grow [OF a(2,3) assms(2) gd(4) o t A]
  show tb: "tb f1 (Suc (Suc n)) r = tb fs (Suc (Suc n)) r \<union> {b}"
    by (rule tg(2))
  have l: "lookup f1 (Suc (Suc n)) r j = lookup fs (Suc (Suc n)) r j" if "j < ppb fs ^ Suc (Suc n)" for j
  proof -
    have "0 < ppb fs"
      using assms(2) by simp
    then have "lookup f1 (Suc n) (ent f1 r k) (j mod ppb fs ^ Suc n) = 0"
      unfolding ek using gd(6) by (intro zt(3)) simp_all
    then show ?thesis
      using tg(3) [OF that] lookup_step [OF a(2), of fs "Suc n" j] assms(3) by auto
  qed
  then show "\<forall>j<ppb fs ^ Suc (Suc n). lookup f1 (Suc (Suc n)) r j = lookup fs (Suc (Suc n)) r j"
    by blast
  have "usable f1 c" if "c \<in> tb f1 (Suc (Suc n)) r" for c
    using that a(4) grown_usable [OF assms(5) a(1)] by (auto simp: tb)
  then show "ready (Suc (Suc n)) r i v f1"
    using a tg(1) l [OF a(5)] gd(1,6) tb out(2) [OF a(9)] grown_usable(1) [OF assms(5) a(1) a(9)]
    by (simp add: ready_def)
qed

lemma tput_spec:
  assumes "ready (Suc n) r i v fs"
  shows "\<exists>done N fs'. tput (ppb fs) n r i v ino fs = Some (done, counted N fs ino, fs') \<and> card N \<le> n \<and>
    inserted (Suc n) r i v N done fs fs'"
  using assms
proof (induction n arbitrary: r i ino fs)
  case 0
  then show ?case
    using tput_leaf [OF 0, of "ppb fs" ino] by (metis counted_simps(1) card.empty order_refl)
next
  case (Suc n)
  have a: "blocks_ok fs" "r \<noteq> 0" "\<And>b. b \<in> tb fs (Suc (Suc n)) r \<Longrightarrow> usable fs b" "i < ppb fs ^ Suc (Suc n)"
    using Suc.prems by (auto simp: ready_def)
  define k where "k = i div ppb fs ^ Suc n"
  have kp: "k < ppb fs"
    using a(4) by (simp add: k_def less_mult_imp_div_less)
  note ku = unat_ppb [OF blocks_okD(4) [OF a(1)] kp]
  have r: "vblk fs (unat r)" "unat r \<notin> free_blocks fs" "unat r \<notin> bitmap_blks fs"
    using a(3) [OF tb_root [OF a(2)]] by (simp_all add: usable_def)
  show ?case
  proof (cases "ent fs r k = 0")
    case False
    have "usable fs (unat (ent fs r k))"
      using a(3) tree_child(1) [OF a(2) kp, of "Suc n"] tb_root [OF False] by blast
    then have "index_child True r (of_nat k) ino fs = Some (ent fs r k, ino, fs)" "ent fs r k \<noteq> - 1"
      using index_child_hit [OF a(1) r(1), of "of_nat k" ino] kp ku False usable_not_m1 [OF a(1)] by simp_all
    then show ?thesis
      using tput_descend [OF Suc.IH Suc.prems k_def False, of ino] by (simp add: k_def) (blast intro: le_SucI)
  next
    case True
    note ic = index_child_spec [OF a(1) r, of "of_nat k" ino] 
    show ?thesis
    proof (cases "free_blocks fs = {}")
      case fe: True
      have "tput (ppb fs) (Suc n) r i v ino fs = Some (False, counted {} fs ino, fs\<lparr>events := Suc (events fs)\<rparr>)"
        "card {} \<le> Suc n"
        using ic True kp ku fe by (simp_all add: k_def)
      moreover have "inserted (Suc (Suc n)) r i v {} False fs (fs\<lparr>events := Suc (events fs)\<rparr>)"
        using Suc.prems fe by (simp add: inserted_def ready_def)
      ultimately show ?thesis
        by blast
    next
      case fe: False
      obtain b f1 where b: "index_child True r (of_nat k) ino fs = Some (of_nat b, count_block fs ino, f1)"
          "b \<in> free_blocks fs" "grown {b} {unat r} fs f1" "blk f1 b = replicate (bsz fs) 0"
          "\<forall>j<ppb fs. ent f1 r j = (if j = k then of_nat b else ent fs r j)"
        using ic True kp ku fe by auto
      note w = free_block_word [OF a(1) b(2)] and gd = grownD [OF b(3)]
      note at = attach [OF Suc.prems kp True b(2-5)]
      have ek: "ent f1 r k = of_nat b" "k = i div ppb f1 ^ Suc n"
        using b(5) kp gd(6) by (simp_all add: k_def)
      have "ent f1 r k \<noteq> 0"
        using w(2) ek(1) by simp
      from tput_descend [OF Suc.IH at(1) ek(2) this, of "count_block fs ino"] obtain don N fs'
        where f: "tput (ppb fs) n (of_nat b) (i mod ppb fs ^ Suc n) v (count_block fs ino) f1 =
            Some (don, counted N f1 (count_block fs ino), fs')" "inserted (Suc (Suc n)) r i v N don f1 fs'" "card N \<le> n"
        using ek(1) gd(6) by auto
      let ?I = "tb f1 (Suc (Suc n)) r - leaves f1 (Suc (Suc n)) r"
      have g2: "grown N ?I f1 fs'"
        using f(2) by (simp add: inserted_def)
      have nb: "b \<notin> N" "finite N"
        using grownD(2,9) [OF g2] gd(3) by auto
      have c: "counted N f1 (count_block fs ino) = counted (insert b N) fs ino"
        using counted_union [of "{b}" N fs ino] nb counted_cong [OF gd(7)] by simp
      have run: "tput (ppb fs) (Suc n) r i v ino fs = Some (don, counted (insert b N) fs ino, fs')"
        using b(1) w(3) f(1) gd(6) by (simp add: k_def c)
      have g3: "grown ({b} \<union> N) ({unat r} \<union> ?I) fs fs'"
        by (rule grown_trans [OF b(3) g2])
      have "tree_ok fs (Suc (Suc n)) r"
        using Suc.prems by (simp add: ready_def)
      then have "unat r \<notin> leaves fs (Suc (Suc n)) r" "leaves f1 (Suc (Suc n)) r = leaves fs (Suc (Suc n)) r"
        using leaves_child(2) a(2) kp leaves_cong [OF gd(6) at(3)] by simp_all
      then have "{unat r} \<union> ?I \<subseteq> (tb fs (Suc (Suc n)) r - leaves fs (Suc (Suc n)) r) \<union> ({b} \<union> N)"
        using at(2) tb_root [OF a(2), of fs "Suc (Suc n)"] by blast
      with g3 have "grown ({b} \<union> N) (tb fs (Suc (Suc n)) r - leaves fs (Suc (Suc n)) r) fs fs'"
        by (rule grown_mono)
      then have "inserted (Suc (Suc n)) r i v (insert b N) don fs fs'"
        using f(2) at(2,3) gd(6) by (auto simp: inserted_def)
      moreover have "card (insert b N) \<le> Suc n"
        using f(3) nb by simp
      ultimately show ?thesis
        using run by blast
    qed
  qed
qed

section \<open>The blocks of a file\<close>

text \<open>The number of levels below each of the fifteen entries, and the entry and place of a block of the file.\<close>

definition lvl :: "nat \<Rightarrow> nat" where
  "lvl k = k - 11"

definition slot :: "nat \<Rightarrow> nat \<Rightarrow> nat \<times> nat" where
  "slot p i = (if i < 12 then (i, 0) else if i < 12 + p then (12, i - 12)
     else if i < 12 + p + p ^ 2 then (13, i - 12 - p) else (14, i - 12 - p - p ^ 2))"

definition max_blocks :: "ext2_fs \<Rightarrow> nat" where
  "max_blocks fs = 12 + ppb fs + ppb fs ^ 2 + ppb fs ^ 3"

definition imap :: "ext2_fs \<Rightarrow> einode \<Rightarrow> nat \<Rightarrow> u32" where
  "imap fs ino i = (case slot (ppb fs) i of (k, j) \<Rightarrow> lookup fs (lvl k) (i_block ino ! k) j)"

abbreviation itb :: "ext2_fs \<Rightarrow> einode \<Rightarrow> nat \<Rightarrow> nat set" where
  "itb fs ino k \<equiv> tb fs (lvl k) (i_block ino ! k)"

definition ino_blocks :: "ext2_fs \<Rightarrow> einode \<Rightarrow> nat set" where
  "ino_blocks fs ino = (\<Union>k<15. itb fs ino k)"

definition ino_ok :: "ext2_fs \<Rightarrow> einode \<Rightarrow> bool" where
  "ino_ok fs ino \<longleftrightarrow> length (i_block ino) = 15 \<and>
     (\<forall>k<15. tree_ok fs (lvl k) (i_block ino ! k) \<and> (\<forall>j<15. j \<noteq> k \<longrightarrow> itb fs ino k \<inter> itb fs ino j = {})) \<and>
     (\<forall>b\<in>ino_blocks fs ino. usable fs b)"

lemma slot_range:
  assumes "i < 12 + p + p ^ 2 + p ^ 3" "slot p i = (k, j)"
  shows "k < 15" "j < p ^ lvl k"
  using assms by (auto simp: slot_def lvl_def power2_eq_square power3_eq_cube split: if_splits)

lemma file_slot_inj: "slot p i = slot p i' \<Longrightarrow> i = i'"
  by (auto simp: slot_def split: if_splits)

text \<open>The blocks that hold data; the others of the file are index blocks.\<close>

definition data_blocks :: "ext2_fs \<Rightarrow> einode \<Rightarrow> nat set" where
  "data_blocks fs ino = (\<lambda>i. unat (imap fs ino i)) ` {i. i < max_blocks fs \<and> imap fs ino i \<noteq> 0}"

lemma index_not_data:
  assumes "ino_ok fs ino" "k < 15"
  shows "itb fs ino k - leaves fs (lvl k) (i_block ino ! k) \<subseteq> ino_blocks fs ino - data_blocks fs ino"
proof
  fix x assume x: "x \<in> itb fs ino k - leaves fs (lvl k) (i_block ino ! k)"
  have "x \<notin> data_blocks fs ino"
  proof
    assume "x \<in> data_blocks fs ino"
    then obtain i where i: "i < max_blocks fs" "imap fs ino i \<noteq> 0" "x = unat (imap fs ino i)"
      by (auto simp: data_blocks_def)
    obtain k' j where s: "slot (ppb fs) i = (k', j)"
      by fastforce
    note sr = slot_range [OF i(1) [unfolded max_blocks_def] s]
    have "x \<in> leaves fs (lvl k') (i_block ino ! k')" "x \<in> itb fs ino k'"
      using i(2,3) s sr(2) lookup_in_tb [OF _ sr(2)] by (auto simp: imap_def leaves_def)
    then show False
      using x assms sr(1) by (cases "k' = k") (auto simp: ino_ok_def)
  qed
  then show "x \<in> ino_blocks fs ino - data_blocks fs ino"
    using x assms(2) by (auto simp: ino_blocks_def)
qed

lemma ino_grow:
  assumes "ino_ok fs ino" "k < 15" "same_but X fs fs'" "\<forall>j<15. j \<noteq> k \<longrightarrow> itb fs ino j \<inter> X = {}"
    and "i_block ino' = (i_block ino)[k := r]" "tree_ok fs' (lvl k) r" "tb fs' (lvl k) r = itb fs ino k \<union> A"
    and "A \<inter> ino_blocks fs ino = {}" "\<forall>b\<in>ino_blocks fs ino \<union> A. usable fs' b"
  shows "ino_ok fs' ino'" "ino_blocks fs' ino' = ino_blocks fs ino \<union> A"
    "i < max_blocks fs \<Longrightarrow> imap fs' ino' i =
      (case slot (ppb fs) i of (k', j) \<Rightarrow> if k' = k then lookup fs' (lvl k) r j else imap fs ino i)"
proof -
  have p: "ppb fs' = ppb fs"
    by (simp add: ppb_def same_but_geom [OF assms(3)])
  have len: "length (i_block ino) = 15"
    using assms(1) by (simp add: ino_ok_def)
  have nth: "i_block ino' ! j = (if j = k then r else i_block ino ! j)" if "j < 15" for j
    using assms(2,5) len that by (simp add: nth_list_update)
  have o: "(i < ppb fs ^ lvl j \<longrightarrow> lookup fs' (lvl j) (i_block ino ! j) i = lookup fs (lvl j) (i_block ino ! j) i) \<and>
      tb fs' (lvl j) (i_block ino ! j) = itb fs ino j \<and> tree_ok fs' (lvl j) (i_block ino ! j)" if "j < 15" "j \<noteq> k" for i j
    using tree_frame [OF assms(3), of "lvl j" "i_block ino ! j" i] assms(1,4) that by (simp add: ino_ok_def)
  have new: "itb fs' ino' j = (if j = k then itb fs ino k \<union> A else itb fs ino j)" if "j < 15" for j
    using o [OF that] nth [OF that] assms(7) by simp
  have sub: "itb fs ino j \<subseteq> ino_blocks fs ino" if "j < 15" for j
    using that by (auto simp: ino_blocks_def)
  show ib: "ino_blocks fs' ino' = ino_blocks fs ino \<union> A"
    using new assms(2) unfolding ino_blocks_def by (fastforce split: if_splits)
  have "tree_ok fs' (lvl j) (i_block ino' ! j)" if "j < 15" for j
    using nth [OF that] o [OF that] assms(6) by simp
  moreover have "itb fs' ino' i \<inter> itb fs' ino' j = {}" if "i < 15" "j < 15" "j \<noteq> i" for i j
    using new [OF that(1)] new [OF that(2)] sub [OF that(1)] sub [OF that(2)] assms(1,8) that
    unfolding ino_ok_def by (auto split: if_splits) blast+
  ultimately show "ino_ok fs' ino'"
    using assms(5,9) ib len by (simp add: ino_ok_def)
  show "imap fs' ino' i = (case slot (ppb fs) i of (k', j) \<Rightarrow> if k' = k then lookup fs' (lvl k) r j else imap fs ino i)"
    if "i < max_blocks fs"
  proof -
    obtain k' j where s: "slot (ppb fs) i = (k', j)"
      by fastforce
    from slot_range [OF that [unfolded max_blocks_def] this] show ?thesis
      using s nth [of k'] o [of k' j] p by (simp add: imap_def)
  qed
qed

text \<open>The root of one of the three trees, made when it is missing.\<close>

lemma index_root_spec:
  assumes "blocks_ok fs" "ino_ok fs ino" "12 \<le> k" "k < 15"
  shows "\<exists>r N ino' fs'. index_root k ino fs = Some (r, ino', fs') \<and> grown N {} fs fs' \<and> card N \<le> 1 \<and>
    (if r = - 1 then N = {} \<and> ino' = ino \<and> free_blocks fs' = {}
     else r \<noteq> 0 \<and> ino' = counted N fs (ino\<lparr>i_block := (i_block ino)[k := r]\<rparr>) \<and> ino_ok fs' ino' \<and>
       ino_blocks fs' ino' = ino_blocks fs ino \<union> N \<and> (\<forall>i<max_blocks fs. imap fs' ino' i = imap fs ino i))"
proof -
  let ?r = "i_block ino ! k"
  have len: "length (i_block ino) = 15"
    using assms(2) by (simp add: ino_ok_def)
  show ?thesis
  proof (cases "?r = 0")
    case False
    have "unat ?r \<in> ino_blocks fs ino"
      using tb_root [OF False, of fs "lvl k"] assms(4) by (auto simp: ino_blocks_def)
    then have "?r \<noteq> - 1"
      using assms(1,2) by (auto simp: ino_ok_def dest: usable_not_m1)
    then show ?thesis
      using False assms(1,2) grown_refl [OF assms(1), of "{}"]
      by (intro exI [of _ ?r] exI [of _ "{}"] exI [of _ ino] exI [of _ fs])
        (simp add: index_root_def get_or_alloc_index_def)
  next
    case True
    show ?thesis
    proof (cases "free_blocks fs = {}")
      case fe: True
      then show ?thesis
        using get_or_alloc_index_spec [OF assms(1)] True assms(1)
        by (intro exI [of _ "- 1"] exI [of _ "{}"] exI [of _ ino] exI [of _ "fs\<lparr>events := Suc (events fs)\<rparr>"])
          (simp add: index_root_def)
    next
      case fe: False
      obtain b f1 where b: "get_or_alloc_index 0 fs = Some (of_nat b, True, f1)" "b \<in> free_blocks fs"
          "grown {b} {} fs f1" "blk f1 b = replicate (bsz fs) 0"
        using get_or_alloc_index_spec [OF assms(1)] fe by auto
      note w = free_block_word [OF assms(1) b(2)] and gd = grownD [OF b(3)]
      let ?ino = "counted {b} fs (ino\<lparr>i_block := (i_block ino)[k := of_nat b]\<rparr>)"
      have z: "blk f1 (unat (of_nat b :: u32)) = replicate (bsz f1) 0"
        using b(4) w(1) gd(7) by simp
      note zt = zero_tree [OF z w(2) blocks_okD(4) [OF gd(1)]]
      have us: "usable fs c" if "c \<in> ino_blocks fs ino" for c
        using assms(2) that by (simp add: ino_ok_def)
      have sub: "itb fs ino j \<subseteq> ino_blocks fs ino" if "j < 15" for j
        using that by (auto simp: ino_blocks_def)
      have out: "c \<notin> bitmap_blks fs" "c \<noteq> b" if "usable fs c" for c
        using that b(2) by (auto simp: usable_def)
      have o: "\<forall>j<15. j \<noteq> k \<longrightarrow> itb fs ino j \<inter> (bitmap_blks fs \<union> {b} \<union> {}) = {}"
        using out us sub by blast
      have ib: "i_block ?ino = (i_block ino)[k := of_nat b]"
        by (simp add: count_block_def)
      have t: "tb f1 (lvl k) (of_nat b) = itb fs ino k \<union> {b}"
        using zt(2) True w(1) by simp
      have A: "{b} \<inter> ino_blocks fs ino = {}"
        using out us by blast
      have u: "\<forall>c\<in>ino_blocks fs ino \<union> {b}. usable f1 c"
        using us grown_usable [OF b(3) assms(1)] by auto
      note ig = ino_grow [OF assms(2,4) gd(4) o ib zt(1) t A u]
      have "imap f1 ?ino i = imap fs ino i" if "i < max_blocks fs" for i
      proof -
        obtain k' j where s: "slot (ppb fs) i = (k', j)"
          by fastforce
        have "lookup f1 (lvl k) (of_nat b) j = 0" if "k' = k"
          using slot_range(2) [OF \<open>i < max_blocks fs\<close> [unfolded max_blocks_def] s] that assms(3) gd(6)
          by (intro zt(3)) (simp_all add: lvl_def)
        then show ?thesis
          using ig(3) [OF that] s True by (auto simp: imap_def)
      qed
      moreover have "index_root k ino fs = Some (of_nat b, ?ino, f1)"
        using b(1) w(3) True count_block_cong [OF gd(7)] by (simp add: index_root_def)
      ultimately show ?thesis
        using ig(1,2) b(3) w by (intro exI [of _ "of_nat b"] exI [of _ "{b}"] exI [of _ ?ino] exI [of _ f1]) simp
    qed
  qed
qed

text \<open>The common shape of the three branches with index blocks.\<close>

definition append_at :: "nat \<Rightarrow> nat \<Rightarrow> u32 \<Rightarrow> einode \<Rightarrow> ext2_fs \<Rightarrow> (int \<times> einode \<times> ext2_fs) halting" where
  "append_at k j v ino fs = do {
     let p = ppb fs;
     (r, ino, fs) \<leftarrow> index_root k ino fs;
     if r = - 1 then Some (- ENOSPC, ino, fs)
     else do {
       (done, ino, fs) \<leftarrow> tput p (k - 12) r j v ino fs;
       Some (if done then (0, count_block fs ino, fs) else (- ENOSPC, ino, fs))
     }
   }"

definition appended :: "nat \<Rightarrow> u32 \<Rightarrow> nat set \<Rightarrow> int \<Rightarrow> einode \<Rightarrow> ext2_fs \<Rightarrow> einode \<Rightarrow> ext2_fs \<Rightarrow> bool" where
  "appended L v N status ino fs ino' fs' \<longleftrightarrow> grown N (ino_blocks fs ino - data_blocks fs ino) fs fs' \<and> ino_ok fs' ino' \<and>
     ino_blocks fs' ino' = ino_blocks fs ino \<union> N \<union> (if status = 0 then {unat v} else {}) \<and>
     (\<forall>i<max_blocks fs. imap fs' ino' i = (if status = 0 \<and> i = L then v else imap fs ino i)) \<and>
     (status = 0 \<or> status = - ENOSPC \<and> free_blocks fs' = {}) \<and>
     (\<exists>bs. ino' = counted (if status = 0 then insert (unat v) N else N) fs (ino\<lparr>i_block := bs\<rparr>)) \<and> card N \<le> 3"

definition append_ready :: "nat \<Rightarrow> u32 \<Rightarrow> einode \<Rightarrow> ext2_fs \<Rightarrow> bool" where
  "append_ready L v ino fs \<longleftrightarrow> blocks_ok fs \<and> ino_ok fs ino \<and> L < max_blocks fs \<and> imap fs ino L = 0 \<and> v \<noteq> 0 \<and>
     usable fs (unat v) \<and> unat v \<notin> ino_blocks fs ino"

lemma counted_block: "i_block (counted N fs ino) = i_block ino"
  by (simp add: counted_def)

lemma counted_set_block: "(counted N fs ino)\<lparr>i_block := bs\<rparr> = counted N fs (ino\<lparr>i_block := bs\<rparr>)"
  by (simp add: counted_def)

lemma append_at_spec:
  assumes "append_ready L v ino fs" "slot (ppb fs) L = (k, j)" "12 \<le> k"
  shows "\<exists>N status ino' fs'. append_at k j v ino fs = Some (status, ino', fs') \<and> appended L v N status ino fs ino' fs'"
proof -
  have a: "blocks_ok fs" "ino_ok fs ino" "L < max_blocks fs" "imap fs ino L = 0" "v \<noteq> 0" "usable fs (unat v)"
      "unat v \<notin> ino_blocks fs ino"
    using assms(1) by (auto simp: append_ready_def)
  note sr = slot_range [OF a(3) [unfolded max_blocks_def] assms(2)]
  obtain r N1 i1 f1 where r: "index_root k ino fs = Some (r, i1, f1)" "grown N1 {} fs f1"
    "if r = - 1 then N1 = {} \<and> i1 = ino \<and> free_blocks f1 = {}
     else r \<noteq> 0 \<and> i1 = counted N1 fs (ino\<lparr>i_block := (i_block ino)[k := r]\<rparr>) \<and> ino_ok f1 i1 \<and>
       ino_blocks f1 i1 = ino_blocks fs ino \<union> N1 \<and> (\<forall>i<max_blocks fs. imap f1 i1 i = imap fs ino i)" "card N1 \<le> 1"
    using index_root_spec [OF a(1,2) assms(3) sr(1)] by blast
  note gd1 = grownD [OF r(2)]
  have us: "usable fs c" if "c \<in> ino_blocks fs ino" for c
    using a(2) that by (simp add: ino_ok_def)
  show ?thesis
  proof (cases "r = - 1")
    case True
    then have e: "N1 = {}" "i1 = ino" "free_blocks f1 = {}"
      using r(3) by simp_all
    have sb: "same_but (bitmap_blks fs) fs f1"
      using gd1(4) e by simp
    have sub: "itb fs ino j \<subseteq> ino_blocks fs ino" if "j < 15" for j
      using that by (auto simp: ino_blocks_def)
    have x: "itb fs ino j \<inter> bitmap_blks fs = {}" if "j < 15" for j
      using us sub [OF that] by (auto simp: usable_def)
    have fr: "(i < ppb fs ^ lvl j \<longrightarrow> lookup f1 (lvl j) (i_block ino ! j) i = lookup fs (lvl j) (i_block ino ! j) i) \<and>
        tb f1 (lvl j) (i_block ino ! j) = itb fs ino j \<and> tree_ok f1 (lvl j) (i_block ino ! j) = tree_ok fs (lvl j) (i_block ino ! j)"
      if "j < 15" for i j
      by (rule tree_frame [OF sb x [OF that]])
    have ib: "ino_blocks f1 ino = ino_blocks fs ino"
      using fr by (simp add: ino_blocks_def)
    have "ino_ok f1 ino"
      using a(2) fr ib us grown_usable(1) [OF r(2) a(1)] by (simp add: ino_ok_def)
    moreover have "imap f1 ino i = imap fs ino i" if "i < max_blocks fs" for i
    proof -
      obtain k' j' where s: "slot (ppb fs) i = (k', j')"
        by fastforce
      from slot_range [OF that [unfolded max_blocks_def] s] show ?thesis
        using fr s gd1(6) by (simp add: imap_def)
    qed
    moreover have "grown {} (ino_blocks fs ino - data_blocks fs ino) fs f1"
      using r(2) e(1) by (rule_tac grown_mono) auto
    ultimately have "appended L v {} (- ENOSPC) ino fs ino f1"
      using ib e(3) by (auto simp: appended_def ENOSPC_def intro: exI [of _ "i_block ino"])
    then show ?thesis
      using r(1) True e by (auto simp: append_at_def)
  next
    case False
    have e: "r \<noteq> 0" "i1 = counted N1 fs (ino\<lparr>i_block := (i_block ino)[k := r]\<rparr>)" "ino_ok f1 i1"
       "ino_blocks f1 i1 = ino_blocks fs ino \<union> N1" "\<And>i. i < max_blocks fs \<Longrightarrow> imap f1 i1 i = imap fs ino i"
      using r(3) unfolding if_not_P [OF False] by blast+
    have len: "length (i_block ino) = 15"
      using a(2) by (simp add: ino_ok_def)
    have rk: "i_block i1 ! k = r"
      using e(2) sr(1) len by (simp add: counted_block)
    have lk: "lvl k = Suc (k - 12)"
      using assms(3) by (simp add: lvl_def)
    have us1: "usable f1 c" if "c \<in> ino_blocks f1 i1" for c
      using e(3) that by (simp add: ino_ok_def)
    have sub: "itb f1 i1 j \<subseteq> ino_blocks f1 i1" if "j < 15" for j
      using that by (auto simp: ino_blocks_def)
    have vn: "unat v \<notin> ino_blocks f1 i1"
      using a(6,7) e(4) gd1(2) by (auto simp: usable_def)
    have mb: "max_blocks f1 = max_blocks fs"
      using gd1(6) by (simp add: max_blocks_def)
    have "ready (Suc (k - 12)) r j v f1"
      unfolding ready_def
    proof (intro conjI)
      show "tree_ok f1 (Suc (k - 12)) r"
        using e(3) sr(1) rk lk by (auto simp: ino_ok_def)
      show "\<forall>b\<in>tb f1 (Suc (k - 12)) r. usable f1 b" "unat v \<notin> tb f1 (Suc (k - 12)) r"
        using sub [OF sr(1)] us1 vn rk lk by auto
      show "lookup f1 (Suc (k - 12)) r j = 0"
        using e(5) [OF a(3)] a(4) assms(2) gd1(6) rk lk by (simp add: imap_def)
      show "usable f1 (unat v)"
        using grown_usable(1) [OF r(2) a(1,6)] .
    qed (use gd1(1,6) e(1) a(5) sr(2) lk in simp_all)
    from tput_spec [OF this, of i1] obtain don N2 fs' where f: "tput (ppb fs) (k - 12) r j v i1 f1 = Some (don, counted N2 f1 i1, fs')"
        "inserted (Suc (k - 12)) r j v N2 don f1 fs'" "card N2 \<le> k - 12"
      using gd1(6) by auto
    let ?V = "if don then {unat v} else {}"
    let ?I = "itb f1 i1 k - leaves f1 (lvl k) (i_block i1 ! k)"
    have g: "grown N2 ?I f1 fs'" "tree_ok fs' (lvl k) r" "tb fs' (lvl k) r = itb f1 i1 k \<union> (N2 \<union> ?V)"
        "\<And>i. i < ppb fs ^ lvl k \<Longrightarrow> lookup fs' (lvl k) r i = (if don \<and> i = j then v else lookup f1 (lvl k) r i)"
        "\<not> don \<Longrightarrow> free_blocks fs' = {}"
      using f(2) gd1(6) by (simp_all add: inserted_def rk lk Un_assoc)
    note gd2 = grownD [OF g(1)]
    have out: "c \<notin> bitmap_blks f1" "c \<notin> N2" if "c \<in> ino_blocks f1 i1" for c
      using us1 [OF that] gd2(2) by (auto simp: usable_def)
    have o: "\<forall>i<15. i \<noteq> k \<longrightarrow> itb f1 i1 i \<inter> (bitmap_blks f1 \<union> N2 \<union> ?I) = {}"
    proof (intro allI impI)
      fix i assume i: "i < (15::nat)" "i \<noteq> k"
      have "itb f1 i1 i \<inter> itb f1 i1 k = {}"
        using e(3) i sr(1) by (simp add: ino_ok_def)
      then show "itb f1 i1 i \<inter> (bitmap_blks f1 \<union> N2 \<union> ?I) = {}"
        using out sub [OF i(1)] by blast
    qed
    let ?ino = "counted (if don then insert (unat v) N2 else N2) f1 i1"
    have ib: "i_block ?ino = (i_block i1)[k := r]"
      using rk by (simp add: counted_block list_update_same_conv [THEN iffD2] flip: rk)
    have A: "(N2 \<union> ?V) \<inter> ino_blocks f1 i1 = {}"
      using out vn by (auto split: if_splits)
    have u: "\<forall>c\<in>ino_blocks f1 i1 \<union> (N2 \<union> ?V). usable fs' c"
      using us1 grown_usable [OF g(1) gd1(1)] grown_usable(1) [OF r(2) a(1,6)] by (auto split: if_splits)
    note ig = ino_grow [OF e(3) sr(1) gd2(4) o ib g(2,3) A u]
    have vN: "unat v \<notin> N2" "finite N2" "finite N1" "N1 \<inter> N2 = {}" "unat v \<notin> N1"
      using gd2(2,9) gd1(2,3,9) a(6) by (auto simp: usable_def)
    have run: "append_at k j v ino fs = Some (if don then 0 else - ENOSPC, ?ino, fs')"
    proof -
      have "count_block fs' (counted N2 f1 i1) = counted (insert (unat v) N2) f1 i1"
        using counted_union [of N2 "{unat v}" f1 i1] vN count_block_cong [OF gd2(7)] by simp
      then show ?thesis
        using r(1) False f(1) by (simp add: append_at_def)
    qed
    have "data_blocks f1 i1 = data_blocks fs ino"
      using mb e(5) by (auto simp: data_blocks_def)
    then have "{} \<union> ?I \<subseteq> (ino_blocks fs ino - data_blocks fs ino) \<union> (N1 \<union> N2)"
      using index_not_data [OF e(3) sr(1)] e(4) by auto
    with grown_trans [OF r(2) g(1)] have grow: "grown (N1 \<union> N2) (ino_blocks fs ino - data_blocks fs ino) fs fs'"
      by (rule grown_mono)
    have im: "imap fs' ?ino i = (if don \<and> i = L then v else imap fs ino i)" if "i < max_blocks fs" for i
    proof -
      obtain k' j' where s: "slot (ppb fs) i = (k', j')"
        by fastforce
      have "i = L \<longleftrightarrow> k' = k \<and> j' = j"
        using s assms(2) file_slot_inj [of "ppb fs" i L] by auto
      then show ?thesis
        using ig(3) [of i] that s mb gd1(6) g(4) [of j'] slot_range(2) [OF that [unfolded max_blocks_def] s] e(5) [OF that] rk
        by (auto simp: imap_def)
    qed
    have cnt: "\<exists>bs. ?ino = counted (if don then insert (unat v) (N1 \<union> N2) else N1 \<union> N2) fs (ino\<lparr>i_block := bs\<rparr>)"
      using e(2) vN counted_cong [OF gd1(7)] counted_union [of N1 N2 fs] counted_union [of N1 "insert (unat v) N2" fs]
      by (auto intro!: exI [of _ "(i_block ino)[k := r]"])
    have "card (N1 \<union> N2) \<le> 3"
      using card_Un_le [of N1 N2] r(4) f(3) sr(1) by linarith
    then have "appended L v (N1 \<union> N2) (if don then 0 else - ENOSPC) ino fs ?ino fs'"
      unfolding appended_def using grow ig(1,2) im g(5) e(4) cnt by (auto simp: ENOSPC_def)
    then show ?thesis
      using run by blast
  qed
qed

section \<open>Appending\<close>

lemma bs_words:
  assumes "bs_ok (sb fs)"
  shows "unat (s_block_size (sb fs) div 4) = ppb fs" "s_block_size (sb fs) \<noteq> 0" "unat (s_block_size (sb fs)) = bsz fs"
    "push_bit (unat (s_log_block_size (sb fs))) EXT2_BLOCK_UNIT = s_block_size (sb fs)"
  using assms by (auto elim!: bs_ok_cases simp: ppb_def bsz_def EXT2_BLOCK_UNIT_def)

text \<open>Products and sums of the number of pointers per block fit into 32 bits.\<close>

lemma pnts_words:
  fixes pnts :: u32
  assumes "unat pnts = p" "p \<in> {256, 512, 1024}"
  shows "unat (12 + pnts) = 12 + p" "unat (pnts * pnts) = p ^ 2" "unat (12 + pnts + pnts * pnts) = 12 + p + p ^ 2"
    "unat (pnts * pnts * pnts) = p ^ 3"
  using assms by (auto simp: unat_word_ariths power2_eq_square power3_eq_cube)

text \<open>The recursion, unrolled for one, two and three levels of index blocks.\<close>

lemma append_at_12:
  "append_at 12 j v ino fs = do {
     (r, ino, fs) \<leftarrow> index_root 12 ino fs;
     if r = - 1 then Some (- ENOSPC, ino, fs)
     else do { fs \<leftarrow> set_pointer True r (of_nat j) v fs; Some (0, count_block fs ino, fs) }
   }"
  by (simp add: append_at_def case_prod_beta cong: if_cong)

lemma append_at_13:
  assumes "p = ppb fs"
  shows "append_at 13 j v ino fs = do {
     (r, ino, fs) \<leftarrow> index_root 13 ino fs;
     if r = - 1 then Some (- ENOSPC, ino, fs)
     else do {
       (c, ino, fs) \<leftarrow> index_child True r (of_nat (j div p)) ino fs;
       if c = - 1 then Some (- ENOSPC, ino, fs)
       else do { fs \<leftarrow> set_pointer True c (of_nat (j mod p)) v fs; Some (0, count_block fs ino, fs) }
     }
   }"
  unfolding append_at_def Let_def assms
proof (rule Option.bind_cong [OF refl], clarify)
  fix r i1 f1
  show "(if r = - 1 then Some (- ENOSPC, i1, f1)
      else do {
        (done, ino, fs) \<leftarrow> tput (ppb fs) (13 - 12) r j v i1 f1;
        Some (if done then (0, count_block fs ino, fs) else (- ENOSPC, ino, fs))
      }) = (if r = - 1 then Some (- ENOSPC, i1, f1)
      else do {
        (c, ino, fa) \<leftarrow> index_child True r (of_nat (j div ppb fs)) i1 f1;
        if c = - 1 then Some (- ENOSPC, ino, fa)
        else do { fs \<leftarrow> set_pointer True c (of_nat (j mod ppb fs)) v fa; Some (0, count_block fs ino, fs) }
      })"
    by (cases "index_child True r (of_nat (j div ppb fs)) i1 f1") (auto split: if_splits)
qed

lemma append_at_14:
  assumes "p = ppb fs"
  shows "append_at 14 j v ino fs = do {
     (r, ino, fs) \<leftarrow> index_root 14 ino fs;
     if r = - 1 then Some (- ENOSPC, ino, fs)
     else do {
       (c, ino, fs) \<leftarrow> index_child True r (of_nat (j div p ^ 2)) ino fs;
       if c = - 1 then Some (- ENOSPC, ino, fs)
       else do {
         (d, ino, fs) \<leftarrow> index_child True c (of_nat (j mod p ^ 2 div p)) ino fs;
         if d = - 1 then Some (- ENOSPC, ino, fs)
         else do { fs \<leftarrow> set_pointer True d (of_nat (j mod p ^ 2 mod p)) v fs; Some (0, count_block fs ino, fs) }
       }
     }
   }"
  unfolding append_at_def Let_def assms
proof (rule Option.bind_cong [OF refl], clarify)
  fix r i1 f1
  have t: "tput (ppb fs) (14 - 12) r j v i1 f1 = do {
      (c, ino, fa) \<leftarrow> index_child True r (of_nat (j div ppb fs ^ 2)) i1 f1;
      if c = - 1 then Some (False, ino, fa)
      else do {
        (d, ino, fa) \<leftarrow> index_child True c (of_nat (j mod ppb fs ^ 2 div ppb fs)) ino fa;
        if d = - 1 then Some (False, ino, fa)
        else do { fa \<leftarrow> set_pointer True d (of_nat (j mod ppb fs ^ 2 mod ppb fs)) v fa; Some (True, ino, fa) }
      }
    }"
    by (simp add: numeral_2_eq_2 cong: if_cong)
  show "(if r = - 1 then Some (- ENOSPC, i1, f1)
      else do {
        (done, ino, fs) \<leftarrow> tput (ppb fs) (14 - 12) r j v i1 f1;
        Some (if done then (0, count_block fs ino, fs) else (- ENOSPC, ino, fs))
      }) = (if r = - 1 then Some (- ENOSPC, i1, f1)
      else do {
        (c, ino, fa) \<leftarrow> index_child True r (of_nat (j div ppb fs ^ 2)) i1 f1;
        if c = - 1 then Some (- ENOSPC, ino, fa)
        else do {
          (d, ino, fa) \<leftarrow> index_child True c (of_nat (j mod ppb fs ^ 2 div ppb fs)) ino fa;
          if d = - 1 then Some (- ENOSPC, ino, fa)
          else do { fs \<leftarrow> set_pointer True d (of_nat (j mod ppb fs ^ 2 mod ppb fs)) v fa; Some (0, count_block fs ino, fs) }
        }
      })"
    unfolding t
    by (cases "index_child True r (of_nat (j div ppb fs ^ 2)) i1 f1") (auto split: if_splits intro!: Option.bind_cong)
qed

text \<open>Each branch with index blocks is an instance of the recursion.\<close>

lemma append_unroll:
  assumes "bs_ok (sb fs)" "kmem fs (events fs)" "slot (ppb fs) (unat (i_size ino) div bsz fs) = (k, j)"
    and "unat (i_size ino) div bsz fs < max_blocks fs"
  shows "ext2_append_block_to_inode v ino fs = (if k < 12
      then Some (0, count_block fs (ino\<lparr>i_block := (i_block ino)[k := v]\<rparr>), fs\<lparr>events := Suc (events fs)\<rparr>)
      else append_at k j v ino (fs\<lparr>events := Suc (events fs)\<rparr>))"
proof -
  define pnts where "pnts = s_block_size (sb fs) div 4"
  define idx where "idx = i_size ino div s_block_size (sb fs)"
  define p where "p = ppb fs"
  have u: "unat pnts = p" and ps: "p \<in> {256, 512, 1024}"
    using bs_words(1) [OF assms(1)] ppb_small [OF assms(1)] by (simp_all add: pnts_def p_def)
  note pw = pnts_words [OF u ps]
  have i: "unat idx = unat (i_size ino) div bsz fs"
    by (simp add: idx_def unat_div bs_words [OF assms(1)])
  have lim: "unat idx < 12 + p + p ^ 2 + p ^ 3"
    using assms(4) i by (simp add: max_blocks_def p_def)
  let ?fs = "fs\<lparr>events := Suc (events fs)\<rparr>"
  have cb: "count_block ?fs = count_block fs"
    by (simp add: count_block_def fun_eq_iff)
  have lt: "idx < 12 \<longleftrightarrow> unat idx < 12" "idx < 12 + pnts \<longleftrightarrow> unat idx < 12 + p"
      "idx < 12 + pnts + pnts * pnts \<longleftrightarrow> unat idx < 12 + p + p ^ 2"
    by (simp_all add: word_less_nat_alt pw)
  consider "unat idx < 12" | "\<not> unat idx < 12" "unat idx < 12 + p" | "\<not> unat idx < 12 + p" "unat idx < 12 + p + p ^ 2"
    | "\<not> unat idx < 12 + p + p ^ 2"
    by blast
  then show ?thesis
  proof cases
    case 1
    then show ?thesis
      using assms(2,3) bs_words(2) [OF assms(1)] lt i cb
      by (simp add: ext2_append_block_to_inode_def kmalloc_def slot_def flip: idx_def)
  next
    case 2
    then have s: "k = 12" "j = unat idx - 12"
      using assms(3) i by (auto simp: slot_def p_def)
    have w: "idx - 12 = of_nat j"
      using 2 s by (intro u32_eqI) (simp add: unat_minus_no_wrap unat_of_nat_small less_imp_diff_less)
    show ?thesis
      using 2 assms(2) bs_words(2) [OF assms(1)] lt s(1) w
      by (simp add: ext2_append_block_to_inode_def kmalloc_def append_at_12 flip: idx_def pnts_def cong: if_cong)
  next
    case 3
    then have s: "k = 13" "j = unat idx - 12 - p"
      using assms(3) i by (auto simp: slot_def p_def)
    have r: "unat (idx - (12 + pnts)) = j"
      using 3 s by (simp add: unat_minus_no_wrap pw)
    have jp: "j < p ^ 2"
      using 3 s by simp
    have w: "(idx - (12 + pnts)) div pnts = of_nat (j div p)" "(idx - (12 + pnts)) mod pnts = of_nat (j mod p)"
      using r u jp ps by (auto intro!: u32_eqI simp: unat_div unat_mod unat_of_nat_small less_mult_imp_div_less power2_eq_square)
    show ?thesis
      using 3 assms(2) bs_words(2) [OF assms(1)] lt s(1) w
      by (simp add: ext2_append_block_to_inode_def kmalloc_def append_at_13 [of p] p_def flip: idx_def pnts_def cong: if_cong)
  next
    case 4
    then have s: "k = 14" "j = unat idx - 12 - p - p ^ 2"
      using assms(3) i ps by (auto simp: slot_def p_def)
    have r: "unat (idx - (12 + pnts + pnts * pnts)) = j"
      using 4 s by (simp add: unat_minus_no_wrap pw)
    have jp: "j < p ^ 3"
      using 4 s lim by simp
    have w: "(idx - (12 + pnts + pnts * pnts)) div (pnts * pnts) = of_nat (j div p ^ 2)"
      "(idx - (12 + pnts + pnts * pnts)) mod (pnts * pnts) div pnts = of_nat (j mod p ^ 2 div p)"
      "(idx - (12 + pnts + pnts * pnts)) mod pnts = of_nat (j mod p)"
      using r u jp ps pw
      by (auto intro!: u32_eqI simp: unat_div unat_mod unat_of_nat_small)
    have mm: "j mod p ^ 2 mod p = j mod p"
      by (simp add: mod_mod_cancel)
    have "j div p ^ 2 < p"
      using jp by (simp add: less_mult_imp_div_less power2_eq_square power3_eq_cube)
    then have l1: "\<not> pnts \<le> of_nat (j div p ^ 2)"
      using u ps by (auto simp: word_le_nat_alt unat_of_nat_small)
    show ?thesis
      using 4 assms(2) bs_words(2) [OF assms(1)] lt s(1) w l1 mm
      by (simp add: ext2_append_block_to_inode_def kmalloc_def append_at_14 [of p] p_def flip: idx_def pnts_def cong: if_cong)
  qed
qed

lemma ino_events [simp]:
  "itb (fs\<lparr>events := n\<rparr>) ino k = itb fs ino k" "ino_blocks (fs\<lparr>events := n\<rparr>) ino = ino_blocks fs ino"
  "max_blocks (fs\<lparr>events := n\<rparr>) = max_blocks fs" "ino_ok (fs\<lparr>events := n\<rparr>) ino = ino_ok fs ino"
  "i < max_blocks fs \<Longrightarrow> imap (fs\<lparr>events := n\<rparr>) ino i = imap fs ino i" "counted N (fs\<lparr>events := n\<rparr>) = counted N fs"
proof -
  show "imap (fs\<lparr>events := n\<rparr>) ino i = imap fs ino i" if "i < max_blocks fs"
  proof -
    obtain k j where s: "slot (ppb fs) i = (k, j)"
      by fastforce
    from slot_range(2) [OF that [unfolded max_blocks_def] s] show ?thesis
      by (simp add: imap_def s)
  qed
qed (simp_all add: ino_blocks_def max_blocks_def ino_ok_def counted_def fun_eq_iff)

lemma data_blocks_events [simp]: "data_blocks (fs\<lparr>events := n\<rparr>) ino = data_blocks fs ino"
  by (auto simp: data_blocks_def)

lemma appended_events [simp]: "appended L v N status ino (fs\<lparr>events := n\<rparr>) ino' fs' = appended L v N status ino fs ino' fs'"
  by (simp add: appended_def)

lemma append_ready_events [simp]: "append_ready L v ino (fs\<lparr>events := n\<rparr>) = append_ready L v ino fs"
  by (auto simp: append_ready_def)

lemma append_direct:
  assumes "append_ready L v ino fs" "L < 12"
  shows "appended L v {} 0 ino fs (count_block fs (ino\<lparr>i_block := (i_block ino)[L := v]\<rparr>)) (fs\<lparr>events := n\<rparr>)"
proof -
  have a: "blocks_ok fs" "ino_ok fs ino" "imap fs ino L = 0" "v \<noteq> 0" "usable fs (unat v)" "unat v \<notin> ino_blocks fs ino"
    using assms(1) by (auto simp: append_ready_def)
  let ?ino = "count_block fs (ino\<lparr>i_block := (i_block ino)[L := v]\<rparr>)" and ?fs = "fs\<lparr>events := n\<rparr>"
  have z: "lvl L = 0" "slot p L = (L, 0)" for p
    using assms(2) by (simp_all add: lvl_def slot_def)
  have e: "i_block ino ! L = 0"
    using a(3) z by (simp add: imap_def)
  have l: "L < 15"
    using assms(2) by simp
  have ib: "i_block ?ino = (i_block ino)[L := v]"
    by (simp add: count_block_def)
  have t: "tree_ok ?fs (lvl L) v" "tb ?fs (lvl L) v = itb fs ino L \<union> {unat v}"
    using z a(4) e by simp_all
  have A: "{unat v} \<inter> ino_blocks fs ino = {}"
    using a(6) by simp
  have u: "\<forall>b\<in>ino_blocks fs ino \<union> {unat v}. usable ?fs b"
    using a(2,5) by (auto simp: ino_ok_def)
  have x: "\<forall>j<15. j \<noteq> L \<longrightarrow> itb fs ino j \<inter> {} = {}"
    by simp
  note ig = ino_grow [OF a(2) l same_but_events(1) x ib t A u]
  have "imap ?fs ?ino i = (if i = L then v else imap fs ino i)" if "i < max_blocks fs" for i
  proof -
    obtain k j where s: "slot (ppb fs) i = (k, j)"
      by fastforce
    have "k = L \<longleftrightarrow> i = L"
      using s file_slot_inj [of "ppb fs" i L] assms(2) by (auto simp: slot_def split: if_splits)
    then show ?thesis
      using ig(3) [OF that] s z by auto
  qed
  moreover have "\<exists>bs. ?ino = counted {unat v} fs (ino\<lparr>i_block := bs\<rparr>)"
    by (auto intro!: exI [of _ "(i_block ino)[L := v]"])
  ultimately show ?thesis
    using ig(1,2) a(1) by (simp add: appended_def)
qed

lemma ext2_append_block_to_inode_spec:
  assumes "append_ready (unat (i_size ino) div bsz fs) v ino fs"
  shows "\<exists>N status ino' fs'. ext2_append_block_to_inode v ino fs = Some (status, ino', fs') \<and>
    appended (unat (i_size ino) div bsz fs) v N status ino fs ino' fs'"
proof -
  let ?L = "unat (i_size ino) div bsz fs" and ?fs = "fs\<lparr>events := Suc (events fs)\<rparr>"
  have ok: "blocks_ok fs" "?L < max_blocks fs"
    using assms by (auto simp: append_ready_def)
  obtain k j where s: "slot (ppb fs) ?L = (k, j)"
    by fastforce
  note un = append_unroll [OF blocks_okD(4) [OF ok(1)] blocks_okD(3) [OF ok(1)] s ok(2), of v]
  show ?thesis
  proof (cases "k < 12")
    case True
    then have "k = ?L" "?L < 12"
      using s by (auto simp: slot_def split: if_splits)
    then show ?thesis
      using un True append_direct [OF assms, of "Suc (events fs)"] by auto
  next
    case False
    have "append_ready ?L v ino ?fs" "slot (ppb ?fs) ?L = (k, j)"
      using assms s by simp_all
    from append_at_spec [OF this] show ?thesis
      using un False by simp
  qed
qed

section \<open>Looking up\<close>

text \<open>
  In the range of the doubly indirect tree \<^verbatim>\<open>ext2_bmap\<close> follows pointers that are 0, into block 0. The
  answer for a missing block is 0 all the same if block 0 has zeros at the places that are read.
\<close>

definition hole_ok :: "ext2_fs \<Rightarrow> einode \<Rightarrow> nat \<Rightarrow> bool" where
  "hole_ok fs ino i \<longleftrightarrow> (case slot (ppb fs) i of (k, j) \<Rightarrow> k = 13 \<longrightarrow>
     (i_block ino ! 13 = 0 \<longrightarrow> ent fs 0 (j div ppb fs) = 0) \<and>
     (i_block ino ! 13 = 0 \<or> ent fs (i_block ino ! 13) (j div ppb fs) = 0 \<longrightarrow> ent fs 0 (j mod ppb fs) = 0))"

lemma read_index_eq:
  assumes "bs_ok (sb fs)" "vblk fs (unat b)"
  shows "read_index b fs = blk fs (unat b)"
  using read_block_eq [OF assms] by (simp add: read_index_def read_block_def bs_words(4) [OF assms(1)])

lemma rd32_index:
  assumes "bs_ok (sb fs)" "vblk fs (unat b)" "unat i = j" "j < ppb fs"
  shows "rd32 (read_index b fs) (4 * unat i) = Some (ent fs b j)"
  using assms ppb_bsz [OF assms(1)] by (simp add: read_index_eq ent_def)

text \<open>A pointer of a tree is 0 or names a block of the tree.\<close>

lemma ent_usable:
  assumes "\<forall>b\<in>tb fs (Suc n) r. usable fs b" "r \<noteq> 0" "j < ppb fs" "ent fs r j \<noteq> 0"
  shows "vblk fs (unat (ent fs r j))" "\<forall>b\<in>tb fs n (ent fs r j). usable fs b"
  using assms tree_child(1) [OF assms(2,3), of n] tb_root [OF assms(4), of fs n] by (auto simp: usable_def)

lemma ext2_bmap_spec:
  assumes "blocks_ok fs" "ino_ok fs ino" "i < max_blocks fs" "hole_ok fs ino i"
  shows "ext2_bmap ino (of_nat i) fs = Some (imap fs ino i, fs\<lparr>events := Suc (events fs)\<rparr>)"
proof -
  note bs = blocks_okD(4) [OF assms(1)] and km = blocks_okD(3) [OF assms(1), of "events fs"]
  define pnts where "pnts = s_block_size (sb fs) div 4"
  define p where "p = ppb fs"
  let ?fs = "fs\<lparr>events := Suc (events fs)\<rparr>"
  have u: "unat pnts = p" and ps: "p \<in> {256, 512, 1024}"
    using bs_words(1) [OF bs] ppb_small [OF bs] by (simp_all add: pnts_def p_def)
  note pw = pnts_words [OF u ps]
  have il: "i < 12 + p + p ^ 2 + p ^ 3"
    using assms(3) by (simp add: max_blocks_def p_def)
  have iu: "unat (of_nat i :: u32) = i"
    using il ps by (intro unat_of_nat_small) auto
  have rs: "rd32 (read_index b ?fs) (4 * unat x) = Some (ent fs b (unat x))" if "vblk fs (unat b)" "unat x < p" for b x
    using rd32_index [of ?fs b x "unat x"] that bs by (simp add: ent_def p_def)
  have v0: "vblk fs 0"
    by (simp add: vblk_def)
  have root: "\<forall>b\<in>tb fs (lvl k) (i_block ino ! k). usable fs b" "i_block ino ! k \<noteq> 0 \<Longrightarrow> vblk fs (unat (i_block ino ! k))" if "k < 15" for k
    using assms(2) that tb_root [of "i_block ino ! k" fs "lvl k"] by (fastforce simp: ino_ok_def ino_blocks_def usable_def)+
  let ?x = "of_nat i :: u32"
  have x1: "unat (?x - 12) = i - 12" if "12 \<le> i"
    using that iu by (simp add: unat_minus_no_wrap)
  have x2: "unat (?x - 12 - pnts) = i - 12 - p" if "12 + p \<le> i"
    using that x1 u by (simp add: unat_minus_no_wrap)
  have x3: "unat (?x - 12 - pnts - pnts * pnts) = i - 12 - p - p ^ 2" if "12 + p + p ^ 2 \<le> i"
    using that x2 pw(2) by (simp add: unat_minus_no_wrap)
  have c: "?x < 12 \<longleftrightarrow> i < 12" "12 \<le> i \<Longrightarrow> ?x - 12 < pnts \<longleftrightarrow> i < 12 + p"
      "12 + p \<le> i \<Longrightarrow> ?x - 12 - pnts < pnts * pnts \<longleftrightarrow> i < 12 + p + p ^ 2"
      "12 + p + p ^ 2 \<le> i \<Longrightarrow> ?x - 12 - pnts - pnts * pnts < pnts * pnts * pnts"
    using iu x1 x2 x3 u pw il by (auto simp: word_less_nat_alt)
  consider "i < 12" | "12 \<le> i" "i < 12 + p" | "12 + p \<le> i" "i < 12 + p + p ^ 2" | "12 + p + p ^ 2 \<le> i"
    by linarith
  then show ?thesis
  proof cases
    case 1
    then show ?thesis
      using c(1) km iu by (simp add: ext2_bmap_def kmalloc_def bs_words(4) [OF bs] imap_def slot_def lvl_def)
  next
    case 2
    then have s: "slot (ppb fs) i = (12, i - 12)"
      by (simp add: slot_def p_def)
    have "imap fs ino i = (if i_block ino ! 12 = 0 then 0 else ent fs (i_block ino ! 12) (i - 12))"
      by (simp add: imap_def s lvl_def lookup.simps(2))
    then show ?thesis
      using 2 c(1,2) km x1 rs [of "i_block ino ! 12" "?x - 12"] root(2) [of 12]
      by (simp add: ext2_bmap_def kmalloc_def bs_words(4) [OF bs] flip: pnts_def)
  next
    case 3
    define j where "j = i - 12 - p"
    define r where "r = i_block ino ! 13"
    have s: "slot (ppb fs) i = (13, j)"
      using 3 by (simp add: slot_def j_def p_def)
    have h: "r = 0 \<Longrightarrow> ent fs 0 (j div p) = 0" "r = 0 \<or> ent fs r (j div p) = 0 \<Longrightarrow> ent fs 0 (j mod p) = 0"
      using assms(4) by (auto simp: hole_ok_def s r_def p_def)
    have jp: "j div p < p" "j mod p < p"
      using 3 ps by (auto simp: j_def less_mult_imp_div_less power2_eq_square)
    have w: "unat ((?x - 12 - pnts) div pnts) = j div p" "unat ((?x - 12 - pnts) mod pnts) = j mod p"
      using x2 3 u by (simp_all add: unat_div unat_mod j_def)
    have vr: "vblk fs (unat r)"
      using root(2) [of 13] v0 by (cases "r = 0") (simp_all add: r_def)
    have vc: "vblk fs (unat (ent fs r (j div p)))"
    proof (cases "ent fs r (j div p) = 0")
      case False
      then show ?thesis
        using h(1) ent_usable(1) [of fs 1 r "j div p"] root(1) [of 13] jp(1)
        by (cases "r = 0") (auto simp: r_def p_def lvl_def numeral_2_eq_2)
    qed (simp add: v0)
    have "imap fs ino i = (if r = 0 then 0 else if ent fs r (j div p) = 0 then 0 else ent fs (ent fs r (j div p)) (j mod p))"
      by (simp add: imap_def s lvl_def r_def p_def numeral_2_eq_2 lookup.simps(2))
    then have "imap fs ino i = ent fs (ent fs r (j div p)) (j mod p)"
      using h by auto
    then show ?thesis
      using 3 c(1,2,3) km rs [of r "(?x - 12 - pnts) div pnts"] rs [of "ent fs r (j div p)" "(?x - 12 - pnts) mod pnts"] w jp vr vc
      by (simp add: ext2_bmap_def kmalloc_def bs_words(4) [OF bs] flip: pnts_def r_def)
  next
    case 4
    define j where "j = i - 12 - p - p ^ 2"
    define r where "r = i_block ino ! 14"
    have s: "slot (ppb fs) i = (14, j)"
      using 4 ps by (auto simp: slot_def j_def p_def)
    have jp: "j div p ^ 2 < p" "j mod p ^ 2 div p < p" "j mod p ^ 2 mod p < p"
      using 4 il ps by (auto simp: j_def less_mult_imp_div_less power2_eq_square power3_eq_cube)
    let ?y = "?x - 12 - pnts - pnts * pnts"
    have w: "unat (?y div (pnts * pnts)) = j div p ^ 2" "unat (?y mod (pnts * pnts) div pnts) = j mod p ^ 2 div p"
      "unat (?y mod (pnts * pnts) mod pnts) = j mod p ^ 2 mod p"
      using x3 4 u pw(2) by (simp_all add: unat_div unat_mod j_def)
    let ?b = "ent fs r (j div p ^ 2)" and ?n = "j mod p ^ 2"
    let ?c = "ent fs ?b (?n div p)"
    have ur: "\<forall>b\<in>tb fs (Suc (Suc (Suc 0))) r. usable fs b"
      using root(1) [of 14] by (simp add: r_def lvl_def numeral_3_eq_3)
    have vb: "vblk fs (unat ?b)" "\<forall>b\<in>tb fs (Suc (Suc 0)) ?b. usable fs b" if "r \<noteq> 0" "?b \<noteq> 0"
      using ent_usable [OF ur that(1) _ that(2)] jp(1) by (simp_all add: p_def)
    have vc: "vblk fs (unat ?c)" if "r \<noteq> 0" "?b \<noteq> 0" "?c \<noteq> 0"
      using ent_usable(1) [OF vb(2) [OF that(1,2)] that(2) _ that(3)] jp(2) by (simp add: p_def)
    have "imap fs ino i = (if r = 0 then 0 else if ?b = 0 then 0 else if ?c = 0 then 0 else ent fs ?c (?n mod p))"
      by (simp add: imap_def s lvl_def r_def p_def numeral_3_eq_3 numeral_2_eq_2 lookup.simps(2) power2_eq_square)
    then show ?thesis
      using 4 c km rs [of r "?y div (pnts * pnts)"] rs [of ?b "?y mod (pnts * pnts) div pnts"]
        rs [of ?c "?y mod (pnts * pnts) mod pnts"] w jp root(2) [of 14] vb(1) vc
      by (simp add: ext2_bmap_def kmalloc_def bs_words(4) [OF bs] flip: pnts_def r_def)
  qed
qed

section \<open>Frames\<close>

text \<open>Writing blocks of data does not change the map of a file.\<close>

lemma tree_frame_index:
  assumes "same_but X fs fs'" "tree_ok fs n r" "(tb fs n r - leaves fs n r) \<inter> X = {}"
  shows "(i < ppb fs ^ n \<longrightarrow> lookup fs' n r i = lookup fs n r i) \<and> tb fs' n r = tb fs n r \<and> tree_ok fs' n r = tree_ok fs n r"
  using assms(2,3)
proof (induction n arbitrary: r i)
  case (Suc n)
  have p: "ppb fs' = ppb fs"
    by (simp add: ppb_def same_but_geom [OF assms(1)])
  show ?case
  proof (cases "r = 0 \<or> ppb fs = 0")
    case True
    then show ?thesis
      using p same_but_blk [OF assms(1)] by (auto simp: tb.simps(2) tree_ok.simps(2))
  next
    case False
    then have r: "r \<noteq> 0" and p0: "0 < ppb fs"
      by simp_all
    have "unat r \<notin> X"
      using Suc.prems leaves_child(2) [OF Suc.prems(1) r p0] tb_root [OF r, of fs "Suc n"] by blast
    then have e: "ent fs' r j = ent fs r j" for j
      using same_but_blk [OF assms(1)] by (simp add: ent_def)
    have c: "(i < ppb fs ^ n \<longrightarrow> lookup fs' n (ent fs r j) i = lookup fs n (ent fs r j) i) \<and> tb fs' n (ent fs r j) = tb fs n (ent fs r j) \<and>
        tree_ok fs' n (ent fs r j) = tree_ok fs n (ent fs r j)" if "j < ppb fs" for i j
      using Suc.prems tree_child(2) [OF r that Suc.prems(1)] leaves_child(1) [OF Suc.prems(1) r that]
      by (intro Suc.IH) blast+
    have "i div ppb fs ^ n < ppb fs \<and> i mod ppb fs ^ n < ppb fs ^ n" if "i < ppb fs ^ Suc n"
      using that p0 by (auto simp: less_mult_imp_div_less)
    then show ?thesis
      using r p e c by (auto simp: tb.simps(2) tree_ok.simps(2) lookup.simps(2))
  qed
qed simp

lemma ino_frame:
  assumes "ino_ok fs ino" "same_but X fs fs'" "(ino_blocks fs ino - data_blocks fs ino) \<inter> X = {}" "\<forall>b\<in>ino_blocks fs ino. usable fs' b"
  shows "ino_ok fs' ino" "ino_blocks fs' ino = ino_blocks fs ino" "data_blocks fs' ino = data_blocks fs ino"
    "i < max_blocks fs \<Longrightarrow> imap fs' ino i = imap fs ino i"
proof -
  have p: "ppb fs' = ppb fs" "max_blocks fs' = max_blocks fs"
    by (simp_all add: ppb_def max_blocks_def same_but_geom [OF assms(2)])
  have t: "(i < ppb fs ^ lvl k \<longrightarrow> lookup fs' (lvl k) (i_block ino ! k) i = lookup fs (lvl k) (i_block ino ! k) i) \<and>
      itb fs' ino k = itb fs ino k \<and> tree_ok fs' (lvl k) (i_block ino ! k) = tree_ok fs (lvl k) (i_block ino ! k)" if "k < 15" for i k
    using assms(1,3) that index_not_data [OF assms(1) that] by (intro tree_frame_index [OF assms(2)]) (auto simp: ino_ok_def)
  show b: "ino_blocks fs' ino = ino_blocks fs ino"
    using t by (simp add: ino_blocks_def)
  show "ino_ok fs' ino"
    using assms(1,4) t b by (simp add: ino_ok_def)
  have m: "imap fs' ino i = imap fs ino i" if "i < max_blocks fs" for i
  proof -
    obtain k j where s: "slot (ppb fs) i = (k, j)"
      by fastforce
    from slot_range [OF that [unfolded max_blocks_def] s] show ?thesis
      using t s p by (simp add: imap_def)
  qed
  then show "i < max_blocks fs \<Longrightarrow> imap fs' ino i = imap fs ino i"
    by blast
  show "data_blocks fs' ino = data_blocks fs ino"
    using m p by (auto simp: data_blocks_def)
qed

end
