(* ===== verification/Ext2_Super.thy ===== *)
theory Ext2_Super
  imports Ext2_Map
begin

text \<open>
  Inodes, group descriptors and the super block on disk: \<^verbatim>\<open>fs/ext2/super.c\<close>. Field offsets are those of
  \<^verbatim>\<open>struct ext2_super_block\<close>, \<^verbatim>\<open>struct ext2_group_desc\<close> and \<^verbatim>\<open>struct ext2_inode\<close> in
  \<^verbatim>\<open>include/uapi/ext2_fs.h\<close> and \<^verbatim>\<open>ext2_sb.h\<close>.
\<close>

section \<open>The code\<close>

definition EXT2_MAGIC_NUMBER :: u16 where "EXT2_MAGIC_NUMBER = 0xEF53"

text \<open>\<^verbatim>\<open>sizeof(struct ext2_inode)\<close> and the place of an inode: its sector and its offset there.\<close>

definition EXT2_INODE_SIZE :: u32 where "EXT2_INODE_SIZE = 128"

definition inode_place :: "u32 \<Rightarrow> ext2_fs \<Rightarrow> (u32 \<times> nat) halting" where
  "inode_place ino_no fs = do {
     ASSERT (s_inodes_per_group (sb fs) \<noteq> 0);
     let grp = (ino_no - 1) div s_inodes_per_group (sb fs);
     let index = (ino_no - 1) mod s_inodes_per_group (sb fs);
     gd \<leftarrow> group_desc_at (sb fs) grp;
     let byte_offset = index * EXT2_INODE_SIZE;
     Some (BLOCK_TO_SECTOR (sb fs) (bg_inode_table gd) + byte_offset div of_nat SECTOR_SIZE,
       unat (byte_offset mod of_nat SECTOR_SIZE))
   }"

fun rd32s :: "u8 list \<Rightarrow> nat \<Rightarrow> nat \<Rightarrow> u32 list halting" where
  "rd32s buf off 0 = Some []"
| "rd32s buf off (Suc n) = do {
     v \<leftarrow> rd32 buf off;
     vs \<leftarrow> rd32s buf (off + 4) n;
     Some (v # vs)
   }"

text \<open>
  A sector borrowed from the buffer cache with \<^verbatim>\<open>bread\<close> and given back with \<^verbatim>\<open>brelse\<close> is a read of that sector,
  and \<^verbatim>\<open>bread\<close>, a change in place and \<^verbatim>\<open>bwrite\<close> are a read and a write of it: the cache shows what was written
  last (theory Ide_Buffer_IO), and no other task is taken to change the sector in between. The table of operations \<^verbatim>\<open>i_op\<close>, which
  depends on the type alone, is not part of the model.
\<close>

definition ext2_read_inode :: "einode \<Rightarrow> ext2_fs \<Rightarrow> einode halting" where
  "ext2_read_inode ino fs = do {
     ASSERT (i_no ino > 0);
     (sec_lba, off) \<leftarrow> inode_place (i_no ino) fs;
     let ei = partition_read sec_lba 1 fs;
     mode \<leftarrow> rd16 ei off;
     isize \<leftarrow> rd32 ei (off + 4);
     atime \<leftarrow> rd32 ei (off + 8);
     ctime \<leftarrow> rd32 ei (off + 12);
     mtime \<leftarrow> rd32 ei (off + 16);
     dtime \<leftarrow> rd32 ei (off + 20);
     links \<leftarrow> rd16 ei (off + 26);
     nblocks \<leftarrow> rd32 ei (off + 28);
     bs \<leftarrow> rd32s ei (off + 40) 15;
     let ino = ino\<lparr>i_size := isize, i_type := decode_imode mode, i_mode := mode, i_nlink := ucast links, i_block := bs,
       i_links_count := links, i_blocks := nblocks, i_atime := atime, i_mtime := mtime, i_ctime := ctime, i_dtime := dtime\<rparr>;
     Some (if i_type ino = FT_CHAR_SPECIAL \<or> i_type ino = FT_BLOCK_SPECIAL then ino\<lparr>i_rdev := bs ! 0\<rparr> else ino)
   }"

definition ext2_write_inode :: "einode \<Rightarrow> ext2_fs \<Rightarrow> (einode \<times> ext2_fs) halting" where
  "ext2_write_inode ino fs = do {
     (sec_lba, off) \<leftarrow> inode_place (i_no ino) fs;
     let ei = partition_read sec_lba 1 fs;
     ei \<leftarrow> memcpy_to ei off (bytes16 (i_mode ino));
     ei \<leftarrow> memcpy_to ei (off + 4) (bytes32 (i_size ino));
     ei \<leftarrow> memcpy_to ei (off + 26) (bytes16 (i_links_count ino));
     ei \<leftarrow> memcpy_to ei (off + 28) (bytes32 (i_blocks ino));
     ei \<leftarrow> memcpy_to ei (off + 40) (concat (map bytes32 (i_block ino)));
     let (now, fs) = sys_time fs;
     let ino = ino\<lparr>i_ctime := now\<rparr>;
     ei \<leftarrow> memcpy_to ei (off + 8) (bytes32 (i_atime ino));
     ei \<leftarrow> memcpy_to ei (off + 16) (bytes32 (i_mtime ino));
     ei \<leftarrow> memcpy_to ei (off + 12) (bytes32 (i_ctime ino));
     ei \<leftarrow> memcpy_to ei (off + 20) (bytes32 (if i_links_count ino = 0 then now else 0));
     fs \<leftarrow> partition_write sec_lba ei 1 fs;
     Some (ino, fs)
   }"

text \<open>The raw super block with the fields that change after mounting; \<^verbatim>\<open>s_wtime\<close> is at offset 48.\<close>

definition ext2_write_super :: "ext2_fs \<Rightarrow> ext2_fs halting" where
  "ext2_write_super fs = do {
     let (now, fs) = sys_time fs;
     raw \<leftarrow> memcpy_to (sb_raw (sb fs)) 48 (bytes32 now);
     raw \<leftarrow> memcpy_to raw 12 (bytes32 (s_free_blocks_count (sb fs)));
     raw \<leftarrow> memcpy_to raw 16 (bytes32 (s_free_inodes_count (sb fs)));
     partition_write 2 raw 2 (fs\<lparr>sb := (sb fs)\<lparr>sb_raw := raw\<rparr>\<rparr>)
   }"

definition gdt_lba :: "super_block \<Rightarrow> u32" where
  "gdt_lba s = BLOCK_TO_SECTOR s (if s_block_size s = 1024 then 2 else 1)"

definition gd_bytes :: "ext2_group_desc \<Rightarrow> u8 list" where
  "gd_bytes gd = bytes32 (bg_block_bitmap gd) @ bytes32 (bg_inode_bitmap gd) @ bytes32 (bg_inode_table gd) @
     bytes16 (bg_free_blocks_count gd) @ bytes16 (bg_free_inodes_count gd) @ bytes16 (bg_used_dirs_count gd) @ bg_rest gd"

definition ext2_sync_gdt :: "ext2_fs \<Rightarrow> ext2_fs halting" where
  "ext2_sync_gdt fs =
     partition_write (gdt_lba (sb fs)) (concat (map gd_bytes (group_desc (sb fs))) @ gdt_rest (sb fs))
       (DIV_ROUND_UP (group_desc_cnt (sb fs) * 32) (of_nat SECTOR_SIZE)) fs"

definition gd_at :: "u8 list \<Rightarrow> nat \<Rightarrow> ext2_group_desc" where
  "gd_at buf off = \<lparr>bg_block_bitmap = le32 buf off, bg_inode_bitmap = le32 buf (off + 4), bg_inode_table = le32 buf (off + 8),
     bg_free_blocks_count = le16 buf (off + 12), bg_free_inodes_count = le16 buf (off + 14),
     bg_used_dirs_count = le16 buf (off + 16), bg_rest = take 14 (drop (off + 18) buf)\<rparr>"

text \<open>
  Mounting; the result says whether the partition holds ext2. The memory for the descriptors is not
  checked for null, and opening the root inode through the inode cache is left to the caller.
\<close>

definition ext2_read_super :: "ext2_fs \<Rightarrow> (bool \<times> ext2_fs) halting" where
  "ext2_read_super fs = (let raw = partition_read 2 2 fs in
     if le16 raw 56 \<noteq> EXT2_MAGIC_NUMBER then Some (False, fs)
     else do {
       let (now, fs) = sys_time fs;
       raw \<leftarrow> memcpy_to raw 44 (bytes32 now);
       raw \<leftarrow> memcpy_to raw 52 (bytes16 (le16 raw 52 + 1));
       let block_size = push_bit (unat (le32 raw 24)) EXT2_BLOCK_UNIT;
       ASSERT (le32 raw 32 \<noteq> 0);
       let cnt = DIV_ROUND_UP (le32 raw 4) (le32 raw 32);
       let gdt_sects = DIV_ROUND_UP (cnt * 32) (of_nat SECTOR_SIZE);
       let (buf, fs) = kmalloc fs;
       ASSERT buf;
       let s = \<lparr>s_block_size = block_size, s_root_ino = 2, s_log_block_size = le32 raw 24, s_first_data_block = le32 raw 20,
         s_blocks_per_group = le32 raw 32, s_inodes_per_group = le32 raw 40, s_free_blocks_count = le32 raw 12,
         s_free_inodes_count = le32 raw 16, group_desc_cnt = cnt, group_desc = [], gdt_rest = [], sb_raw = raw\<rparr>;
       let gdt = partition_read (gdt_lba s) gdt_sects fs;
       Some (True, fs\<lparr>sb := s\<lparr>group_desc := map (\<lambda>g. gd_at gdt (32 * g)) [0..<unat cnt], gdt_rest := drop (32 * unat cnt) gdt\<rparr>\<rparr>)
     })"

record statfs =
  f_type :: u32
  f_bsize :: u32
  f_blocks :: u32
  f_bfree :: u32
  f_bavail :: u32
  f_files :: u32
  f_ffree :: u32
  f_namelen :: u32

definition EXT2_MAX_FILE_NAME_LEN :: u32 where "EXT2_MAX_FILE_NAME_LEN = 255"

definition ext2_statfs :: "super_block \<Rightarrow> statfs" where
  "ext2_statfs s = \<lparr>f_type = ucast (le16 (sb_raw s) 56), f_bsize = s_block_size s, f_blocks = le32 (sb_raw s) 4,
     f_bfree = s_free_blocks_count s,
     f_bavail = (if s_free_blocks_count s > le32 (sb_raw s) 8 then s_free_blocks_count s - le32 (sb_raw s) 8 else 0),
     f_files = le32 (sb_raw s) 0, f_ffree = s_free_inodes_count s, f_namelen = EXT2_MAX_FILE_NAME_LEN\<rparr>"

section \<open>Records inside a sector\<close>

definition get_bytes :: "nat \<Rightarrow> nat \<Rightarrow> ext2_fs \<Rightarrow> u8 list" where
  "get_bytes pos n fs = map (store fs) [pos..<pos + n]"

definition put_bytes :: "nat \<Rightarrow> u8 list \<Rightarrow> ext2_fs \<Rightarrow> ext2_fs" where
  "put_bytes pos xs fs = fs\<lparr>store := (\<lambda>i. if pos \<le> i \<and> i < pos + length xs then xs ! (i - pos) else store fs i)\<rparr>"

lemma length_get_bytes [simp]: "length (get_bytes pos n fs) = n"
  by (simp add: get_bytes_def)

lemma put_bytes_simps [simp]:
  "sb (put_bytes pos xs fs) = sb fs" "kmem (put_bytes pos xs fs) = kmem fs" "clock (put_bytes pos xs fs) = clock fs"
  "events (put_bytes pos xs fs) = events fs"
  by (simp_all add: put_bytes_def)

lemma get_put_bytes: "get_bytes pos (length xs) (put_bytes pos xs fs) = xs"
  by (rule nth_equalityI) (simp_all add: get_bytes_def put_bytes_def)

lemma get_put_bytes_other:
  "pos + length xs \<le> pos' \<or> pos' + n \<le> pos \<Longrightarrow> get_bytes pos' n (put_bytes pos xs fs) = get_bytes pos' n fs"
  by (rule nth_equalityI) (auto simp: get_bytes_def put_bytes_def)

lemma partition_read_bytes: "partition_read l count fs = get_bytes (unat l * SECTOR_SIZE) (unat count * SECTOR_SIZE) fs"
  by (simp add: partition_read_def get_bytes_def add_mult_distrib)

lemma partition_write_bytes:
  "length buf = unat count * SECTOR_SIZE \<Longrightarrow> partition_write l buf count fs = Some (put_bytes (unat l * SECTOR_SIZE) buf fs)"
  by (simp add: partition_write_def put_bytes_def add_mult_distrib)

lemma overlay_overlay:
  assumes "off + length R \<le> length S" "k + length xs \<le> length R"
  shows "overlay (overlay S off R) (off + k) xs = overlay S off (overlay R k xs)"
proof (rule nth_equalityI)
  show "length (overlay (overlay S off R) (off + k) xs) = length (overlay S off (overlay R k xs))"
    using assms by simp
  fix i assume "i < length (overlay (overlay S off R) (off + k) xs)"
  then show "overlay (overlay S off R) (off + k) xs ! i = overlay S off (overlay R k xs) ! i"
    using assms by (auto simp: nth_overlay)
qed

lemma overlay_self: "off + n \<le> length S \<Longrightarrow> overlay S off (take n (drop off S)) = S"
  by (rule nth_equalityI) (auto simp: nth_overlay)

lemma put_overlay:
  assumes "off + length R \<le> n"
  shows "put_bytes pos (overlay (get_bytes pos n fs) off R) fs = put_bytes (pos + off) R fs"
proof -
  have "store (put_bytes pos (overlay (get_bytes pos n fs) off R) fs) = store (put_bytes (pos + off) R fs)"
    using assms by (auto simp: put_bytes_def nth_overlay get_bytes_def fun_eq_iff)
  then show ?thesis
    by (simp add: put_bytes_def)
qed

lemma get_sub_bytes: "off + k \<le> n \<Longrightarrow> take k (drop off (get_bytes pos n fs)) = get_bytes (pos + off) k fs"
  by (rule nth_equalityI) (auto simp: get_bytes_def add.assoc)

lemma le_sub_bytes:
  "off + k + 4 \<le> n \<Longrightarrow> k + 4 \<le> m \<Longrightarrow> le32 (get_bytes pos n fs) (off + k) = le32 (get_bytes (pos + off) m fs) k"
  "off + k + 2 \<le> n \<Longrightarrow> k + 2 \<le> m \<Longrightarrow> le16 (get_bytes pos n fs) (off + k) = le16 (get_bytes (pos + off) m fs) k"
  by (simp_all add: le32_def le16_def get_bytes_def add_ac)

section \<open>Inodes on disk\<close>

text \<open>The record of an inode after \<^verbatim>\<open>ext2_write_inode\<close> at time \<open>now\<close>, and what reading a record gives.\<close>

definition inode_rec :: "u8 list \<Rightarrow> einode \<Rightarrow> u32 \<Rightarrow> u8 list" where
  "inode_rec R ino now = overlay (overlay (overlay (overlay (overlay (overlay (overlay (overlay (overlay R
     0 (bytes16 (i_mode ino))) 4 (bytes32 (i_size ino))) 26 (bytes16 (i_links_count ino))) 28 (bytes32 (i_blocks ino)))
     40 (concat (map bytes32 (i_block ino)))) 8 (bytes32 (i_atime ino))) 16 (bytes32 (i_mtime ino))) 12 (bytes32 now))
     20 (bytes32 (if i_links_count ino = 0 then now else 0))"

definition rec_inode :: "u8 list \<Rightarrow> einode \<Rightarrow> einode" where
  "rec_inode R ino = (let
     ino = ino\<lparr>i_size := le32 R 4, i_type := decode_imode (le16 R 0), i_mode := le16 R 0, i_nlink := ucast (le16 R 26),
       i_block := map (\<lambda>k. le32 R (40 + 4 * k)) [0..<15], i_links_count := le16 R 26, i_blocks := le32 R 28,
       i_atime := le32 R 8, i_mtime := le32 R 16, i_ctime := le32 R 12, i_dtime := le32 R 20\<rparr>
   in if i_type ino = FT_CHAR_SPECIAL \<or> i_type ino = FT_BLOCK_SPECIAL then ino\<lparr>i_rdev := le32 R 40\<rparr> else ino)"

lemma length_concat_bytes32: "length (concat (map bytes32 vs)) = 4 * length vs"
  by (induction vs) simp_all

lemma le32_concat:
  assumes "k < length vs"
  shows "le32 (concat (map bytes32 vs)) (4 * k) = vs ! k"
  using assms
proof (induction vs arbitrary: k)
  case (Cons v vs)
  show ?case
  proof (cases k)
    case 0
    then show ?thesis
      by (simp add: le32_def nth_append bytes32_def u32_of_bytes)
  next
    case (Suc k')
    then have "le32 (concat (map bytes32 (v # vs))) (4 * k) = le32 (concat (map bytes32 vs)) (4 * k')"
      by (simp add: le32_def nth_append add.commute)
    then show ?thesis
      using Cons Suc by simp
  qed
qed simp

lemma rd32s_eq: "off + 4 * n \<le> length buf \<Longrightarrow> rd32s buf off n = Some (map (\<lambda>k. le32 buf (off + 4 * k)) [0..<n])"
proof (induction n arbitrary: off)
  case (Suc n)
  have "map (\<lambda>k. le32 buf (off + 4 * k)) [0..<Suc n] = le32 buf off # map (\<lambda>k. le32 buf (off + 4 + 4 * k)) [0..<n]"
    by (rule nth_equalityI) (auto simp: nth_Cons add_ac simp del: upt_Suc split: nat.split)
  then show ?case
    using Suc by simp
qed simp

text \<open>Reading back what was written.\<close>

lemma rec_inode_rec:
  assumes "length R = 128" "length (i_block ino) = 15"
  shows "rec_inode (inode_rec R ino now) x = (let
     y = x\<lparr>i_size := i_size ino, i_type := decode_imode (i_mode ino), i_mode := i_mode ino, i_nlink := ucast (i_links_count ino),
       i_block := i_block ino, i_links_count := i_links_count ino, i_blocks := i_blocks ino, i_atime := i_atime ino,
       i_mtime := i_mtime ino, i_ctime := now, i_dtime := (if i_links_count ino = 0 then now else 0)\<rparr>
     in if i_type y = FT_CHAR_SPECIAL \<or> i_type y = FT_BLOCK_SPECIAL then y\<lparr>i_rdev := i_block ino ! 0\<rparr> else y)"
proof -
  let ?R = "inode_rec R ino now"
  have l: "length (concat (map bytes32 (i_block ino))) = 60"
    by (simp add: length_concat_bytes32 assms(2))
  note s = inode_rec_def le_overlay_other assms(1) l
  have f: "le16 ?R 0 = i_mode ino" "le32 ?R 4 = i_size ino" "le16 ?R 26 = i_links_count ino" "le32 ?R 28 = i_blocks ino"
    "le32 ?R 8 = i_atime ino" "le32 ?R 16 = i_mtime ino" "le32 ?R 12 = now"
    "le32 ?R 20 = (if i_links_count ino = 0 then now else 0)"
    by (simp_all add: s)
  have b: "le32 ?R (40 + 4 * k) = i_block ino ! k" if "k < 15" for k
  proof -
    have "le32 ?R (40 + 4 * k) = le32 (concat (map bytes32 (i_block ino))) (4 * k)"
      using that by (simp add: s) (simp add: le32_def nth_overlay assms(1) l add.commute)
    then show ?thesis
      using le32_concat [of k "i_block ino"] that assms(2) by simp
  qed
  have "map (\<lambda>k. le32 ?R (40 + 4 * k)) [0..<15] = i_block ino"
    using b assms(2) by (intro nth_equalityI) simp_all
  moreover have "le32 ?R 40 = i_block ino ! 0"
    using b [of 0] by simp
  ultimately show ?thesis
    by (simp add: rec_inode_def f Let_def)
qed

lemma length_inode_rec: "length R = 128 \<Longrightarrow> length (i_block ino) = 15 \<Longrightarrow> length (inode_rec R ino now) = 128"
  by (simp add: inode_rec_def length_concat_bytes32)

lemma inode_place_off:
  assumes "inode_place n fs = Some (l, off)"
  shows "off + 128 \<le> 512"
proof -
  obtain i :: u32 where off: "off = unat (i * EXT2_INODE_SIZE mod of_nat SECTOR_SIZE)"
    using assms by (auto simp: inode_place_def Let_def bind_Some_iff split: if_splits)
  have "off = (128 * unat i) mod 2 ^ 32 mod 512"
    by (simp add: off EXT2_INODE_SIZE_def SECTOR_SIZE_def unat_mod unat_word_ariths mult.commute)
  also have "\<dots> = (128 * unat i) mod 512"
    by (simp add: mod_mod_cancel)
  also have "\<dots> = 128 * (unat i mod 4)"
    using mult_mod_right [of 128 "unat i" 4] by simp
  finally show ?thesis
    using mod_less_divisor [of 4 "unat i"] by linarith
qed

lemma memcpy_record:
  assumes "off + length R \<le> length S" "k + length xs \<le> length R"
  shows "memcpy_to (overlay S off R) (off + k) xs = Some (overlay S off (overlay R k xs))"
  using assms by (simp add: overlay_overlay)

lemma ext2_read_inode_eq:
  assumes "inode_place (i_no x) fs = Some (l, off)" "i_no x \<noteq> 0"
  shows "ext2_read_inode x fs = Some (rec_inode (get_bytes (unat l * SECTOR_SIZE + off) 128 fs) x)"
proof -
  have o: "off + 128 \<le> 512"
    by (rule inode_place_off [OF assms(1)])
  have m: "map (\<lambda>k. le32 (get_bytes (unat l * 512) 512 fs) (off + 40 + 4 * k)) [0..<15] =
      map (\<lambda>k. le32 (get_bytes (unat l * 512 + off) 128 fs) (40 + 4 * k)) [0..<15]"
    using le_sub_bytes(1) [of off _ 512 128 "unat l * 512" fs] o by (intro map_cong) (simp_all add: add.assoc)
  have f: "le32 (get_bytes (unat l * 512) 512 fs) (off + k) = le32 (get_bytes (unat l * 512 + off) 128 fs) k"
    "le16 (get_bytes (unat l * 512) 512 fs) (off + k) = le16 (get_bytes (unat l * 512 + off) 128 fs) k" if "k + 4 \<le> 128" for k
    using le_sub_bytes [of off k 512 128 "unat l * 512" fs] o that by simp_all
  have f0: "le16 (get_bytes (unat l * 512) 512 fs) off = le16 (get_bytes (unat l * 512 + off) 128 fs) 0"
    using f(2) [of 0] by simp
  have nth: "map (\<lambda>k. le32 (get_bytes (unat l * 512 + off) 128 fs) (40 + 4 * k)) [0..<15] ! 0 =
      le32 (get_bytes (unat l * 512 + off) 128 fs) 40"
    by simp
  show ?thesis
    using assms o unfolding ext2_read_inode_def partition_read_bytes
    by (simp add: SECTOR_SIZE_def rd32s_eq m f f0 rec_inode_def word_gt_0 Let_def del: upt_rec_numeral)
qed

lemma ext2_write_inode_eq:
  assumes "inode_place (i_no ino) fs = Some (l, off)" "length (i_block ino) = 15"
  defines "pos \<equiv> unat l * SECTOR_SIZE + off" and "now \<equiv> clock fs (events fs)"
  shows "ext2_write_inode ino fs = Some (ino\<lparr>i_ctime := now\<rparr>,
    put_bytes pos (inode_rec (get_bytes pos 128 fs) ino now) (fs\<lparr>events := Suc (events fs)\<rparr>))"
proof -
  have o: "off + 128 \<le> 512"
    by (rule inode_place_off [OF assms(1)])
  let ?S = "get_bytes (unat l * 512) 512 fs"
  define R where "R = get_bytes pos 128 fs"
  have R: "length R = 128" "?S = overlay ?S off R"
    using o overlay_self [of off 128 ?S] get_sub_bytes [of off 128 512 "unat l * 512" fs]
    by (simp_all add: R_def pos_def SECTOR_SIZE_def)
  have len: "length (concat (map bytes32 (i_block ino))) = 60"
    by (simp add: length_concat_bytes32 assms(2))
  have m: "memcpy_to (overlay ?S off R') (off + k) xs = Some (overlay ?S off (overlay R' k xs))"
    if "length R' = 128" "k + length xs \<le> 128" for R' k xs
    using that o by (intro memcpy_record) simp_all
  have m0: "memcpy_to ?S off (bytes16 (i_mode ino)) = Some (overlay ?S off (overlay R 0 (bytes16 (i_mode ino))))"
    using m [of R 0 "bytes16 (i_mode ino)"] R by simp
  let ?rec = "inode_rec R ino now"
  have lr: "length ?rec = 128"
    by (rule length_inode_rec [OF R(1) assms(2)])
  have pw: "partition_write l (overlay ?S off ?rec) 1 (fs\<lparr>events := Suc (events fs)\<rparr>) =
      Some (put_bytes pos ?rec (fs\<lparr>events := Suc (events fs)\<rparr>))"
    using put_overlay [of off ?rec 512 "unat l * 512" "fs\<lparr>events := Suc (events fs)\<rparr>"] lr o
    by (simp add: partition_write_bytes SECTOR_SIZE_def pos_def get_bytes_def)
  show ?thesis
    using assms(1) pw lr R(1) unfolding ext2_write_inode_def partition_read_bytes R_def [symmetric]
    by (simp add: SECTOR_SIZE_def m0 m len sys_time_def Let_def inode_rec_def now_def del: memcpy_to_eq)
qed

section \<open>The inode tables\<close>

definition itab_blks :: "ext2_fs \<Rightarrow> nat \<Rightarrow> nat set" where
  "itab_blks fs g = (let t = unat (bg_inode_table (group_desc (sb fs) ! g)) in
     {t..<t + (unat (s_inodes_per_group (sb fs)) * 128 + bsz fs - 1) div bsz fs})"

definition itab_ok :: "ext2_fs \<Rightarrow> bool" where
  "itab_ok fs \<longleftrightarrow> (\<forall>g<ngroups fs. (\<forall>b\<in>itab_blks fs g. vblk fs b) \<and>
     (\<forall>g'<ngroups fs. g \<noteq> g' \<longrightarrow> itab_blks fs g \<inter> itab_blks fs g' = {}))"

text \<open>The byte position of an inode.\<close>

definition ipos :: "ext2_fs \<Rightarrow> nat \<Rightarrow> nat" where
  "ipos fs n = (let ipg = unat (s_inodes_per_group (sb fs)) in
     unat (bg_inode_table (group_desc (sb fs) ! ((n - 1) div ipg))) * bsz fs + (n - 1) mod ipg * 128)"

abbreviation "inode_no_ok fs n \<equiv> in_range fs EXT2_INODE_BITMAP n"

lemma dvd_gap:
  fixes a b k :: nat
  assumes "k dvd a" "k dvd b" "a < b"
  shows "a + k \<le> b"
proof -
  have "k dvd b - a"
    using assms by simp
  then have "k \<le> b - a"
    using assms(3) by (simp add: dvd_imp_le)
  then show ?thesis
    using assms(3) by simp
qed

lemma sector_bound:
  fixes t q k N :: nat
  assumes "(t + q div k) * k < N" "k dvd N" "0 < k"
  shows "t * k + q < N"
proof -
  have "(t + q div k) * k + k \<le> N"
    using assms by (intro dvd_gap) auto
  moreover have "q < q div k * k + k"
    using assms(3) by (metis add.commute div_mult_mod_eq mod_less_divisor nat_add_left_cancel_less add_less_cancel_left)
  ultimately show ?thesis
    by (simp add: algebra_simps)
qed

lemma ipos_block:
  assumes "geom_ok fs" "inode_no_ok fs n"
  shows "(n - 1) div unat (s_inodes_per_group (sb fs)) < ngroups fs"
    "ipos fs n div bsz fs \<in> itab_blks fs ((n - 1) div unat (s_inodes_per_group (sb fs)))" "128 dvd ipos fs n"
    "ipos fs n mod bsz fs + 128 \<le> bsz fs"
proof -
  let ?ipg = "unat (s_inodes_per_group (sb fs))"
  have ipg: "0 < ?ipg"
    using geom_okD(4) [OF assms(1), of EXT2_INODE_BITMAP] by simp
  have n: "n - 1 < ngroups fs * ?ipg"
    using assms(2) by (auto simp: in_range_def)
  then show "(n - 1) div ?ipg < ngroups fs"
    by (simp add: less_mult_imp_div_less)
  define t where "t = unat (bg_inode_table (group_desc (sb fs) ! ((n - 1) div ?ipg)))"
  define i where "i = (n - 1) mod ?ipg"
  have i: "i < ?ipg"
    using ipg by (simp add: i_def)
  have p: "ipos fs n = t * bsz fs + i * 128"
    by (simp add: ipos_def Let_def t_def i_def)
  have bs: "bsz fs \<in> {1024, 2048, 4096}"
    using geom_okD(1) [OF assms(1)] by (rule bsz_cases)
  then have "ipos fs n div bsz fs = t + i * 128 div bsz fs"
    by (auto simp: p)
  moreover have "i * 128 div bsz fs < (?ipg * 128 + bsz fs - 1) div bsz fs"
  proof -
    have "i * 128 div bsz fs < i * 128 div bsz fs + 1"
      by simp
    also have "\<dots> = (i * 128 + bsz fs) div bsz fs"
      using bs by auto
    also have "\<dots> \<le> (?ipg * 128 + bsz fs - 1) div bsz fs"
      using i bs by (intro div_le_mono) auto
    finally show ?thesis .
  qed
  ultimately show "ipos fs n div bsz fs \<in> itab_blks fs ((n - 1) div ?ipg)"
    by (simp add: itab_blks_def Let_def t_def)
  show d: "128 dvd ipos fs n"
    using bs by (auto simp: p)
  show "ipos fs n mod bsz fs + 128 \<le> bsz fs"
    using d bs by (intro dvd_gap dvd_mod) auto
qed

lemma ipos_inj:
  assumes "geom_ok fs" "itab_ok fs" "inode_no_ok fs n" "inode_no_ok fs m" "ipos fs n = ipos fs m"
  shows "n = m"
proof -
  let ?ipg = "unat (s_inodes_per_group (sb fs))"
  have g: "(n - 1) div ?ipg = (m - 1) div ?ipg"
  proof (rule ccontr)
    assume "(n - 1) div ?ipg \<noteq> (m - 1) div ?ipg"
    then have "itab_blks fs ((n - 1) div ?ipg) \<inter> itab_blks fs ((m - 1) div ?ipg) = {}"
      using assms(2) ipos_block(1) [OF assms(1,3)] ipos_block(1) [OF assms(1,4)] by (simp add: itab_ok_def)
    then show False
      using ipos_block(2) [OF assms(1,3)] ipos_block(2) [OF assms(1,4)] assms(5) by auto
  qed
  then have "(n - 1) mod ?ipg = (m - 1) mod ?ipg"
    using assms(5) by (simp add: ipos_def Let_def)
  then have "n - 1 = m - 1"
    using g by (metis div_mult_mod_eq)
  then show ?thesis
    using assms(3,4) by (auto simp: in_range_def)
qed

lemma ipos_apart:
  assumes "geom_ok fs" "itab_ok fs" "inode_no_ok fs n" "inode_no_ok fs m" "n \<noteq> m"
  shows "ipos fs n + 128 \<le> ipos fs m \<or> ipos fs m + 128 \<le> ipos fs n"
proof -
  have "128 dvd ipos fs n" "128 dvd ipos fs m" "ipos fs n \<noteq> ipos fs m"
    using ipos_block(3) [OF assms(1,3)] ipos_block(3) [OF assms(1,4)] ipos_inj [OF assms(1-4)] assms(5) by auto
  then show ?thesis
    using dvd_gap [of 128 "ipos fs n" "ipos fs m"] dvd_gap [of 128 "ipos fs m" "ipos fs n"] by linarith
qed

lemma inode_place_spec:
  assumes "geom_ok fs" "itab_ok fs" "inode_no_ok fs (unat n)"
  shows "\<exists>l off. inode_place n fs = Some (l, off) \<and> unat l * SECTOR_SIZE + off = ipos fs (unat n)"
proof -
  obtain g i where gi: "g < ngroups fs" "i < unat (bits_per_group EXT2_INODE_BITMAP (sb fs))"
      "unat n = res_id fs EXT2_INODE_BITMAP g i"
      "(of_nat (unat n) - first_number EXT2_INODE_BITMAP (sb fs)) div bits_per_group EXT2_INODE_BITMAP (sb fs) = of_nat g"
      "(of_nat (unat n) - first_number EXT2_INODE_BITMAP (sb fs)) mod bits_per_group EXT2_INODE_BITMAP (sb fs) = of_nat i"
      "unat (of_nat g :: u32) = g" "unat (of_nat i :: u32) = i"
    using in_range_split [OF assms(1,3)] by metis
  have nd: "(n - 1) div s_inodes_per_group (sb fs) = of_nat g" "(n - 1) mod s_inodes_per_group (sb fs) = of_nat i"
    using gi(4,5) by simp_all
  let ?ipg = "unat (s_inodes_per_group (sb fs))"
  define t where "t = bg_inode_table (group_desc (sb fs) ! g)"
  have ge: "(unat n - 1) div ?ipg = g" "(unat n - 1) mod ?ipg = i"
    using gi(2,3) by (simp_all add: res_id_def)
  have p: "ipos fs (unat n) = unat t * bsz fs + i * 128"
    unfolding ipos_def Let_def ge t_def ..
  have bs: "bsz fs \<in> {1024, 2048, 4096}" "bs_ok (sb fs)"
    using geom_okD(1) [OF assms(1)] bsz_cases by auto
  have il: "i < 2 ^ 15"
    using gi(2) geom_okD(6) [OF assms(1), of EXT2_INODE_BITMAP] bs(1) by auto
  have bo: "unat (of_nat i * EXT2_INODE_SIZE :: u32) = i * 128"
    using il gi(7) by (simp add: EXT2_INODE_SIZE_def unat_word_ariths)
  have v: "vblk fs (unat t + i * 128 div bsz fs)"
  proof -
    have "ipos fs (unat n) div bsz fs = unat t + i * 128 div bsz fs"
      using bs(1) by (auto simp: p)
    then show ?thesis
      using ipos_block(2) [OF assms(1,3)] assms(2) gi(1) ge by (auto simp: itab_ok_def)
  qed
  have bts: "unat (BLOCK_TO_SECTOR (sb fs) t) * 512 = unat t * bsz fs" "vblk fs (unat t)"
  proof -
    show "vblk fs (unat t)"
      using v unfolding vblk_def by (rule le_less_trans [rotated]) (rule mult_le_mono1, simp)
    then show "unat (BLOCK_TO_SECTOR (sb fs) t) * 512 = unat t * bsz fs"
      using unat_BLOCK_TO_SECTOR [OF bs(2)] by (simp add: SECTOR_SIZE_def)
  qed
  let ?l = "BLOCK_TO_SECTOR (sb fs) t + of_nat i * EXT2_INODE_SIZE div of_nat SECTOR_SIZE"
  have s512: "unat (of_nat SECTOR_SIZE :: u32) = 512"
    by (simp add: SECTOR_SIZE_def)
  have "unat (BLOCK_TO_SECTOR (sb fs) t) + i * 128 div 512 < 2 ^ 32"
  proof -
    define k where "k = bsz fs div 512"
    have k: "0 < k" "k dvd 2 ^ 32" "bsz fs = 512 * k"
      using bs(1) by (auto simp: k_def)
    have "i * 128 div bsz fs = i * 128 div 512 div k"
      by (simp only: k(3) div_mult2_eq)
    then have "(unat t + i * 128 div 512 div k) * k < 2 ^ 32"
      using v by (simp add: vblk_def k_def [symmetric])
    moreover have "unat (BLOCK_TO_SECTOR (sb fs) t) = unat t * k"
      using bts(1) k(3) by simp
    ultimately show ?thesis
      using sector_bound [OF _ k(2,1)] by metis
  qed
  then have l: "unat ?l = unat (BLOCK_TO_SECTOR (sb fs) t) + i * 128 div 512"
    using bo s512 by (simp add: unat_plus_no_wrap unat_div)
  have "unat ?l * 512 + unat (of_nat i * EXT2_INODE_SIZE mod of_nat SECTOR_SIZE :: u32) = ipos fs (unat n)"
    using l bts(1) bo s512 by (simp only: p unat_mod add_mult_distrib div_mult_mod_eq add.assoc)
  moreover have "inode_place n fs = Some (?l, unat (of_nat i * EXT2_INODE_SIZE mod of_nat SECTOR_SIZE :: u32))"
    using nd gi(1,6) geom_okD(4) [OF assms(1), of EXT2_INODE_BITMAP]
    by (auto simp: inode_place_def group_desc_at_def ngroups_def t_def Let_def)
  ultimately show ?thesis
    by (simp add: SECTOR_SIZE_def)
qed

text \<open>
  Writing an inode and reading it back, from an in-core inode with the same number, gives the fields that were
  written, with the time of the write; no other inode of the tables is touched.
\<close>

definition reread :: "einode \<Rightarrow> u32 \<Rightarrow> einode \<Rightarrow> einode" where
  "reread ino now x = (let y = x\<lparr>i_size := i_size ino, i_type := decode_imode (i_mode ino), i_mode := i_mode ino,
       i_nlink := ucast (i_links_count ino), i_block := i_block ino, i_links_count := i_links_count ino, i_blocks := i_blocks ino,
       i_atime := i_atime ino, i_mtime := i_mtime ino, i_ctime := now, i_dtime := (if i_links_count ino = 0 then now else 0)\<rparr>
     in if i_type y = FT_CHAR_SPECIAL \<or> i_type y = FT_BLOCK_SPECIAL then y\<lparr>i_rdev := i_block ino ! 0\<rparr> else y)"

lemma inode_place_cong: "sb fs' = sb fs \<Longrightarrow> inode_place n fs' = inode_place n fs"
  by (simp add: inode_place_def)

lemma ext2_write_inode_spec:
  assumes "geom_ok fs" "itab_ok fs" "inode_no_ok fs (unat (i_no ino))" "length (i_block ino) = 15"
  shows "\<exists>fs'. ext2_write_inode ino fs = Some (ino\<lparr>i_ctime := clock fs (events fs)\<rparr>, fs') \<and> sb fs' = sb fs \<and>
    fs' = put_bytes (ipos fs (unat (i_no ino)))
      (inode_rec (get_bytes (ipos fs (unat (i_no ino))) 128 fs) ino (clock fs (events fs))) (fs\<lparr>events := Suc (events fs)\<rparr>) \<and>
    (\<forall>x. i_no x = i_no ino \<longrightarrow> ext2_read_inode x fs' = Some (reread ino (clock fs (events fs)) x)) \<and>
    (\<forall>x. inode_no_ok fs (unat (i_no x)) \<longrightarrow> i_no x \<noteq> i_no ino \<longrightarrow> ext2_read_inode x fs' = ext2_read_inode x fs)"
proof -
  define p where "p = ipos fs (unat (i_no ino))"
  define now where "now = clock fs (events fs)"
  define R where "R = inode_rec (get_bytes p 128 fs) ino now"
  define fs' where "fs' = put_bytes p R (fs\<lparr>events := Suc (events fs)\<rparr>)"
  obtain l off where lo: "inode_place (i_no ino) fs = Some (l, off)" "unat l * SECTOR_SIZE + off = p"
    using inode_place_spec [OF assms(1,2,3)] by (auto simp: p_def)
  have w: "ext2_write_inode ino fs = Some (ino\<lparr>i_ctime := now\<rparr>, fs')"
    using ext2_write_inode_eq [OF lo(1) assms(4)] by (simp add: lo(2) fs'_def now_def R_def)
  have s: "sb fs' = sb fs"
    by (simp add: fs'_def)
  have lR: "length R = 128"
    using assms(4) by (simp add: R_def length_inode_rec)
  have same: "ext2_read_inode x fs' = Some (reread ino now x)" if "i_no x = i_no ino" for x
  proof -
    have "i_no ino \<noteq> 0"
      using assms(3) by (auto simp: in_range_def)
    then have "ext2_read_inode x fs' = Some (rec_inode (get_bytes p 128 fs') x)"
      using ext2_read_inode_eq [of x fs' l off] lo that by (simp add: inode_place_cong [OF s])
    moreover have "get_bytes p 128 fs' = R"
      using get_put_bytes [of p R] lR by (simp add: fs'_def)
    ultimately show ?thesis
      using rec_inode_rec [of "get_bytes p 128 fs" ino now x] assms(4) by (simp add: R_def reread_def)
  qed
  have other: "ext2_read_inode x fs' = ext2_read_inode x fs" if "inode_no_ok fs (unat (i_no x))" "i_no x \<noteq> i_no ino" for x
  proof -
    note x = that
    obtain l' off' where lo': "inode_place (i_no x) fs = Some (l', off')" "unat l' * SECTOR_SIZE + off' = ipos fs (unat (i_no x))"
      using inode_place_spec [OF assms(1,2) x(1)] by auto
    have nz: "i_no x \<noteq> 0"
      using that(1) by (auto simp: in_range_def)
    have "unat (i_no ino) \<noteq> unat (i_no x)"
      using x(2) by (metis word_unat_eq_iff)
    then have "p + length R \<le> ipos fs (unat (i_no x)) \<or> ipos fs (unat (i_no x)) + 128 \<le> p"
      using ipos_apart [OF assms(1,2,3) x(1)] lR by (simp add: p_def)
    then have "get_bytes (ipos fs (unat (i_no x))) 128 fs' = get_bytes (ipos fs (unat (i_no x))) 128 (fs\<lparr>events := Suc (events fs)\<rparr>)"
      unfolding fs'_def by (rule get_put_bytes_other)
    then have "get_bytes (ipos fs (unat (i_no x))) 128 fs' = get_bytes (ipos fs (unat (i_no x))) 128 fs"
      by (simp add: get_bytes_def)
    then show ?thesis
      using ext2_read_inode_eq [of x fs' l' off'] ext2_read_inode_eq [of x fs l' off'] lo' nz by (simp add: inode_place_cong [OF s])
  qed
  show ?thesis
    using w s same other by (auto simp: now_def fs'_def R_def p_def)
qed

section \<open>Metadata apart from data\<close>

text \<open>The blocks with the super block, the group descriptors and the inode tables.\<close>

definition sb_blk :: "ext2_fs \<Rightarrow> nat" where
  "sb_blk fs = 1024 div bsz fs"

definition gdt_blks :: "ext2_fs \<Rightarrow> nat set" where
  "gdt_blks fs = (let t = (if bsz fs = 1024 then 2 else 1) in
     {t..<t + (32 * ngroups fs + length (gdt_rest (sb fs)) + bsz fs - 1) div bsz fs})"

definition all_itabs :: "ext2_fs \<Rightarrow> nat set" where
  "all_itabs fs = (\<Union>g<ngroups fs. itab_blks fs g)"

definition sys_blks :: "ext2_fs \<Rightarrow> nat set" where
  "sys_blks fs = insert (sb_blk fs) (gdt_blks fs \<union> all_itabs fs)"

text \<open>The images in memory have the lengths they have on disk.\<close>

definition super_ok :: "ext2_fs \<Rightarrow> bool" where
  "super_ok fs \<longleftrightarrow> length (sb_raw (sb fs)) = 1024 \<and> (\<forall>g<ngroups fs. length (bg_rest (group_desc (sb fs) ! g)) = 14) \<and>
     32 * ngroups fs + length (gdt_rest (sb fs)) = unat (DIV_ROUND_UP (group_desc_cnt (sb fs) * 32) (of_nat SECTOR_SIZE)) * SECTOR_SIZE"

lemma meta_cong:
  assumes "same_but X fs fs'"
  shows "sb_blk fs' = sb_blk fs" "gdt_blks fs' = gdt_blks fs" "all_itabs fs' = all_itabs fs" "sys_blks fs' = sys_blks fs"
    "super_ok fs' = super_ok fs" "itab_ok fs' = itab_ok fs" "in_range fs' = in_range fs"
    "inode_no_ok fs n \<Longrightarrow> geom_ok fs \<Longrightarrow> ipos fs' n = ipos fs n"
proof -
  have g: "geom (sb fs') = geom (sb fs)"
    using assms by (simp add: same_but_def)
  note s = same_but_geom [OF assms] and f = geom_fields [OF g]
  have t: "bg_inode_table (group_desc (sb fs') ! i) = bg_inode_table (group_desc (sb fs) ! i)"
    "length (bg_rest (group_desc (sb fs') ! i)) = length (bg_rest (group_desc (sb fs) ! i))" if "i < ngroups fs" for i
    using geom_group [OF g] that by (simp_all add: ngroups_def)
  then have i: "itab_blks fs' i = itab_blks fs i" if "i < ngroups fs" for i
    using that by (simp add: itab_blks_def s(1) f(6))
  show a: "sb_blk fs' = sb_blk fs" "gdt_blks fs' = gdt_blks fs" "all_itabs fs' = all_itabs fs"
    using i by (simp_all add: sb_blk_def gdt_blks_def all_itabs_def s(1,3) f(9))
  then show "sys_blks fs' = sys_blks fs"
    by (simp add: sys_blks_def)
  show "super_ok fs' = super_ok fs"
    using t by (simp add: super_ok_def s(3) f)
  show "itab_ok fs' = itab_ok fs"
    using i by (simp add: itab_ok_def s(2,3))
  show "in_range fs' = in_range fs"
    by (simp add: in_range_def fun_eq_iff s(3,5,6))
  show "ipos fs' n = ipos fs n" if "inode_no_ok fs n" "geom_ok fs"
    using t [OF ipos_block(1) [OF that(2,1)]] by (simp add: ipos_def s(1) f(6))
qed

lemma put_bytes_same_but:
  assumes "\<forall>i. pos \<le> i \<and> i < pos + length xs \<longrightarrow> i div bsz fs \<in> X" "0 < bsz fs"
  shows "same_but X fs (put_bytes pos xs fs)"
proof -
  have "blk (put_bytes pos xs fs) b = blk fs b" if "b \<notin> X" for b
  proof -
    have "\<not> (pos \<le> i \<and> i < pos + length xs)" if i: "i \<in> {b * bsz fs..<b * bsz fs + bsz fs}" for i
    proof -
      obtain d where "i = b * bsz fs + d" "d < bsz fs"
        using i by (metis add_less_cancel_left atLeastLessThan_iff le_Suc_ex)
      then have "i div bsz fs = b"
        by simp
      then show ?thesis
        using assms(1) \<open>b \<notin> X\<close> by blast
    qed
    then show ?thesis
      by (auto simp: blk_def bsz_def put_bytes_def)
  qed
  then show ?thesis
    by (simp add: same_but_def)
qed

lemma range_blocks:
  fixes t n i bs :: nat
  assumes "t * bs \<le> i" "i < t * bs + n" "0 < bs"
  shows "i div bs \<in> {t..<t + (n + bs - 1) div bs}"
proof -
  have "t \<le> i div bs"
    using div_le_mono [OF assms(1), of bs] assms(3) by simp
  moreover have "n \<le> (n + bs - 1) div bs * bs"
  proof -
    have "n + bs - 1 < Suc ((n + bs - 1) div bs) * bs"
      using assms(3) div_mult_mod_eq [of "n + bs - 1" bs] mod_less_divisor [OF assms(3), of "n + bs - 1"]
      unfolding mult_Suc by linarith
    then show ?thesis
      using assms(3) by simp
  qed
  then have "i < (t + (n + bs - 1) div bs) * bs"
    using assms(2) unfolding add_mult_distrib by linarith
  then have "i div bs < t + (n + bs - 1) div bs"
    by (rule less_mult_imp_div_less)
  ultimately show ?thesis
    by simp
qed

text \<open>What writing metadata back leaves as it was: everything but the blocks of metadata, and the counters.\<close>

definition synced :: "ext2_fs \<Rightarrow> ext2_fs \<Rightarrow> bool" where
  "synced fs fs' \<longleftrightarrow> same_but (sys_blks fs) fs fs' \<and> group_desc (sb fs') = group_desc (sb fs) \<and>
     (\<forall>t. free_count t (sb fs') = free_count t (sb fs)) \<and> ent fs' 0 0 = ent fs 0 0"

lemma synced_trans: "synced fs fs' \<Longrightarrow> synced fs' fs'' \<Longrightarrow> synced fs fs''"
  using same_but_trans [of "sys_blks fs" fs fs' "sys_blks fs'" fs''] meta_cong(4) [of "sys_blks fs" fs fs']
  by (simp add: synced_def)

lemma synced_events [simp]: "synced fs (fs\<lparr>events := n\<rparr>)"
  by (simp add: synced_def ent_def)

lemma length_gd_bytes: "length (gd_bytes gd) = 18 + length (bg_rest gd)"
  by (simp add: gd_bytes_def)

lemma length_gdt:
  assumes "super_ok fs"
  shows "length (concat (map gd_bytes (group_desc (sb fs))) @ gdt_rest (sb fs)) = 32 * ngroups fs + length (gdt_rest (sb fs))"
proof -
  have "length (concat (map gd_bytes gds)) = 32 * length gds" if "\<forall>gd\<in>set gds. length (bg_rest gd) = 14" for gds
    using that by (induction gds) (simp_all add: length_gd_bytes)
  moreover have "\<forall>gd\<in>set (group_desc (sb fs)). length (bg_rest gd) = 14"
    using assms by (auto simp: super_ok_def in_set_conv_nth ngroups_def)
  ultimately show ?thesis
    by (simp add: ngroups_def)
qed

lemma ent_boot_cong: "bsz fs' = bsz fs \<Longrightarrow> 4 \<le> bsz fs \<Longrightarrow> \<forall>i<4. store fs' i = store fs i \<Longrightarrow> ent fs' 0 0 = ent fs 0 0"
  by (simp add: ent_def le32_def blk_def)

lemma ext2_sync_gdt_spec:
  assumes "bs_ok (sb fs)" "super_ok fs"
  shows "\<exists>fs'. ext2_sync_gdt fs = Some fs' \<and> same_but (gdt_blks fs) fs fs' \<and> sb fs' = sb fs \<and> events fs' = events fs \<and> synced fs fs'"
proof -
  define t where "t = (if bsz fs = 1024 then 2 else 1 :: nat)"
  have b: "bsz fs \<in> {1024, 2048, 4096}"
    by (rule bsz_cases [OF assms(1)])
  have "s_block_size (sb fs) = 1024 \<longleftrightarrow> bsz fs = 1024"
    using u32_eqI [of "s_block_size (sb fs)" 1024] by (auto simp: bsz_def)
  then have l: "unat (gdt_lba (sb fs)) * SECTOR_SIZE = t * bsz fs"
    using unat_BLOCK_TO_SECTOR [OF assms(1), of 2] unat_BLOCK_TO_SECTOR [OF assms(1), of 1] b
    by (auto simp: gdt_lba_def t_def vblk_def bsz_def)
  let ?x = "concat (map gd_bytes (group_desc (sb fs))) @ gdt_rest (sb fs)"
  note lg = length_gdt [OF assms(2)]
  have "ext2_sync_gdt fs = Some (put_bytes (t * bsz fs) ?x fs)"
    using partition_write_bytes [of ?x] lg assms(2) l by (simp add: ext2_sync_gdt_def super_ok_def)
  moreover have s: "same_but (gdt_blks fs) fs (put_bytes (t * bsz fs) ?x fs)"
    using range_blocks [of t "bsz fs"] lg b by (intro put_bytes_same_but) (auto simp: gdt_blks_def t_def [symmetric])
  moreover have "ent (put_bytes (t * bsz fs) ?x fs) 0 0 = ent fs 0 0"
    using b by (intro ent_boot_cong) (auto simp: bsz_def put_bytes_def t_def)
  ultimately show ?thesis
    using same_but_mono [OF s, of "sys_blks fs"] by (auto simp: synced_def sys_blks_def)
qed

lemma ext2_write_super_spec:
  assumes "bs_ok (sb fs)" "super_ok fs"
  shows "\<exists>fs'. ext2_write_super fs = Some fs' \<and> same_but {sb_blk fs} fs fs' \<and> synced fs fs' \<and>
    (\<exists>raw. sb fs' = (sb fs)\<lparr>sb_raw := raw\<rparr> \<and> length raw = 1024)"
proof -
  have b: "bsz fs \<in> {1024, 2048, 4096}"
    by (rule bsz_cases [OF assms(1)])
  define raw where "raw = overlay (overlay (overlay (sb_raw (sb fs)) 48 (bytes32 (clock fs (events fs)))) 12
      (bytes32 (s_free_blocks_count (sb fs)))) 16 (bytes32 (s_free_inodes_count (sb fs)))"
  have lr: "length raw = 1024"
    using assms(2) by (simp add: raw_def super_ok_def)
  let ?f = "fs\<lparr>events := Suc (events fs), sb := (sb fs)\<lparr>sb_raw := raw\<rparr>\<rparr>"
  have w: "ext2_write_super fs = Some (put_bytes 1024 raw ?f)"
    using partition_write_bytes [of raw 2 2 ?f] lr assms(2)
    by (simp add: ext2_write_super_def sys_time_def raw_def super_ok_def SECTOR_SIZE_def)
  have g: "geom (sb ?f) = geom (sb fs)"
    using lr assms(2) by (simp add: geom_def super_ok_def)
  have "same_but {sb_blk fs} ?f (put_bytes 1024 raw ?f)"
  proof (rule put_bytes_same_but)
    show "\<forall>i. 1024 \<le> i \<and> i < 1024 + length raw \<longrightarrow> i div bsz ?f \<in> {sb_blk fs}"
      using b lr by (auto simp: sb_blk_def bsz_def)
  qed (use b in \<open>auto simp: bsz_def\<close>)
  moreover have "same_but {} fs ?f"
    using g by (simp add: same_but_def blk_def bsz_def)
  ultimately have s: "same_but {sb_blk fs} fs (put_bytes 1024 raw ?f)"
    using same_but_trans by fastforce
  have "ent (put_bytes 1024 raw ?f) 0 0 = ent fs 0 0"
    using b by (intro ent_boot_cong) (auto simp: bsz_def put_bytes_def)
  moreover have "free_count t (sb (put_bytes 1024 raw ?f)) = free_count t (sb fs)" for t
    by (cases t) (simp_all add: free_count_def)
  ultimately have "synced fs (put_bytes 1024 raw ?f)"
    using same_but_mono [OF s, of "sys_blks fs"] by (auto simp: synced_def sys_blks_def)
  then show ?thesis
    using w s lr by auto
qed

text \<open>
  A mounted disk: allocation works, the inode tables and the images of the metadata are sound, metadata, bitmaps
  and free blocks are apart, and the first word of the boot block is 0.
\<close>

definition disk_ok :: "ext2_fs \<Rightarrow> bool" where
  "disk_ok fs \<longleftrightarrow> blocks_ok fs \<and> itab_ok fs \<and> super_ok fs \<and> sys_blks fs \<inter> bitmap_blks fs = {} \<and>
     free_blocks fs \<inter> sys_blks fs = {} \<and> all_itabs fs \<inter> insert 0 (insert (sb_blk fs) (gdt_blks fs)) = {} \<and>
     ent fs 0 0 = 0 \<and> 0 \<notin> bitmap_blks fs"

lemma disk_okD:
  assumes "disk_ok fs"
  shows "blocks_ok fs" "geom_ok fs" "bs_ok (sb fs)" "itab_ok fs" "super_ok fs" "sys_blks fs \<inter> bitmap_blks fs = {}"
    "free_blocks fs \<inter> sys_blks fs = {}" "all_itabs fs \<inter> insert 0 (insert (sb_blk fs) (gdt_blks fs)) = {}" "ent fs 0 0 = 0"
    "0 \<notin> bitmap_blks fs" "0 < bsz fs"
  using assms blocks_okD(1,4) [of fs] bsz_cases [of fs] by (auto simp: disk_ok_def)

lemma synced_grown:
  assumes "disk_ok fs" "synced fs fs'"
  shows "grown {} (sys_blks fs) fs fs'" "disk_ok fs'"
proof -
  note d = disk_okD [OF assms(1)]
  have s: "same_but (sys_blks fs) fs fs'"
    using assms(2) by (simp add: synced_def)
  show g: "grown {} (sys_blks fs) fs fs'"
    using assms(2) d(6) by (intro grown_same [OF d(1) s]) (simp_all add: synced_def)
  show "disk_ok fs'"
    using assms(2) d grownD [OF g] meta_cong [OF s] by (simp add: disk_ok_def synced_def)
qed

lemma grown_disk_ok:
  assumes "disk_ok fs" "grown N X fs fs'" "ent fs' 0 0 = 0"
  shows "disk_ok fs'"
  using disk_okD [OF assms(1)] grownD [OF assms(2)] meta_cong [OF grownD(4) [OF assms(2)]] assms(3)
  by (auto simp: disk_ok_def)

lemma itab_byte:
  assumes "geom_ok fs" "inode_no_ok fs n" "ipos fs n \<le> i" "i < ipos fs n + 128" "0 < bsz fs"
  shows "i div bsz fs \<in> all_itabs fs"
proof -
  note p = ipos_block [OF assms(1,2)]
  let ?b = "ipos fs n div bsz fs"
  have "i = ?b * bsz fs + (ipos fs n mod bsz fs + (i - ipos fs n))"
    using assms(3) by simp
  moreover have "ipos fs n mod bsz fs + (i - ipos fs n) < bsz fs"
    using p(4) assms(3,4) by linarith
  ultimately have "i div bsz fs = ?b"
    by (metis add.commute add_cancel_right_left div_less div_mult_self1 assms(5) less_not_refl2)
  then show ?thesis
    using p(1,2) by (auto simp: all_itabs_def)
qed

text \<open>The inode that a read of the tables finds does not depend on the other metadata.\<close>

lemma read_inode_cong:
  assumes "disk_ok fs" "same_but X fs fs'" "X \<inter> all_itabs fs = {}" "sb fs' = (sb fs)\<lparr>sb_raw := raw\<rparr>"
    and "inode_no_ok fs (unat (i_no x))"
  shows "ext2_read_inode x fs' = ext2_read_inode x fs"
proof -
  note d = disk_okD [OF assms(1)]
  obtain l off where lo: "inode_place (i_no x) fs = Some (l, off)" "unat l * SECTOR_SIZE + off = ipos fs (unat (i_no x))"
    using inode_place_spec [OF d(2,4) assms(5)] by auto
  then have lo': "inode_place (i_no x) fs' = Some (l, off)"
    using assms(4) by (simp add: inode_place_def BLOCK_TO_SECTOR_def group_desc_at_def)
  have nz: "i_no x \<noteq> 0"
    using assms(5) by (auto simp: in_range_def)
  have "store fs' i = store fs i" if "ipos fs (unat (i_no x)) \<le> i" "i < ipos fs (unat (i_no x)) + 128" for i
  proof -
    have "i div bsz fs \<notin> X"
      using itab_byte [OF d(2) assms(5) that d(11)] assms(3) by blast
    then have "blk fs' (i div bsz fs) ! (i mod bsz fs) = blk fs (i div bsz fs) ! (i mod bsz fs)"
      using same_but_blk [OF assms(2)] by simp
    then show ?thesis
      using d(11) same_but_geom(1) [OF assms(2)] dividend_less_div_times [OF d(11), of i] by (simp add: blk_def add.commute)
  qed
  then have "get_bytes (ipos fs (unat (i_no x))) 128 fs' = get_bytes (ipos fs (unat (i_no x))) 128 fs"
    by (simp add: get_bytes_def)
  then show ?thesis
    using ext2_read_inode_eq [OF lo(1) nz] ext2_read_inode_eq [OF lo' nz] lo(2) by simp
qed

lemma write_inode_synced:
  assumes "disk_ok fs" "inode_no_ok fs (unat (i_no ino))" "length (i_block ino) = 15"
  shows "\<exists>fs'. ext2_write_inode ino fs = Some (ino\<lparr>i_ctime := clock fs (events fs)\<rparr>, fs') \<and> synced fs fs' \<and> sb fs' = sb fs \<and>
    same_but (all_itabs fs) fs fs' \<and>
    (\<forall>x. i_no x = i_no ino \<longrightarrow> ext2_read_inode x fs' = Some (reread ino (clock fs (events fs)) x)) \<and>
    (\<forall>x. inode_no_ok fs (unat (i_no x)) \<longrightarrow> i_no x \<noteq> i_no ino \<longrightarrow> ext2_read_inode x fs' = ext2_read_inode x fs)"
proof -
  note d = disk_okD [OF assms(1)]
  let ?p = "ipos fs (unat (i_no ino))" and ?f = "fs\<lparr>events := Suc (events fs)\<rparr>"
  define R where "R = inode_rec (get_bytes ?p 128 fs) ino (clock fs (events fs))"
  obtain fs' where w: "ext2_write_inode ino fs = Some (ino\<lparr>i_ctime := clock fs (events fs)\<rparr>, fs')" "sb fs' = sb fs"
      "fs' = put_bytes ?p R ?f"
      "\<forall>x. i_no x = i_no ino \<longrightarrow> ext2_read_inode x fs' = Some (reread ino (clock fs (events fs)) x)"
      "\<forall>x. inode_no_ok fs (unat (i_no x)) \<longrightarrow> i_no x \<noteq> i_no ino \<longrightarrow> ext2_read_inode x fs' = ext2_read_inode x fs"
    using ext2_write_inode_spec [OF d(2,4) assms(2,3)] unfolding R_def by blast
  have lR: "length R = 128"
    using assms(3) by (simp add: R_def length_inode_rec)
  have "same_but (all_itabs fs) ?f fs'"
    unfolding w(3) using itab_byte [OF d(2) assms(2)] d(11) lR by (intro put_bytes_same_but) (auto simp: bsz_def)
  then have s: "same_but (all_itabs fs) fs fs'"
    using same_but_trans [of "{}" fs ?f] by simp
  have "0 \<notin> all_itabs fs"
    using d(8) by auto
  then have "ent fs' 0 0 = ent fs 0 0"
    using same_but_blk [OF s, of 0] by (simp add: ent_def)
  then have "synced fs fs'"
    using same_but_mono [OF s, of "sys_blks fs"] w(2) by (auto simp: synced_def sys_blks_def)
  then show ?thesis
    using w s by blast
qed

lemma sync_gdt_disk:
  assumes "disk_ok fs"
  shows "\<exists>fs'. ext2_sync_gdt fs = Some fs' \<and> synced fs fs' \<and> disk_ok fs' \<and>
    (\<forall>x. inode_no_ok fs (unat (i_no x)) \<longrightarrow> ext2_read_inode x fs' = ext2_read_inode x fs)"
proof -
  note d = disk_okD [OF assms]
  obtain fs' where f: "ext2_sync_gdt fs = Some fs'" "same_but (gdt_blks fs) fs fs'" "sb fs' = sb fs" "synced fs fs'"
    using ext2_sync_gdt_spec [OF d(3,5)] by auto
  have "ext2_read_inode x fs' = ext2_read_inode x fs" if "inode_no_ok fs (unat (i_no x))" for x
    using f(3) d(8) that by (intro read_inode_cong [OF assms f(2), of "sb_raw (sb fs)"]) auto
  then show ?thesis
    using f synced_grown(2) [OF assms f(4)] by blast
qed

lemma write_super_disk:
  assumes "disk_ok fs"
  shows "\<exists>fs'. ext2_write_super fs = Some fs' \<and> synced fs fs' \<and> disk_ok fs' \<and>
    (\<forall>x. inode_no_ok fs (unat (i_no x)) \<longrightarrow> ext2_read_inode x fs' = ext2_read_inode x fs)"
proof -
  note d = disk_okD [OF assms]
  obtain fs' raw where f: "ext2_write_super fs = Some fs'" "same_but {sb_blk fs} fs fs'" "sb fs' = (sb fs)\<lparr>sb_raw := raw\<rparr>" "synced fs fs'"
    using ext2_write_super_spec [OF d(3,5)] by auto
  have "ext2_read_inode x fs' = ext2_read_inode x fs" if "inode_no_ok fs (unat (i_no x))" for x
    using f(3) d(8) that by (intro read_inode_cong [OF assms f(2)]) auto
  then show ?thesis
    using f synced_grown(2) [OF assms f(4)] by blast
qed

lemma write_inode_disk:
  assumes "disk_ok fs" "inode_no_ok fs (unat (i_no ino))" "length (i_block ino) = 15"
  shows "\<exists>fs' now. ext2_write_inode ino fs = Some (ino\<lparr>i_ctime := now\<rparr>, fs') \<and> synced fs fs' \<and> disk_ok fs' \<and>
    (\<forall>x. i_no x = i_no ino \<longrightarrow> ext2_read_inode x fs' = Some (reread ino now x)) \<and>
    (\<forall>x. inode_no_ok fs (unat (i_no x)) \<longrightarrow> i_no x \<noteq> i_no ino \<longrightarrow> ext2_read_inode x fs' = ext2_read_inode x fs)"
  using write_inode_synced [OF assms] synced_grown(2) [OF assms(1)] by blast

text \<open>Writing an inode back and then the descriptors and the super block, as most operations end.\<close>

lemma commit_inode:
  assumes "disk_ok fs" "inode_no_ok fs (unat (i_no ino))" "length (i_block ino) = 15"
  shows "\<exists>f1 f2 f3 now. ext2_write_inode ino fs = Some (ino\<lparr>i_ctime := now\<rparr>, f1) \<and> ext2_sync_gdt f1 = Some f2 \<and> ext2_write_super f2 = Some f3 \<and>
    synced fs f3 \<and> disk_ok f3 \<and> (\<forall>x. i_no x = i_no ino \<longrightarrow> ext2_read_inode x f3 = Some (reread ino now x)) \<and>
    (\<forall>x. inode_no_ok fs (unat (i_no x)) \<longrightarrow> i_no x \<noteq> i_no ino \<longrightarrow> ext2_read_inode x f3 = ext2_read_inode x fs)"
proof -
  obtain f1 now where f1: "ext2_write_inode ino fs = Some (ino\<lparr>i_ctime := now\<rparr>, f1)" "synced fs f1" "disk_ok f1"
      "\<forall>x. i_no x = i_no ino \<longrightarrow> ext2_read_inode x f1 = Some (reread ino now x)"
      "\<forall>x. inode_no_ok fs (unat (i_no x)) \<longrightarrow> i_no x \<noteq> i_no ino \<longrightarrow> ext2_read_inode x f1 = ext2_read_inode x fs"
    using write_inode_disk [OF assms] by blast
  obtain f2 where f2: "ext2_sync_gdt f1 = Some f2" "synced f1 f2" "disk_ok f2"
      "\<forall>x. inode_no_ok f1 (unat (i_no x)) \<longrightarrow> ext2_read_inode x f2 = ext2_read_inode x f1"
    using sync_gdt_disk [OF f1(3)] by blast
  obtain f3 where f3: "ext2_write_super f2 = Some f3" "synced f2 f3" "disk_ok f3"
      "\<forall>x. inode_no_ok f2 (unat (i_no x)) \<longrightarrow> ext2_read_inode x f3 = ext2_read_inode x f2"
    using write_super_disk [OF f2(3)] by blast
  have i: "inode_no_ok f1 = inode_no_ok fs" "inode_no_ok f2 = inode_no_ok fs"
    using f1(2) f2(2) meta_cong(7) by (auto simp: synced_def)
  have "synced fs f3"
    using f1(2) f2(2) f3(2) by (blast intro: synced_trans)
  then show ?thesis
    using f1 f2 f3 i assms(2) by (intro exI [of _ f1] exI [of _ f2] exI [of _ f3] exI [of _ now]) simp
qed

end
