(* ===== verification/Ext2_File.thy ===== *)
theory Ext2_File
  imports Ext2_Super File_Table
begin

text \<open>
  Reading, writing and seeking in an ext2 file: \<^verbatim>\<open>ext2_file_read\<close>, \<^verbatim>\<open>ext2_file_write\<close>,
  \<^verbatim>\<open>ext2_generic_lseek\<close> of \<^verbatim>\<open>fs/ext2/file.c\<close> and \<^verbatim>\<open>ext2_inode_read_data\<close> of \<^verbatim>\<open>fs/ext2/inode.c\<close>.
  The destination of a read is the list of bytes stored into it.
\<close>

section \<open>The code\<close>

text \<open>The bytes one round of a loop handles, and what a round of a read loop stores, from the block it read.\<close>

definition chunk_of :: "u32 \<Rightarrow> u32 \<Rightarrow> u32 \<Rightarrow> u32" where
  "chunk_of size_left block_size pos = (let space_in_block = block_size - pos mod block_size in
     if size_left < space_in_block then size_left else space_in_block)"

definition read_chunk :: "u32 \<Rightarrow> u8 list \<Rightarrow> u32 \<Rightarrow> u32 \<Rightarrow> u8 list halting" where
  "read_chunk phys_block io_buf offset_in_block chunk_size =
     (if phys_block = 0 then Some (replicate (unat chunk_size) 0)
      else memcpy_from io_buf (unat offset_in_block) (unat chunk_size))"

lemma chunk_of_bounds:
  assumes "bs \<noteq> 0" "left \<noteq> 0"
  shows "0 < unat (chunk_of left bs pos)" "chunk_of left bs pos \<le> left" "unat (chunk_of left bs pos) \<le> unat left"
    "unat (pos mod bs) + unat (chunk_of left bs pos) \<le> unat bs"
    "unat (chunk_of left bs pos) = min (unat left) (unat bs - unat pos mod unat bs)"
proof -
  have b: "unat pos mod unat bs < unat bs"
    using assms(1) by (simp add: unat_gt_0)
  then have s: "unat (bs - pos mod bs) = unat bs - unat pos mod unat bs"
    by (simp add: unat_minus_no_wrap unat_mod u32_le)
  show m: "unat (chunk_of left bs pos) = min (unat left) (unat bs - unat pos mod unat bs)"
    using s by (simp add: chunk_of_def Let_def u32_less min_def)
  show "0 < unat (chunk_of left bs pos)" "unat (chunk_of left bs pos) \<le> unat left"
    "unat (pos mod bs) + unat (chunk_of left bs pos) \<le> unat bs"
    using m b assms(2) by (auto simp: unat_mod unat_gt_0)
  then show "chunk_of left bs pos \<le> left"
    by (simp add: u32_le)
qed

lemma chunk_step:
  assumes "bs \<noteq> 0" "unat n < unat count"
  shows "0 < unat (chunk_of (count - n) bs pos)" "unat (n + chunk_of (count - n) bs pos) = unat n + unat (chunk_of (count - n) bs pos)"
    "unat n + unat (chunk_of (count - n) bs pos) \<le> unat count"
proof -
  have l: "count - n \<noteq> 0" "unat (count - n) = unat count - unat n"
    using assms(2) by (auto simp: unat_minus_no_wrap)
  note c = chunk_of_bounds(1,3) [OF assms(1) l(1), of pos]
  show "0 < unat (chunk_of (count - n) bs pos)" "unat n + unat (chunk_of (count - n) bs pos) \<le> unat count"
    using c l(2) assms(2) by auto
  then show "unat (n + chunk_of (count - n) bs pos) = unat n + unat (chunk_of (count - n) bs pos)"
    using le_less_trans [OF _ unat_u32_bound [of count]] by (intro unat_plus_no_wrap) simp
qed

lemma chunk_decrease:
  "bs \<noteq> 0 \<Longrightarrow> unat n < unat count \<Longrightarrow>
    unat count - unat (n + chunk_of (count - n) bs pos) < unat count - unat n"
  using chunk_step [of bs n count pos] by simp

lemma chunk_left: "bs \<noteq> 0 \<Longrightarrow> n \<noteq> 0 \<Longrightarrow> unat (n - chunk_of n bs pos) < unat n"
  using chunk_of_bounds(1,3) [of bs n pos] by (simp add: unat_minus_no_wrap)

text \<open>\<^verbatim>\<open>ext2_inode_read_data\<close>: the loop ends with the number of bytes read, the bytes and the file system.\<close>

function read_data_loop :: "einode \<Rightarrow> u32 \<Rightarrow> u32 \<Rightarrow> u32 \<Rightarrow> u8 list \<Rightarrow> ext2_fs \<Rightarrow> (u32 \<times> u8 list \<times> ext2_fs) halting" where
  "read_data_loop ino count bytes_read curr_pos dst fs =
     (if bytes_read < count then do {
        let block_size = s_block_size (sb fs);
        ASSERT (block_size \<noteq> 0);
        let chunk_size = chunk_of (count - bytes_read) block_size curr_pos;
        (phys_block, fs) \<leftarrow> ext2_bmap ino (curr_pos div block_size) fs;
        chunk \<leftarrow> read_chunk phys_block (read_block phys_block fs) (curr_pos mod block_size) chunk_size;
        read_data_loop ino count (bytes_read + chunk_size) (curr_pos + chunk_size) (dst @ chunk) fs
      } else Some (bytes_read, dst, fs))"
  by pat_completeness auto
termination
  by (relation "measure (\<lambda>(ino, count, bytes_read, rest). unat count - unat bytes_read)")
    (auto simp: u32_less chunk_decrease)

declare read_data_loop.simps [simp del]

definition ext2_inode_read_data :: "einode \<Rightarrow> u32 \<Rightarrow> u32 \<Rightarrow> ext2_fs \<Rightarrow> (int \<times> u8 list \<times> ext2_fs) halting" where
  "ext2_inode_read_data ino offset count fs = do {
     let n = (if offset + count > i_size ino then i_size ino - offset else count);
     if n = 0 then Some (0, [], fs)
     else do {
       let (io_buf, fs) = kmalloc fs;
       if \<not> io_buf then Some (- ENOMEM, [], fs)
       else do {
         (bytes_read, dst, fs) \<leftarrow> read_data_loop ino n 0 offset [] fs;
         Some (sint bytes_read, dst, fs)
       }
     }
   }"

text \<open>\<^verbatim>\<open>ext2_file_read\<close> takes the length of a block from \<^verbatim>\<open>s_log_block_size\<close> and counts down the bytes that are left.\<close>

partial_function (option) file_read_loop :: "einode \<Rightarrow> u32 \<Rightarrow> u32 \<Rightarrow> u32 \<Rightarrow> open_file \<Rightarrow> u8 list \<Rightarrow> ext2_fs \<Rightarrow>
    (u32 \<times> u8 list \<times> open_file \<times> ext2_fs) halting" where
  "file_read_loop ino count bytes_read size_left file buf_dst fs =
     (if bytes_read < count then do {
        let block_size = push_bit (unat (s_log_block_size (sb fs))) EXT2_BLOCK_UNIT;
        ASSERT (block_size \<noteq> 0);
        let chunk_size = chunk_of size_left block_size (fd_pos file);
        (phys_block, fs) \<leftarrow> ext2_bmap ino (fd_pos file div block_size) fs;
        chunk \<leftarrow> read_chunk phys_block (read_index phys_block fs) (fd_pos file mod block_size) chunk_size;
        file_read_loop ino count (bytes_read + chunk_size) (size_left - chunk_size)
          (file\<lparr>fd_pos := fd_pos file + chunk_size\<rparr>) (buf_dst @ chunk) fs
      } else Some (bytes_read, buf_dst, file, fs))"

definition ext2_file_read :: "einode \<Rightarrow> open_file \<Rightarrow> u32 \<Rightarrow> ext2_fs \<Rightarrow> (int \<times> u8 list \<times> open_file \<times> ext2_fs) halting" where
  "ext2_file_read ino file count fs = do {
     let n = (if fd_pos file + count > i_size ino then i_size ino - fd_pos file else count);
     if n = 0 then Some (0, [], file, fs)
     else do {
       let (io_buf, fs) = kmalloc fs;
       if \<not> io_buf then Some (- ENOMEM, [], file, fs)
       else do {
         (bytes_read, buf, file, fs) \<leftarrow> file_read_loop ino n 0 n file [] fs;
         Some (sint bytes_read, buf, file, fs)
       }
     }
   }"

definition SEEK_SET :: int where "SEEK_SET = 1"
definition SEEK_CUR :: int where "SEEK_CUR = 2"
definition SEEK_END :: int where "SEEK_END = 3"

text \<open>The sums are of 32-bit integers and wrap around.\<close>

definition ext2_generic_lseek :: "einode \<Rightarrow> open_file \<Rightarrow> u32 \<Rightarrow> int \<Rightarrow> int \<times> open_file" where
  "ext2_generic_lseek ino pf offset whence =
     (if whence \<noteq> SEEK_SET \<and> whence \<noteq> SEEK_CUR \<and> whence \<noteq> SEEK_END then (- EINVAL, pf)
      else let new_pos = (if whence = SEEK_SET then offset
          else if whence = SEEK_CUR then fd_pos pf + offset else i_size ino + offset) in
        if sint new_pos < 0 then (- EINVAL, pf)
        else if i_type ino = FT_DIRECTORY \<and> new_pos > i_size ino then (- EINVAL, pf)
        else if i_type ino = FT_REGULAR \<and> new_pos > i_size ino then (- EINVAL, pf)
        else (sint new_pos, pf\<lparr>fd_pos := new_pos\<rparr>))"

text \<open>
  \<^verbatim>\<open>ext2_file_write\<close>. A full disk and a pointer that cannot be stored stop the machine. The buffer for a
  block keeps what it had when a block is overwritten as a whole; its first contents are arbitrary. The
  inode is at address \<open>a\<close>.
\<close>

definition block_for_write :: "u32 \<Rightarrow> u32 \<Rightarrow> u32 \<Rightarrow> u8 list \<Rightarrow> einode \<Rightarrow> ext2_fs \<Rightarrow> (u32 \<times> u8 list \<times> einode \<times> ext2_fs) halting" where
  "block_for_write phys_block offset_in_block chunk_size io_buf ino fs =
     (if phys_block = 0 then do {
        (phys_block, fs) \<leftarrow> ext2_resource_alloc 0 EXT2_BLOCK_BITMAP fs;
        ASSERT (phys_block \<noteq> - 1);
        (status, ino, fs) \<leftarrow> ext2_append_block_to_inode phys_block ino fs;
        ASSERT (\<not> status < 0);
        Some (phys_block, replicate (unat (s_block_size (sb fs))) 0, ino, fs)
      }
      else Some (phys_block,
        if \<not> (offset_in_block = 0 \<and> chunk_size = s_block_size (sb fs)) then read_block phys_block fs else io_buf, ino, fs))"

function file_write_loop :: "u32 \<Rightarrow> u32 \<Rightarrow> u8 list \<Rightarrow> u8 list \<Rightarrow> open_file \<Rightarrow> einode \<Rightarrow> ext2_fs \<Rightarrow>
    (u32 \<times> open_file \<times> einode \<times> ext2_fs) halting" where
  "file_write_loop size_left bytes_written src io_buf file ino fs =
     (if size_left > 0 then do {
        let block_size = s_block_size (sb fs);
        ASSERT (block_size \<noteq> 0);
        let offset_in_block = fd_pos file mod block_size;
        let chunk_size = chunk_of size_left block_size (fd_pos file);
        (phys_block, fs) \<leftarrow> ext2_bmap ino (fd_pos file div block_size) fs;
        (phys_block, io_buf, ino, fs) \<leftarrow> block_for_write phys_block offset_in_block chunk_size io_buf ino fs;
        chunk \<leftarrow> memcpy_from src 0 (unat chunk_size);
        io_buf \<leftarrow> memcpy_to io_buf (unat offset_in_block) chunk;
        fs \<leftarrow> write_block phys_block io_buf fs;
        let file = file\<lparr>fd_pos := fd_pos file + chunk_size\<rparr>;
        let ino = (if fd_pos file > i_size ino then ino\<lparr>i_size := fd_pos file\<rparr> else ino);
        file_write_loop (size_left - chunk_size) (bytes_written + chunk_size) (drop (unat chunk_size) src) io_buf file ino fs
      } else Some (bytes_written, file, ino, fs))"
  by pat_completeness auto
termination
  by (relation "measure (\<lambda>(size_left, rest). unat size_left)") (auto simp: chunk_left word_gt_0)

declare file_write_loop.simps [simp del]

definition ext2_file_write :: "addr \<Rightarrow> u8 list \<Rightarrow> einode \<Rightarrow> open_file \<Rightarrow> u8 list \<Rightarrow> u32 \<Rightarrow> ext2_fs \<Rightarrow>
    (int \<times> einode \<times> open_file \<times> ext2_fs) halting" where
  "ext2_file_write a fresh ino file buf count fs = do {
     ASSERT (fd_inode file = Some a);
     let (io_buf, fs) = kmalloc fs;
     ASSERT io_buf;
     (bytes_written, file, ino, fs) \<leftarrow> file_write_loop count 0 buf fresh file ino fs;
     (ino, fs) \<leftarrow> ext2_write_inode ino fs;
     fs \<leftarrow> ext2_sync_gdt fs;
     fs \<leftarrow> ext2_write_super fs;
     Some (sint bytes_written, ino, file, fs)
   }"

section \<open>The bytes of a file\<close>

lemma imap_block:
  assumes "ino_ok fs ino" "i < max_blocks fs" "imap fs ino i \<noteq> 0"
  shows "unat (imap fs ino i) \<in> ino_blocks fs ino" "usable fs (unat (imap fs ino i))"
proof -
  obtain k j where s: "slot (ppb fs) i = (k, j)"
    by fastforce
  note r = slot_range [OF assms(2) [unfolded max_blocks_def] s]
  have "unat (imap fs ino i) \<in> itb fs ino k"
    using lookup_in_tb [OF _ r(2), of "i_block ino ! k"] assms(3) s by (simp add: imap_def)
  then show "unat (imap fs ino i) \<in> ino_blocks fs ino"
    using r(1) by (auto simp: ino_blocks_def)
  then show "usable fs (unat (imap fs ino i))"
    using assms(1) by (simp add: ino_ok_def)
qed

lemma hole_ok_mapped: "imap fs ino i \<noteq> 0 \<Longrightarrow> hole_ok fs ino i"
  by (auto simp: hole_ok_def imap_def lvl_def lookup.simps(2) numeral_2_eq_2 split: prod.splits if_splits)

text \<open>Byte \<open>i\<close> of a file, 0 where no block is mapped, and all bytes up to the size.\<close>

definition fbyte :: "ext2_fs \<Rightarrow> einode \<Rightarrow> nat \<Rightarrow> u8" where
  "fbyte fs ino i = (let b = imap fs ino (i div bsz fs) in if b = 0 then 0 else blk fs (unat b) ! (i mod bsz fs))"

definition contents :: "ext2_fs \<Rightarrow> einode \<Rightarrow> u8 list" where
  "contents fs ino = map (fbyte fs ino) [0..<unat (i_size ino)]"

lemma lookup_events: "lookup (fs\<lparr>events := m\<rparr>) n r i = lookup fs n r i"
  by (induction n arbitrary: r i) (simp_all add: lookup.simps ent_def)

lemma fbyte_events [simp]: "fbyte (fs\<lparr>events := n\<rparr>) = fbyte fs"
  by (simp add: fbyte_def Let_def fun_eq_iff imap_def lookup_events)

lemma contents_events [simp]: "contents (fs\<lparr>events := n\<rparr>) ino = contents fs ino"
  by (simp add: contents_def)

lemma map_fbyte_chunk:
  assumes "0 < bsz fs" "pos mod bsz fs + n \<le> bsz fs"
  shows "map (fbyte fs ino) [pos..<pos + n] = (let b = imap fs ino (pos div bsz fs) in
    if b = 0 then replicate n 0 else take n (drop (pos mod bsz fs) (blk fs (unat b))))"
proof (rule nth_equalityI)
  fix i assume "i < length (map (fbyte fs ino) [pos..<pos + n])"
  then have i: "i < n"
    by simp
  have "pos + i = pos div bsz fs * bsz fs + (pos mod bsz fs + i)"
    by simp
  then have "(pos + i) div bsz fs = pos div bsz fs" "(pos + i) mod bsz fs = pos mod bsz fs + i"
    using i assms by (metis add.right_neutral div_less div_mult_self3 less_le_trans nat_add_left_cancel_less not_less0 gr_implies_not0,
        metis assms(2) i less_le_trans mod_less mod_mult_self3 nat_add_left_cancel_less)
  then show "map (fbyte fs ino) [pos..<pos + n] ! i = (let b = imap fs ino (pos div bsz fs) in
      if b = 0 then replicate n 0 else take n (drop (pos mod bsz fs) (blk fs (unat b)))) ! i"
    using i assms by (simp add: fbyte_def Let_def)
qed (use assms in \<open>simp add: Let_def\<close>)

section \<open>Reading\<close>

lemma div_of_nat_u32: "pos div s_block_size (sb fs) = of_nat (unat pos div bsz fs)"
  by (rule u32_eqI) (simp add: unat_div bsz_def unat_of_nat_small le_less_trans [OF div_le_dividend])

lemma read_chunk_spec:
  assumes "blocks_ok fs" "ino_ok fs ino" "unat pos div bsz fs < max_blocks fs" "n = chunk_of left (s_block_size (sb fs)) pos" "left \<noteq> 0"
    and "b = imap fs ino (unat pos div bsz fs)"
  shows "read_chunk b (read_block b fs) (pos mod s_block_size (sb fs)) n = Some (map (fbyte fs ino) [unat pos..<unat pos + unat n])"
proof -
  note bs = blocks_okD(4) [OF assms(1)]
  have s: "s_block_size (sb fs) \<noteq> 0" "0 < bsz fs"
    using bsz_cases [OF bs] by (auto simp: bsz_def)
  note c = chunk_of_bounds(4) [OF s(1) assms(5), of pos, folded assms(4)]
  have m: "unat (pos mod s_block_size (sb fs)) = unat pos mod bsz fs" "unat pos mod bsz fs + unat n \<le> bsz fs"
    using c by (simp_all add: unat_mod bsz_def)
  show ?thesis
  proof (cases "b = 0")
    case True
    then show ?thesis
      using map_fbyte_chunk [OF s(2) m(2), of ino] assms(6) by (simp add: read_chunk_def)
  next
    case False
    then have "vblk fs (unat b)"
      using imap_block(2) [OF assms(2,3)] assms(6) by (simp add: usable_def)
    then show ?thesis
      using map_fbyte_chunk [OF s(2) m(2), of ino] assms(6) False read_block_eq [OF bs] m
      by (simp add: read_chunk_def Let_def)
  qed
qed

text \<open>What the loops need of the blocks between two positions.\<close>

definition span_ok :: "ext2_fs \<Rightarrow> einode \<Rightarrow> nat \<Rightarrow> nat \<Rightarrow> bool" where
  "span_ok fs ino a b \<longleftrightarrow> b < 2 ^ 32 \<and> b \<le> max_blocks fs * bsz fs \<and>
     (\<forall>i. a div bsz fs \<le> i \<longrightarrow> i * bsz fs < b \<longrightarrow> hole_ok fs ino i)"

lemma span_okD:
  assumes "span_ok fs ino a b" "a < b" "0 < bsz fs"
  shows "a div bsz fs < max_blocks fs" "hole_ok fs ino (a div bsz fs)"
proof -
  have "a div bsz fs * bsz fs < b"
    using assms(2) by (simp add: le_less_trans [OF div_times_less_eq_dividend])
  then show "hole_ok fs ino (a div bsz fs)"
    using assms(1) by (simp add: span_ok_def)
  have "a < max_blocks fs * bsz fs"
    using assms(1,2) by (simp add: span_ok_def)
  then show "a div bsz fs < max_blocks fs"
    by (simp add: less_mult_imp_div_less)
qed

lemma span_ok_mono: "span_ok fs ino a b \<Longrightarrow> a \<le> a' \<Longrightarrow> span_ok fs ino a' b"
  by (auto simp: span_ok_def dest: div_le_mono [of a a' "bsz fs"])

lemma hole_ok_events [simp]: "hole_ok (fs\<lparr>events := n\<rparr>) ino i = hole_ok fs ino i"
  by (simp add: hole_ok_def ent_def)

lemma span_ok_events [simp]: "span_ok (fs\<lparr>events := n\<rparr>) ino = span_ok fs ino"
  by (simp add: span_ok_def fun_eq_iff)

lemma read_data_loop_spec:
  assumes "blocks_ok fs" "ino_ok fs ino" "unat br \<le> unat count" "span_ok fs ino (unat pos) (unat pos + (unat count - unat br))"
  shows "\<exists>n. read_data_loop ino count br pos dst fs =
    Some (count, dst @ map (fbyte fs ino) [unat pos..<unat pos + (unat count - unat br)], fs\<lparr>events := n\<rparr>)"
  using assms
proof (induction "unat count - unat br" arbitrary: br pos dst fs rule: less_induct)
  case less
  note bs = blocks_okD(4) [OF less.prems(1)]
  show ?case
  proof (cases "br < count")
    case False
    then have "br = count"
      using less.prems(3) by (simp add: u32_less u32_eqI)
    then show ?thesis
      by (auto simp: read_data_loop.simps intro!: exI [of _ "events fs"])
  next
    case True
    let ?bs = "s_block_size (sb fs)"
    define c where "c = chunk_of (count - br) ?bs pos"
    have s: "?bs \<noteq> 0" "0 < bsz fs"
      using bsz_cases [OF bs] by (auto simp: bsz_def)
    have lt: "unat br < unat count"
      using True by (simp add: u32_less)
    note c = chunk_step [OF s(1) lt, of pos, folded c_def]
    let ?i = "unat pos div bsz fs" and ?fs = "fs\<lparr>events := Suc (events fs)\<rparr>"
    note sp = span_okD [OF less.prems(4) _ s(2)]
    have i: "?i < max_blocks fs" "hole_ok fs ino ?i"
      using sp lt by auto
    have bm: "ext2_bmap ino (pos div ?bs) fs = Some (imap fs ino ?i, ?fs)"
      using ext2_bmap_spec [OF less.prems(1,2) i] by (simp add: div_of_nat_u32)
    have rc: "read_chunk (imap fs ino ?i) (read_block (imap fs ino ?i) ?fs) (pos mod ?bs) c =
        Some (map (fbyte fs ino) [unat pos..<unat pos + unat c])"
      using read_chunk_spec [of ?fs ino pos c "count - br" "imap fs ino ?i"] less.prems(1,2) i(1) lt
      by (auto simp: c_def)
    have p: "unat (pos + c) = unat pos + unat c"
      using less.prems(4) c(3) by (intro unat_plus_no_wrap) (auto simp: span_ok_def)
    have "\<exists>n. read_data_loop ino count (br + c) (pos + c) (dst @ map (fbyte fs ino) [unat pos..<unat pos + unat c]) ?fs =
        Some (count, (dst @ map (fbyte fs ino) [unat pos..<unat pos + unat c]) @
          map (fbyte ?fs ino) [unat (pos + c)..<unat (pos + c) + (unat count - unat (br + c))], ?fs\<lparr>events := n\<rparr>)"
      using less.prems c p by (intro less.hyps) (auto elim!: span_ok_mono)
    moreover have "[unat pos..<unat pos + unat c] @ [unat pos + unat c..<unat pos + (unat count - unat br)] =
        [unat pos..<unat pos + (unat count - unat br)]"
      using c(3) upt_add_eq_append [of "unat pos" "unat pos + unat c" "unat count - unat br - unat c"] by simp
    ultimately show ?thesis
      using True s(1) bm rc c p by (subst read_data_loop.simps) (auto simp: c_def map_append [symmetric] simp del: map_append)
  qed
qed

lemma ext2_bmap_fs: "ext2_bmap ino i fs = Some (b, fs') \<Longrightarrow> fs' = fs\<lparr>events := Suc (events fs)\<rparr>"
  by (auto simp: ext2_bmap_def kmalloc_def Let_def bind_Some_iff split: if_splits)

text \<open>
  The loop of \<^verbatim>\<open>ext2_file_read\<close> is the loop of \<^verbatim>\<open>ext2_inode_read_data\<close> with the position kept in the file, so
  it returns when that one does.
\<close>

lemma file_read_loop_eq:
  assumes "bs_ok (sb fs)" "unat br \<le> unat count"
  shows "file_read_loop ino count br (count - br) f dst fs = do {
    (n, dst, fs) \<leftarrow> read_data_loop ino count br (fd_pos f) dst fs;
    Some (n, dst, f\<lparr>fd_pos := fd_pos f + (n - br)\<rparr>, fs)
  }"
  using assms
proof (induction "unat count - unat br" arbitrary: br f dst fs rule: less_induct)
  case less
  show ?case
  proof (cases "br < count")
    case False
    then show ?thesis
      by (simp add: file_read_loop.simps [of ino count br] read_data_loop.simps [of ino count br])
  next
    case True
    define bs where "bs = s_block_size (sb fs)"
    have b: "push_bit (unat (s_log_block_size (sb fs))) EXT2_BLOCK_UNIT = bs" "bs \<noteq> 0"
      using less.prems(1) bsz_cases [OF less.prems(1)] by (auto simp: bs_ok_def bs_def bsz_def)
    have ri: "read_index p (fs\<lparr>events := m\<rparr>) = read_block p (fs\<lparr>events := m\<rparr>)" for p m
      using b(1) by (simp add: read_index_def read_block_def bs_def)
    define c where "c = chunk_of (count - br) bs (fd_pos f)"
    have lt: "unat br < unat count"
      using True by (simp add: u32_less)
    note c = chunk_step [OF b(2) lt, of "fd_pos f", folded c_def]
    have IH: "file_read_loop ino count (br + c) (count - br - c) (f\<lparr>fd_pos := fd_pos f + c\<rparr>) (dst @ x) (fs\<lparr>events := m\<rparr>) = do {
        (n, dst, fs) \<leftarrow> read_data_loop ino count (br + c) (fd_pos f + c) (dst @ x) (fs\<lparr>events := m\<rparr>);
        Some (n, dst, f\<lparr>fd_pos := fd_pos f + (n - br)\<rparr>, fs) }" for x m
      using less.hyps [of "br + c" "fs\<lparr>events := m\<rparr>" "f\<lparr>fd_pos := fd_pos f + c\<rparr>" "dst @ x"] less.prems(1) c lt
      by (simp add: algebra_simps)
    show ?thesis
    proof (cases "ext2_bmap ino (fd_pos f div bs) fs")
      case None
      then show ?thesis
        using True b by (subst file_read_loop.simps, subst read_data_loop.simps) (simp flip: bs_def)
    next
      case (Some r)
      then obtain p where r: "r = (p, fs\<lparr>events := Suc (events fs)\<rparr>)"
        using ext2_bmap_fs by (cases r) blast
      show ?thesis
        using True b Some r by (subst file_read_loop.simps, subst read_data_loop.simps) (simp add: ri IH flip: bs_def c_def)
    qed
  qed
qed

text \<open>A file without holes: exactly the blocks below its size are mapped, and the size is within reach of the trees.\<close>

definition file_ok :: "ext2_fs \<Rightarrow> einode \<Rightarrow> bool" where
  "file_ok fs ino \<longleftrightarrow> ino_ok fs ino \<and> unat (i_size ino) \<le> max_blocks fs * bsz fs \<and>
     (\<forall>i<max_blocks fs. imap fs ino i \<noteq> 0 \<longleftrightarrow> i * bsz fs < unat (i_size ino))"

lemma file_ok_span:
  assumes "file_ok fs ino" "b \<le> unat (i_size ino)" "0 < bsz fs"
  shows "span_ok fs ino a b"
  unfolding span_ok_def
proof (intro conjI allI impI)
  show "b < 2 ^ 32" "b \<le> max_blocks fs * bsz fs"
    using assms(1,2) le_less_trans [OF assms(2) unat_u32_bound] by (auto simp: file_ok_def)
  fix i assume i: "i * bsz fs < b"
  then have "i * bsz fs < max_blocks fs * bsz fs"
    using \<open>b \<le> max_blocks fs * bsz fs\<close> by (rule less_le_trans)
  then have "i < max_blocks fs"
    by simp
  then show "hole_ok fs ino i"
    using assms(1,2) i by (intro hole_ok_mapped) (simp add: file_ok_def)
qed

lemma read_size:
  fixes pos count size :: u32
  assumes "unat pos \<le> unat size" "unat pos + unat count < 2 ^ 32"
  shows "unat (if pos + count > size then size - pos else count) = min (unat count) (unat size - unat pos)"
proof -
  have "unat (pos + count) = unat pos + unat count"
    using assms(2) by (intro unat_plus_no_wrap) simp
  then show ?thesis
    using assms(1) by (auto simp: u32_less unat_minus_no_wrap)
qed

lemma take_drop_contents:
  "take n (drop p (contents fs ino)) = map (fbyte fs ino) [p..<p + min n (unat (i_size ino) - p)]"
  by (rule nth_equalityI) (auto simp: contents_def)

lemma read_loop_run:
  assumes "blocks_ok fs" "file_ok fs ino" "unat pos \<le> unat (i_size ino)" "unat pos + unat count < 2 ^ 32"
    and "m = (if pos + count > i_size ino then i_size ino - pos else count)" "k = min (unat count) (unat (i_size ino) - unat pos)"
  shows "unat m = k" "m = of_nat k" "\<exists>n. read_data_loop ino m 0 pos [] (fs\<lparr>events := Suc (events fs)\<rparr>) =
    Some (m, take (unat count) (drop (unat pos) (contents fs ino)), fs\<lparr>events := n\<rparr>)"
proof -
  show m: "unat m = k" "m = of_nat k"
    using read_size [OF assms(3,4)] by (simp_all add: assms(5,6) u32_eqI flip: read_size [OF assms(3,4)])
  let ?fs = "fs\<lparr>events := Suc (events fs)\<rparr>"
  have "0 < bsz fs" "unat pos + k \<le> unat (i_size ino)"
    using bsz_cases [OF blocks_okD(4) [OF assms(1)]] assms(3) by (auto simp: assms(6))
  then have "span_ok fs ino (unat pos) (unat pos + k)"
    by (intro file_ok_span [OF assms(2)])
  then show "\<exists>n. read_data_loop ino m 0 pos [] ?fs = Some (m, take (unat count) (drop (unat pos) (contents fs ino)), fs\<lparr>events := n\<rparr>)"
    using read_data_loop_spec [of ?fs ino 0 m pos "[]"] assms(1,2) m(1)
    by (auto simp: file_ok_def take_drop_contents assms(6))
qed

text \<open>
  A read hands out the bytes from the position on, as many as were asked for or as there are, and moves the
  position behind them; \<^verbatim>\<open>ext2_inode_read_data\<close> does the same for a position of its own.
\<close>

lemma ext2_inode_read_data_spec:
  assumes "blocks_ok fs" "file_ok fs ino" "unat pos \<le> unat (i_size ino)" "unat pos + unat count < 2 ^ 32"
    and "k = min (unat count) (unat (i_size ino) - unat pos)"
  shows "\<exists>n. ext2_inode_read_data ino pos count fs =
    Some (sint (of_nat k :: u32), take (unat count) (drop (unat pos) (contents fs ino)), fs\<lparr>events := n\<rparr>)"
proof -
  define m where "m = (if pos + count > i_size ino then i_size ino - pos else count)"
  note r = read_loop_run [OF assms(1-4) m_def assms(5)]
  show ?thesis
    using r blocks_okD(3) [OF assms(1)] assms(3,5)
    by (cases "m = 0") (auto simp: ext2_inode_read_data_def kmalloc_def Let_def m_def [symmetric] contents_def
        intro: exI [of _ "events fs"])
qed

lemma ext2_file_read_spec:
  assumes "blocks_ok fs" "file_ok fs ino" "unat (fd_pos f) \<le> unat (i_size ino)" "unat (fd_pos f) + unat count < 2 ^ 32"
    and "k = min (unat count) (unat (i_size ino) - unat (fd_pos f))"
  shows "\<exists>n. ext2_file_read ino f count fs = Some (sint (of_nat k :: u32), take (unat count) (drop (unat (fd_pos f)) (contents fs ino)),
    f\<lparr>fd_pos := fd_pos f + of_nat k\<rparr>, fs\<lparr>events := n\<rparr>)"
proof -
  define m where "m = (if fd_pos f + count > i_size ino then i_size ino - fd_pos f else count)"
  note r = read_loop_run [OF assms(1-4) m_def assms(5)]
  have "file_read_loop ino m 0 m f [] (fs\<lparr>events := Suc (events fs)\<rparr>) = do {
      (n, dst, fs) \<leftarrow> read_data_loop ino m 0 (fd_pos f) [] (fs\<lparr>events := Suc (events fs)\<rparr>);
      Some (n, dst, f\<lparr>fd_pos := fd_pos f + n\<rparr>, fs) }"
    using file_read_loop_eq [of "fs\<lparr>events := Suc (events fs)\<rparr>" 0 m ino f "[]"] blocks_okD(4) [OF assms(1)] by simp
  then show ?thesis
    using r blocks_okD(3) [OF assms(1)] assms(3,5)
    by (cases "m = 0") (auto simp: ext2_file_read_def kmalloc_def Let_def m_def [symmetric] contents_def
        intro: exI [of _ "events fs"])
qed

section \<open>Writing\<close>

text \<open>
  In the doubly indirect range \<^verbatim>\<open>ext2_bmap\<close> reads block 0 when a file grows by a new index block; the answer is
  right only when the first word of the boot block is 0.
\<close>

lemma next_hole_ok:
  assumes "\<forall>i<L. imap fs ino i \<noteq> 0" "ent fs 0 0 = 0" "0 < ppb fs"
  shows "hole_ok fs ino L"
proof -
  obtain k j where s: "slot (ppb fs) L = (k, j)"
    by fastforce
  show ?thesis
  proof (cases "k = 13")
    case True
    let ?p = "ppb fs" and ?r = "i_block ino ! 13"
    have L: "L = 12 + ?p + j" "j < ?p ^ 2"
      using s True by (auto simp: slot_def split: if_splits)
    have m: "?r \<noteq> 0 \<and> ent fs ?r (j' div ?p) \<noteq> 0" if "j' < j" for j'
    proof -
      have "slot ?p (12 + ?p + j') = (13, j')"
        using L(2) that by (simp add: slot_def)
      then have "lookup fs (Suc (Suc 0)) ?r j' \<noteq> 0"
        using assms(1) [rule_format, of "12 + ?p + j'"] L(1) that by (simp add: imap_def lvl_def numeral_2_eq_2)
      then show ?thesis
        by (auto simp: lookup.simps(2) split: if_splits)
    qed
    have "?r = 0 \<Longrightarrow> j = 0"
      using m [of 0] by auto
    moreover have "j mod ?p = 0" if "ent fs ?r (j div ?p) = 0"
    proof (rule ccontr)
      assume "j mod ?p \<noteq> 0"
      then have "j - j mod ?p < j"
        using mod_less_eq_dividend [of j ?p] by linarith
      moreover have "(j - j mod ?p) div ?p = j div ?p"
        using assms(3) by (simp add: minus_mod_eq_mult_div)
      ultimately have "j - j mod ?p < j" "(j - j mod ?p) div ?p = j div ?p"
        by simp_all
      then show False
        using m [of "j - j mod ?p"] that by simp
    qed
    ultimately show ?thesis
      using s True assms(2) by (auto simp: hole_ok_def)
  qed (simp add: hole_ok_def s)
qed

text \<open>The block a round of the loop writes to, allocated when it was missing, and the buffer it starts from.\<close>

definition got_block :: "nat \<Rightarrow> u32 \<Rightarrow> u8 list \<Rightarrow> nat set \<Rightarrow> einode \<Rightarrow> ext2_fs \<Rightarrow> einode \<Rightarrow> ext2_fs \<Rightarrow> bool" where
  "got_block L b buf N ino fs ino' fs' \<longleftrightarrow> grown N (ino_blocks fs ino - data_blocks fs ino) fs fs' \<and> card N \<le> 4 \<and>
     (imap fs ino L \<noteq> 0 \<longrightarrow> N = {}) \<and>
     ino_ok fs' ino' \<and> ino_blocks fs' ino' = ino_blocks fs ino \<union> N \<and> b \<noteq> 0 \<and> unat b \<in> data_blocks fs' ino' \<and>
     (\<forall>i<max_blocks fs. imap fs' ino' i = (if i = L then b else imap fs ino i)) \<and>
     (\<exists>bs n. ino' = ino\<lparr>i_block := bs, i_blocks := n\<rparr>) \<and> length buf = bsz fs"

lemma data_blocksI: "i < max_blocks fs \<Longrightarrow> imap fs ino i \<noteq> 0 \<Longrightarrow> unat (imap fs ino i) \<in> data_blocks fs ino"
  by (auto simp: data_blocks_def)

lemma block_for_write_old:
  assumes "blocks_ok fs" "ino_ok fs ino" "L < max_blocks fs" "imap fs ino L = b" "b \<noteq> 0" "length io_buf = bsz fs"
  shows "\<exists>buf. block_for_write b off c io_buf ino fs = Some (b, buf, ino, fs) \<and> got_block L b buf {} ino fs ino fs \<and>
    (off \<noteq> 0 \<or> c \<noteq> s_block_size (sb fs) \<longrightarrow> buf = blk fs (unat b))"
proof -
  have v: "vblk fs (unat b)"
    using imap_block(2) [OF assms(2,3)] assms(4,5) by (simp add: usable_def)
  have "grown {} X fs fs" for X
    using grown_refl [OF assms(1)] .
  moreover have "\<exists>bs n. ino = ino\<lparr>i_block := bs, i_blocks := n\<rparr>"
    by (rule exI [of _ "i_block ino"], rule exI [of _ "i_blocks ino"]) simp
  ultimately show ?thesis
    using assms data_blocksI [OF assms(3), of ino] read_block_eq [OF blocks_okD(4) [OF assms(1)] v]
    by (auto simp: block_for_write_def got_block_def)
qed

lemma block_for_write_new:
  assumes "blocks_ok fs" "ino_ok fs ino" "L < max_blocks fs" "imap fs ino L = 0" "L = unat (i_size ino) div bsz fs"
    and "5 \<le> card (free_blocks fs)"
  shows "\<exists>b N ino' fs'. block_for_write 0 off c io_buf ino fs = Some (b, replicate (bsz fs) 0, ino', fs') \<and>
    got_block L b (replicate (bsz fs) 0) N ino fs ino' fs'"
proof -
  have "free_blocks fs \<noteq> {}"
    using assms(6) by auto
  then obtain r f1 where r: "ext2_resource_alloc 0 EXT2_BLOCK_BITMAP fs = Some (of_nat r, f1)" "taken EXT2_BLOCK_BITMAP r fs f1"
    using ext2_resource_alloc_spec [of fs EXT2_BLOCK_BITMAP 0] blocks_okD(1,2,3) [OF assms(1)] geom_okD(3) [of fs]
    by (auto simp: less_imp_le)
  have rf: "r \<in> free_blocks fs"
    using r(2) by (simp add: taken_def)
  note w = free_block_word [OF assms(1) rf]
  have g1: "grown {r} {} fs f1"
    by (rule taken_grown [OF assms(1) r(2)])
  note gd1 = grownD [OF g1]
  have us: "usable fs c" if "c \<in> ino_blocks fs ino" for c
    using assms(2) that by (simp add: ino_ok_def)
  have dj: "(ino_blocks fs ino - data_blocks fs ino) \<inter> (bitmap_blks fs \<union> {r} \<union> {}) = {}" "r \<notin> ino_blocks fs ino"
    using us rf by (auto simp: usable_def)
  have u1: "\<forall>c\<in>ino_blocks fs ino. usable f1 c"
    using us grown_usable(1) [OF g1 assms(1)] by auto
  note fr = ino_frame [OF assms(2) gd1(4) dj(1) u1]
  have mb: "max_blocks f1 = max_blocks fs"
    using gd1(6) by (simp add: max_blocks_def)
  have "append_ready (unat (i_size ino) div bsz f1) (of_nat r) ino f1"
    using gd1(1,7) fr assms(3,4,5) mb w grown_usable(2) [OF g1 assms(1)] dj(2) by (simp add: append_ready_def)
  from ext2_append_block_to_inode_spec [OF this] obtain N st ino' fs'
    where a: "ext2_append_block_to_inode (of_nat r) ino f1 = Some (st, ino', fs')" "appended L (of_nat r) N st ino f1 ino' fs'"
    using assms(5) gd1(7) by auto
  have N: "grown N (ino_blocks f1 ino - data_blocks f1 ino) f1 fs'" "card N \<le> 3"
    using a(2) by (simp_all add: appended_def)
  note gd2 = grownD [OF N(1)]
  have st: "st = 0"
  proof (rule ccontr)
    assume "st \<noteq> 0"
    then have "free_blocks fs' = {}"
      using a(2) by (simp add: appended_def)
    then have "free_blocks fs \<subseteq> insert r N"
      using gd2(3) gd1(3) by auto
    then have "card (free_blocks fs) \<le> card (insert r N)"
      using gd2(9) by (intro card_mono) simp_all
    also have "\<dots> \<le> 4"
      using N(2) card_insert_le_m1 [of 4 N r] by simp
    finally show False
      using assms(6) by simp
  qed
  have e: "ino_ok fs' ino'" "ino_blocks fs' ino' = ino_blocks fs ino \<union> insert r N"
      "\<forall>i<max_blocks fs. imap fs' ino' i = (if i = L then of_nat r else imap fs ino i)"
      "\<exists>bs n. ino' = ino\<lparr>i_block := bs, i_blocks := n\<rparr>"
    using a(2) st fr w(1) mb by (auto simp: appended_def counted_def)
  have mb': "max_blocks fs' = max_blocks fs" "bsz fs' = bsz fs"
    using gd2(6,7) gd1(7) mb by (simp_all add: max_blocks_def)
  have "grown ({r} \<union> N) ({} \<union> (ino_blocks fs ino - data_blocks fs ino)) fs fs'"
    using grown_trans [OF g1 N(1)] fr by simp
  moreover have "card ({r} \<union> N) \<le> 4"
    using N(2) card_insert_le_m1 [of 4 N r] by simp
  moreover have "unat (of_nat r :: u32) \<in> data_blocks fs' ino'"
    using data_blocksI [of L fs' ino'] e(3) assms(3) mb' w by simp
  ultimately have "got_block L (of_nat r) (replicate (bsz fs) 0) (insert r N) ino fs ino' fs'"
    using e w(2) assms(4) by (simp add: got_block_def)
  moreover have "block_for_write 0 off c io_buf ino fs = Some (of_nat r, replicate (bsz fs) 0, ino', fs')"
    using r(1) a(1) st w(3) mb'(2) by (simp add: block_for_write_def bsz_def)
  ultimately show ?thesis
    by blast
qed

text \<open>Different blocks of a file are different blocks of the disk.\<close>

lemma lookup_inj:
  assumes "tree_ok fs n r" "i < ppb fs ^ n" "j < ppb fs ^ n" "lookup fs n r i = lookup fs n r j" "lookup fs n r i \<noteq> 0"
  shows "i = j"
  using assms
proof (induction n arbitrary: r i j)
  case (Suc n)
  have r: "r \<noteq> 0"
    using Suc.prems(5) by (auto simp: lookup.simps(2))
  have p: "i div ppb fs ^ n < ppb fs" "j div ppb fs ^ n < ppb fs" "i mod ppb fs ^ n < ppb fs ^ n" "j mod ppb fs ^ n < ppb fs ^ n"
    using Suc.prems(2,3) by (auto simp: less_mult_imp_div_less intro!: mod_less_divisor Nat.gr0I)
  note l = Suc.prems(4,5) [unfolded lookup_step [OF r]]
  have "i div ppb fs ^ n = j div ppb fs ^ n"
    using lookup_in_tb [OF l(2) p(3)] lookup_in_tb [OF _ p(4), of "ent fs r (j div ppb fs ^ n)"] l
      tree_child(4) [OF r p(1) Suc.prems(1) p(2)] by auto
  moreover have "i mod ppb fs ^ n = j mod ppb fs ^ n"
    using Suc.IH [OF tree_child(2) [OF r p(1) Suc.prems(1)] p(3,4)] l calculation by simp
  ultimately show ?case
    by (metis div_mult_mod_eq)
qed simp

lemma imap_inj:
  assumes "ino_ok fs ino" "i < max_blocks fs" "j < max_blocks fs" "imap fs ino i = imap fs ino j" "imap fs ino i \<noteq> 0"
  shows "i = j"
proof -
  obtain k a k' b where s: "slot (ppb fs) i = (k, a)" "slot (ppb fs) j = (k', b)"
    by fastforce
  note r = slot_range [OF assms(2) [unfolded max_blocks_def] s(1)] slot_range [OF assms(3) [unfolded max_blocks_def] s(2)]
  have l: "lookup fs (lvl k) (i_block ino ! k) a = lookup fs (lvl k') (i_block ino ! k') b"
      "lookup fs (lvl k) (i_block ino ! k) a \<noteq> 0"
    using assms(4,5) s by (simp_all add: imap_def)
  have "k = k'"
  proof (rule ccontr)
    assume "k \<noteq> k'"
    then have "itb fs ino k \<inter> itb fs ino k' = {}"
      using assms(1) r(1,3) by (simp add: ino_ok_def)
    then show False
      using lookup_in_tb [OF l(2) r(2)] lookup_in_tb [OF _ r(4), of "i_block ino ! k'"] l by auto
  qed
  then have "a = b"
    using lookup_inj [OF _ r(2), of "i_block ino ! k" b] assms(1) r l by (simp add: ino_ok_def)
  then show ?thesis
    using \<open>k = k'\<close> s file_slot_inj [of "ppb fs" i j] by simp
qed

lemma inode_data_cong:
  "i_block ino' = i_block ino \<Longrightarrow> imap fs ino' = imap fs ino \<and> ino_blocks fs ino' = ino_blocks fs ino \<and>
    data_blocks fs ino' = data_blocks fs ino \<and> ino_ok fs ino' = ino_ok fs ino \<and> fbyte fs ino' = fbyte fs ino"
  by (simp add: imap_def ino_blocks_def data_blocks_def ino_ok_def fbyte_def fun_eq_iff)

text \<open>The effect of writing \<open>data\<close> at \<open>pos\<close>, with the new blocks \<open>N\<close>.\<close>

definition wrote :: "nat set \<Rightarrow> nat \<Rightarrow> u8 list \<Rightarrow> einode \<Rightarrow> ext2_fs \<Rightarrow> einode \<Rightarrow> ext2_fs \<Rightarrow> bool" where
  "wrote N pos data ino fs ino' fs' \<longleftrightarrow> grown N (ino_blocks fs ino) fs fs' \<and> ino_blocks fs' ino' = ino_blocks fs ino \<union> N \<and>
     file_ok fs' ino' \<and> contents fs' ino' = overlay (contents fs ino) pos data \<and>
     unat (i_size ino') = max (unat (i_size ino)) (pos + length data) \<and>
     (\<exists>bs n s. ino' = ino\<lparr>i_block := bs, i_blocks := n, i_size := s\<rparr>)"

lemma block_reach:
  fixes bs :: nat
  assumes "0 < bs" "pos mod bs + n \<le> bs" "0 < n" "pos \<le> sz"
  shows "(i = pos div bs \<or> i * bs < sz) = (i * bs < max sz (pos + n))"
proof -
  let ?L = "pos div bs"
  have p: "pos = ?L * bs + pos mod bs"
    by simp
  have "i * bs < pos + n \<Longrightarrow> i \<le> ?L"
  proof -
    assume "i * bs < pos + n"
    moreover have "pos + n \<le> Suc ?L * bs"
      using p assms(2) unfolding mult_Suc by linarith
    ultimately have "i * bs < Suc ?L * bs"
      by (rule less_le_trans)
    then have "i < Suc ?L"
      by (simp only: mult_less_cancel2)
    then show "i \<le> ?L"
      by simp
  qed
  moreover have "i < ?L \<Longrightarrow> i * bs < sz"
  proof -
    assume "i < ?L"
    then have "i * bs < ?L * bs"
      using assms(1) by simp
    then show "i * bs < sz"
      using p assms(4) by linarith
  qed
  moreover have "?L * bs < pos + n"
    using p assms(3) by linarith
  ultimately show ?thesis
    by (auto simp: le_less less_max_iff_disj)
qed

lemma put_chunk_bytes:
  assumes "blocks_ok fs" "ino_ok fs ino" "got_block L b buf N ino fs ino1 f1" "L = pos div bsz fs" "L < max_blocks fs"
    and "pos mod bsz fs + length data \<le> bsz fs"
    and "\<forall>j<bsz fs. \<not> (pos mod bsz fs \<le> j \<and> j < pos mod bsz fs + length data) \<longrightarrow> buf ! j = fbyte fs ino (L * bsz fs + j)"
    and "f2 = put_blk (unat b) (overlay buf (pos mod bsz fs) data) f1" "i div bsz fs < max_blocks fs"
  shows "fbyte f2 ino1 i = (if pos \<le> i \<and> i < pos + length data then data ! (i - pos) else fbyte fs ino i)"
proof -
  have g: "grown N (ino_blocks fs ino - data_blocks fs ino) fs f1" "ino_ok f1 ino1" "b \<noteq> 0" "unat b \<in> data_blocks f1 ino1"
      "\<And>i. i < max_blocks fs \<Longrightarrow> imap f1 ino1 i = (if i = L then b else imap fs ino i)" "length buf = bsz fs"
    using assms(3) by (simp_all add: got_block_def)
  note gd = grownD [OF g(1)]
  have mb: "max_blocks f1 = max_blocks fs"
    using gd(6) by (simp add: max_blocks_def)
  have lb: "length (overlay buf (pos mod bsz fs) data) = bsz f1"
    using g(6) assms(6) gd(7) by simp
  have s2: "same_but {unat b} f1 f2"
    using same_but_put [OF lb] assms(8) by simp
  have us: "\<forall>c\<in>ino_blocks f1 ino1. usable f1 c" "unat b \<in> ino_blocks f1 ino1"
    using g(2) imap_block(1) [OF g(2), of L] assms(5) mb g(3,5) by (auto simp: ino_ok_def)
  then have "grown {} {unat b} f1 f2"
    using grown_put [OF gd(1) lb, of "unat b"] assms(8) by (auto simp: usable_def)
  then have u: "\<forall>c\<in>ino_blocks f1 ino1. usable f2 c"
    using us(1) grown_usable(1) gd(1) by blast
  have "(ino_blocks f1 ino1 - data_blocks f1 ino1) \<inter> {unat b} = {}"
    using g(4) by simp
  note fr = ino_frame [OF g(2) s2 this u]
  let ?k = "i div bsz fs"
  have bz: "0 < bsz fs"
    using bsz_cases [OF blocks_okD(4) [OF assms(1)]] by auto
  have im: "imap f2 ino1 ?k = (if ?k = L then b else imap fs ino ?k)" "bsz f2 = bsz fs"
    using fr(4) [of ?k] assms(9) mb g(5) gd(7) assms(8) by simp_all
  show ?thesis
  proof (cases "?k = L")
    case True
    have "i mod bsz fs < bsz fs" "i = L * bsz fs + i mod bsz fs" "pos = L * bsz fs + pos mod bsz fs"
      using bz True assms(4) by (simp, metis div_mult_mod_eq, simp)
    then have "(pos \<le> i \<and> i < pos + length data) = (pos mod bsz fs \<le> i mod bsz fs \<and> i mod bsz fs < pos mod bsz fs + length data)"
      "i - pos = i mod bsz fs - pos mod bsz fs" "fbyte fs ino (L * bsz fs + i mod bsz fs) = fbyte fs ino i" "i mod bsz fs < bsz fs"
      by (linarith, linarith, simp, simp)
    moreover have "blk f2 (unat b) = overlay buf (pos mod bsz fs) data"
      using blk_put_blk [OF lb, of "unat b" "unat b"] assms(8) by simp
    then have "fbyte f2 ino1 i = overlay buf (pos mod bsz fs) data ! (i mod bsz fs)"
      using im True g(3) by (simp add: fbyte_def)
    ultimately show ?thesis
      using g(6) assms(6,7) by (simp add: nth_overlay)
  next
    case False
    moreover have "i div bsz fs = L" if "pos \<le> i" "i < pos + length data"
    proof -
      have "i < L * bsz fs + bsz fs"
        using that(2) assms(6) div_mult_mod_eq [of pos "bsz fs"] unfolding assms(4) by linarith
      then have "i div bsz fs < Suc L"
        by (intro less_mult_imp_div_less) simp
      then show ?thesis
        using div_le_mono [OF that(1), of "bsz fs"] assms(4) by simp
    qed
    ultimately have "\<not> (pos \<le> i \<and> i < pos + length data)"
      by blast
    moreover have "blk f2 (unat (imap fs ino ?k)) = blk fs (unat (imap fs ino ?k))" if "imap fs ino ?k \<noteq> 0"
    proof -
      let ?b = "imap fs ino ?k"
      have "imap f1 ino1 ?k = ?b" "imap f1 ino1 L = b"
        using g(5) assms(5,9) False by simp_all
      then have "unat ?b \<noteq> unat b"
        using imap_inj [OF g(2), of ?k L] assms(5,9) False that mb by (auto dest: u32_eqI)
      then have "blk f2 (unat ?b) = blk f1 (unat ?b)"
        by (intro same_but_blk [OF s2]) simp
      moreover have "unat ?b \<notin> bitmap_blks fs \<union> N \<union> (ino_blocks fs ino - data_blocks fs ino)"
        using imap_block(2) [OF assms(2,9) that] gd(2) data_blocksI [OF assms(9) that] by (auto simp: usable_def)
      ultimately show ?thesis
        using same_but_blk [OF gd(4)] by simp
    qed
    ultimately show ?thesis
      using im False by (auto simp: fbyte_def Let_def)
  qed
qed

lemma put_chunk:
  assumes "blocks_ok fs" "file_ok fs ino" "got_block L b buf N ino fs ino1 f1" "L = pos div bsz fs" "L < max_blocks fs"
    and "pos mod bsz fs + length data \<le> bsz fs" "data \<noteq> []" "pos \<le> unat (i_size ino)"
    and "\<forall>j<bsz fs. \<not> (pos mod bsz fs \<le> j \<and> j < pos mod bsz fs + length data) \<longrightarrow> buf ! j = fbyte fs ino (L * bsz fs + j)"
    and "f2 = put_blk (unat b) (overlay buf (pos mod bsz fs) data) f1"
    and "ino2 = ino1\<lparr>i_size := s\<rparr>" "unat s = max (unat (i_size ino)) (pos + length data)"
  shows "wrote N pos data ino fs ino2 f2"
proof -
  have ok: "ino_ok fs ino" "unat (i_size ino) \<le> max_blocks fs * bsz fs"
      "\<And>i. i < max_blocks fs \<Longrightarrow> imap fs ino i \<noteq> 0 \<longleftrightarrow> i * bsz fs < unat (i_size ino)"
    using assms(2) by (simp_all add: file_ok_def)
  have g: "grown N (ino_blocks fs ino - data_blocks fs ino) fs f1" "ino_ok f1 ino1" "b \<noteq> 0" "unat b \<in> data_blocks f1 ino1"
      "\<And>i. i < max_blocks fs \<Longrightarrow> imap f1 ino1 i = (if i = L then b else imap fs ino i)" "length buf = bsz fs"
      "ino_blocks f1 ino1 = ino_blocks fs ino \<union> N" "\<exists>bs n. ino1 = ino\<lparr>i_block := bs, i_blocks := n\<rparr>"
    using assms(3) by (simp_all add: got_block_def)
  note gd = grownD [OF g(1)]
  have mb: "max_blocks f1 = max_blocks fs" "bsz f2 = bsz fs"
    using gd(6,7) assms(10) by (simp_all add: max_blocks_def)
  have lb: "length (overlay buf (pos mod bsz fs) data) = bsz f1"
    using g(6) assms(6) gd(7) by simp
  have us: "\<forall>c\<in>ino_blocks f1 ino1. usable f1 c" "unat b \<in> ino_blocks f1 ino1"
    using g(2) imap_block(1) [OF g(2), of L] assms(5) mb g(3,5) by (auto simp: ino_ok_def)
  then have g2: "grown {} {unat b} f1 f2"
    using grown_put [OF gd(1) lb, of "unat b"] assms(10) by (auto simp: usable_def)
  have u: "\<forall>c\<in>ino_blocks f1 ino1. usable f2 c"
    using us(1) grown_usable(1) [OF g2 gd(1)] by blast
  have X: "(ino_blocks f1 ino1 - data_blocks f1 ino1) \<inter> {unat b} = {}"
    using g(4) by simp
  have s2: "same_but {unat b} f1 f2"
    using same_but_put [OF lb] assms(10) by simp
  note fr = ino_frame [OF g(2) s2 X u]
  note ic = inode_data_cong [of ino2 ino1 f2]
  have bz: "0 < bsz fs"
    using bsz_cases [OF blocks_okD(4) [OF assms(1)]] by auto
  have mb2: "max_blocks f2 = max_blocks fs"
    using grownD(6) [OF g2] mb by (simp add: max_blocks_def)
  have pl: "pos + length data \<le> max_blocks fs * bsz fs"
  proof -
    have "pos + length data \<le> Suc L * bsz fs"
      using assms(4,6) div_mult_mod_eq [of pos "bsz fs"] unfolding assms(4) mult_Suc by linarith
    also have "\<dots> \<le> max_blocks fs * bsz fs"
      using assms(5) by (intro mult_le_mono1) simp
    finally show ?thesis .
  qed
  have size: "i_size ino2 = s" "i_block ino2 = i_block ino1"
    using assms(11) by simp_all
  have f: "file_ok f2 ino2"
    unfolding file_ok_def
  proof (intro conjI allI impI)
    show "ino_ok f2 ino2"
      using ic size fr(1) by simp
    show "unat (i_size ino2) \<le> max_blocks f2 * bsz f2"
      using pl ok(2) size assms(12) mb2 mb(2) by simp
    fix i assume "i < max_blocks f2"
    then have "imap f2 ino2 i = (if i = L then b else imap fs ino i)" "i < max_blocks fs"
      using ic size fr(4) [of i] g(5) mb mb2 by simp_all
    then show "(imap f2 ino2 i \<noteq> 0) = (i * bsz f2 < unat (i_size ino2))"
      using block_reach [OF bz assms(6) _ assms(8), of i] assms(7) g(3) ok(3) [of i] size(1) assms(4,12) mb(2) by auto
  qed
  have c: "contents f2 ino2 = overlay (contents fs ino) pos data"
  proof (rule nth_equalityI)
    show "length (contents f2 ino2) = length (overlay (contents fs ino) pos data)"
      using assms(8,12) size by (auto simp: contents_def overlay_def)
    fix i assume "i < length (contents f2 ino2)"
    then have i: "i < max (unat (i_size ino)) (pos + length data)"
      using assms(12) size by (simp add: contents_def)
    then have "i < max_blocks fs * bsz fs"
      using pl ok(2) by simp
    then have k: "i div bsz fs < max_blocks fs"
      by (rule less_mult_imp_div_less)
    have "contents f2 ino2 ! i = fbyte f2 ino1 i"
      using i assms(12) size ic by (simp add: contents_def)
    also have "\<dots> = (if pos \<le> i \<and> i < pos + length data then data ! (i - pos) else fbyte fs ino i)"
      by (rule put_chunk_bytes [OF assms(1) ok(1) assms(3,4,5,6,9,10) k])
    also have "\<dots> = overlay (contents fs ino) pos data ! i"
      using i assms(8) by (auto simp: overlay_def contents_def nth_append)
    finally show "contents f2 ino2 ! i = overlay (contents fs ino) pos data ! i" .
  qed
  have "grown (N \<union> {}) ((ino_blocks fs ino - data_blocks fs ino) \<union> {unat b}) fs f2"
    by (rule grown_trans [OF g(1) g2])
  then have "grown N (ino_blocks fs ino) fs f2"
    using us(2) g(7) by (rule_tac grown_mono [of _ "(ino_blocks fs ino - data_blocks fs ino) \<union> {unat b}"]) auto
  moreover have "ino_blocks f2 ino2 = ino_blocks fs ino \<union> N"
    using ic size fr(2) g(7) by simp
  moreover have "\<exists>bs n s. ino2 = ino\<lparr>i_block := bs, i_blocks := n, i_size := s\<rparr>"
    using g(8) assms(11) by auto
  ultimately show ?thesis
    using f c size(1) assms(12) by (simp add: wrote_def)
qed

definition nblocks :: "ext2_fs \<Rightarrow> nat \<Rightarrow> nat" where
  "nblocks fs n = (n + bsz fs - 1) div bsz fs"

lemma nblocks_eq: "0 < bsz fs \<Longrightarrow> nblocks fs n = n div bsz fs + (if n mod bsz fs = 0 then 0 else 1)"
proof -
  assume b: "0 < bsz fs"
  show ?thesis
  proof (cases "n mod bsz fs = 0")
    case True
    then obtain q where "n = q * bsz fs"
      by (metis mod_0_imp_dvd dvdE mult.commute)
    moreover from this have "n + bsz fs - 1 = bsz fs - 1 + q * bsz fs"
      using b by simp
    then have "nblocks fs n = q"
      unfolding nblocks_def using b by (simp only: div_mult_self1) simp
    ultimately show ?thesis
      using b by simp
  next
    case False
    have "n + bsz fs - 1 = n mod bsz fs - 1 + (n div bsz fs + 1) * bsz fs"
      using False div_mult_mod_eq [of n "bsz fs"] by (simp add: add_mult_distrib)
    moreover have "n mod bsz fs - 1 < bsz fs"
      using b mod_less_divisor [of "bsz fs" n] by linarith
    ultimately have "nblocks fs n = n div bsz fs + 1"
      unfolding nblocks_def using b by (simp only: div_mult_self1) simp
    then show ?thesis
      using False by simp
  qed
qed

lemma nblocks_mono: "m \<le> n \<Longrightarrow> nblocks fs m \<le> nblocks fs n"
  by (simp add: nblocks_def div_le_mono)

lemma tb_nonzero: "0 \<notin> tb fs n r"
  by (induction n arbitrary: r) (auto simp: tb.simps(2) unat_eq_0)

lemma ino_blocks_nonzero: "0 \<notin> ino_blocks fs ino"
  by (simp add: ino_blocks_def tb_nonzero)

lemma got_block_events: "got_block L b buf N ino (fs\<lparr>events := n\<rparr>) ino' fs' = got_block L b buf N ino fs ino' fs'"
proof (cases "L < max_blocks fs")
  case True
  then show ?thesis
    by (simp add: got_block_def)
next
  case False
  then show ?thesis
    by (simp add: got_block_def imap_def lookup_events)
qed

lemma write_round:
  assumes "blocks_ok fs" "file_ok fs ino" "ent fs 0 0 = 0" "unat pos \<le> unat (i_size ino)" "left \<noteq> 0"
    and "unat pos + unat left \<le> max_blocks fs * bsz fs" "length io_buf = bsz fs"
    and "5 * (nblocks fs (unat pos + unat left) - nblocks fs (unat (i_size ino))) \<le> card (free_blocks fs)"
    and "L = unat pos div bsz fs" "c = chunk_of left (s_block_size (sb fs)) pos"
  shows "\<exists>b buf N ino1 f1. ext2_bmap ino (pos div s_block_size (sb fs)) fs = Some (imap fs ino L, fs\<lparr>events := Suc (events fs)\<rparr>) \<and>
    block_for_write (imap fs ino L) (pos mod s_block_size (sb fs)) c io_buf ino (fs\<lparr>events := Suc (events fs)\<rparr>) = Some (b, buf, ino1, f1) \<and>
    got_block L b buf N ino fs ino1 f1 \<and>
    (\<forall>j<bsz fs. \<not> (unat pos mod bsz fs \<le> j \<and> j < unat pos mod bsz fs + unat c) \<longrightarrow> buf ! j = fbyte fs ino (L * bsz fs + j)) \<and>
    (N \<noteq> {} \<longrightarrow> unat (i_size ino) = unat pos \<and> unat pos mod bsz fs = 0)"
proof -
  let ?fs = "fs\<lparr>events := Suc (events fs)\<rparr>"
  have bs: "s_block_size (sb fs) \<noteq> 0" "0 < bsz fs"
    using bsz_cases [OF blocks_okD(4) [OF assms(1)]] by (auto simp: bsz_def)
  have ok: "ino_ok fs ino" "\<And>i. i < max_blocks fs \<Longrightarrow> imap fs ino i \<noteq> 0 \<longleftrightarrow> i * bsz fs < unat (i_size ino)"
    using assms(2) by (simp_all add: file_ok_def)
  have "unat pos < max_blocks fs * bsz fs"
    using assms(5,6) unat_gt_0 [of left] by linarith
  then have L: "L < max_blocks fs"
    by (simp add: assms(9) less_mult_imp_div_less)
  have p: "unat pos = L * bsz fs + unat pos mod bsz fs"
    by (simp add: assms(9))
  have below: "imap fs ino i \<noteq> 0" if "i < L" for i
  proof -
    have "i * bsz fs < L * bsz fs"
      using that bs(2) by simp
    then show ?thesis
      using ok(2) [of i] that L p assms(4) by linarith
  qed
  have "hole_ok fs ino L"
    using next_hole_ok [of L fs ino] below assms(3) ppb_small [OF blocks_okD(4) [OF assms(1)]] by auto
  then have bm: "ext2_bmap ino (pos div s_block_size (sb fs)) fs = Some (imap fs ino L, ?fs)"
    using ext2_bmap_spec [OF assms(1) ok(1) L] by (simp add: div_of_nat_u32 assms(9))
  show ?thesis
  proof (cases "imap fs ino L = 0")
    case True
    then have e: "unat (i_size ino) = unat pos" "unat pos mod bsz fs = 0"
      using ok(2) [OF L] p assms(4) by linarith+
    then have "nblocks fs (unat (i_size ino)) = L"
      using nblocks_eq [OF bs(2)] assms(9) by simp
    moreover have "Suc L \<le> nblocks fs (unat pos + unat left)"
    proof -
      have "Suc L = nblocks fs (unat pos + 1)"
        using bs(2) assms(9) div_add_self2 [of "bsz fs" "unat pos"] by (simp add: nblocks_def)
      also have "\<dots> \<le> nblocks fs (unat pos + unat left)"
        using assms(5) unat_gt_0 [of left] by (intro nblocks_mono) linarith
      finally show ?thesis .
    qed
    ultimately have "5 \<le> card (free_blocks fs)"
      using assms(8) by linarith
    moreover have "L = unat (i_size ino) div bsz ?fs"
      using e(1) assms(9) by simp
    ultimately obtain b N ino1 f1 where "block_for_write 0 (pos mod s_block_size (sb fs)) c io_buf ino ?fs = Some (b, replicate (bsz fs) 0, ino1, f1)"
        "got_block L b (replicate (bsz fs) 0) N ino fs ino1 f1"
      using block_for_write_new [of ?fs ino L "pos mod s_block_size (sb fs)" c io_buf] assms(1) ok(1) L True
      by (auto simp: got_block_events)
    moreover have "fbyte fs ino (L * bsz fs + j) = 0" if "j < bsz fs" for j
      using True that bs(2) by (simp add: fbyte_def)
    ultimately show ?thesis
      using bm True e by auto
  next
    case False
    have "blocks_ok ?fs" "ino_ok ?fs ino" "L < max_blocks ?fs" "imap ?fs ino L = imap fs ino L" "imap fs ino L \<noteq> 0"
        "length io_buf = bsz ?fs"
      using assms(1,7) ok(1) L False by simp_all
    from block_for_write_old [OF this] obtain buf
      where "block_for_write (imap fs ino L) (pos mod s_block_size (sb fs)) c io_buf ino ?fs = Some (imap fs ino L, buf, ino, ?fs)"
        "got_block L (imap fs ino L) buf {} ino ?fs ino ?fs"
        "pos mod s_block_size (sb fs) \<noteq> 0 \<or> c \<noteq> s_block_size (sb ?fs) \<longrightarrow> buf = blk ?fs (unat (imap fs ino L))"
      by blast
    then have b: "block_for_write (imap fs ino L) (pos mod s_block_size (sb fs)) c io_buf ino ?fs = Some (imap fs ino L, buf, ino, ?fs)"
        "got_block L (imap fs ino L) buf {} ino fs ino ?fs"
        "pos mod s_block_size (sb fs) \<noteq> 0 \<or> c \<noteq> s_block_size (sb fs) \<longrightarrow> buf = blk fs (unat (imap fs ino L))"
      by (simp_all add: got_block_events)
    have "buf ! j = fbyte fs ino (L * bsz fs + j)"
      if "j < bsz fs" "\<not> (unat pos mod bsz fs \<le> j \<and> j < unat pos mod bsz fs + unat c)" for j
    proof -
      have "pos mod s_block_size (sb fs) \<noteq> 0 \<or> c \<noteq> s_block_size (sb fs)"
      proof (rule ccontr)
        assume "\<not> ?thesis"
        then have "unat pos mod bsz fs = 0" "unat c = bsz fs"
          by (auto simp: bsz_def simp flip: unat_mod)
        then show False
          using that by simp
      qed
      then show ?thesis
        using b(3) False that(1) bs(2) by (simp add: fbyte_def)
    qed
    then show ?thesis
      using bm b by blast
  qed
qed

lemma wrote_refl:
  assumes "blocks_ok fs" "file_ok fs ino" "pos \<le> unat (i_size ino)"
  shows "wrote {} pos [] ino fs ino fs"
proof -
  have "\<exists>bs n s. ino = ino\<lparr>i_block := bs, i_blocks := n, i_size := s\<rparr>"
    by (rule exI [of _ "i_block ino"], rule exI [of _ "i_blocks ino"], rule exI [of _ "i_size ino"]) simp
  then show ?thesis
    using assms grown_refl [OF assms(1)] by (simp add: wrote_def overlay_def)
qed

lemma wrote_trans:
  assumes "wrote N pos d ino fs ino1 fs1" "wrote N' (pos + length d) d' ino1 fs1 ino2 fs2" "pos \<le> unat (i_size ino)"
  shows "wrote (N \<union> N') pos (d @ d') ino fs ino2 fs2"
proof -
  have w: "grown N (ino_blocks fs ino) fs fs1" "ino_blocks fs1 ino1 = ino_blocks fs ino \<union> N"
      "grown N' (ino_blocks fs1 ino1) fs1 fs2" "ino_blocks fs2 ino2 = ino_blocks fs1 ino1 \<union> N'"
    using assms(1,2) by (simp_all add: wrote_def)
  have "ino_blocks fs ino \<union> ino_blocks fs1 ino1 \<subseteq> ino_blocks fs ino \<union> (N \<union> N')"
    using w(2) by auto
  with grown_trans [OF w(1,3)] have "grown (N \<union> N') (ino_blocks fs ino) fs fs2"
    by (rule grown_mono)
  moreover have "overlay (overlay (contents fs ino) pos d) (pos + length d) d' = overlay (contents fs ino) pos (d @ d')"
    using assms(3) by (simp add: overlay_def contents_def min_def add_ac)
  moreover have "\<exists>bs n s. ino2 = ino\<lparr>i_block := bs, i_blocks := n, i_size := s\<rparr>"
  proof -
    obtain a b c a' b' c' where "ino1 = ino\<lparr>i_block := a, i_blocks := b, i_size := c\<rparr>"
        "ino2 = ino1\<lparr>i_block := a', i_blocks := b', i_size := c'\<rparr>"
      using assms(1,2) unfolding wrote_def by blast
    then have "ino2 = ino\<lparr>i_block := a', i_blocks := b', i_size := c'\<rparr>"
      by simp
    then show ?thesis
      by blast
  qed
  ultimately show ?thesis
    using assms(1,2) w by (simp add: wrote_def Un_assoc)
qed

lemma wrote_boot:
  assumes "wrote N pos d ino fs ino' fs'" "blocks_ok fs" "0 \<notin> bitmap_blks fs"
  shows "ent fs' 0 j = ent fs 0 j" "0 \<notin> bitmap_blks fs'" "blocks_ok fs'" "bsz fs' = bsz fs" "max_blocks fs' = max_blocks fs"
    "nblocks fs' = nblocks fs" "s_block_size (sb fs') = s_block_size (sb fs)"
proof -
  have g: "grown N (ino_blocks fs ino) fs fs'"
    using assms(1) by (simp add: wrote_def)
  note gd = grownD [OF g]
  have "0 \<notin> bitmap_blks fs \<union> N \<union> ino_blocks fs ino"
    using assms(3) gd(2) blocks_okD(6) [OF assms(2)] ino_blocks_nonzero [of fs ino] by auto
  then show "ent fs' 0 j = ent fs 0 j"
    using same_but_blk [OF gd(4)] by (simp add: ent_def)
  show "0 \<notin> bitmap_blks fs'" "blocks_ok fs'" "bsz fs' = bsz fs" "max_blocks fs' = max_blocks fs" "nblocks fs' = nblocks fs"
    using assms(3) gd by (simp_all add: max_blocks_def nblocks_def fun_eq_iff)
  then show "s_block_size (sb fs') = s_block_size (sb fs)"
    by (simp add: bsz_def u32_eqI)
qed

text \<open>The loop: with five free blocks for every block the file grows by, all bytes are written.\<close>

lemma file_write_loop_spec:
  assumes "blocks_ok fs" "file_ok fs ino" "ent fs 0 0 = 0" "0 \<notin> bitmap_blks fs" "unat (fd_pos f) \<le> unat (i_size ino)"
    and "unat (fd_pos f) + unat left \<le> max_blocks fs * bsz fs" "unat (fd_pos f) + unat left < 2 ^ 32"
    and "unat left \<le> length src" "length io_buf = bsz fs"
    and "5 * (nblocks fs (unat (fd_pos f) + unat left) - nblocks fs (unat (i_size ino))) \<le> card (free_blocks fs)"
  shows "\<exists>N ino' fs'. file_write_loop left bw src io_buf f ino fs = Some (bw + left, f\<lparr>fd_pos := fd_pos f + left\<rparr>, ino', fs') \<and>
    wrote N (unat (fd_pos f)) (take (unat left) src) ino fs ino' fs'"
  using assms
proof (induction "unat left" arbitrary: left bw src io_buf f ino fs rule: less_induct)
  case less
  show ?case
  proof (cases "left = 0")
    case True
    then show ?thesis
      using wrote_refl [OF less.prems(1,2,5)] by (auto simp: file_write_loop.simps)
  next
    case False
    let ?pos = "fd_pos f" and ?fs = "fs\<lparr>events := Suc (events fs)\<rparr>" and ?bs = "s_block_size (sb fs)"
    define L where "L = unat ?pos div bsz fs"
    define c where "c = chunk_of left ?bs ?pos"
    have bs: "?bs \<noteq> 0" "0 < bsz fs"
      using bsz_cases [OF blocks_okD(4) [OF less.prems(1)]] by (auto simp: bsz_def)
    note cb = chunk_of_bounds [OF bs(1) False, of ?pos, folded c_def]
    obtain b buf N ino1 f1 where r: "ext2_bmap ino (?pos div ?bs) fs = Some (imap fs ino L, ?fs)"
        "block_for_write (imap fs ino L) (?pos mod ?bs) c io_buf ino ?fs = Some (b, buf, ino1, f1)"
        "got_block L b buf N ino fs ino1 f1"
        "\<forall>j<bsz fs. \<not> (unat ?pos mod bsz fs \<le> j \<and> j < unat ?pos mod bsz fs + unat c) \<longrightarrow> buf ! j = fbyte fs ino (L * bsz fs + j)"
        "N \<noteq> {} \<longrightarrow> unat (i_size ino) = unat ?pos \<and> unat ?pos mod bsz fs = 0"
      using write_round [OF less.prems(1,2,3,5) False less.prems(6,9,10) L_def c_def] by (elim exE conjE) (rule that)
    have g: "length buf = bsz fs" "grown N (ino_blocks fs ino - data_blocks fs ino) fs f1" "unat b \<in> data_blocks f1 ino1"
        "ino_ok f1 ino1" "i_size ino1 = i_size ino" "card N \<le> 4"
      using r(3) by (auto simp: got_block_def)
    note gd = grownD [OF g(2)]
    define data where "data = take (unat c) src"
    have data: "length data = unat c" "data \<noteq> []"
      using cb(1,3) less.prems(8) by (auto simp: data_def)
    have m: "unat (?pos mod ?bs) = unat ?pos mod bsz fs" "unat ?pos mod bsz fs + length data \<le> bsz fs"
      using cb(4) data(1) by (simp_all add: unat_mod bsz_def)
    define f2 where "f2 = put_blk (unat b) (overlay buf (unat ?pos mod bsz fs) data) f1"
    have "unat b \<in> ino_blocks f1 ino1"
      using g(3,4) imap_block(1) [OF g(4)] by (auto simp: data_blocks_def)
    then have wr: "write_block b (overlay buf (unat ?pos mod bsz fs) data) f1 = Some f2"
      using g(1,4) gd(7) m(2) blocks_okD(4) [OF gd(1)] by (auto simp: f2_def ino_ok_def usable_def intro!: write_block_eq)
    have pc: "unat (?pos + c) = unat ?pos + unat c"
      using less.prems(7) cb(3) by (intro unat_plus_no_wrap) simp
    define s where "s = (if ?pos + c > i_size ino then ?pos + c else i_size ino)"
    have s: "unat s = max (unat (i_size ino)) (unat ?pos + length data)"
      using pc data(1) by (simp add: s_def u32_less max_def)
    let ?ino = "ino1\<lparr>i_size := s\<rparr>" and ?f = "f\<lparr>fd_pos := ?pos + c\<rparr>"
    have Lm: "L < max_blocks fs"
    proof -
      have "unat ?pos < max_blocks fs * bsz fs"
        using less.prems(6) False unat_gt_0 [of left] by linarith
      then show ?thesis
        by (simp add: L_def less_mult_imp_div_less)
    qed
    have w: "wrote N (unat ?pos) data ino fs ?ino f2"
      using r(4) data(1) by (intro put_chunk [OF less.prems(1,2) r(3) L_def Lm m(2) data(2) less.prems(5) _ f2_def refl s]) simp
    note wb = wrote_boot [OF w less.prems(1,4)]
    have left: "unat (left - c) = unat left - unat c"
      using cb(3) by (rule unat_minus_no_wrap)
    have free: "5 * (nblocks f2 (unat (?pos + c) + unat (left - c)) - nblocks f2 (unat (i_size ?ino))) \<le> card (free_blocks f2)"
    proof -
      have N: "N \<subseteq> free_blocks fs" "free_blocks f2 = free_blocks fs - N" "finite N"
        using w grownD(2,3,9) [of N "ino_blocks fs ino" fs f2] by (simp_all add: wrote_def)
      then have cf: "card (free_blocks f2) = card (free_blocks fs) - card N"
        by (simp add: card_Diff_subset)
      have step: "nblocks fs (unat (i_size ino)) + (if N = {} then 0 else 1) \<le> nblocks fs (unat s)"
      proof (cases "N = {}")
        case False
        then have e: "unat (i_size ino) = unat ?pos" "unat ?pos mod bsz fs = 0"
          using r(5) by simp_all
        have "nblocks fs (unat (i_size ino)) + 1 = nblocks fs (unat ?pos + 1)"
          using e bs(2) div_add_self2 [of "bsz fs" "unat ?pos"] nblocks_eq [OF bs(2)] by (simp add: nblocks_def)
        also have "\<dots> \<le> nblocks fs (unat s)"
          using s cb(1) data(1) by (intro nblocks_mono) simp
        finally show ?thesis
          using False by simp
      qed (use s in \<open>auto intro: nblocks_mono\<close>)
      have "unat (?pos + c) + unat (left - c) = unat ?pos + unat left"
        using pc left cb(3) by simp
      then show ?thesis
        using less.prems(10) step g(6) wb(6) cf by (cases "N = {}") simp_all
    qed
    have "unat (left - c) < unat left" "file_ok f2 ?ino"
      using left cb(1,3) w by (simp_all add: wrote_def)
    then obtain N' ino' fs' where IH: "file_write_loop (left - c) (bw + c) (drop (unat c) src) (overlay buf (unat ?pos mod bsz fs) data) ?f ?ino f2 =
          Some (bw + c + (left - c), ?f\<lparr>fd_pos := fd_pos ?f + (left - c)\<rparr>, ino', fs')"
        "wrote N' (unat (fd_pos ?f)) (take (unat (left - c)) (drop (unat c) src)) ?ino f2 ino' fs'"
      using less.hyps [of "left - c" f2 ?ino ?f "drop (unat c) src" "overlay buf (unat ?pos mod bsz fs) data" "bw + c"]
        wb less.prems(3,6,7) diff_le_mono [OF less.prems(8), of "unat c"] pc left s data cb(3) free g(1) m(2) by auto
    have "wrote (N \<union> N') (unat ?pos) (take (unat left) src) ino fs ino' fs'"
      using wrote_trans [OF w _ less.prems(5), of N' "take (unat (left - c)) (drop (unat c) src)"] IH(2) pc data(1) left cb(3)
      by (simp add: data_def take_add [symmetric])
    moreover have si: "(if i_size ino1 < ?pos + c then ino1\<lparr>i_size := ?pos + c\<rparr> else ino1) = ?ino"
      using g(5) by (simp add: s_def flip: g(5))
    have "file_write_loop left bw src io_buf f ino fs = Some (bw + left, f\<lparr>fd_pos := ?pos + left\<rparr>, ino', fs')"
      using False bs(1) r(1,2) IH(1) wr m g(1) less.prems(8) cb(3)
      by (subst file_write_loop.simps) (simp add: word_gt_0 Let_def data_def si flip: c_def split del: if_split cong: if_cong)
    ultimately show ?thesis
      by blast
  qed
qed

text \<open>A file of the disk: no holes, its blocks apart from the metadata, and its inode in a table.\<close>

definition inode_ok :: "ext2_fs \<Rightarrow> einode \<Rightarrow> bool" where
  "inode_ok fs ino \<longleftrightarrow> file_ok fs ino \<and> ino_blocks fs ino \<inter> sys_blks fs = {} \<and> inode_no_ok fs (unat (i_no ino))"

text \<open>A file none of whose blocks is written keeps its bytes.\<close>

lemma file_frame:
  assumes "file_ok fs x" "grown N X fs fs'" "blocks_ok fs" "ino_blocks fs x \<inter> X = {}"
  shows "file_ok fs' x" "contents fs' x = contents fs x" "ino_blocks fs' x = ino_blocks fs x" "data_blocks fs' x = data_blocks fs x"
    "i < max_blocks fs \<Longrightarrow> imap fs' x i = imap fs x i"
proof -
  have ok: "ino_ok fs x" "unat (i_size x) \<le> max_blocks fs * bsz fs"
    using assms(1) by (simp_all add: file_ok_def)
  note gd = grownD [OF assms(2)]
  have us: "usable fs b" if "b \<in> ino_blocks fs x" for b
    using ok(1) that by (simp add: ino_ok_def)
  have out: "ino_blocks fs x \<inter> (bitmap_blks fs \<union> N \<union> X) = {}"
    using us gd(2) assms(4) by (auto simp: usable_def)
  have u: "\<forall>b\<in>ino_blocks fs x. usable fs' b"
    using us grown_usable(1) [OF assms(2,3)] by blast
  have o: "(ino_blocks fs x - data_blocks fs x) \<inter> (bitmap_blks fs \<union> N \<union> X) = {}"
    using out by blast
  note fr = ino_frame [OF ok(1) gd(4) o u]
  show "ino_blocks fs' x = ino_blocks fs x" "data_blocks fs' x = data_blocks fs x"
    "i < max_blocks fs \<Longrightarrow> imap fs' x i = imap fs x i"
    using fr by simp_all
  have mb: "max_blocks fs' = max_blocks fs"
    using gd(6) by (simp add: max_blocks_def)
  show "file_ok fs' x"
    using assms(1) fr(1,4) mb gd(7) by (simp add: file_ok_def)
  have "fbyte fs' x i = fbyte fs x i" if "i < unat (i_size x)" for i
  proof -
    have k: "i div bsz fs < max_blocks fs"
      using that ok(2) by (intro less_mult_imp_div_less) simp
    have "blk fs' (unat (imap fs x (i div bsz fs))) = blk fs (unat (imap fs x (i div bsz fs)))" if "imap fs x (i div bsz fs) \<noteq> 0"
      using imap_block(1) [OF ok(1) k that] out by (intro same_but_blk [OF gd(4)]) blast
    then show ?thesis
      using fr(4) [OF k] gd(7) by (simp add: fbyte_def Let_def)
  qed
  then show "contents fs' x = contents fs x"
    by (simp add: contents_def)
qed

lemma ext2_file_write_spec:
  assumes "disk_ok fs" "inode_ok fs ino" "fd_inode f = Some a" "unat (fd_pos f) \<le> unat (i_size ino)"
    and "unat (fd_pos f) + unat count \<le> max_blocks fs * bsz fs" "unat (fd_pos f) + unat count < 2 ^ 32"
    and "unat count \<le> length buf" "length fresh = bsz fs"
    and "5 * (nblocks fs (unat (fd_pos f) + unat count) - nblocks fs (unat (i_size ino))) \<le> card (free_blocks fs)"
  shows "\<exists>N ino' fs' now. ext2_file_write a fresh ino f buf count fs =
      Some (sint count, ino'\<lparr>i_ctime := now\<rparr>, f\<lparr>fd_pos := fd_pos f + count\<rparr>, fs') \<and>
    disk_ok fs' \<and> inode_ok fs' ino' \<and> grown N (ino_blocks fs ino \<union> sys_blks fs) fs fs' \<and> ino_blocks fs' ino' = ino_blocks fs ino \<union> N \<and>
    contents fs' ino' = overlay (contents fs ino) (unat (fd_pos f)) (take (unat count) buf) \<and>
    unat (i_size ino') = max (unat (i_size ino)) (unat (fd_pos f) + unat count) \<and> i_no ino' = i_no ino \<and> i_mode ino' = i_mode ino \<and>
    (\<forall>x. i_no x = i_no ino \<longrightarrow> ext2_read_inode x fs' = Some (reread ino' now x))"
proof -
  note d = disk_okD [OF assms(1)]
  let ?fs = "fs\<lparr>events := Suc (events fs)\<rparr>"
  have fo: "file_ok fs ino" "ino_blocks fs ino \<inter> sys_blks fs = {}" "inode_no_ok fs (unat (i_no ino))"
    using assms(2) by (simp_all add: inode_ok_def)
  have fo': "file_ok ?fs ino"
    using fo(1) by (simp add: file_ok_def)
  have "ent ?fs 0 0 = 0" "nblocks ?fs = nblocks fs"
    using d(9) by (simp_all add: ent_def nblocks_def fun_eq_iff)
  then obtain N ino1 f1 where w: "file_write_loop count 0 buf fresh f ino ?fs = Some (count, f\<lparr>fd_pos := fd_pos f + count\<rparr>, ino1, f1)"
      "wrote N (unat (fd_pos f)) (take (unat count) buf) ino ?fs ino1 f1"
    using file_write_loop_spec [of ?fs ino f count buf fresh 0] d(1,10) fo' assms(4-9) by auto
  note wb = wrote_boot [OF w(2)]
  have W: "grown N (ino_blocks fs ino) ?fs f1" "ino_blocks f1 ino1 = ino_blocks fs ino \<union> N" "file_ok f1 ino1"
      "contents f1 ino1 = overlay (contents ?fs ino) (unat (fd_pos f)) (take (unat count) buf)"
      "unat (i_size ino1) = max (unat (i_size ino)) (unat (fd_pos f) + length (take (unat count) buf))"
      "\<exists>bs n s. ino1 = ino\<lparr>i_block := bs, i_blocks := n, i_size := s\<rparr>"
    using w(2) by (simp_all add: wrote_def)
  have g1: "grown N (ino_blocks fs ino) fs f1"
    using W(1) d(1) grown_trans [of "{}" "{}" fs ?fs N "ino_blocks fs ino" f1] by simp
  note gd = grownD [OF g1]
  have ino1: "i_no ino1 = i_no ino" "i_mode ino1 = i_mode ino"
    using W(6) by auto
  have do1: "disk_ok f1"
    using wb(1) [of 0] d(1,9,10) by (intro grown_disk_ok [OF assms(1) g1]) (simp add: ent_def)
  have mc: "sys_blks f1 = sys_blks fs" "in_range f1 = in_range fs"
    using meta_cong [OF gd(4)] by simp_all
  have len: "length (i_block ino1) = 15"
    using W(3) by (simp add: file_ok_def ino_ok_def)
  obtain f2 f3 f4 now where c: "ext2_write_inode ino1 f1 = Some (ino1\<lparr>i_ctime := now\<rparr>, f2)" "ext2_sync_gdt f2 = Some f3"
      "ext2_write_super f3 = Some f4" "synced f1 f4" "disk_ok f4"
      "\<forall>x. i_no x = i_no ino1 \<longrightarrow> ext2_read_inode x f4 = Some (reread ino1 now x)"
    using commit_inode [OF do1, of ino1] fo(3) mc(2) ino1 len by auto
  have g4: "grown {} (sys_blks f1) f1 f4"
    by (rule synced_grown(1) [OF do1 c(4)])
  have dis: "ino_blocks f1 ino1 \<inter> sys_blks f1 = {}"
    using W(2) fo(2) mc(1) gd(2) d(7) by auto
  note ff = file_frame [OF W(3) g4 gd(1) dis]
  have "ext2_file_write a fresh ino f buf count fs = Some (sint count, ino1\<lparr>i_ctime := now\<rparr>, f\<lparr>fd_pos := fd_pos f + count\<rparr>, f4)"
    using assms(3) w(1) c blocks_okD(3) [OF d(1)] by (simp add: ext2_file_write_def kmalloc_def)
  moreover have "inode_ok f4 ino1"
    using ff dis fo(3) ino1 mc meta_cong [OF grownD(4) [OF g4]] by (simp add: inode_ok_def)
  moreover have "grown N (ino_blocks fs ino \<union> sys_blks fs) fs f4"
    using grown_trans [OF g1 g4] mc by simp
  moreover have "contents f4 ino1 = overlay (contents fs ino) (unat (fd_pos f)) (take (unat count) buf)"
    using ff(2) W(4) by simp
  ultimately show ?thesis
    using c(5,6) W(2,5) ff(3) assms(7) ino1 by (intro exI [of _ N] exI [of _ ino1] exI [of _ f4] exI [of _ now]) simp
qed

end
