(* ===== verification/Ext2_Dir.thy ===== *)
theory Ext2_Dir
  imports Ext2_File
begin

text \<open>
  Directories of an ext2 file system: the entries of variable length inside the blocks of a directory
  file, and the functions of \<^verbatim>\<open>fs/ext2/inode.c\<close> and \<^verbatim>\<open>fs/ext2/file.c\<close> that search, add, remove and
  list them. A name is the list of its bytes, without the terminating 0.
\<close>

section \<open>The code\<close>

definition MAX_FILE_NAME_LEN :: nat where "MAX_FILE_NAME_LEN = 64"

definition EXT2_DIR_REC_LEN :: "u32 \<Rightarrow> u32" where
  "EXT2_DIR_REC_LEN name_len = ((8 + name_len) + 3) AND NOT 3"

fun ft_code :: "file_types \<Rightarrow> u8" where
  "ft_code FT_UNKNOWN = 0"
| "ft_code FT_REGULAR = 1"
| "ft_code FT_DIRECTORY = 2"
| "ft_code FT_CHAR_SPECIAL = 3"
| "ft_code FT_BLOCK_SPECIAL = 4"
| "ft_code FT_FIFO = 5"
| "ft_code FT_SOCKET = 6"
| "ft_code FT_SYMLINK = 7"
| "ft_code FT_PIPE = 8"

text \<open>\<^verbatim>\<open>memcmp\<close> of the kernel's string library; reading beyond the end of either buffer faults.\<close>

fun memcmp :: "u8 list \<Rightarrow> u8 list \<Rightarrow> nat \<Rightarrow> int halting" where
  "memcmp a b 0 = Some 0"
| "memcmp (x # a) (y # b) (Suc n) = (if x \<noteq> y then Some (if x > y then 1 else - 1) else memcmp a b n)"
| "memcmp a b (Suc n) = None"

text \<open>
  The fields of \<^verbatim>\<open>struct ext2_dir_entry\<close> at an offset of a block, the test of an entry against a name, and the
  stores that make an entry.
\<close>

definition de_i_no :: "u8 list \<Rightarrow> nat \<Rightarrow> u32 halting" where "de_i_no buf off = rd32 buf off"
definition de_rec_len :: "u8 list \<Rightarrow> nat \<Rightarrow> u16 halting" where "de_rec_len buf off = rd16 buf (off + 4)"
definition de_name_len :: "u8 list \<Rightarrow> nat \<Rightarrow> u8 halting" where "de_name_len buf off = rd8 buf (off + 6)"
definition de_file_type :: "u8 list \<Rightarrow> nat \<Rightarrow> u8 halting" where "de_file_type buf off = rd8 buf (off + 7)"

definition de_match :: "u8 list \<Rightarrow> u8 list \<Rightarrow> nat \<Rightarrow> bool halting" where
  "de_match name buf off = do {
     n \<leftarrow> de_i_no buf off;
     if n = 0 then Some False
     else do {
       name_len \<leftarrow> de_name_len buf off;
       if unat name_len \<noteq> length name then Some False
       else do {
         c \<leftarrow> memcmp name (drop (off + 8) buf) (length name);
         Some (c = 0)
       }
     }
   }"

definition de_fill :: "nat \<Rightarrow> u32 \<Rightarrow> u16 \<Rightarrow> u8 list \<Rightarrow> u8 \<Rightarrow> u8 list \<Rightarrow> u8 list halting" where
  "de_fill off inode_no rec_len name file_type buf = do {
     buf \<leftarrow> memcpy_to buf off (bytes32 inode_no);
     buf \<leftarrow> memcpy_to buf (off + 4) (bytes16 rec_len);
     buf \<leftarrow> memcpy_to buf (off + 6) [of_nat (length name)];
     buf \<leftarrow> memcpy_to buf (off + 7) [file_type];
     memcpy_to buf (off + 8) name
   }"

text \<open>
  \<^verbatim>\<open>ext2_lookup\<close> up to the call of \<^verbatim>\<open>inode_open\<close>: the scan of one block, of all blocks, and the number found.
\<close>

function lookup_in_block :: "u8 list \<Rightarrow> nat \<Rightarrow> u8 list \<Rightarrow> nat \<Rightarrow> u32 option halting" where
  "lookup_in_block name block_size buf offset =
     (if offset < block_size then do {
        hit \<leftarrow> de_match name buf offset;
        if hit then do {
          n \<leftarrow> de_i_no buf offset;
          Some (Some n)
        }
        else do {
          rec_len \<leftarrow> de_rec_len buf offset;
          if rec_len = 0 then Some None
          else lookup_in_block name block_size buf (offset + unat rec_len)
        }
      } else Some None)"
  by pat_completeness auto
termination
  by (relation "measure (\<lambda>(_, n, _, off). n - off)") (auto simp: unat_gt_0 intro!: diff_less_mono2)

fun lookup_loop :: "einode \<Rightarrow> u8 list \<Rightarrow> nat list \<Rightarrow> ext2_fs \<Rightarrow> (u32 option \<times> ext2_fs) halting" where
  "lookup_loop dir name [] fs = Some (None, fs)"
| "lookup_loop dir name (i # is) fs = do {
     (phys_block, fs) \<leftarrow> ext2_bmap dir (of_nat i) fs;
     if phys_block = 0 then lookup_loop dir name is fs
     else do {
       r \<leftarrow> lookup_in_block name (unat (push_bit (unat (s_log_block_size (sb fs))) EXT2_BLOCK_UNIT)) (read_index phys_block fs) 0;
       case r of Some n \<Rightarrow> Some (Some n, fs) | None \<Rightarrow> lookup_loop dir name is fs
     }
   }"

definition lookup_ino :: "einode \<Rightarrow> u8 list \<Rightarrow> ext2_fs \<Rightarrow> (int \<times> u32 \<times> ext2_fs) halting" where
  "lookup_ino dir name fs = do {
     let block_size = push_bit (unat (s_log_block_size (sb fs))) EXT2_BLOCK_UNIT;
     ASSERT (block_size \<noteq> 0);
     let total_blocks = (i_size dir + block_size - 1) div block_size;
     let (buf, fs) = kmalloc fs;
     if \<not> buf then Some (- ENOMEM, 0, fs)
     else do {
       (r, fs) \<leftarrow> lookup_loop dir name [0..<unat total_blocks] fs;
       Some (case r of Some n \<Rightarrow> (0, n, fs) | None \<Rightarrow> (- ENOENT, 0, fs))
     }
   }"

text \<open>\<^verbatim>\<open>ext2_find_entry_ino\<close>, the scan of its own that \<^verbatim>\<open>ext2_rename\<close> uses.\<close>

function find_in_block :: "u8 list \<Rightarrow> nat \<Rightarrow> u8 list \<Rightarrow> nat \<Rightarrow> u32 option halting" where
  "find_in_block name block_size buf offset =
     (if offset < block_size then do {
        hit \<leftarrow> de_match name buf offset;
        if hit then do {
          n \<leftarrow> de_i_no buf offset;
          Some (Some n)
        }
        else do {
          rec_len \<leftarrow> de_rec_len buf offset;
          let offset' = offset + unat rec_len;
          if rec_len = 0 \<or> offset' > block_size then Some None
          else find_in_block name block_size buf offset'
        }
      } else Some None)"
  by pat_completeness auto
termination
  by (relation "measure (\<lambda>(_, n, _, off). n - off)") (auto simp: unat_gt_0 intro!: diff_less_mono2)

fun find_entry_loop :: "einode \<Rightarrow> u8 list \<Rightarrow> nat list \<Rightarrow> ext2_fs \<Rightarrow> (u32 option \<times> ext2_fs) halting" where
  "find_entry_loop dir name [] fs = Some (None, fs)"
| "find_entry_loop dir name (i # is) fs = do {
     (p_blk, fs) \<leftarrow> ext2_bmap dir (of_nat i) fs;
     if p_blk = 0 then find_entry_loop dir name is fs
     else do {
       r \<leftarrow> find_in_block name (unat (s_block_size (sb fs))) (read_block p_blk fs) 0;
       case r of Some n \<Rightarrow> Some (Some n, fs) | None \<Rightarrow> find_entry_loop dir name is fs
     }
   }"

definition ext2_find_entry_ino :: "einode \<Rightarrow> u8 list \<Rightarrow> u32 \<Rightarrow> ext2_fs \<Rightarrow> (int \<times> u32 \<times> ext2_fs) halting" where
  "ext2_find_entry_ino dir name out_ino fs = do {
     let block_size = s_block_size (sb fs);
     let (io_buf, fs) = kmalloc fs;
     if \<not> io_buf then Some (- ENOMEM, out_ino, fs)
     else do {
       ASSERT (block_size \<noteq> 0);
       (r, fs) \<leftarrow> find_entry_loop dir name [0..<unat (DIV_ROUND_UP (i_size dir) block_size)] fs;
       Some (case r of Some n \<Rightarrow> (0, n, fs) | None \<Rightarrow> (- ENOENT, out_ino, fs))
     }
   }"

text \<open>
  \<^verbatim>\<open>ext2_add_entry\<close>: the search of one block for an entry with enough room behind its name, which is split; the
  search of all blocks; the new block when none has room. The scan does not end on an entry of length 0 whose
  room is too small, and its \<^verbatim>\<open>PANIC\<close>s stop the machine.
\<close>

partial_function (option) add_in_block :: "u32 \<Rightarrow> u8 list \<Rightarrow> u8 \<Rightarrow> nat \<Rightarrow> u8 list \<Rightarrow> nat \<Rightarrow> u8 list option halting" where
  "add_in_block inode_no name file_type block_size buf offset =
     (if offset < block_size then do {
        name_len \<leftarrow> de_name_len buf offset;
        rec_len \<leftarrow> de_rec_len buf offset;
        let actual_len = EXT2_DIR_REC_LEN (ucast name_len);
        if ucast rec_len - actual_len \<ge> EXT2_DIR_REC_LEN (of_nat (length name)) then do {
          buf \<leftarrow> memcpy_to buf (offset + 4) (bytes16 (ucast actual_len));
          buf \<leftarrow> de_fill (offset + unat actual_len) inode_no (ucast (ucast rec_len - actual_len)) name file_type buf;
          Some (Some buf)
        }
        else add_in_block inode_no name file_type block_size buf (offset + unat rec_len)
      } else Some None)"

fun add_loop :: "einode \<Rightarrow> u32 \<Rightarrow> u8 list \<Rightarrow> u8 \<Rightarrow> nat list \<Rightarrow> ext2_fs \<Rightarrow> (bool \<times> ext2_fs) halting" where
  "add_loop dir inode_no name file_type [] fs = Some (False, fs)"
| "add_loop dir inode_no name file_type (i # is) fs = do {
     (phys_block, fs) \<leftarrow> ext2_bmap dir (of_nat i) fs;
     if phys_block = 0 then add_loop dir inode_no name file_type is fs
     else do {
       r \<leftarrow> add_in_block inode_no name file_type (unat (s_block_size (sb fs))) (read_block phys_block fs) 0;
       case r of None \<Rightarrow> add_loop dir inode_no name file_type is fs
       | Some buf \<Rightarrow> do {
           fs \<leftarrow> write_block phys_block buf fs;
           Some (True, fs)
         }
     }
   }"

definition ext2_add_entry :: "einode \<Rightarrow> u32 \<Rightarrow> u8 list \<Rightarrow> u8 \<Rightarrow> ext2_fs \<Rightarrow> (int \<times> einode \<times> ext2_fs) halting" where
  "ext2_add_entry dir inode_no name file_type fs = do {
     let block_size = s_block_size (sb fs);
     let (io_buf, fs) = kmalloc fs;
     ASSERT io_buf;
     ASSERT (block_size \<noteq> 0);
     (added, fs) \<leftarrow> add_loop dir inode_no name file_type [0..<unat (i_size dir div block_size)] fs;
     if added then Some (0, dir, fs)
     else do {
       (new_phys_block, fs) \<leftarrow> ext2_resource_alloc 0 EXT2_BLOCK_BITMAP fs;
       ASSERT (new_phys_block \<noteq> - 1);
       (status, dir, fs) \<leftarrow> ext2_append_block_to_inode new_phys_block dir fs;
       ASSERT (\<not> status < 0);
       let dir = dir\<lparr>i_size := i_size dir + s_block_size (sb fs)\<rparr>;
       buf \<leftarrow> de_fill 0 inode_no (ucast block_size) name file_type (replicate (unat block_size) 0);
       fs \<leftarrow> write_block new_phys_block buf fs;
       Some (0, dir, fs)
     }
   }"

text \<open>\<^verbatim>\<open>ext2_init_dir_block\<close>: the entries for the directory itself and its parent.\<close>

definition ext2_init_dir_block :: "u32 \<Rightarrow> u32 \<Rightarrow> u32 \<Rightarrow> ext2_fs \<Rightarrow> ext2_fs halting" where
  "ext2_init_dir_block block_addr self_ino parent_ino fs = do {
     let block_size = s_block_size (sb fs);
     let (io_buf, fs) = kmalloc fs;
     ASSERT io_buf;
     buf \<leftarrow> de_fill 0 self_ino 12 [46] (ft_code FT_DIRECTORY) (replicate (unat block_size) 0);
     buf \<leftarrow> de_fill 12 parent_ino (ucast (block_size - 12)) [46, 46] (ft_code FT_DIRECTORY) buf;
     write_block block_addr buf fs
   }"

text \<open>
  \<^verbatim>\<open>ext2_remove_entry\<close>: the entry found is merged into the one before it in the block, or its inode number is
  cleared when it is the first.
\<close>

function remove_in_block :: "u8 list \<Rightarrow> nat \<Rightarrow> u8 list \<Rightarrow> nat option \<Rightarrow> nat \<Rightarrow> u8 list option halting" where
  "remove_in_block name block_size buf pre offset =
     (if offset < block_size then do {
        current_rec_len \<leftarrow> de_rec_len buf offset;
        if current_rec_len = 0 then Some None
        else do {
          hit \<leftarrow> de_match name buf offset;
          if hit then (case pre of
              Some p \<Rightarrow> do {
                prev_len \<leftarrow> de_rec_len buf p;
                buf \<leftarrow> memcpy_to buf (p + 4) (bytes16 (prev_len + current_rec_len));
                Some (Some buf)
              }
            | None \<Rightarrow> do {
                buf \<leftarrow> memcpy_to buf offset (bytes32 0);
                Some (Some buf)
              })
          else if offset + unat current_rec_len \<ge> block_size then Some None
          else remove_in_block name block_size buf (Some offset) (offset + unat current_rec_len)
        }
      } else Some None)"
  by pat_completeness auto
termination
  by (relation "measure (\<lambda>(_, n, _, _, off). n - off)") (auto simp: unat_gt_0 intro!: diff_less_mono2)

fun remove_loop :: "einode \<Rightarrow> u8 list \<Rightarrow> nat list \<Rightarrow> ext2_fs \<Rightarrow> (bool \<times> ext2_fs) halting" where
  "remove_loop dir name [] fs = Some (False, fs)"
| "remove_loop dir name (i # is) fs = do {
     (phys_block_lba, fs) \<leftarrow> ext2_bmap dir (of_nat i) fs;
     if phys_block_lba = 0 then remove_loop dir name is fs
     else do {
       let block_size = push_bit (unat (s_log_block_size (sb fs))) EXT2_BLOCK_UNIT;
       r \<leftarrow> remove_in_block name (unat block_size) (read_index phys_block_lba fs) None 0;
       case r of None \<Rightarrow> remove_loop dir name is fs
       | Some buf \<Rightarrow> do {
           fs \<leftarrow> partition_write (BLOCK_TO_SECTOR (sb fs) phys_block_lba) buf (block_size div of_nat SECTOR_SIZE) fs;
           Some (True, fs)
         }
     }
   }"

definition ext2_remove_entry :: "einode \<Rightarrow> u8 list \<Rightarrow> ext2_fs \<Rightarrow> (int \<times> einode \<times> ext2_fs) halting" where
  "ext2_remove_entry parent_dir name fs = do {
     let block_size = push_bit (unat (s_log_block_size (sb fs))) EXT2_BLOCK_UNIT;
     let (io_buf, fs) = kmalloc fs;
     if \<not> io_buf then Some (- 1, parent_dir, fs)
     else do {
       ASSERT (block_size \<noteq> 0);
       (found, fs) \<leftarrow> remove_loop parent_dir name [0..<unat (DIV_ROUND_UP (i_size parent_dir) block_size)] fs;
       if found then do {
         (parent_dir, fs) \<leftarrow> ext2_write_inode parent_dir fs;
         Some (0, parent_dir, fs)
       } else Some (- 1, parent_dir, fs)
     }
   }"

text \<open>
  \<^verbatim>\<open>ext2_is_dir_empty\<close>. The scan reads the length of the entry behind the one it leaves before it compares the offset
  with the end of the block, so it reads beyond the buffer after the last entry; \<open>beyond\<close> is what the memory
  behind the buffer holds. The names are compared with the literals including their terminating 0.
\<close>

definition de_foreign :: "u8 list \<Rightarrow> nat \<Rightarrow> bool halting" where
  "de_foreign buf off = do {
     n \<leftarrow> de_i_no buf off;
     if n = 0 then Some False
     else do {
       name_len \<leftarrow> de_name_len buf off;
       c \<leftarrow> memcmp (drop (off + 8) buf) [46, 0] (unat name_len);
       if c = 0 then Some False
       else do {
         c \<leftarrow> memcmp (drop (off + 8) buf) [46, 46, 0] (unat name_len);
         Some (c \<noteq> 0)
       }
     }
   }"

function empty_in_block :: "nat \<Rightarrow> u8 list \<Rightarrow> nat \<Rightarrow> bool halting" where
  "empty_in_block block_size buf offset =
     (if offset < block_size then do {
        foreign \<leftarrow> de_foreign buf offset;
        if foreign then Some False
        else do {
          rec_len \<leftarrow> de_rec_len buf offset;
          next_len \<leftarrow> de_rec_len buf (offset + unat rec_len);
          if next_len = 0 then Some True
          else empty_in_block block_size buf (offset + unat rec_len)
        }
      } else Some True)"
  by pat_completeness auto
termination
proof (relation "measure (\<lambda>(n, _, off). n - off)")
  show "((block_size, buf, offset + unat rec_len), block_size, buf, offset) \<in> measure (\<lambda>(n, _, off). n - off)"
    if "offset < block_size" "de_rec_len buf offset = Some rec_len" "de_rec_len buf (offset + unat rec_len) = Some next_len" "next_len \<noteq> 0"
    for block_size offset :: nat and buf rec_len next_len
  proof -
    have "unat rec_len \<noteq> 0"
      using that(2-4) by (metis add_0_right option.inject unat_eq_zero)
    then show ?thesis
      using that(1) by auto
  qed
qed auto

fun empty_loop :: "u8 list \<Rightarrow> einode \<Rightarrow> nat list \<Rightarrow> ext2_fs \<Rightarrow> (bool \<times> ext2_fs) halting" where
  "empty_loop beyond dir [] fs = Some (True, fs)"
| "empty_loop beyond dir (i # is) fs = do {
     (p_blk, fs) \<leftarrow> ext2_bmap dir (of_nat i) fs;
     if p_blk = 0 then empty_loop beyond dir is fs
     else do {
       e \<leftarrow> empty_in_block (unat (s_block_size (sb fs))) (read_block p_blk fs @ beyond) 0;
       if e then empty_loop beyond dir is fs else Some (False, fs)
     }
   }"

definition ext2_is_dir_empty :: "u8 list \<Rightarrow> einode \<Rightarrow> ext2_fs \<Rightarrow> (bool \<times> ext2_fs) halting" where
  "ext2_is_dir_empty beyond dir fs = do {
     let block_size = s_block_size (sb fs);
     let (io_buf, fs) = kmalloc fs;
     if \<not> io_buf then Some (False, fs)
     else do {
       ASSERT (block_size \<noteq> 0);
       empty_loop beyond dir [0..<unat (DIV_ROUND_UP (i_size dir) block_size)] fs
     }
   }"

text \<open>\<^verbatim>\<open>ext2_update_dotdot\<close>: the second entry of the first block gets the number of the new parent.\<close>

definition ext2_update_dotdot :: "einode \<Rightarrow> u32 \<Rightarrow> ext2_fs \<Rightarrow> ext2_fs halting" where
  "ext2_update_dotdot moved_dir new_parent_ino fs = do {
     let (io_buf, fs) = kmalloc fs;
     ASSERT io_buf;
     (p_blk, fs) \<leftarrow> ext2_bmap moved_dir 0 fs;
     let buf = read_block p_blk fs;
     rec_len \<leftarrow> de_rec_len buf 0;
     buf \<leftarrow> memcpy_to buf (unat rec_len) (bytes32 new_parent_ino);
     write_block p_blk buf fs
   }"

text \<open>
  \<^verbatim>\<open>ext2_readdir\<close>: from the position of the open directory to the next entry in use. The inner loop ends with the
  position and offset it reached, with an entry, or with an error.
\<close>

record dirent =
  d_ino :: u32
  d_off :: u32
  d_reclen :: u16
  d_type :: u8
  d_name :: "u8 list"

definition ext2_to_linux_dt :: "u8 list" where
  "ext2_to_linux_dt = [0, 8, 4, 2, 6, 1, 12, 10]"

definition sizeof_dirent :: u16 where "sizeof_dirent = 76"

datatype readdir_step = Next_block u32 | Got dirent u32 | Bad u32

function readdir_in_block :: "u32 \<Rightarrow> nat \<Rightarrow> u8 list \<Rightarrow> u32 \<Rightarrow> nat \<Rightarrow> readdir_step halting" where
  "readdir_in_block dir_size block_size buf pos offset =
     (if offset < block_size \<and> pos < dir_size then do {
        rec_len \<leftarrow> de_rec_len buf offset;
        if rec_len = 0 then Some (Bad pos)
        else do {
          n \<leftarrow> de_i_no buf offset;
          if n \<noteq> 0 then do {
            t \<leftarrow> de_file_type buf offset;
            dt \<leftarrow> rd8 ext2_to_linux_dt (unat t);
            name_len \<leftarrow> de_name_len buf offset;
            let name_copy_len = (if unat name_len < MAX_FILE_NAME_LEN then unat name_len else MAX_FILE_NAME_LEN - 1);
            name \<leftarrow> memcpy_from buf (offset + 8) name_copy_len;
            Some (Got \<lparr>d_ino = n, d_off = pos, d_reclen = sizeof_dirent, d_type = dt,
              d_name = name @ replicate (MAX_FILE_NAME_LEN - name_copy_len) 0\<rparr> (pos + ucast rec_len))
          }
          else if (pos + ucast rec_len) mod of_nat block_size = 0 then Some (Next_block (pos + ucast rec_len))
          else readdir_in_block dir_size block_size buf (pos + ucast rec_len) (offset + unat rec_len)
        }
      } else Some (Next_block pos))"
  by pat_completeness auto
termination
  by (relation "measure (\<lambda>(_, n, _, _, off). n - off)") (auto simp: unat_gt_0 intro!: diff_less_mono2)

partial_function (option) readdir_loop :: "einode \<Rightarrow> open_file \<Rightarrow> ext2_fs \<Rightarrow> (int \<times> dirent option \<times> open_file \<times> ext2_fs) halting" where
  "readdir_loop dir f fs =
     (if fd_pos f < i_size dir then do {
        let block_size = push_bit (unat (s_log_block_size (sb fs))) EXT2_BLOCK_UNIT;
        let cur_block_idx = fd_pos f div block_size;
        (phys_block, fs) \<leftarrow> ext2_bmap dir cur_block_idx fs;
        if phys_block = 0 then readdir_loop dir (f\<lparr>fd_pos := (cur_block_idx + 1) * block_size\<rparr>) fs
        else do {
          r \<leftarrow> readdir_in_block (i_size dir) (unat block_size) (read_index phys_block fs) (fd_pos f) (unat (fd_pos f mod block_size));
          case r of Bad pos \<Rightarrow> Some (- EIO, None, f\<lparr>fd_pos := pos\<rparr>, fs)
          | Got de pos \<Rightarrow> Some (0, Some de, f\<lparr>fd_pos := pos\<rparr>, fs)
          | Next_block pos \<Rightarrow> readdir_loop dir (f\<lparr>fd_pos := pos\<rparr>) fs
        }
      } else Some (- 1, None, f, fs))"

definition ext2_readdir :: "einode \<Rightarrow> open_file \<Rightarrow> ext2_fs \<Rightarrow> (int \<times> dirent option \<times> open_file \<times> ext2_fs) halting" where
  "ext2_readdir dir f fs =
     (if s_log_block_size (sb fs) > 10 then Some (- EIO, None, f, fs)
      else if push_bit (unat (s_log_block_size (sb fs))) EXT2_BLOCK_UNIT = 0 then Some (- EIO, None, f, fs)
      else do {
        let (block_buf, fs) = kmalloc fs;
        if \<not> block_buf then Some (- ENOMEM, None, f, fs)
        else readdir_loop dir f fs
      })"

section \<open>Entries\<close>

text \<open>
  A sound block is a sequence of entries; what an entry holds, its bytes, and the bytes of a sequence. The
  padding \<open>e_pad\<close> is the room behind the name.
\<close>

record dent =
  e_ino :: u32
  e_name :: "u8 list"
  e_type :: u8
  e_pad :: "u8 list"

definition e_len :: "dent \<Rightarrow> nat" where
  "e_len d = 8 + length (e_name d) + length (e_pad d)"

definition enc :: "dent \<Rightarrow> u8 list" where
  "enc d = bytes32 (e_ino d) @ bytes16 (of_nat (e_len d)) @ [of_nat (length (e_name d)), e_type d] @ e_name d @ e_pad d"

abbreviation "encs ds \<equiv> concat (map enc ds)"

definition dent_ok :: "dent \<Rightarrow> bool" where
  "dent_ok d \<longleftrightarrow> length (e_name d) < 256 \<and> 4 dvd e_len d \<and> e_len d < 65536"

definition live :: "dent list \<Rightarrow> (u8 list \<times> u32) list" where
  "live ds = map (\<lambda>d. (e_name d, e_ino d)) (filter (\<lambda>d. e_ino d \<noteq> 0) ds)"

lemma live_simps [simp]:
  "live [] = []" "live (d # ds) = (if e_ino d \<noteq> 0 then [(e_name d, e_ino d)] else []) @ live ds" "live (ds @ ds') = live ds @ live ds'"
  by (simp_all add: live_def)

lemma length_enc [simp]: "length (enc d) = e_len d"
  by (simp add: enc_def e_len_def)

lemma enc_nonempty [simp]: "enc d \<noteq> []"
  by (simp add: enc_def bytes32_def)

lemma length_encs: "length (encs ds) = sum_list (map e_len ds)"
  by (induction ds) simp_all

lemma e_len_pos [simp]: "0 < e_len d" "8 \<le> e_len d" "e_len d \<noteq> 0"
  by (simp_all add: e_len_def)

lemma le32_bytes [simp]: "le32 (A @ bytes32 v @ B) (length A) = v"
  by (simp add: le32_def bytes32_def nth_append u32_of_bytes)

lemma le16_bytes [simp]: "le16 (A @ bytes16 v @ B) (length A) = v"
  by (simp add: le16_def bytes16_def nth_append u16_of_bytes)

lemma de_fields:
  "de_i_no (A @ enc d @ B) (length A) = Some (e_ino d)"
  "de_rec_len (A @ enc d @ B) (length A) = Some (of_nat (e_len d))"
  "de_name_len (A @ enc d @ B) (length A) = Some (of_nat (length (e_name d)))"
  "de_file_type (A @ enc d @ B) (length A) = Some (e_type d)"
  "drop (length A + 8) (A @ enc d @ B) = e_name d @ e_pad d @ B"
proof -
  let ?b = "A @ enc d @ B" and ?h = "bytes32 (e_ino d)"
  have l: "length A + 8 \<le> length ?b"
    by (simp add: e_len_def)
  have "le16 ?b (length A + 4) = of_nat (e_len d)"
    using le16_bytes [of "A @ ?h" "of_nat (e_len d)" "[of_nat (length (e_name d)), e_type d] @ e_name d @ e_pad d @ B"] by (simp add: enc_def)
  then show "de_rec_len ?b (length A) = Some (of_nat (e_len d))"
    using l by (simp add: de_rec_len_def)
  show "de_i_no ?b (length A) = Some (e_ino d)"
    using l le32_bytes [of A "e_ino d"] by (simp add: de_i_no_def) (simp add: enc_def)
  show "de_name_len ?b (length A) = Some (of_nat (length (e_name d)))" "de_file_type ?b (length A) = Some (e_type d)"
    using l by (simp_all add: de_name_len_def de_file_type_def) (simp_all add: enc_def nth_append)
  show "drop (length A + 8) ?b = e_name d @ e_pad d @ B"
    by (simp add: enc_def)
qed

lemma memcmp_spec:
  "n \<le> length a \<Longrightarrow> n \<le> length b \<Longrightarrow> \<exists>c. memcmp a b n = Some c \<and> (c = 0 \<longleftrightarrow> take n a = take n b)"
  by (induction a b n rule: memcmp.induct) auto

lemma unat_name_len: "dent_ok d \<Longrightarrow> unat (of_nat (length (e_name d)) :: u8) = length (e_name d)"
  by (simp add: dent_ok_def unat_of_nat)

lemma unat_rec_len: "dent_ok d \<Longrightarrow> unat (of_nat (e_len d) :: u16) = e_len d"
  by (simp add: dent_ok_def unat_of_nat)

lemma rec_len_nonzero: "dent_ok d \<Longrightarrow> (of_nat (e_len d) :: u16) \<noteq> 0"
  using unat_rec_len [of d] by (auto simp: e_len_def)

lemma de_match_enc:
  assumes "dent_ok d"
  shows "de_match name (A @ enc d @ B) (length A) = Some (e_ino d \<noteq> 0 \<and> e_name d = name)"
proof (cases "length (e_name d) = length name")
  case True
  then obtain c where c: "memcmp name (e_name d @ e_pad d @ B) (length name) = Some c" "c = 0 \<longleftrightarrow> name = e_name d"
    using memcmp_spec [of "length name" name "e_name d @ e_pad d @ B"] by auto
  show ?thesis
    using True c unfolding de_match_def de_fields by (auto simp: unat_name_len [OF assms])
next
  case False
  then show ?thesis
    unfolding de_match_def de_fields by (auto simp: unat_name_len [OF assms])
qed

declare lookup_in_block.simps [simp del] find_in_block.simps [simp del] remove_in_block.simps [simp del]
  empty_in_block.simps [simp del] readdir_in_block.simps [simp del]

lemma lookup_in_block_encs:
  "\<forall>d\<in>set ds. dent_ok d \<Longrightarrow> lookup_in_block name (length A + length (encs ds)) (A @ encs ds) (length A) = Some (map_of (live ds) name)"
proof (induction ds arbitrary: A)
  case Nil
  then show ?case
    by (simp add: lookup_in_block.simps [of name "length A"])
next
  case (Cons d ds)
  have d: "dent_ok d"
    using Cons.prems by simp
  have "lookup_in_block name (length (A @ enc d) + length (encs ds)) ((A @ enc d) @ encs ds) (length (A @ enc d)) = Some (map_of (live ds) name)"
    using Cons.prems by (intro Cons.IH) simp
  then have r: "lookup_in_block name (length A + length (encs (d # ds))) (A @ enc d @ encs ds) (length A + e_len d) = Some (map_of (live ds) name)"
    by (simp add: add.assoc)
  show ?case
    using r by (subst lookup_in_block.simps) (simp add: de_match_enc [OF d] de_fields unat_rec_len [OF d] rec_len_nonzero [OF d])
qed

lemma find_in_block_encs:
  "\<forall>d\<in>set ds. dent_ok d \<Longrightarrow> find_in_block name (length A + length (encs ds)) (A @ encs ds) (length A) = Some (map_of (live ds) name)"
proof (induction ds arbitrary: A)
  case Nil
  then show ?case
    by (simp add: find_in_block.simps [of name "length A"])
next
  case (Cons d ds)
  have d: "dent_ok d"
    using Cons.prems by simp
  have "find_in_block name (length (A @ enc d) + length (encs ds)) ((A @ enc d) @ encs ds) (length (A @ enc d)) = Some (map_of (live ds) name)"
    using Cons.prems by (intro Cons.IH) simp
  then have r: "find_in_block name (length A + length (encs (d # ds))) (A @ enc d @ encs ds) (length A + e_len d) = Some (map_of (live ds) name)"
    by (simp add: add.assoc)
  show ?case
    using r by (subst find_in_block.simps) (simp add: de_match_enc [OF d] de_fields unat_rec_len [OF d] rec_len_nonzero [OF d] Let_def)
qed

section \<open>Adding and removing an entry of a block\<close>

definition rlen :: "nat \<Rightarrow> nat" where
  "rlen n = (n + 11) div 4 * 4"

lemma rlen_bounds: "n + 8 \<le> rlen n" "rlen n < n + 12" "4 dvd rlen n"
  by (auto simp: rlen_def)

lemma unat_EXT2_DIR_REC_LEN:
  assumes "unat n < 2 ^ 31"
  shows "unat (EXT2_DIR_REC_LEN n) = rlen (unat n)"
proof -
  have "(3 :: u32) = mask 2"
    by (simp add: mask_eq_exp_minus_1)
  then have "unat (EXT2_DIR_REC_LEN n) = unat (8 + n + 3) div 4 * 4"
    unfolding EXT2_DIR_REC_LEN_def by (simp only: unat_and_not_mask) simp
  moreover have "unat (8 + n + 3) = unat n + 11"
    using assms by (simp add: unat_word_ariths)
  ultimately show ?thesis
    by (simp add: rlen_def)
qed

lemma rlen_e_len:
  assumes "dent_ok d"
  shows "rlen (length (e_name d)) \<le> e_len d"
proof (rule ccontr)
  assume "\<not> ?thesis"
  then have "e_len d + 4 \<le> rlen (length (e_name d))"
    using assms rlen_bounds(3) by (intro dvd_gap) (auto simp: dent_ok_def)
  then show False
    using rlen_bounds(2) [of "length (e_name d)"] by (simp add: e_len_def)
qed

lemma overlay_mid: "length X = length Y \<Longrightarrow> overlay (A @ X @ B) (length A) Y = A @ Y @ B"
  by (simp add: overlay_def)

lemma memcpy_to_mid:
  assumes "length X = length Y" "off = length A"
  shows "memcpy_to (A @ X @ B) off Y = Some (A @ Y @ B)"
  using assms overlay_mid [OF assms(1), of A B] by simp

lemma de_fill_eq:
  assumes "length X = 8 + length name"
  shows "de_fill (length A) n rl name ft (A @ X @ B) = Some (A @ (bytes32 n @ bytes16 rl @ [of_nat (length name), ft] @ name) @ B)"
proof -
  have "X = take 4 X @ take 2 (drop 4 X) @ take 1 (drop 6 X) @ take 1 (drop 7 X) @ drop 8 X"
    using append_take_drop_id [of 4 X] append_take_drop_id [of 2 "drop 4 X"] append_take_drop_id [of 1 "drop 6 X"]
      append_take_drop_id [of 1 "drop 7 X"] by simp
  moreover have "length (take 4 X) = 4" "length (take 2 (drop 4 X)) = 2" "length (take 1 (drop 6 X)) = 1" "length (take 1 (drop 7 X)) = 1"
      "length (drop 8 X) = length name"
    using assms by simp_all
  ultimately obtain x1 x2 x3 x4 x5 where X: "X = x1 @ x2 @ x3 @ x4 @ x5"
    and l: "length x1 = 4" "length x2 = 2" "length x3 = 1" "length x4 = 1" "length x5 = length name"
    by blast
  have 1: "memcpy_to (A @ X @ B) (length A) (bytes32 n) = Some (A @ bytes32 n @ x2 @ x3 @ x4 @ x5 @ B)"
    using memcpy_to_mid [of x1 "bytes32 n" "length A" A "x2 @ x3 @ x4 @ x5 @ B"] l by (subst X) simp
  have 2: "memcpy_to (A @ bytes32 n @ x2 @ x3 @ x4 @ x5 @ B) (length A + 4) (bytes16 rl) =
      Some (A @ bytes32 n @ bytes16 rl @ x3 @ x4 @ x5 @ B)"
    using memcpy_to_mid [of x2 "bytes16 rl" "length A + 4" "A @ bytes32 n" "x3 @ x4 @ x5 @ B"] l by simp
  have 3: "memcpy_to (A @ bytes32 n @ bytes16 rl @ x3 @ x4 @ x5 @ B) (length A + 6) [of_nat (length name)] =
      Some (A @ bytes32 n @ bytes16 rl @ [of_nat (length name)] @ x4 @ x5 @ B)"
    using memcpy_to_mid [of x3 "[of_nat (length name)]" "length A + 6" "A @ bytes32 n @ bytes16 rl" "x4 @ x5 @ B"] l by simp
  have 4: "memcpy_to (A @ bytes32 n @ bytes16 rl @ [of_nat (length name)] @ x4 @ x5 @ B) (length A + 7) [ft] =
      Some (A @ bytes32 n @ bytes16 rl @ [of_nat (length name), ft] @ x5 @ B)"
    using memcpy_to_mid [of x4 "[ft]" "length A + 7" "A @ bytes32 n @ bytes16 rl @ [of_nat (length name)]" "x5 @ B"] l by simp
  have 5: "memcpy_to (A @ bytes32 n @ bytes16 rl @ [of_nat (length name), ft] @ x5 @ B) (length A + 8) name =
      Some (A @ bytes32 n @ bytes16 rl @ [of_nat (length name), ft] @ name @ B)"
    using memcpy_to_mid [of x5 name "length A + 8" "A @ bytes32 n @ bytes16 rl @ [of_nat (length name), ft]" B] l by simp
  show ?thesis
    unfolding de_fill_def 1 using 2 3 4 5 by simp
qed

text \<open>What adding does to the entries of a block: the first entry with enough room is split.\<close>

definition e_room :: "dent \<Rightarrow> nat" where
  "e_room d = e_len d - rlen (length (e_name d))"

definition split_off :: "u32 \<Rightarrow> u8 list \<Rightarrow> u8 \<Rightarrow> dent \<Rightarrow> dent list" where
  "split_off n name ft d = (let k = rlen (length (e_name d)) - 8 - length (e_name d) in
     [d\<lparr>e_pad := take k (e_pad d)\<rparr>, \<lparr>e_ino = n, e_name = name, e_type = ft, e_pad = drop (k + 8 + length name) (e_pad d)\<rparr>])"

fun add_dent :: "u32 \<Rightarrow> u8 list \<Rightarrow> u8 \<Rightarrow> dent list \<Rightarrow> dent list option" where
  "add_dent n name ft [] = None"
| "add_dent n name ft (d # ds) =
     (if rlen (length name) \<le> e_room d then Some (split_off n name ft d @ ds) else map_option (Cons d) (add_dent n name ft ds))"

lemma split_off_ok:
  assumes "dent_ok d" "rlen (length name) \<le> e_room d" "length name < 256"
  shows "\<forall>e\<in>set (split_off n name ft d). dent_ok e" "sum_list (map e_len (split_off n name ft d)) = e_len d"
    "map e_len (split_off n name ft d) = [rlen (length (e_name d)), e_room d]"
proof -
  let ?n = "length (e_name d)"
  note r = rlen_bounds [of ?n] rlen_bounds [of "length name"]
  have d: "e_len d = 8 + ?n + length (e_pad d)" "4 dvd e_len d" "e_len d < 65536"
    using assms(1) by (simp_all add: dent_ok_def e_len_def)
  have p: "rlen ?n + rlen (length name) \<le> e_len d"
    using assms(2) r(1) [THEN le_add_diff_inverse] rlen_e_len [OF assms(1)] by (simp add: e_room_def)
  then show l: "map e_len (split_off n name ft d) = [rlen ?n, e_room d]"
    using r d(1) by (auto simp: split_off_def Let_def e_len_def e_room_def min_def)
  then show "sum_list (map e_len (split_off n name ft d)) = e_len d"
    using rlen_e_len [OF assms(1)] by (simp add: e_room_def)
  have "4 dvd e_room d" "e_room d < 65536" "rlen ?n < 65536"
    using d(2,3) r(3) rlen_e_len [OF assms(1)] by (auto simp: e_room_def intro: dvd_diff_nat)
  then show "\<forall>e\<in>set (split_off n name ft d). dent_ok e"
    using l assms(1,3) r(3) by (auto simp: dent_ok_def split_off_def Let_def)
qed

lemma unat_ucast_up: "unat (ucast (a :: u8) :: u32) = unat a" "unat (ucast (b :: u16) :: u32) = unat b"
  by (simp_all add: unsigned_ucast_eq take_bit_nat_eq_self order.strict_trans [OF unsigned_less])

lemma ucast_unat: "(ucast (a :: u32) :: u16) = of_nat (unat a)"
  by simp

lemma unat_room:
  assumes "dent_ok d"
  shows "unat (ucast (of_nat (e_len d) :: u16) - EXT2_DIR_REC_LEN (ucast (of_nat (length (e_name d)) :: u8)) :: u32) = e_room d"
    "unat (EXT2_DIR_REC_LEN (ucast (of_nat (length (e_name d)) :: u8))) = rlen (length (e_name d))"
proof -
  have n: "unat (ucast (of_nat (length (e_name d)) :: u8) :: u32) = length (e_name d)"
    using unat_name_len [OF assms] by (simp add: unat_ucast_up)
  then show r: "unat (EXT2_DIR_REC_LEN (ucast (of_nat (length (e_name d)) :: u8))) = rlen (length (e_name d))"
    using assms unat_EXT2_DIR_REC_LEN [of "ucast (of_nat (length (e_name d)) :: u8)"] by (simp add: dent_ok_def)
  have l: "unat (ucast (of_nat (e_len d) :: u16) :: u32) = e_len d"
    using unat_rec_len [OF assms] by (simp add: unat_ucast_up)
  then show "unat (ucast (of_nat (e_len d) :: u16) - EXT2_DIR_REC_LEN (ucast (of_nat (length (e_name d)) :: u8)) :: u32) = e_room d"
    using r rlen_e_len [OF assms] by (subst unat_minus_no_wrap) (simp_all add: e_room_def)
qed

lemma split3: "xs = take k xs @ take m (drop k xs) @ drop (k + m) xs"
  by (metis add.commute append_take_drop_id drop_drop)

lemma split_off_bytes:
  assumes "dent_ok d" "rlen (length name) \<le> e_room d" "length name < 256"
    and "act = EXT2_DIR_REC_LEN (ucast (of_nat (length (e_name d)) :: u8))"
  shows "do {
      buf \<leftarrow> memcpy_to (A @ enc d @ B) (length A + 4) (bytes16 (ucast act));
      de_fill (length A + unat act) n (ucast (ucast (of_nat (e_len d) :: u16) - act)) name ft buf
    } = Some (A @ encs (split_off n name ft d) @ B)"
proof -
  let ?n = "length (e_name d)" and ?k = "rlen (length (e_name d)) - 8 - length (e_name d)"
  note r = rlen_bounds [of "length name"] rlen_bounds [of ?n]
  have lp: "?k + rlen (length name) \<le> length (e_pad d)"
    using assms(2) r rlen_e_len [OF assms(1)] by (simp add: e_room_def e_len_def)
  have "e_pad d = take ?k (e_pad d) @ take (8 + length name) (drop ?k (e_pad d)) @ drop (?k + (8 + length name)) (e_pad d)"
    by (rule split3)
  moreover have "length (take ?k (e_pad d)) = ?k" "length (take (8 + length name) (drop ?k (e_pad d))) = 8 + length name"
    using lp r by simp_all
  ultimately obtain p x q where p: "e_pad d = p @ x @ q" "length p = ?k" "length x = 8 + length name"
    by blast
  define d1 where "d1 = d\<lparr>e_pad := p\<rparr>"
  define d2 where "d2 = \<lparr>e_ino = n, e_name = name, e_type = ft, e_pad = q\<rparr>"
  have s: "split_off n name ft d = [d1, d2]"
    using p(2,3) by (simp add: split_off_def Let_def d1_def d2_def p(1))
  have l: "e_len d1 = rlen ?n" "e_len d2 = e_room d"
    using split_off_ok(3) [OF assms(1-3), of n ft] by (simp_all add: s)
  have w: "(ucast act :: u16) = of_nat (e_len d1)" "(ucast (ucast (of_nat (e_len d) :: u16) - act) :: u16) = of_nat (e_len d2)"
    using unat_room [OF assms(1)] l assms(4) ucast_unat by metis+
  have m: "memcpy_to (A @ enc d @ B) (length A + 4) (bytes16 (ucast act)) = Some ((A @ enc d1) @ x @ (q @ B))"
    using memcpy_to_mid [of "bytes16 (of_nat (e_len d))" "bytes16 (ucast act)" "length A + 4" "A @ bytes32 (e_ino d)"
        "[of_nat ?n, e_type d] @ e_name d @ e_pad d @ B"]
    by (simp add: enc_def d1_def [symmetric] w(1) p(1)) (simp add: d1_def)
  have "de_fill (length (A @ enc d1)) n (of_nat (e_len d2)) name ft ((A @ enc d1) @ x @ (q @ B)) = Some (A @ enc d1 @ enc d2 @ B)"
    by (subst de_fill_eq [OF p(3)]) (simp add: enc_def d2_def)
  moreover have "length (A @ enc d1) = length A + unat act"
    using l(1) unat_room(2) [OF assms(1)] assms(4) by simp
  ultimately show ?thesis
    unfolding m w(2) s by simp
qed

lemma add_in_block_encs:
  assumes "\<forall>d\<in>set ds. dent_ok d" "length name < 256"
  shows "add_in_block n name ft (length A + length (encs ds)) (A @ encs ds) (length A) = Some (map_option (\<lambda>ds'. A @ encs ds') (add_dent n name ft ds))"
  using assms(1)
proof (induction ds arbitrary: A)
  case Nil
  then show ?case
    by (simp add: add_in_block.simps [of n name ft "length A"])
next
  case (Cons d ds)
  have d: "dent_ok d"
    using Cons.prems by simp
  let ?act = "EXT2_DIR_REC_LEN (ucast (of_nat (length (e_name d)) :: u8))"
  have fits: "ucast (of_nat (e_len d) :: u16) - ?act \<ge> EXT2_DIR_REC_LEN (of_nat (length name)) \<longleftrightarrow> rlen (length name) \<le> e_room d"
  proof -
    have "unat (of_nat (length name) :: u32) = length name"
      using assms(2) by (simp add: unat_of_nat)
    then show ?thesis
      using unat_room(1) [OF d] unat_EXT2_DIR_REC_LEN [of "of_nat (length name)"] assms(2) by (simp add: u32_le)
  qed
  have un: "add_in_block n name ft (length A + length (encs (d # ds))) (A @ enc d @ encs ds) (length A) =
      (if rlen (length name) \<le> e_room d then Some (Some (A @ encs (split_off n name ft d) @ encs ds))
       else add_in_block n name ft (length A + length (encs (d # ds))) (A @ enc d @ encs ds) (length A + e_len d))"
  proof (cases "rlen (length name) \<le> e_room d")
    case True
    from split_off_bytes [OF d True assms(2) refl, of A "encs ds" n ft] show ?thesis
      using True fits by (subst add_in_block.simps) (auto simp: de_fields Let_def bind_eq_Some_conv)
  next
    case False
    then show ?thesis
      using fits by (subst add_in_block.simps) (simp add: de_fields Let_def unat_rec_len [OF d])
  qed
  have "add_in_block n name ft (length (A @ enc d) + length (encs ds)) ((A @ enc d) @ encs ds) (length (A @ enc d)) =
      Some (map_option (\<lambda>ds'. (A @ enc d) @ encs ds') (add_dent n name ft ds))"
    using Cons.prems by (intro Cons.IH) simp
  then show ?case
    using un by (simp add: add.assoc option.map_comp comp_def)
qed

lemma add_dent_spec:
  assumes "add_dent n name ft ds = Some ds'" "\<forall>d\<in>set ds. dent_ok d" "length name < 256" "n \<noteq> 0"
  shows "\<forall>d\<in>set ds'. dent_ok d" "length (encs ds') = length (encs ds)" "\<exists>u v. live ds = u @ v \<and> live ds' = u @ (name, n) # v"
proof -
  have "(\<forall>d\<in>set ds'. dent_ok d) \<and> length (encs ds') = length (encs ds) \<and> (\<exists>u v. live ds = u @ v \<and> live ds' = u @ (name, n) # v)"
    using assms(1,2)
  proof (induction ds arbitrary: ds')
    case (Cons d ds)
    show ?case
    proof (cases "rlen (length name) \<le> e_room d")
      case True
      have d': "ds' = split_off n name ft d @ ds"
        using Cons.prems(1) True by simp
      have l: "live (split_off n name ft d) = live [d] @ [(name, n)]"
        using assms(4) by (simp add: split_off_def Let_def)
      have "\<exists>u v. live (d # ds) = u @ v \<and> live ds' = u @ (name, n) # v"
        using l d' by (intro exI [of _ "live [d]"] exI [of _ "live ds"]) simp
      then show ?thesis
        using d' split_off_ok [OF _ True assms(3), of n ft] Cons.prems(2) by (auto simp: length_encs)
    next
      case False
      then obtain es where e: "add_dent n name ft ds = Some es" "ds' = d # es"
        using Cons.prems(1) by auto
      then obtain u v where "live ds = u @ v" "live es = u @ (name, n) # v"
        using Cons.IH Cons.prems(2) by (metis list.set_intros(2))
      then have "\<exists>u v. live (d # ds) = u @ v \<and> live ds' = u @ (name, n) # v"
        using e(2) by (intro exI [of _ "live [d] @ u"] exI [of _ v]) simp
      then show ?thesis
        using Cons.IH [OF e(1)] Cons.prems(2) e(2) by auto
    qed
  qed simp
  then show "\<forall>d\<in>set ds'. dent_ok d" "length (encs ds') = length (encs ds)" "\<exists>u v. live ds = u @ v \<and> live ds' = u @ (name, n) # v"
    by blast+
qed

text \<open>What removing does: the entry goes into the padding of the one before it, or loses its number.\<close>

abbreviation "named name d \<equiv> e_ino d \<noteq> 0 \<and> e_name d = name"

fun del_after :: "u8 list \<Rightarrow> dent \<Rightarrow> dent list \<Rightarrow> dent list option" where
  "del_after name p [] = None"
| "del_after name p (d # ds) = (if named name d then Some (p\<lparr>e_pad := e_pad p @ enc d\<rparr> # ds) else map_option (Cons p) (del_after name d ds))"

fun del_dent :: "u8 list \<Rightarrow> dent list \<Rightarrow> dent list option" where
  "del_dent name [] = None"
| "del_dent name (d # ds) = (if named name d then Some (d\<lparr>e_ino := 0\<rparr> # ds) else del_after name d ds)"

lemma enc_merge: "enc (p\<lparr>e_pad := e_pad p @ enc d\<rparr>) =
    bytes32 (e_ino p) @ bytes16 (of_nat (e_len p) + of_nat (e_len d)) @ [of_nat (length (e_name p)), e_type p] @ e_name p @ e_pad p @ enc d"
  by (simp add: enc_def e_len_def algebra_simps)

lemma remove_after_encs:
  assumes "\<forall>d\<in>set ds. dent_ok d" "dent_ok p"
  shows "remove_in_block name (length A + length (encs (p # ds))) (A @ encs (p # ds)) (Some (length A)) (length A + e_len p) =
    Some (map_option (\<lambda>ds'. A @ encs ds') (del_after name p ds))"
  using assms
proof (induction ds arbitrary: A p)
  case Nil
  then show ?case
    by (simp add: remove_in_block.simps [of name "length A + e_len p"])
next
  case (Cons d ds)
  have d: "dent_ok d"
    using Cons.prems by simp
  let ?b = "(A @ enc p) @ enc d @ encs ds"
  note f = de_match_enc [OF d, of name "A @ enc p" "encs ds"] de_fields(1,2) [of "A @ enc p" d "encs ds"] de_fields(2) [of A p "enc d @ encs ds"]
  have m: "memcpy_to (A @ enc p @ enc d @ encs ds) (length A + 4) (bytes16 (of_nat (e_len p) + of_nat (e_len d))) =
      Some (A @ enc (p\<lparr>e_pad := e_pad p @ enc d\<rparr>) @ encs ds)"
    using memcpy_to_mid [of "bytes16 (of_nat (e_len p))" "bytes16 (of_nat (e_len p) + of_nat (e_len d))" "length A + 4" "A @ bytes32 (e_ino p)"
        "[of_nat (length (e_name p)), e_type p] @ e_name p @ e_pad p @ enc d @ encs ds"]
    unfolding enc_merge by (simp add: enc_def [of p])
  have "remove_in_block name (length (A @ enc p) + length (encs (d # ds))) ((A @ enc p) @ encs (d # ds)) (Some (length (A @ enc p)))
      (length (A @ enc p) + e_len d) = Some (map_option (\<lambda>ds'. (A @ enc p) @ encs ds') (del_after name d ds))"
    using Cons.prems by (intro Cons.IH) simp_all
  then have r: "remove_in_block name (length A + length (encs (p # d # ds))) (A @ enc p @ enc d @ encs ds) (Some (length A + e_len p))
      (length A + (e_len p + e_len d)) = Some (map_option (\<lambda>ds'. A @ enc p @ encs ds') (del_after name d ds))"
    by (simp add: add.assoc)
  show ?case
  proof (cases "ds = [] \<and> \<not> named name d")
    case True
    then show ?thesis
      using f rec_len_nonzero [OF d] unat_rec_len [OF d] by (subst remove_in_block.simps) auto
  next
    case False
    have "e_len d < length (encs (d # ds))" if "ds \<noteq> []"
      using that by (cases ds) simp_all
    then show ?thesis
      using False f m r rec_len_nonzero [OF d] unat_rec_len [OF d]
      by (subst remove_in_block.simps) (auto simp: add.assoc option.map_comp comp_def)
  qed
qed

lemma remove_in_block_encs:
  assumes "\<forall>d\<in>set ds. dent_ok d"
  shows "remove_in_block name (length (encs ds)) (encs ds) None 0 = Some (map_option encs (del_dent name ds))"
proof (cases ds)
  case Nil
  then show ?thesis
    by (simp add: remove_in_block.simps [of name 0])
next
  case (Cons d es)
  have d: "dent_ok d" and es: "\<forall>d\<in>set es. dent_ok d"
    using assms Cons by simp_all
  have f: "de_match name (enc d @ encs es) 0 = Some (named name d)" "de_rec_len (enc d @ encs es) 0 = Some (of_nat (e_len d))"
    using de_match_enc [OF d, of name "[]" "encs es"] de_fields(2) [of "[]" d "encs es"] by simp_all
  have m: "memcpy_to (enc d @ encs es) 0 (bytes32 0) = Some (enc (d\<lparr>e_ino := 0\<rparr>) @ encs es)"
    using memcpy_to_mid [of "bytes32 (e_ino d)" "bytes32 0" 0 "[]"
        "bytes16 (of_nat (e_len d)) @ [of_nat (length (e_name d)), e_type d] @ e_name d @ e_pad d @ encs es"]
    by (simp add: enc_def e_len_def)
  have r: "remove_in_block name (e_len d + length (encs es)) (enc d @ encs es) (Some 0) (e_len d) = Some (map_option encs (del_after name d es))"
    using remove_after_encs [OF es d, of name "[]"] by simp
  have un: "remove_in_block name (e_len d + length (encs es)) (enc d @ encs es) None 0 =
      (if named name d then Some (Some (enc (d\<lparr>e_ino := 0\<rparr>) @ encs es)) else if es = [] then Some None
       else remove_in_block name (e_len d + length (encs es)) (enc d @ encs es) (Some 0) (e_len d))"
    using f m rec_len_nonzero [OF d] unat_rec_len [OF d] by (subst remove_in_block.simps) (cases es; auto)
  show ?thesis
    using un r by (auto simp: Cons)
qed

lemma live_mem: "name \<in> fst ` set (live ds) \<longleftrightarrow> (\<exists>d\<in>set ds. named name d)"
  by (auto simp: live_def image_iff)

lemma del_after_spec:
  assumes "\<forall>d\<in>set (p # ds). dent_ok d" "length (encs (p # ds)) < 65536" "\<not> named name p"
  shows "case del_after name p ds of None \<Rightarrow> name \<notin> fst ` set (live ds)
    | Some ds' \<Rightarrow> (\<forall>d\<in>set ds'. dent_ok d) \<and> length (encs ds') = length (encs (p # ds)) \<and>
        (\<exists>u n v. live (p # ds) = u @ (name, n) # v \<and> name \<notin> fst ` set u \<and> live ds' = u @ v)"
  using assms
proof (induction ds arbitrary: p)
  case (Cons d ds)
  show ?case
  proof (cases "named name d")
    case True
    let ?m = "p\<lparr>e_pad := e_pad p @ enc d\<rparr>"
    have l: "e_len ?m = e_len p + e_len d"
      by (simp add: e_len_def)
    then have "dent_ok ?m"
      using Cons.prems(1,2) by (auto simp: dent_ok_def)
    moreover have "\<exists>u n v. live (p # d # ds) = u @ (name, n) # v \<and> name \<notin> fst ` set u \<and> live (?m # ds) = u @ v"
      using True Cons.prems(3) by (intro exI [of _ "live [p]"] exI [of _ "e_ino d"] exI [of _ "live ds"]) auto
    ultimately show ?thesis
      using True Cons.prems(1) l by simp
  next
    case False
    have i: "case del_after name d ds of None \<Rightarrow> name \<notin> fst ` set (live ds)
      | Some ds' \<Rightarrow> (\<forall>d\<in>set ds'. dent_ok d) \<and> length (encs ds') = length (encs (d # ds)) \<and>
        (\<exists>u n v. live (d # ds) = u @ (name, n) # v \<and> name \<notin> fst ` set u \<and> live ds' = u @ v)"
      using Cons.prems False by (intro Cons.IH) simp_all
    show ?thesis
    proof (cases "del_after name d ds")
      case None
      then show ?thesis
        using i False by auto
    next
      case (Some es)
      then obtain u n v where u: "live (d # ds) = u @ (name, n) # v" "name \<notin> fst ` set u" "live es = u @ v"
        using i by auto
      have "\<exists>u n v. live (p # d # ds) = u @ (name, n) # v \<and> name \<notin> fst ` set u \<and> live (p # es) = u @ v"
        using u Cons.prems(3) by (intro exI [of _ "live [p] @ u"] exI [of _ n] exI [of _ v]) (auto simp del: live_simps(2) simp add: live_def)
      then show ?thesis
        using i Some False Cons.prems(1) by auto
    qed
  qed
qed simp

lemma del_dent_spec:
  assumes "\<forall>d\<in>set ds. dent_ok d" "length (encs ds) < 65536"
  shows "case del_dent name ds of None \<Rightarrow> name \<notin> fst ` set (live ds)
    | Some ds' \<Rightarrow> (\<forall>d\<in>set ds'. dent_ok d) \<and> length (encs ds') = length (encs ds) \<and>
        (\<exists>u n v. live ds = u @ (name, n) # v \<and> name \<notin> fst ` set u \<and> live ds' = u @ v)"
proof (cases ds)
  case (Cons d es)
  show ?thesis
  proof (cases "named name d")
    case True
    have "\<exists>u n v. live ds = u @ (name, n) # v \<and> name \<notin> fst ` set u \<and> live (d\<lparr>e_ino := 0\<rparr> # es) = u @ v"
      using True Cons by (intro exI [of _ "[]"] exI [of _ "e_ino d"] exI [of _ "live es"]) simp
    then show ?thesis
      using True Cons assms(1) by (simp add: dent_ok_def e_len_def)
  next
    case False
    have "name \<notin> fst ` set (live ds)" if "name \<notin> fst ` set (live es)"
      using that False Cons by auto
    moreover have "del_dent name ds = del_after name d es"
      using False Cons by auto
    ultimately show ?thesis
      using del_after_spec [of d es name] False Cons assms by (cases "del_after name d es") (auto simp del: live_simps)
  qed
qed simp

section \<open>Empty blocks\<close>

text \<open>The names an empty directory may hold; names never contain the byte 0.\<close>

definition dots :: "u8 list set" where
  "dots = {[], [46], [46, 46]}"

lemma memcmp_dot:
  assumes "0 \<notin> set name"
  shows "\<exists>c. memcmp (name @ B) [46, 0] (length name) = Some c \<and> (c = 0 \<longleftrightarrow> name \<in> {[], [46]})"
    "\<exists>c. memcmp (name @ B) [46, 46, 0] (length name) = Some c \<and> (c = 0 \<longleftrightarrow> name \<in> dots)"
proof -
  consider "name = []" | a where "name = [a]" | a b where "name = [a, b]" | a b c r where "name = a # b # c # r"
    by (metis list.exhaust)
  then show "\<exists>c. memcmp (name @ B) [46, 0] (length name) = Some c \<and> (c = 0 \<longleftrightarrow> name \<in> {[], [46]})"
    by cases (use assms in auto)
  consider "name = []" | a where "name = [a]" | a b where "name = [a, b]" | a b c r where "name = a # b # c # r"
    by (metis list.exhaust)
  then show "\<exists>c. memcmp (name @ B) [46, 46, 0] (length name) = Some c \<and> (c = 0 \<longleftrightarrow> name \<in> dots)"
    by cases (use assms in \<open>auto simp: dots_def\<close>)
qed

lemma de_foreign_enc:
  assumes "dent_ok d" "e_ino d \<noteq> 0 \<Longrightarrow> 0 \<notin> set (e_name d)"
  shows "de_foreign (A @ enc d @ B) (length A) = Some (e_ino d \<noteq> 0 \<and> e_name d \<notin> dots)"
proof (cases "e_ino d = 0")
  case True
  then show ?thesis
    unfolding de_foreign_def de_fields by simp
next
  case False
  obtain c1 c2 where c: "memcmp (e_name d @ e_pad d @ B) [46, 0] (length (e_name d)) = Some c1" "c1 = 0 \<longleftrightarrow> e_name d \<in> {[], [46]}"
      "memcmp (e_name d @ e_pad d @ B) [46, 46, 0] (length (e_name d)) = Some c2" "c2 = 0 \<longleftrightarrow> e_name d \<in> dots"
    using memcmp_dot [OF assms(2) [OF False]] by meson
  show ?thesis
    unfolding de_foreign_def de_fields using c by (auto simp: unat_name_len [OF assms(1)] dots_def)
qed

lemma empty_in_block_encs:
  assumes "\<forall>d\<in>set ds. dent_ok d" "\<forall>x\<in>fst ` set (live ds). 0 \<notin> set x" "6 \<le> length beyond"
  shows "empty_in_block (length A + length (encs ds)) (A @ encs ds @ beyond) (length A) = Some (fst ` set (live ds) \<subseteq> dots)"
  using assms(1,2)
proof (induction ds arbitrary: A)
  case Nil
  then show ?case
    by (simp add: empty_in_block.simps [of "length A"])
next
  case (Cons d ds)
  have d: "dent_ok d" "e_ino d \<noteq> 0 \<Longrightarrow> 0 \<notin> set (e_name d)"
    using Cons.prems by simp_all
  let ?b = "A @ enc d @ encs ds @ beyond"
  have "empty_in_block (length (A @ enc d) + length (encs ds)) ((A @ enc d) @ encs ds @ beyond) (length (A @ enc d)) =
      Some (fst ` set (live ds) \<subseteq> dots)"
    using Cons.prems by (intro Cons.IH) simp_all
  then have r: "empty_in_block (length A + length (encs (d # ds))) ?b (length A + e_len d) = Some (fst ` set (live ds) \<subseteq> dots)"
    by (simp add: add.assoc)
  obtain nl where nl: "de_rec_len ?b (length A + e_len d) = Some nl" "ds \<noteq> [] \<Longrightarrow> nl \<noteq> 0"
  proof (cases ds)
    case Nil
    then show ?thesis
      using assms(3) that by (simp add: de_rec_len_def)
  next
    case (Cons e es)
    then show ?thesis
      using that de_fields(2) [of "A @ enc d" e "encs es @ beyond"] rec_len_nonzero [of e] Cons.prems(1) by simp
  qed
  show ?case
  proof (cases "ds = []")
    case True
    then show ?thesis
      using nl r d by (subst empty_in_block.simps) (auto simp: de_fields de_foreign_enc [OF d] unat_rec_len [OF d(1)])
  next
    case False
    then show ?thesis
      using nl r by (subst empty_in_block.simps) (auto simp: de_fields de_foreign_enc [OF d] unat_rec_len [OF d(1)])
  qed
qed

section \<open>Directories\<close>

text \<open>
  A sound directory: its bytes are blocks of entries \<open>D\<close>. What it maps names to is what a scan in the order of
  the entries finds.
\<close>

definition dir_ok :: "ext2_fs \<Rightarrow> einode \<Rightarrow> dent list list \<Rightarrow> bool" where
  "dir_ok fs dir D \<longleftrightarrow> inode_ok fs dir \<and> contents fs dir = concat (map encs D) \<and> unat (i_size dir) < 2 ^ 31 \<and>
     (\<forall>ds\<in>set D. length (encs ds) = bsz fs \<and> (\<forall>d\<in>set ds. dent_ok d))"

definition entries :: "dent list list \<Rightarrow> (u8 list \<times> u32) list" where
  "entries D = live (concat D)"

lemma entries_simps [simp]: "entries [] = []" "entries (ds # D) = live ds @ entries D" "entries (D @ D') = entries D @ entries D'"
  by (simp_all add: entries_def)

lemma inode_ok_cong:
  assumes "i_block x = i_block y" "i_size x = i_size y" "i_no x = i_no y"
  shows "inode_ok fs x = inode_ok fs y" "contents fs x = contents fs y" "ino_blocks fs x = ino_blocks fs y"
  using assms inode_data_cong [OF assms(1), of fs] by (simp_all add: inode_ok_def file_ok_def contents_def)

lemma imap_all_events [simp]: "imap (fs\<lparr>events := n\<rparr>) = imap fs"
  by (simp add: fun_eq_iff imap_def lookup_events)

lemma file_ok_events [simp]: "file_ok (fs\<lparr>events := n\<rparr>) = file_ok fs"
  by (simp add: file_ok_def fun_eq_iff)

lemma inode_ok_events [simp]: "inode_ok (fs\<lparr>events := n\<rparr>) = inode_ok fs"
  using meta_cong(4) [of "{}" fs "fs\<lparr>events := n\<rparr>"] by (simp add: inode_ok_def fun_eq_iff)

lemma dir_ok_events [simp]: "dir_ok (fs\<lparr>events := n\<rparr>) = dir_ok fs"
  by (simp add: dir_ok_def fun_eq_iff)

lemma contents_blk:
  assumes "file_ok fs ino" "0 < bsz fs" "i * bsz fs + bsz fs \<le> unat (i_size ino)"
  shows "blk fs (unat (imap fs ino i)) = take (bsz fs) (drop (i * bsz fs) (contents fs ino))" "imap fs ino i \<noteq> 0" "i < max_blocks fs"
proof -
  have "i * bsz fs < unat (i_size ino)" "unat (i_size ino) \<le> max_blocks fs * bsz fs"
    using assms by (auto simp: file_ok_def)
  then have "i * bsz fs < max_blocks fs * bsz fs"
    by (rule less_le_trans)
  then show m: "i < max_blocks fs"
    by simp
  then show i: "imap fs ino i \<noteq> 0"
    using assms by (simp add: file_ok_def)
  show "blk fs (unat (imap fs ino i)) = take (bsz fs) (drop (i * bsz fs) (contents fs ino))"
    using map_fbyte_chunk [of fs "i * bsz fs" "bsz fs" ino] assms(2) i min_absorb1 [of "bsz fs" "unat (i_size ino) - i * bsz fs"] assms(3)
    by (simp add: take_drop_contents Let_def le_diff_conv2)
qed

lemma concat_blocks:
  assumes "\<forall>x\<in>set D. length (f x) = b"
  shows "length (concat (map f D)) = length D * b"
    "i < length D \<Longrightarrow> take b (drop (i * b) (concat (map f D))) = f (D ! i)"
    "i < length D \<Longrightarrow> f y = Y \<Longrightarrow> length Y = b \<Longrightarrow> overlay (concat (map f D)) (i * b) Y = concat (map f (D[i := y]))"
proof -
  have l: "length (concat (map f E)) = length E * b" if "set E \<subseteq> set D" for E
    using that assms by (induction E) auto
  show "length (concat (map f D)) = length D * b"
    by (simp add: l)
  assume i: "i < length D"
  have s: "concat (map f D) = concat (map f (take i D)) @ f (D ! i) @ concat (map f (drop (Suc i) D))"
    using arg_cong [OF id_take_nth_drop [OF i], of "\<lambda>E. concat (map f E)"] by simp
  have lt: "length (concat (map f (take i D))) = i * b" "length (f (D ! i)) = b"
    using l [of "take i D"] set_take_subset [of i D] i assms by (simp_all add: min_def)
  then show "take b (drop (i * b) (concat (map f D))) = f (D ! i)"
    by (simp add: s)
  assume y: "f y = Y" "length Y = b"
  have "overlay (concat (map f D)) (i * b) Y = concat (map f (take i D)) @ Y @ concat (map f (drop (Suc i) D))"
    using overlay_mid [of "f (D ! i)" Y "concat (map f (take i D))" "concat (map f (drop (Suc i) D))"] lt y(2) by (simp add: s)
  then show "overlay (concat (map f D)) (i * b) Y = concat (map f (D[i := y]))"
    using i y(1) by (simp add: upd_conv_take_nth_drop)
qed

lemma dir_okD:
  assumes "dir_ok fs dir D" "blocks_ok fs"
  shows "inode_ok fs dir" "file_ok fs dir" "ino_ok fs dir" "0 < bsz fs" "unat (i_size dir) = length D * bsz fs" "unat (i_size dir) < 2 ^ 31"
    "i < length D \<Longrightarrow> blk fs (unat (imap fs dir i)) = encs (D ! i)" "i < length D \<Longrightarrow> imap fs dir i \<noteq> 0" "i < length D \<Longrightarrow> i < max_blocks fs"
    "i < length D \<Longrightarrow> length (encs (D ! i)) = bsz fs" "i < length D \<Longrightarrow> \<forall>d\<in>set (D ! i). dent_ok d"
    "i < length D \<Longrightarrow> usable fs (unat (imap fs dir i))" "i < length D \<Longrightarrow> vblk fs (unat (imap fs dir i))"
proof -
  show io: "inode_ok fs dir" and f: "file_ok fs dir" and ok: "ino_ok fs dir" and b: "0 < bsz fs" and sz: "unat (i_size dir) < 2 ^ 31"
    using assms bsz_cases [OF blocks_okD(4) [OF assms(2)]] by (auto simp: dir_ok_def inode_ok_def file_ok_def)
  have e: "\<forall>ds\<in>set D. length (encs ds) = bsz fs" "contents fs dir = concat (map encs D)"
    using assms(1) by (auto simp: dir_ok_def)
  show s: "unat (i_size dir) = length D * bsz fs"
    using concat_blocks(1) [OF e(1)] e(2) by (metis (no_types, lifting) contents_def diff_zero length_map length_upt)
  assume i: "i < length D"
  show "length (encs (D ! i)) = bsz fs" "\<forall>d\<in>set (D ! i). dent_ok d"
    using nth_mem [OF i] assms(1) by (simp_all add: dir_ok_def del: nth_mem)
  have "Suc i * bsz fs \<le> length D * bsz fs"
    using i by (intro mult_le_mono1) simp
  then have "i * bsz fs + bsz fs \<le> unat (i_size dir)"
    using s by simp
  note c = contents_blk [OF f b this]
  show "blk fs (unat (imap fs dir i)) = encs (D ! i)" "imap fs dir i \<noteq> 0" "i < max_blocks fs"
    using c concat_blocks(2) [OF e(1) i] e(2) by simp_all
  show "usable fs (unat (imap fs dir i))" "vblk fs (unat (imap fs dir i))"
    using imap_block(2) [OF ok c(3,2)] by (simp_all add: usable_def)
qed

text \<open>The numbers of blocks the loops run over, and the calls of one round.\<close>

lemma dir_blocks:
  assumes "dir_ok fs dir D" "blocks_ok fs"
  shows "unat (push_bit (unat (s_log_block_size (sb fs))) EXT2_BLOCK_UNIT) = bsz fs"
    "push_bit (unat (s_log_block_size (sb fs))) EXT2_BLOCK_UNIT = s_block_size (sb fs)" "s_block_size (sb fs) \<noteq> 0"
    "unat ((i_size dir + s_block_size (sb fs) - 1) div s_block_size (sb fs)) = length D"
    "unat (DIV_ROUND_UP (i_size dir) (s_block_size (sb fs))) = length D"
    "unat (i_size dir div s_block_size (sb fs)) = length D"
proof -
  show p: "push_bit (unat (s_log_block_size (sb fs))) EXT2_BLOCK_UNIT = s_block_size (sb fs)"
    using blocks_okD(4) [OF assms(2)] by (simp add: bs_ok_def)
  then show "unat (push_bit (unat (s_log_block_size (sb fs))) EXT2_BLOCK_UNIT) = bsz fs"
    by (simp add: bsz_def)
  note d = dir_okD [OF assms]
  show "s_block_size (sb fs) \<noteq> 0"
    using d(4) by (auto simp: bsz_def)
  have b: "unat (s_block_size (sb fs)) = bsz fs"
    by (simp add: bsz_def)
  have "unat (i_size dir) + unat (s_block_size (sb fs)) \<le> 2 ^ 32"
    using d(6) bsz_cases [OF blocks_okD(4) [OF assms(2)]] by (auto simp: b)
  then have "unat (DIV_ROUND_UP (i_size dir) (s_block_size (sb fs))) = (length D * bsz fs + bsz fs - 1) div bsz fs"
    using unat_DIV_ROUND_UP [of "s_block_size (sb fs)" "i_size dir"] d(4,5) b by simp
  also have "length D * bsz fs + bsz fs - 1 = (bsz fs - 1) + length D * bsz fs"
    using d(4) by simp
  also have "\<dots> div bsz fs = length D"
    using d(4) by (simp only: div_mult_self1) simp
  finally show r: "unat (DIV_ROUND_UP (i_size dir) (s_block_size (sb fs))) = length D" .
  then show "unat ((i_size dir + s_block_size (sb fs) - 1) div s_block_size (sb fs)) = length D"
    by (simp add: DIV_ROUND_UP_def)
  show "unat (i_size dir div s_block_size (sb fs)) = length D"
    using d(4,5) b by (simp add: unat_div)
qed

lemma dir_round:
  assumes "dir_ok fs dir D" "blocks_ok fs" "i < length D"
  shows "ext2_bmap dir (of_nat i) fs = Some (imap fs dir i, fs\<lparr>events := Suc (events fs)\<rparr>)"
    "read_block (imap fs dir i) (fs\<lparr>events := n\<rparr>) = encs (D ! i)" "read_index (imap fs dir i) (fs\<lparr>events := n\<rparr>) = encs (D ! i)"
    "imap fs dir i \<noteq> 0"
proof -
  note d = dir_okD [OF assms(1,2)]
  show "ext2_bmap dir (of_nat i) fs = Some (imap fs dir i, fs\<lparr>events := Suc (events fs)\<rparr>)"
    using ext2_bmap_spec [OF assms(2) d(3) d(9) [OF assms(3)]] hole_ok_mapped d(8) [OF assms(3)] by simp
  show rb: "read_block (imap fs dir i) (fs\<lparr>events := n\<rparr>) = encs (D ! i)" for n
    using read_block_eq [of "fs\<lparr>events := n\<rparr>" "imap fs dir i"] blocks_okD(4) [OF assms(2)] d(7,13) [OF assms(3)] by simp
  then show "read_index (imap fs dir i) (fs\<lparr>events := n\<rparr>) = encs (D ! i)"
    using dir_blocks(2) [OF assms(1,2)] by (simp add: read_index_def read_block_def)
  show "imap fs dir i \<noteq> 0"
    by (rule d(8) [OF assms(3)])
qed

section \<open>Searching a directory\<close>

text \<open>
  Two functions scan the blocks of a directory for a name, each with a loop of its own. What both rely on is the
  contract of one round on a sound directory.
\<close>

locale dir_scan =
  fixes scan :: "einode \<Rightarrow> u8 list \<Rightarrow> nat list \<Rightarrow> ext2_fs \<Rightarrow> (u32 option \<times> ext2_fs) halting"
  assumes scan_Nil: "scan dir name [] fs = Some (None, fs)"
    and scan_Cons: "\<lbrakk>dir_ok fs dir D; blocks_ok fs; i < length D\<rbrakk> \<Longrightarrow> scan dir name (i # is) fs =
      (case map_of (live (D ! i)) name of Some n \<Rightarrow> Some (Some n, fs\<lparr>events := Suc (events fs)\<rparr>)
       | None \<Rightarrow> scan dir name is (fs\<lparr>events := Suc (events fs)\<rparr>))"
begin

lemma scan_some:
  assumes "dir_ok fs dir D" "blocks_ok fs" "\<forall>i\<in>set is. i < length D"
  shows "\<exists>n. scan dir name is (fs\<lparr>events := m\<rparr>) = Some (map_of (entries (map ((!) D) is)) name, fs\<lparr>events := n\<rparr>)"
  using assms(3)
proof (induction "is" arbitrary: m)
  case (Cons i "is")
  have d': "dir_ok (fs\<lparr>events := m\<rparr>) dir D" "blocks_ok (fs\<lparr>events := m\<rparr>)"
    using assms by simp_all
  obtain n where "scan dir name is (fs\<lparr>events := Suc m\<rparr>) = Some (map_of (entries (map ((!) D) is)) name, fs\<lparr>events := n\<rparr>)"
    using Cons.IH [of "Suc m"] Cons.prems by auto
  then show ?case
    using scan_Cons [OF d', of i name "is"] Cons.prems by (cases "map_of (live (D ! i)) name") (auto simp: map_add_def)
qed (auto simp: scan_Nil)

lemma scan_all:
  assumes "dir_ok fs dir D" "blocks_ok fs"
  shows "\<exists>n. scan dir name [0..<length D] (fs\<lparr>events := m\<rparr>) = Some (map_of (entries D) name, fs\<lparr>events := n\<rparr>)"
  using scan_some [OF assms, of "[0..<length D]" name m] by (simp add: map_nth)

end

interpretation lookup_scan: dir_scan lookup_loop
proof unfold_locales
  fix fs dir D i name "is"
  assume d: "dir_ok fs dir D" "blocks_ok fs" "i < length D"
  note r = dir_round [OF d] dir_blocks(1) [OF d(1,2)]
  have "lookup_in_block name (bsz fs) (encs (D ! i)) 0 = Some (map_of (live (D ! i)) name)"
    using lookup_in_block_encs [of "D ! i" name "[]"] dir_okD(10,11) [OF d(1,2,3)] by simp
  then show "lookup_loop dir name (i # is) fs =
      (case map_of (live (D ! i)) name of Some n \<Rightarrow> Some (Some n, fs\<lparr>events := Suc (events fs)\<rparr>)
       | None \<Rightarrow> lookup_loop dir name is (fs\<lparr>events := Suc (events fs)\<rparr>))"
    using r by (cases "map_of (live (D ! i)) name") auto
qed simp

interpretation find_scan: dir_scan find_entry_loop
proof unfold_locales
  fix fs dir D i name "is"
  assume d: "dir_ok fs dir D" "blocks_ok fs" "i < length D"
  note r = dir_round [OF d]
  have "find_in_block name (unat (s_block_size (sb fs))) (encs (D ! i)) 0 = Some (map_of (live (D ! i)) name)"
    using find_in_block_encs [of "D ! i" name "[]"] dir_okD(10,11) [OF d(1,2,3)] by (simp add: bsz_def)
  then show "find_entry_loop dir name (i # is) fs =
      (case map_of (live (D ! i)) name of Some n \<Rightarrow> Some (Some n, fs\<lparr>events := Suc (events fs)\<rparr>)
       | None \<Rightarrow> find_entry_loop dir name is (fs\<lparr>events := Suc (events fs)\<rparr>))"
    using r by (cases "map_of (live (D ! i)) name") auto
qed simp

lemma all_blocks: "\<forall>i\<in>set [0..<length D]. i < length D" "map ((!) D) [0..<length D] = D"
  by (simp_all add: map_nth)

text \<open>The result of a search: the number a name maps to.\<close>

lemma lookup_ino_spec:
  assumes "dir_ok fs dir D" "blocks_ok fs"
  shows "\<exists>n. lookup_ino dir name fs = Some (case map_of (entries D) name of Some i \<Rightarrow> (0, i, fs\<lparr>events := n\<rparr>) | None \<Rightarrow> (- ENOENT, 0, fs\<lparr>events := n\<rparr>))"
proof -
  obtain n where "lookup_loop dir name [0..<length D] (fs\<lparr>events := Suc (events fs)\<rparr>) = Some (map_of (entries D) name, fs\<lparr>events := n\<rparr>)"
    using lookup_scan.scan_all [OF assms] by blast
  then show ?thesis
    using dir_blocks [OF assms] blocks_okD(3) [OF assms(2)]
    by (intro exI [of _ n]) (simp add: lookup_ino_def kmalloc_def Let_def split: option.splits)
qed

lemma ext2_find_entry_ino_spec:
  assumes "dir_ok fs dir D" "blocks_ok fs"
  shows "\<exists>n. ext2_find_entry_ino dir name out fs =
    Some (case map_of (entries D) name of Some i \<Rightarrow> (0, i, fs\<lparr>events := n\<rparr>) | None \<Rightarrow> (- ENOENT, out, fs\<lparr>events := n\<rparr>))"
proof -
  obtain n where "find_entry_loop dir name [0..<length D] (fs\<lparr>events := Suc (events fs)\<rparr>) = Some (map_of (entries D) name, fs\<lparr>events := n\<rparr>)"
    using find_scan.scan_all [OF assms] by blast
  then show ?thesis
    using dir_blocks [OF assms] blocks_okD(3) [OF assms(2)]
    by (intro exI [of _ n]) (simp add: ext2_find_entry_ino_def kmalloc_def Let_def split: option.splits)
qed

lemma empty_loop_spec:
  assumes "dir_ok fs dir D" "blocks_ok fs" "\<forall>i\<in>set is. i < length D" "\<forall>x\<in>fst ` set (entries D). 0 \<notin> set x" "6 \<le> length beyond"
  shows "\<exists>n. empty_loop beyond dir is (fs\<lparr>events := m\<rparr>) = Some (fst ` set (entries (map ((!) D) is)) \<subseteq> dots, fs\<lparr>events := n\<rparr>)"
  using assms(3)
proof (induction "is" arbitrary: m)
  case (Cons i "is")
  have i: "i < length D"
    using Cons.prems by simp
  have d': "dir_ok (fs\<lparr>events := m\<rparr>) dir D" "blocks_ok (fs\<lparr>events := m\<rparr>)"
    using assms by simp_all
  note r = dir_round [OF d' i, simplified]
  have z: "\<forall>x\<in>fst ` set (live (D ! i)). 0 \<notin> set x"
    using assms(4) nth_mem [OF i] by (auto simp: entries_def live_def simp del: nth_mem)
  have l: "empty_in_block (unat (s_block_size (sb fs))) (encs (D ! i) @ beyond) 0 = Some (fst ` set (live (D ! i)) \<subseteq> dots)"
    using empty_in_block_encs [OF _ z assms(5), of "[]"] dir_okD(10,11) [OF assms(1,2) i] by (simp add: bsz_def)
  obtain n where "empty_loop beyond dir is (fs\<lparr>events := Suc m\<rparr>) = Some (fst ` set (entries (map ((!) D) is)) \<subseteq> dots, fs\<lparr>events := n\<rparr>)"
    using Cons.IH [of "Suc m"] Cons.prems by auto
  then show ?case
    using r l by (cases "fst ` set (live (D ! i)) \<subseteq> dots") (auto simp: image_Un)
qed auto

lemma ext2_is_dir_empty_spec:
  assumes "dir_ok fs dir D" "blocks_ok fs" "\<forall>x\<in>fst ` set (entries D). 0 \<notin> set x" "6 \<le> length beyond"
  shows "\<exists>n. ext2_is_dir_empty beyond dir fs = Some (fst ` set (entries D) \<subseteq> dots, fs\<lparr>events := n\<rparr>)"
proof -
  obtain n where "empty_loop beyond dir [0..<length D] (fs\<lparr>events := Suc (events fs)\<rparr>) = Some (fst ` set (entries D) \<subseteq> dots, fs\<lparr>events := n\<rparr>)"
    using empty_loop_spec [OF assms(1,2) all_blocks(1) assms(3,4), of "Suc (events fs)"] all_blocks(2) [of D] by auto
  then show ?thesis
    using dir_blocks [OF assms(1,2)] blocks_okD(3) [OF assms(2)]
    by (intro exI [of _ n]) (simp add: ext2_is_dir_empty_def kmalloc_def Let_def)
qed

section \<open>Adding an entry\<close>

lemma wrote_dir:
  assumes "wrote N pos Y dir fs dir' fs'" "dir_ok fs dir D" "blocks_ok fs" "free_blocks fs \<inter> sys_blks fs = {}"
    and "overlay (contents fs dir) pos Y = concat (map encs D')" "\<forall>ds\<in>set D'. length (encs ds) = bsz fs \<and> (\<forall>d\<in>set ds. dent_ok d)"
    and "unat (i_size dir') < 2 ^ 31"
  shows "dir_ok fs' dir' D'"
proof -
  have w: "grown N (ino_blocks fs dir) fs fs'" "ino_blocks fs' dir' = ino_blocks fs dir \<union> N" "file_ok fs' dir'"
      "contents fs' dir' = overlay (contents fs dir) pos Y" "i_no dir' = i_no dir"
    using assms(1) by (auto simp: wrote_def)
  note gd = grownD [OF w(1)]
  note m = meta_cong [OF gd(4)]
  have "inode_ok fs dir"
    by (rule dir_okD(1) [OF assms(2,3)])
  then have "inode_ok fs' dir'"
    using w(2,3,5) m(4,7) gd(2) assms(4) by (auto simp: inode_ok_def)
  then show ?thesis
    using w(4) assms(5,6,7) gd(7) by (simp add: dir_ok_def)
qed

lemma dir_write_block:
  fixes m :: nat
  assumes "dir_ok fs dir D" "blocks_ok fs" "free_blocks fs \<inter> sys_blks fs = {}" "i < length D"
    and "length (encs ds) = bsz fs" "\<forall>d\<in>set ds. dent_ok d"
  defines "fs' \<equiv> put_blk (unat (imap fs dir i)) (encs ds) (fs\<lparr>events := m\<rparr>)"
  shows "write_block (imap fs dir i) (encs ds) (fs\<lparr>events := m\<rparr>) = Some fs'" "dir_ok fs' dir (D[i := ds])"
    "wrote {} (i * bsz fs) (encs ds) dir fs dir fs'"
proof -
  note d = dir_okD [OF assms(1,2)]
  let ?f = "fs\<lparr>events := m\<rparr>" and ?b = "imap fs dir i"
  show "write_block ?b (encs ds) ?f = Some fs'"
    using write_block_eq [of ?f ?b "encs ds"] blocks_okD(4) [OF assms(2)] d(13) [OF assms(4)] assms(5) by (simp add: fs'_def)
  have e: "\<forall>ds\<in>set D. length (encs ds) = bsz fs" "contents fs dir = concat (map encs D)"
    using assms(1) by (auto simp: dir_ok_def)
  obtain buf where g: "got_block i ?b buf {} dir ?f dir ?f"
    using block_for_write_old [of ?f dir i ?b "blk fs 0" 0 0] assms(2) d(3,8,9) assms(4) by auto
  then have buf: "length buf = bsz fs"
    by (simp add: got_block_def)
  have ov: "overlay buf (i * bsz fs mod bsz fs) (encs ds) = encs ds"
    using buf assms(5) by (simp add: overlay_def)
  have fs': "fs' = put_blk (unat ?b) (overlay buf (i * bsz fs mod bsz fs) (encs ds)) ?f"
    unfolding ov by (simp add: fs'_def)
  have "Suc i * bsz fs \<le> length D * bsz fs"
    using assms(4) by (intro mult_le_mono1) simp
  then have sz: "i * bsz fs + bsz fs \<le> unat (i_size dir)"
    using d(5) by simp
  have "wrote {} (i * bsz fs) (encs ds) dir ?f (dir\<lparr>i_size := i_size dir\<rparr>) fs'"
    using g assms(2,4,5) d(2,4,9) sz fs' buf ov
    by (intro put_chunk [of ?f dir i ?b buf "{}" dir ?f "i * bsz fs" "encs ds"]) auto
  then show w: "wrote {} (i * bsz fs) (encs ds) dir fs dir fs'"
    by (simp add: wrote_def)
  show "dir_ok fs' dir (D[i := ds])"
  proof (rule wrote_dir [OF w assms(1-3)])
    show "overlay (contents fs dir) (i * bsz fs) (encs ds) = concat (map encs (D[i := ds]))"
      using concat_blocks(3) [OF e(1) assms(4), of ds "encs ds"] assms(5) e(2) by simp
    show "\<forall>es\<in>set (D[i := ds]). length (encs es) = bsz fs \<and> (\<forall>d\<in>set es. dent_ok d)"
      using assms(1,5,6) set_update_subset_insert [of D i ds] by (auto simp: dir_ok_def)
  qed (rule d(6))
qed

lemma entries_update:
  assumes "i < length D" "live (D ! i) = u @ w @ v" "live ds = u @ w' @ v"
  shows "entries D = (entries (take i D) @ u) @ w @ (v @ entries (drop (Suc i) D))"
    "entries (D[i := ds]) = (entries (take i D) @ u) @ w' @ (v @ entries (drop (Suc i) D))"
proof -
  have "entries D = entries (take i D @ (D ! i) # drop (Suc i) D)"
    using id_take_nth_drop [OF assms(1)] by simp
  then show "entries D = (entries (take i D) @ u) @ w @ (v @ entries (drop (Suc i) D))"
    using assms(2) by simp
  show "entries (D[i := ds]) = (entries (take i D) @ u) @ w' @ (v @ entries (drop (Suc i) D))"
    using assms(1,3) by (simp add: upd_conv_take_nth_drop)
qed

lemma add_loop_spec:
  assumes "dir_ok fs dir D" "blocks_ok fs" "\<forall>i\<in>set is. i < length D" "length name < 256"
    and "free_blocks fs \<inter> sys_blks fs = {}" "n \<noteq> 0"
  shows "\<exists>k. add_loop dir n name ft is (fs\<lparr>events := m\<rparr>) = Some (False, fs\<lparr>events := k\<rparr>) \<or>
    (\<exists>i\<in>set is. \<exists>ds fs'. add_dent n name ft (D ! i) = Some ds \<and>
      add_loop dir n name ft is (fs\<lparr>events := m\<rparr>) = Some (True, fs') \<and> dir_ok fs' dir (D[i := ds]) \<and>
      wrote {} (i * bsz fs) (encs ds) dir fs dir fs')"
  using assms(3)
proof (induction "is" arbitrary: m)
  case (Cons i "is")
  have i: "i < length D"
    using Cons.prems by simp
  have d': "dir_ok (fs\<lparr>events := m\<rparr>) dir D" "blocks_ok (fs\<lparr>events := m\<rparr>)"
    using assms by simp_all
  note r = dir_round [OF d' i, simplified]
  have l: "add_in_block n name ft (unat (s_block_size (sb fs))) (encs (D ! i)) 0 = Some (map_option encs (add_dent n name ft (D ! i)))"
    using add_in_block_encs [of "D ! i" name n ft "[]"] dir_okD(10,11) [OF assms(1,2) i] assms(4) by (simp add: bsz_def)
  show ?case
  proof (cases "add_dent n name ft (D ! i)")
    case None
    then have un: "add_loop dir n name ft (i # is) (fs\<lparr>events := m\<rparr>) = add_loop dir n name ft is (fs\<lparr>events := Suc m\<rparr>)"
      using r l by simp
    show ?thesis
      using Cons.IH [of "Suc m"] Cons.prems unfolding un by auto
  next
    case (Some ds)
    have a: "\<forall>d\<in>set ds. dent_ok d" "length (encs ds) = bsz fs"
      using add_dent_spec(1,2) [OF Some _ assms(4,6)] dir_okD(10,11) [OF assms(1,2) i] by auto
    note w = dir_write_block [OF assms(1,2,5) i a(2,1), of "Suc m"]
    have "add_loop dir n name ft (i # is) (fs\<lparr>events := m\<rparr>) =
        Some (True, put_blk (unat (imap fs dir i)) (encs ds) (fs\<lparr>events := Suc m\<rparr>))"
      using r l Some w(1) by simp
    then show ?thesis
      using w(2,3) Some by auto
  qed
qed auto

definition new_dent :: "ext2_fs \<Rightarrow> u32 \<Rightarrow> u8 list \<Rightarrow> u8 \<Rightarrow> dent" where
  "new_dent fs n name ft = \<lparr>e_ino = n, e_name = name, e_type = ft, e_pad = replicate (bsz fs - 8 - length name) 0\<rparr>"

lemma new_dent_ok:
  assumes "bs_ok (sb fs)" "length name < 256"
  shows "dent_ok (new_dent fs n name ft)" "e_len (new_dent fs n name ft) = bsz fs"
    "de_fill 0 n (ucast (s_block_size (sb fs))) name ft (replicate (bsz fs) 0) = Some (enc (new_dent fs n name ft))"
proof -
  have l: "8 + length name \<le> bsz fs" "bsz fs < 65536" "4 dvd bsz fs"
    using bsz_cases [OF assms(1)] assms(2) by auto
  then show e: "e_len (new_dent fs n name ft) = bsz fs"
    by (simp add: new_dent_def e_len_def)
  then show "dent_ok (new_dent fs n name ft)"
    using l assms(2) by (simp add: dent_ok_def) (simp add: new_dent_def)
  have "replicate (bsz fs) (0 :: u8) = [] @ replicate (8 + length name) 0 @ replicate (bsz fs - 8 - length name) 0"
    using l by (simp flip: replicate_add)
  moreover have "(ucast (s_block_size (sb fs)) :: u16) = of_nat (bsz fs)"
    by (simp add: bsz_def)
  ultimately show "de_fill 0 n (ucast (s_block_size (sb fs))) name ft (replicate (bsz fs) 0) = Some (enc (new_dent fs n name ft))"
    using de_fill_eq [of "replicate (8 + length name) 0" name "[]" n "of_nat (bsz fs)" ft "replicate (bsz fs - 8 - length name) 0"] e
    by (simp add: enc_def) (simp add: new_dent_def)
qed

text \<open>What adding an entry ensures.\<close>

definition added :: "nat set \<Rightarrow> u8 list \<Rightarrow> u32 \<Rightarrow> einode \<Rightarrow> dent list list \<Rightarrow> ext2_fs \<Rightarrow> einode \<Rightarrow> dent list list \<Rightarrow> ext2_fs \<Rightarrow> bool" where
  "added N name n dir D fs dir' D' fs' \<longleftrightarrow> dir_ok fs' dir' D' \<and> grown N (ino_blocks fs dir) fs fs' \<and>
     ino_blocks fs' dir' = ino_blocks fs dir \<union> N \<and> ent fs' 0 0 = ent fs 0 0 \<and>
     (\<exists>u v. entries D = u @ v \<and> entries D' = u @ (name, n) # v) \<and>
     (\<exists>bs k s. dir' = dir\<lparr>i_block := bs, i_blocks := k, i_size := s\<rparr>)"

lemma addedI:
  assumes "wrote N pos Y dir fs dir' fs'" "dir_ok fs' dir' D'" "blocks_ok fs" "0 \<notin> bitmap_blks fs"
    and "entries D = u @ v" "entries D' = u @ (name, n) # v"
  shows "added N name n dir D fs dir' D' fs'"
  unfolding added_def
proof (intro conjI)
  show "\<exists>u v. entries D = u @ v \<and> entries D' = u @ (name, n) # v"
    using assms(5,6) by blast
  show "\<exists>bs k s. dir' = dir\<lparr>i_block := bs, i_blocks := k, i_size := s\<rparr>" "grown N (ino_blocks fs dir) fs fs'"
      "ino_blocks fs' dir' = ino_blocks fs dir \<union> N"
    using assms(1) by (simp_all add: wrote_def)
qed (use assms(2) wrote_boot(1) [OF assms(1,3,4)] in simp_all)

lemma add_new_block:
  assumes "dir_ok fs dir D" "blocks_ok fs" "free_blocks fs \<inter> sys_blks fs = {}" "length name < 256" "n \<noteq> 0" "0 \<notin> bitmap_blks fs"
    and "5 \<le> card (free_blocks fs)" "length D < max_blocks fs" "Suc (length D) * bsz fs < 2 ^ 31"
  shows "\<exists>N b f1 f2 status dir1 dir' fs'. ext2_resource_alloc 0 EXT2_BLOCK_BITMAP fs = Some (b, f1) \<and> b \<noteq> - 1 \<and>
    ext2_append_block_to_inode b dir f1 = Some (status, dir1, f2) \<and> \<not> status < 0 \<and> s_block_size (sb f2) = s_block_size (sb fs) \<and> dir' = dir1\<lparr>i_size := i_size dir1 + s_block_size (sb f2)\<rparr> \<and>
    write_block b (enc (new_dent fs n name ft)) f2 = Some fs' \<and> added N name n dir D fs dir' (D @ [[new_dent fs n name ft]]) fs'"
proof -
  note d = dir_okD [OF assms(1,2)]
  let ?L = "length D" and ?e = "enc (new_dent fs n name ft)"
  have im: "imap fs dir ?L = 0"
    using d(2,5) assms(8) d(4) by (auto simp: file_ok_def)
  obtain b N dir1 f2 where g: "block_for_write 0 0 0 [] dir fs = Some (b, replicate (bsz fs) 0, dir1, f2)"
      "got_block ?L b (replicate (bsz fs) 0) N dir fs dir1 f2"
    using block_for_write_new [OF assms(2) d(3) assms(8) im _ assms(7), of 0 0 "[]"] d(4,5) by auto
  then obtain f1 status where a: "ext2_resource_alloc 0 EXT2_BLOCK_BITMAP fs = Some (b, f1)" "b \<noteq> - 1"
      "ext2_append_block_to_inode b dir f1 = Some (status, dir1, f2)" "\<not> status < 0"
    by (auto simp: block_for_write_def bind_eq_Some_conv split: if_splits)
  have gb: "grown N (ino_blocks fs dir - data_blocks fs dir) fs f2" "unat b \<in> data_blocks f2 dir1" "ino_ok f2 dir1"
    "\<exists>bs n. dir1 = dir\<lparr>i_block := bs, i_blocks := n\<rparr>"
    using g(2) by (simp_all add: got_block_def)
  note gd = grownD [OF gb(1)]
  note e = new_dent_ok [OF blocks_okD(4) [OF assms(2)] assms(4), of n ft]
  have sz: "i_size dir1 = i_size dir" "s_block_size (sb f2) = s_block_size (sb fs)"
    using gb(4) gd(7) by (auto simp: bsz_def word_unat_eq_iff)
  let ?s = "i_size dir1 + s_block_size (sb f2)"
  have us: "unat ?s = length D * bsz fs + bsz fs"
    using sz assms(9) d(5) by (simp add: unat_word_ariths bsz_def)
  have "usable f2 (unat b)"
    using gb(2,3) imap_block(2) by (auto simp: data_blocks_def)
  then have w: "write_block b ?e f2 = Some (put_blk (unat b) ?e f2)"
    using write_block_eq [of f2 b ?e] blocks_okD(4) [OF gd(1)] gd(7) e(2) by (simp add: usable_def)
  have ov: "overlay (replicate (bsz fs) 0) (?L * bsz fs mod bsz fs) ?e = ?e"
    using e(2) by (simp add: overlay_def)
  have "wrote N (?L * bsz fs) ?e dir fs (dir1\<lparr>i_size := ?s\<rparr>) (put_blk (unat b) ?e f2)"
    using g(2) assms(2,8) d(2,4,5) e(2) us ov
    by (intro put_chunk [of fs dir ?L b "replicate (bsz fs) 0" N dir1 f2 "?L * bsz fs" ?e]) auto
  note wr = this
  have "overlay (contents fs dir) (?L * bsz fs) ?e = contents fs dir @ ?e"
    using d(5) by (simp add: overlay_def contents_def)
  then have "dir_ok (put_blk (unat b) ?e f2) (dir1\<lparr>i_size := ?s\<rparr>) (D @ [[new_dent fs n name ft]])"
    using e(1,2) us assms(1,9) by (intro wrote_dir [OF wr assms(1-3)]) (auto simp: dir_ok_def)
  moreover have "entries (D @ [[new_dent fs n name ft]]) = entries D @ [(name, n)]"
    using assms(5) by (simp add: new_dent_def)
  ultimately have "added N name n dir D fs (dir1\<lparr>i_size := ?s\<rparr>) (D @ [[new_dent fs n name ft]]) (put_blk (unat b) ?e f2)"
    using addedI [OF wr _ assms(2,6), of "D @ [[new_dent fs n name ft]]" D "entries D" "[]"] by simp
  then show ?thesis
    using a w sz(2) by blast
qed

lemma added_old_block:
  assumes "dir_ok fs dir D" "blocks_ok fs" "0 \<notin> bitmap_blks fs" "i < length D" "add_dent n name ft (D ! i) = Some ds" "length name < 256" "n \<noteq> 0"
    and "dir_ok fs' dir (D[i := ds])" "wrote {} pos Y dir fs dir fs'"
  shows "added {} name n dir D fs dir (D[i := ds]) fs'"
proof -
  obtain u v where "live (D ! i) = u @ [] @ v" "live ds = u @ [(name, n)] @ v"
    using add_dent_spec(3) [OF assms(5) dir_okD(11) [OF assms(1,2,4)] assms(6,7)] by auto
  from entries_update [OF assms(4) this, unfolded append_Cons append_Nil] show ?thesis
    by (rule addedI [OF assms(9,8,2,3)])
qed

lemma ext2_add_entry_spec:
  assumes "dir_ok fs dir D" "blocks_ok fs" "free_blocks fs \<inter> sys_blks fs = {}" "length name < 256" "n \<noteq> 0" "0 \<notin> bitmap_blks fs"
    and "5 \<le> card (free_blocks fs)" "length D < max_blocks fs" "Suc (length D) * bsz fs < 2 ^ 31"
  shows "\<exists>N dir' D' fs'. ext2_add_entry dir n name ft fs = Some (0, dir', fs') \<and> added N name n dir D fs dir' D' fs'"
proof -
  let ?l = "add_loop dir n name ft [0..<length D] (fs\<lparr>events := Suc (events fs)\<rparr>)"
  note c = dir_blocks(3,6) [OF assms(1,2)] blocks_okD(3) [OF assms(2)]
  obtain k where "?l = Some (False, fs\<lparr>events := k\<rparr>) \<or>
    (\<exists>i\<in>set [0..<length D]. \<exists>ds fs'. add_dent n name ft (D ! i) = Some ds \<and>
      ?l = Some (True, fs') \<and> dir_ok fs' dir (D[i := ds]) \<and> wrote {} (i * bsz fs) (encs ds) dir fs dir fs')"
    using add_loop_spec [OF assms(1,2) all_blocks(1) assms(4,3,5), of ft "Suc (events fs)"] by blast
  then show ?thesis
  proof
    assume l: "?l = Some (False, fs\<lparr>events := k\<rparr>)"
    have d': "dir_ok (fs\<lparr>events := k\<rparr>) dir D"
      using assms(1) by simp
    obtain N b f1 f2 status dir1 dir' fs' where a: "ext2_resource_alloc 0 EXT2_BLOCK_BITMAP (fs\<lparr>events := k\<rparr>) = Some (b, f1)" "b \<noteq> - 1"
        "ext2_append_block_to_inode b dir f1 = Some (status, dir1, f2)" "\<not> status < 0" "s_block_size (sb f2) = s_block_size (sb fs)"
        "dir' = dir1\<lparr>i_size := i_size dir1 + s_block_size (sb f2)\<rparr>" "write_block b (enc (new_dent (fs\<lparr>events := k\<rparr>) n name ft)) f2 = Some fs'"
        "added N name n dir D (fs\<lparr>events := k\<rparr>) dir' (D @ [[new_dent (fs\<lparr>events := k\<rparr>) n name ft]]) fs'"
      using add_new_block [OF d', of name n ft] assms(2-9) meta_cong(4) [of "{}" fs "fs\<lparr>events := k\<rparr>"] by auto
    have f: "de_fill 0 n (ucast (s_block_size (sb fs))) name ft (replicate (unat (s_block_size (sb fs))) 0) =
        Some (enc (new_dent (fs\<lparr>events := k\<rparr>) n name ft))"
      using new_dent_ok(3) [of "fs\<lparr>events := k\<rparr>" name n ft] blocks_okD(4) [OF assms(2)] assms(4) by (simp add: bsz_def)
    have "ext2_add_entry dir n name ft fs = Some (0, dir', fs')"
      using l a(1-7) c f by (simp add: ext2_add_entry_def kmalloc_def Let_def)
    moreover have "added N name n dir D fs dir' (D @ [[new_dent (fs\<lparr>events := k\<rparr>) n name ft]]) fs'"
      using a(8) by (simp add: added_def ent_def)
    ultimately show ?thesis
      by blast
  next
    assume "\<exists>i\<in>set [0..<length D]. \<exists>ds fs'. add_dent n name ft (D ! i) = Some ds \<and>
      ?l = Some (True, fs') \<and> dir_ok fs' dir (D[i := ds]) \<and> wrote {} (i * bsz fs) (encs ds) dir fs dir fs'"
    then obtain i ds fs' where i: "i < length D" "add_dent n name ft (D ! i) = Some ds" "?l = Some (True, fs')"
        "dir_ok fs' dir (D[i := ds])" "wrote {} (i * bsz fs) (encs ds) dir fs dir fs'"
      by auto
    have "ext2_add_entry dir n name ft fs = Some (0, dir, fs')"
      using i(3) c by (simp add: ext2_add_entry_def kmalloc_def Let_def)
    then show ?thesis
      using added_old_block [OF assms(1,2,6) i(1,2) assms(4,5) i(4,5)] by blast
  qed
qed

section \<open>Removing an entry\<close>

lemma dir_ok_cong:
  "i_block x = i_block y \<Longrightarrow> i_size x = i_size y \<Longrightarrow> i_no x = i_no y \<Longrightarrow> dir_ok fs x = dir_ok fs y"
  using inode_ok_cong [of x y fs] by (simp add: dir_ok_def fun_eq_iff)

lemma dir_frame:
  assumes "dir_ok fs dir D" "blocks_ok fs" "grown N X fs fs'" "ino_blocks fs dir \<inter> X = {}"
  shows "dir_ok fs' dir D"
proof -
  have i: "inode_ok fs dir"
    by (rule dir_okD(1) [OF assms(1,2)])
  then have "file_ok fs dir"
    by (simp add: inode_ok_def)
  note f = file_frame [OF this assms(3,2,4)] and gd = grownD [OF assms(3)]
  have "inode_ok fs' dir"
    using i f(1,3) meta_cong(4,7) [OF gd(4)] by (simp add: inode_ok_def)
  then show ?thesis
    using assms(1) f(2) gd(7) by (simp add: dir_ok_def)
qed

lemma remove_loop_spec:
  assumes "dir_ok fs dir D" "blocks_ok fs" "\<forall>i\<in>set is. i < length D" "free_blocks fs \<inter> sys_blks fs = {}"
  shows "\<exists>k. remove_loop dir name is (fs\<lparr>events := m\<rparr>) = Some (False, fs\<lparr>events := k\<rparr>) \<and> name \<notin> fst ` set (entries (map ((!) D) is)) \<or>
    (\<exists>i ds xs ys fs'. is = xs @ i # ys \<and> name \<notin> fst ` set (entries (map ((!) D) xs)) \<and> del_dent name (D ! i) = Some ds \<and>
      remove_loop dir name is (fs\<lparr>events := m\<rparr>) = Some (True, fs') \<and> dir_ok fs' dir (D[i := ds]) \<and>
      wrote {} (i * bsz fs) (encs ds) dir fs dir fs')"
  using assms(3)
proof (induction "is" arbitrary: m)
  case (Cons i "is")
  have i: "i < length D"
    using Cons.prems by simp
  have d': "dir_ok (fs\<lparr>events := m\<rparr>) dir D" "blocks_ok (fs\<lparr>events := m\<rparr>)"
    using assms by simp_all
  note r = dir_round [OF d' i, simplified] and b = dir_blocks(1,2) [OF assms(1,2)] and c = dir_okD(10,11) [OF assms(1,2) i]
  have "length (encs (D ! i)) < 65536"
    using c(1) bsz_cases [OF blocks_okD(4) [OF assms(2)]] by auto
  note del = del_dent_spec [OF c(2) this, of name]
  have l: "remove_in_block name (bsz fs) (encs (D ! i)) None 0 = Some (map_option encs (del_dent name (D ! i)))"
    using remove_in_block_encs [OF c(2), of name] c(1) by simp
  show ?case
  proof (cases "del_dent name (D ! i)")
    case None
    then have un: "remove_loop dir name (i # is) (fs\<lparr>events := m\<rparr>) = remove_loop dir name is (fs\<lparr>events := Suc m\<rparr>)"
      using r l b by simp
    have n: "name \<notin> fst ` set (live (D ! i))"
      using del None by simp
    have "\<forall>i\<in>set is. i < length D"
      using Cons.prems by simp
    from Cons.IH [OF this, of "Suc m"] obtain k where "remove_loop dir name is (fs\<lparr>events := Suc m\<rparr>) = Some (False, fs\<lparr>events := k\<rparr>) \<and> name \<notin> fst ` set (entries (map ((!) D) is)) \<or>
      (\<exists>i ds xs ys fs'. is = xs @ i # ys \<and> name \<notin> fst ` set (entries (map ((!) D) xs)) \<and> del_dent name (D ! i) = Some ds \<and>
        remove_loop dir name is (fs\<lparr>events := Suc m\<rparr>) = Some (True, fs') \<and> dir_ok fs' dir (D[i := ds]) \<and>
        wrote {} (i * bsz fs) (encs ds) dir fs dir fs')" (is "?A \<or> ?B")
      by (rule exE)
    then show ?thesis
    proof
      assume ?A
      then show ?thesis
        using n un by (intro exI [of _ k] disjI1) auto
    next
      assume ?B
      then obtain j ds xs ys fs' where j: "is = xs @ j # ys" "name \<notin> fst ` set (entries (map ((!) D) xs))" "del_dent name (D ! j) = Some ds"
        "remove_loop dir name is (fs\<lparr>events := Suc m\<rparr>) = Some (True, fs')" "dir_ok fs' dir (D[j := ds])" "wrote {} (j * bsz fs) (encs ds) dir fs dir fs'"
        by blast
      show ?thesis
        using j n un by (intro exI [of _ k] disjI2 exI [of _ j] exI [of _ ds] exI [of _ "i # xs"] exI [of _ ys] exI [of _ fs']) auto
    qed
  next
    case (Some ds)
    have a: "\<forall>d\<in>set ds. dent_ok d" "length (encs ds) = bsz fs"
      using del Some c(1) by simp_all
    note w = dir_write_block [OF assms(1,2,4) i a(2,1), of "Suc m"]
    have "remove_loop dir name (i # is) (fs\<lparr>events := m\<rparr>) =
        Some (True, put_blk (unat (imap fs dir i)) (encs ds) (fs\<lparr>events := Suc m\<rparr>))"
      using r l Some w(1) b by (simp add: write_block_def)
    then show ?thesis
      using w(2,3) Some by (intro exI [of _ 0] disjI2 exI [of _ i] exI [of _ ds] exI [of _ "[]"] exI [of _ "is"]) auto
  qed
qed auto

text \<open>What removing an entry ensures: the first one with the name is gone.\<close>

definition removed :: "u8 list \<Rightarrow> dent list list \<Rightarrow> dent list list \<Rightarrow> bool" where
  "removed name D D' \<longleftrightarrow> (\<exists>u n v. entries D = u @ (name, n) # v \<and> name \<notin> fst ` set u \<and> entries D' = u @ v)"

lemma disk_blocks: "disk_ok fs \<Longrightarrow> blocks_ok fs \<and> free_blocks fs \<inter> sys_blks fs = {} \<and> 0 \<notin> bitmap_blks fs"
  by (simp add: disk_okD)

lemma upt_split:
  assumes "[0..<n] = xs @ i # ys"
  shows "i < n" "xs = [0..<i]"
proof -
  have l: "length xs < n"
    using arg_cong [OF assms, of length] by simp
  then have "[0..<n] ! length xs = length xs"
    by simp
  then have "i = length xs"
    unfolding assms by simp
  then show "i < n" "xs = [0..<i]"
    using l arg_cong [OF assms, of "take (length xs)"] by simp_all
qed

lemma remove_loop_all:
  assumes "dir_ok fs dir D" "disk_ok fs"
  shows "if name \<in> fst ` set (entries D)
    then \<exists>D' fs'. remove_loop dir name [0..<length D] (fs\<lparr>events := m\<rparr>) = Some (True, fs') \<and> dir_ok fs' dir D' \<and> removed name D D' \<and>
      grown {} (ino_blocks fs dir) fs fs' \<and> disk_ok fs' \<and> ino_blocks fs' dir = ino_blocks fs dir
    else \<exists>k. remove_loop dir name [0..<length D] (fs\<lparr>events := m\<rparr>) = Some (False, fs\<lparr>events := k\<rparr>)"
proof -
  note dk = disk_okD [OF assms(2)]
  let ?l = "remove_loop dir name [0..<length D] (fs\<lparr>events := m\<rparr>)"
  have mem: "?thesis" if t: "[0..<length D] = xs @ i # ys" "name \<notin> fst ` set (entries (map ((!) D) xs))" "del_dent name (D ! i) = Some ds"
    "?l = Some (True, fs')" "dir_ok fs' dir (D[i := ds])" "wrote {} (i * bsz fs) (encs ds) dir fs dir fs'" for xs i ys ds fs'
  proof -
    note xs = upt_split [OF t(1)] and c = dir_okD(10,11) [OF assms(1) dk(1) upt_split(1) [OF t(1)]]
    have tk: "map ((!) D) xs = take i D"
      using xs by (intro nth_equalityI) simp_all
    have "length (encs (D ! i)) < 65536"
      using c(1) bsz_cases [OF dk(3)] by auto
    from del_dent_spec [OF c(2) this, of name] t(3) obtain u n v where
      u: "live (D ! i) = u @ [(name, n)] @ v" "name \<notin> fst ` set u" "live ds = u @ [] @ v"
      by auto
    note e = entries_update [OF xs(1) u(1,3)]
    have "removed name D (D[i := ds])"
      unfolding removed_def using e u(2) t(2) tk
      by (intro exI [of _ "entries (take i D) @ u"] exI [of _ n] exI [of _ "v @ entries (drop (Suc i) D)"]) auto
    moreover have "name \<in> fst ` set (entries D)"
      unfolding e(1) by simp
    moreover have g: "grown {} (ino_blocks fs dir) fs fs'" "ino_blocks fs' dir = ino_blocks fs dir"
      using t(6) by (simp_all add: wrote_def)
    moreover have "disk_ok fs'"
      using grown_disk_ok [OF assms(2) g(1)] wrote_boot(1) [OF t(6) dk(1,10)] dk(9) by simp
    ultimately show ?thesis
      using t(4,5) by auto
  qed
  from remove_loop_spec [OF assms(1) dk(1) all_blocks(1) dk(7), of name m] show ?thesis
    unfolding all_blocks(2)
  proof (elim exE disjE conjE)
    show ?thesis if "?l = Some (False, fs\<lparr>events := k\<rparr>)" "name \<notin> fst ` set (entries D)" for k
      using that by auto
  qed (rule mem)
qed

lemma dir_synced:
  assumes "dir_ok fs dir D" "disk_ok fs" "synced fs fs'"
  shows "dir_ok fs' dir D"
  using dir_frame [OF assms(1) disk_okD(1) [OF assms(2)] synced_grown(1) [OF assms(2,3)]] dir_okD(1) [OF assms(1) disk_okD(1) [OF assms(2)]]
  by (simp add: inode_ok_def)

lemma write_dir_inode:
  assumes "dir_ok fs dir D" "disk_ok fs"
  shows "\<exists>fs' now. ext2_write_inode dir fs = Some (dir\<lparr>i_ctime := now\<rparr>, fs') \<and> synced fs fs' \<and> disk_ok fs' \<and> dir_ok fs' (dir\<lparr>i_ctime := now\<rparr>) D \<and>
    (\<forall>x. i_no x = i_no dir \<longrightarrow> ext2_read_inode x fs' = Some (reread dir now x)) \<and>
    (\<forall>x. inode_no_ok fs (unat (i_no x)) \<longrightarrow> i_no x \<noteq> i_no dir \<longrightarrow> ext2_read_inode x fs' = ext2_read_inode x fs)"
proof -
  have "inode_no_ok fs (unat (i_no dir))" "length (i_block dir) = 15"
    using dir_okD(1,3) [OF assms(1) disk_okD(1) [OF assms(2)]] by (simp_all add: inode_ok_def ino_ok_def)
  from write_inode_disk [OF assms(2) this] obtain fs' now where w: "ext2_write_inode dir fs = Some (dir\<lparr>i_ctime := now\<rparr>, fs')" "synced fs fs'" "disk_ok fs'"
      "\<forall>x. i_no x = i_no dir \<longrightarrow> ext2_read_inode x fs' = Some (reread dir now x)"
      "\<forall>x. inode_no_ok fs (unat (i_no x)) \<longrightarrow> i_no x \<noteq> i_no dir \<longrightarrow> ext2_read_inode x fs' = ext2_read_inode x fs"
    by blast
  have "dir_ok fs' (dir\<lparr>i_ctime := now\<rparr>) D"
    using dir_synced [OF assms w(2)] dir_ok_cong [of "dir\<lparr>i_ctime := now\<rparr>" dir fs'] by simp
  then show ?thesis
    using w by blast
qed

lemma ext2_remove_entry_spec:
  assumes "dir_ok fs dir D" "disk_ok fs"
  shows "if name \<in> fst ` set (entries D)
    then \<exists>D' fs' now. ext2_remove_entry dir name fs = Some (0, dir\<lparr>i_ctime := now\<rparr>, fs') \<and> dir_ok fs' (dir\<lparr>i_ctime := now\<rparr>) D' \<and> removed name D D' \<and>
      grown {} (ino_blocks fs dir \<union> sys_blks fs) fs fs' \<and> disk_ok fs' \<and> ino_blocks fs' dir = ino_blocks fs dir
    else \<exists>k. ext2_remove_entry dir name fs = Some (- 1, dir, fs\<lparr>events := k\<rparr>)"
proof (cases "name \<in> fst ` set (entries D)")
  case True
  note dk = disk_okD [OF assms(2)] and b = dir_blocks [OF assms(1) disk_okD(1) [OF assms(2)]]
  obtain D' f1 where l: "remove_loop dir name [0..<length D] (fs\<lparr>events := Suc (events fs)\<rparr>) = Some (True, f1)" "dir_ok f1 dir D'" "removed name D D'"
      "grown {} (ino_blocks fs dir) fs f1" "disk_ok f1" "ino_blocks f1 dir = ino_blocks fs dir"
    using remove_loop_all [OF assms, of name "Suc (events fs)"] True by auto
  obtain fs' now where w: "ext2_write_inode dir f1 = Some (dir\<lparr>i_ctime := now\<rparr>, fs')" "synced f1 fs'" "disk_ok fs'" "dir_ok fs' (dir\<lparr>i_ctime := now\<rparr>) D'"
    using write_dir_inode [OF l(2,5)] by blast
  have s: "sys_blks f1 = sys_blks fs"
    by (rule meta_cong(4) [OF grownD(4) [OF l(4)]])
  have g: "grown {} (sys_blks fs) f1 fs'"
    using synced_grown(1) [OF l(5) w(2)] s by simp
  have "ino_blocks fs' dir = ino_blocks f1 dir"
    using file_frame(3) [OF _ g disk_okD(1) [OF l(5)]] dir_okD(1,2) [OF l(2) disk_okD(1) [OF l(5)]] s by (simp add: inode_ok_def)
  moreover have "grown {} (ino_blocks fs dir \<union> sys_blks fs) fs fs'"
    using grown_trans [OF l(4) g] by simp
  moreover have "ext2_remove_entry dir name fs = Some (0, dir\<lparr>i_ctime := now\<rparr>, fs')"
    using l(1) w(1) b blocks_okD(3) [OF dk(1)] by (simp add: ext2_remove_entry_def kmalloc_def Let_def)
  ultimately show ?thesis
    using True w l(3,6) by auto
next
  case False
  then obtain k where "remove_loop dir name [0..<length D] (fs\<lparr>events := Suc (events fs)\<rparr>) = Some (False, fs\<lparr>events := k\<rparr>)"
    using remove_loop_all [OF assms, of name "Suc (events fs)"] by auto
  then have "ext2_remove_entry dir name fs = Some (- 1, dir, fs\<lparr>events := k\<rparr>)"
    using dir_blocks [OF assms(1) disk_okD(1) [OF assms(2)]] blocks_okD(3) [OF disk_okD(1) [OF assms(2)]]
    by (simp add: ext2_remove_entry_def kmalloc_def Let_def)
  then show ?thesis
    using False by auto
qed

section \<open>The first block of a directory\<close>

definition dot_dents :: "ext2_fs \<Rightarrow> u32 \<Rightarrow> u32 \<Rightarrow> dent list" where
  "dot_dents fs self parent =
     [\<lparr>e_ino = self, e_name = [46], e_type = 2, e_pad = replicate 3 0\<rparr>,
      \<lparr>e_ino = parent, e_name = [46, 46], e_type = 2, e_pad = replicate (bsz fs - 22) 0\<rparr>]"

lemma dot_dents_ok:
  assumes "bs_ok (sb fs)"
  shows "\<forall>d\<in>set (dot_dents fs self parent). dent_ok d" "length (encs (dot_dents fs self parent)) = bsz fs"
    "self \<noteq> 0 \<Longrightarrow> parent \<noteq> 0 \<Longrightarrow> live (dot_dents fs self parent) = [([46], self), ([46, 46], parent)]"
  using bsz_cases [OF assms] by (auto simp: dot_dents_def dent_ok_def e_len_def)

lemma ext2_init_dir_block_spec:
  assumes "blocks_ok fs" "vblk fs (unat b)"
  shows "ext2_init_dir_block b self parent fs =
    Some (put_blk (unat b) (encs (dot_dents fs self parent)) (fs\<lparr>events := Suc (events fs)\<rparr>))"
proof -
  note bs = blocks_okD(4) [OF assms(1)]
  have bz: "22 \<le> bsz fs" "12 \<le> unat (s_block_size (sb fs))" "12 \<le> s_block_size (sb fs)"
    using bsz_cases [OF bs] by (auto simp: bsz_def u32_le)
  have "unat (s_block_size (sb fs) - 12) = bsz fs - 12"
    using unat_minus_no_wrap [of 12 "s_block_size (sb fs)"] bz(2) by (simp add: bsz_def)
  then have w: "(ucast (s_block_size (sb fs) - 12) :: u16) = of_nat (bsz fs - 12)"
    using ucast_unat [of "s_block_size (sb fs) - 12"] by metis
  let ?d = "\<lparr>e_ino = self, e_name = [46], e_type = 2, e_pad = replicate 3 0\<rparr>"
  have 0: "replicate (bsz fs) (0 :: u8) = [] @ replicate 9 0 @ replicate (bsz fs - 9) 0"
    using bz by (simp flip: replicate_add)
  have 1: "de_fill 0 self 12 [46] 2 (replicate (bsz fs) 0) = Some (enc ?d @ replicate 10 0 @ replicate (bsz fs - 22) 0)"
  proof -
    have "replicate (bsz fs - 9) (0 :: u8) = replicate 3 0 @ replicate 10 0 @ replicate (bsz fs - 22) 0"
      using bz by (simp flip: replicate_add)
    then show ?thesis
      using de_fill_eq [of "replicate 9 0" "[46]" "[]" self 12 2 "replicate (bsz fs - 9) 0"] unfolding 0 by (simp add: enc_def e_len_def)
  qed
  have 2: "de_fill 12 parent (of_nat (bsz fs - 12)) [46, 46] 2 (enc ?d @ replicate 10 0 @ replicate (bsz fs - 22) 0) =
      Some (encs (dot_dents fs self parent))"
    using de_fill_eq [of "replicate 10 0" "[46, 46]" "enc ?d" parent "of_nat (bsz fs - 12)" 2 "replicate (bsz fs - 22) 0"] bz
    by (simp add: dot_dents_def enc_def e_len_def)
  show ?thesis
    using 1 2 w write_block_eq [of "fs\<lparr>events := Suc (events fs)\<rparr>" b] bs assms(2) dot_dents_ok(2) [OF bs] blocks_okD(3) [OF assms(1)]
    by (simp add: ext2_init_dir_block_def kmalloc_def Let_def flip: bsz_def)
qed

text \<open>A moved directory: the number of the second entry of its first block is replaced.\<close>

lemma ext2_update_dotdot_spec:
  assumes "dir_ok fs dir ((d # e # ds) # D)" "disk_ok fs"
  shows "\<exists>fs'. ext2_update_dotdot dir n fs = Some fs' \<and> dir_ok fs' dir ((d # e\<lparr>e_ino := n\<rparr> # ds) # D) \<and>
    grown {} (ino_blocks fs dir) fs fs' \<and> disk_ok fs' \<and> ino_blocks fs' dir = ino_blocks fs dir"
proof -
  note dk = disk_okD [OF assms(2)]
  let ?D = "(d # e # ds) # D" and ?f = "fs\<lparr>events := Suc (events fs)\<rparr>" and ?e = "e\<lparr>e_ino := n\<rparr>"
  have d': "dir_ok ?f dir ?D" "blocks_ok ?f"
    using assms(1) dk(1) by simp_all
  have b: "ext2_bmap dir 0 ?f = Some (imap fs dir 0, fs\<lparr>events := Suc (Suc (events fs))\<rparr>)"
      "read_block (imap fs dir 0) (fs\<lparr>events := m\<rparr>) = enc d @ enc e @ encs ds" for m
    using dir_round(1,2) [OF d', of 0] by simp_all
  note o = dir_okD(10,11) [OF assms(1) dk(1), of 0, simplified]
  have dd: "dent_ok d" "dent_ok e"
    using o(2) by simp_all
  have r: "de_rec_len (enc d @ enc e @ encs ds) 0 = Some (of_nat (e_len d))"
    using de_fields(2) [of "[]" d] by simp
  have m: "memcpy_to (enc d @ enc e @ encs ds) (e_len d) (bytes32 n) = Some (encs (d # ?e # ds))"
    using memcpy_to_mid [of "bytes32 (e_ino e)" "bytes32 n" "e_len d" "enc d"
        "bytes16 (of_nat (e_len e)) @ [of_nat (length (e_name e)), e_type e] @ e_name e @ e_pad e @ encs ds"]
    by (simp add: enc_def [of e] enc_def [of ?e] e_len_def [of e] e_len_def [of ?e])
  have n: "length (encs (d # ?e # ds)) = bsz fs" "\<forall>x\<in>set (d # ?e # ds). dent_ok x"
    using o by (auto simp: e_len_def dent_ok_def)
  note w = dir_write_block [OF assms(1) dk(1,7) _ n, of 0 "Suc (Suc (events fs))", simplified]
  let ?fs' = "put_blk (unat (imap fs dir 0)) (encs (d # ?e # ds)) (fs\<lparr>events := Suc (Suc (events fs))\<rparr>)"
  have "ext2_update_dotdot dir n fs = Some ?fs'"
    using b r m w(1) unat_rec_len [OF dd(1)] blocks_okD(3) [OF dk(1)]
    by (simp add: ext2_update_dotdot_def kmalloc_def Let_def)
  moreover have g: "grown {} (ino_blocks fs dir) fs ?fs'" "ino_blocks ?fs' dir = ino_blocks fs dir"
    using w(3) by (simp_all add: wrote_def)
  moreover have "disk_ok ?fs'"
    using grown_disk_ok [OF assms(2) g(1)] wrote_boot(1) [OF w(3) dk(1,10)] dk(9) by simp
  ultimately show ?thesis
    using w(2) by auto
qed

end
