(* ===== verification/Ext2_Fs.thy ===== *)
theory Ext2_Fs
  imports Ext2_Dir
begin

text \<open>
  The properties of the ext2 file system as a whole, with a small disk that they are evaluated on.
\<close>

section \<open>A small disk\<close>

text \<open>
  Blocks of 1024 bytes and one group with 16 blocks, numbered from 1, and 8 inodes. Block 1 is the super block, 2
  the descriptor, 3 and 4 the bitmaps, 5 the inode table; the others are free. Inodes 1 to 3 are in use.
\<close>

definition ex_super :: super_block where
  "ex_super = \<lparr>s_block_size = 1024, s_root_ino = 2, s_log_block_size = 0, s_first_data_block = 1, s_blocks_per_group = 16,
     s_inodes_per_group = 8, s_free_blocks_count = 11, s_free_inodes_count = 5, group_desc_cnt = 1,
     group_desc = [\<lparr>bg_block_bitmap = 3, bg_inode_bitmap = 4, bg_inode_table = 5, bg_free_blocks_count = 11,
       bg_free_inodes_count = 5, bg_used_dirs_count = 1, bg_rest = replicate 14 0\<rparr>],
     gdt_rest = replicate 480 0, sb_raw = replicate 1024 0\<rparr>"

definition ex_fs :: ext2_fs where
  "ex_fs = \<lparr>sb = ex_super, store = (\<lambda>i. if i = 3072 then 0x1f else if i = 4096 then 7 else 0), kmem = (\<lambda>_. True),
     clock = (\<lambda>n. of_nat n), events = 0\<rparr>"

lemma ex_geometry:
  "bsz ex_fs = 1024" "ngroups ex_fs = 1" "bs_ok (sb ex_fs)" "vblk ex_fs b \<longleftrightarrow> b < 2147483648"
  "bitmap_blk ex_fs EXT2_BLOCK_BITMAP 0 = 3" "bitmap_blk ex_fs EXT2_INODE_BITMAP 0 = 4" "bitmap_blks ex_fs = {3, 4}"
proof -
  show b: "bitmap_blk ex_fs EXT2_BLOCK_BITMAP 0 = 3" "bitmap_blk ex_fs EXT2_INODE_BITMAP 0 = 4" and n: "ngroups ex_fs = 1"
    by (simp_all add: bitmap_blk_def ex_fs_def ex_super_def ngroups_def)
  show "bitmap_blks ex_fs = {3, 4}"
    using b n by (auto simp: bitmap_blks_def) (metis (full_types) b ext2_bitmap_type.exhaust)+
  show "bsz ex_fs = 1024" "bs_ok (sb ex_fs)"
    by (simp_all add: bsz_def bs_ok_def ex_fs_def ex_super_def EXT2_BLOCK_UNIT_def)
  then show "vblk ex_fs b \<longleftrightarrow> b < 2147483648"
    by (auto simp: vblk_def)
qed

lemma ex_free:
  "bm_free (group_bm ex_fs EXT2_BLOCK_BITMAP 0) = {5..<16}" "bm_free (group_bm ex_fs EXT2_INODE_BITMAP 0) = {3..<8}"
proof -
  have b: "bits (group_bm ex_fs EXT2_BLOCK_BITMAP 0) ! 0 = 0x1f" "bits (group_bm ex_fs EXT2_BLOCK_BITMAP 0) ! Suc 0 = 0"
      "bits (group_bm ex_fs EXT2_INODE_BITMAP 0) ! 0 = 7"
    by (simp_all add: group_bm_def ex_geometry blk_def) (simp_all add: ex_fs_def)
  have n: "bm_nr (group_bm ex_fs EXT2_BLOCK_BITMAP 0) = 16" "bm_nr (group_bm ex_fs EXT2_INODE_BITMAP 0) = 8"
    by (simp_all add: bm_nr_def group_bm_def ex_fs_def ex_super_def)
  have "\<forall>i\<in>set [0..<16]. bm_bit (group_bm ex_fs EXT2_BLOCK_BITMAP 0) i \<longleftrightarrow> i < 5"
    by (simp add: bm_bit_def b upt_rec)
  moreover have "\<forall>i\<in>set [0..<8]. bm_bit (group_bm ex_fs EXT2_INODE_BITMAP 0) i \<longleftrightarrow> i < 3"
    by (simp add: bm_bit_def b upt_rec)
  ultimately show "bm_free (group_bm ex_fs EXT2_BLOCK_BITMAP 0) = {5..<16}" "bm_free (group_bm ex_fs EXT2_INODE_BITMAP 0) = {3..<8}"
    by (auto simp: bm_free_def n)
qed

lemma ex_free_set: "free_blocks ex_fs = {6..<17}" "free_set ex_fs EXT2_INODE_BITMAP = {4..<9}"
proof -
  have "free_set ex_fs t = (\<lambda>i. res_id ex_fs t 0 i) ` bm_free (group_bm ex_fs t 0)" for t
    by (auto simp: free_set_def ex_geometry(2))
  moreover have "res_id ex_fs EXT2_BLOCK_BITMAP 0 i = Suc i" "res_id ex_fs EXT2_INODE_BITMAP 0 i = Suc i" for i
    by (simp_all add: res_id_def ex_fs_def ex_super_def)
  ultimately show "free_blocks ex_fs = {6..<17}" "free_set ex_fs EXT2_INODE_BITMAP = {4..<9}"
    by (simp_all add: ex_free)
qed

lemma ex_blocks_ok: "blocks_ok ex_fs"
proof -
  have "counts_ok ex_fs t" for t
    by (cases t) (simp_all add: counts_ok_def ex_geometry(2) ex_free ex_free_set free_count_def, simp_all add: ex_fs_def ex_super_def)
  moreover have "geom_ok ex_fs"
    unfolding geom_ok_def
  proof (intro conjI allI impI)
    show "bitmaps_apart ex_fs"
      unfolding bitmaps_apart_def using ex_geometry by (metis (full_types) ext2_bitmap_type.exhaust less_one numeral_eq_iff semiring_norm(88))
    show "vblk ex_fs (bitmap_blk ex_fs t g)" if "g < ngroups ex_fs" for t g
      using that ex_geometry by (cases t) simp_all
  next
    fix t show "0 < unat (bits_per_group t (sb ex_fs))" "8 dvd unat (bits_per_group t (sb ex_fs))"
      "unat (bits_per_group t (sb ex_fs)) \<le> 8 * bsz ex_fs"
      "unat (first_number t (sb ex_fs)) + ngroups ex_fs * unat (bits_per_group t (sb ex_fs)) \<le> 2 ^ 31"
      unfolding ex_geometry by (cases t; simp add: ex_fs_def ex_super_def)+
  qed (simp_all add: ex_geometry, simp add: ex_fs_def ex_super_def)
  ultimately show ?thesis
    by (auto simp: blocks_ok_def ex_free_set ex_geometry) (simp add: ex_fs_def)
qed

lemma ex_sys_blks: "itab_blks ex_fs 0 = {5}" "all_itabs ex_fs = {5}" "gdt_blks ex_fs = {2}" "sb_blk ex_fs = 1" "sys_blks ex_fs = {1, 2, 5}"
proof -
  show i: "itab_blks ex_fs 0 = {5}"
    by (simp add: itab_blks_def ex_geometry, simp add: ex_fs_def ex_super_def atLeastLessThanSuc)
  show "all_itabs ex_fs = {5}" "gdt_blks ex_fs = {2}" "sb_blk ex_fs = 1"
    by (simp_all add: all_itabs_def gdt_blks_def sb_blk_def ex_geometry lessThan_Suc i, simp add: ex_fs_def ex_super_def atLeastLessThanSuc)
  then show "sys_blks ex_fs = {1, 2, 5}"
    by (auto simp: sys_blks_def)
qed

lemma ex_disk_ok: "disk_ok ex_fs"
proof -
  have "super_ok ex_fs"
    by (simp add: super_ok_def ex_geometry) (simp add: ex_fs_def ex_super_def DIV_ROUND_UP_def SECTOR_SIZE_def)
  moreover have "itab_ok ex_fs"
    by (simp add: itab_ok_def ex_geometry ex_sys_blks)
  moreover have "ent ex_fs 0 0 = 0"
    by (simp add: ent_def le32_def blk_def ex_geometry) (simp add: ex_fs_def)
  ultimately show ?thesis
    using ex_blocks_ok by (simp add: disk_ok_def ex_geometry ex_sys_blks ex_free_set)
qed

text \<open>An empty regular file in inode 3.\<close>

definition ex_inode :: einode where
  "ex_inode = \<lparr>i_type = FT_REGULAR, i_mode = 0x81ff, i_size = 0, i_no = 3, i_dev = 0, i_open_cnts = 1, write_deny = False,
     i_mount = 0, i_mount_at = 0, i_atime = 0, i_mtime = 0, i_ctime = 0, pipe_base = 0, i_nlink = 1, i_blocks = 0, i_rdev = 0,
     i_block = replicate 15 0, i_links_count = 1, i_dtime = 0\<rparr>"

lemma ex_inode_ok: "inode_ok ex_fs ex_inode" "contents ex_fs ex_inode = []"
proof -
  have b: "k < 15 \<Longrightarrow> i_block ex_inode ! k = 0" for k
    by (simp add: ex_inode_def)
  then have t: "ino_blocks ex_fs ex_inode = {}"
    by (simp add: ino_blocks_def)
  have "imap ex_fs ex_inode i = 0" if "i < max_blocks ex_fs" for i
  proof -
    obtain k j where s: "slot (ppb ex_fs) i = (k, j)"
      by fastforce
    from slot_range(1) [OF that [unfolded max_blocks_def] s] show ?thesis
      using b s by (simp add: imap_def)
  qed
  moreover have "ino_ok ex_fs ex_inode"
    using b t by (simp add: ino_ok_def) (simp add: ex_inode_def)
  moreover have "inode_no_ok ex_fs (unat (i_no ex_inode))"
    unfolding in_range_def ex_geometry by (simp add: ex_inode_def ex_fs_def ex_super_def)
  ultimately show "inode_ok ex_fs ex_inode"
    using t by (simp add: inode_ok_def file_ok_def) (simp add: ex_inode_def)
  show "contents ex_fs ex_inode = []"
    by (simp add: contents_def ex_inode_def)
qed

section \<open>Files\<close>

text \<open>
  C3. Writing to a file of a mounted disk at or before its end, with five free blocks for every block the file grows by,
  writes all bytes: the contents of the file are the old ones overlaid with the buffer, reading at the old
  position gives the buffer back, the inode read back from the disk has the same contents, no other file
  changes, and disk and file stay sound.
\<close>

theorem ext2_write_read:
  assumes "disk_ok fs" "inode_ok fs ino" "fd_inode f = Some a" "unat (fd_pos f) \<le> unat (i_size ino)"
    and "unat (fd_pos f) + unat count \<le> max_blocks fs * bsz fs" "unat (fd_pos f) + unat count < 2 ^ 32"
    and "unat count \<le> length buf" "length fresh = bsz fs"
    and "5 * (nblocks fs (unat (fd_pos f) + unat count) - nblocks fs (unat (i_size ino))) \<le> card (free_blocks fs)"
  shows "\<exists>ino' f' fs'. ext2_file_write a fresh ino f buf count fs = Some (sint count, ino', f', fs') \<and> disk_ok fs' \<and> inode_ok fs' ino' \<and>
    contents fs' ino' = overlay (contents fs ino) (unat (fd_pos f)) (take (unat count) buf) \<and>
    (\<exists>n. ext2_file_read ino' f count fs' = Some (sint count, take (unat count) buf, f', fs'\<lparr>events := n\<rparr>)) \<and>
    (\<exists>y. ext2_read_inode ino fs' = Some y \<and> contents fs' y = contents fs' ino') \<and>
    (\<forall>x. inode_ok fs x \<and> ino_blocks fs x \<inter> ino_blocks fs ino = {} \<longrightarrow> inode_ok fs' x \<and> contents fs' x = contents fs x)"
proof -
  let ?p = "unat (fd_pos f)"
  obtain N i1 fs' now where w: "ext2_file_write a fresh ino f buf count fs =
        Some (sint count, i1\<lparr>i_ctime := now\<rparr>, f\<lparr>fd_pos := fd_pos f + count\<rparr>, fs')"
      "disk_ok fs'" "inode_ok fs' i1" "grown N (ino_blocks fs ino \<union> sys_blks fs) fs fs'"
      "contents fs' i1 = overlay (contents fs ino) ?p (take (unat count) buf)"
      "unat (i_size i1) = max (unat (i_size ino)) (?p + unat count)" "i_no i1 = i_no ino"
      "\<forall>x. i_no x = i_no ino \<longrightarrow> ext2_read_inode x fs' = Some (reread i1 now x)"
    using ext2_file_write_spec [OF assms] by blast
  let ?i = "i1\<lparr>i_ctime := now\<rparr>" and ?c = "take (unat count) buf"
  note c = inode_ok_cong [of ?i i1 fs', simplified]
  have cl: "length (contents fs ino) = unat (i_size ino)"
    by (simp add: contents_def)
  have "\<exists>n. ext2_file_read ?i f count fs' = Some (sint count, ?c, f\<lparr>fd_pos := fd_pos f + count\<rparr>, fs'\<lparr>events := n\<rparr>)"
  proof -
    have "file_ok fs' ?i" "?p \<le> unat (i_size ?i)"
      using c(1) w(3,6) by (simp_all add: inode_ok_def)
    moreover have "unat count = min (unat count) (unat (i_size ?i) - ?p)"
      using w(6) by simp
    moreover have "take (unat count) (drop ?p (contents fs' ?i)) = ?c"
      using c(2) w(5) assms(4,7) cl by (simp add: overlay_def)
    ultimately show ?thesis
      using ext2_file_read_spec [OF disk_okD(1) [OF w(2)], of ?i f count "unat count"] assms(6) by simp
  qed
  moreover have "\<exists>y. ext2_read_inode ino fs' = Some y \<and> contents fs' y = contents fs' ?i"
  proof -
    have "i_block (reread i1 now ino) = i_block i1" "i_size (reread i1 now ino) = i_size i1" "i_no (reread i1 now ino) = i_no i1"
      using w(7) by (simp_all add: reread_def Let_def)
    then show ?thesis
      using w(8) c(2) inode_ok_cong(2) [of "reread i1 now ino" i1 fs'] by simp
  qed
  moreover have "inode_ok fs' x \<and> contents fs' x = contents fs x" if "inode_ok fs x" "ino_blocks fs x \<inter> ino_blocks fs ino = {}" for x
  proof -
    have x: "file_ok fs x" "ino_blocks fs x \<inter> (ino_blocks fs ino \<union> sys_blks fs) = {}"
      using that by (auto simp: inode_ok_def)
    note ff = file_frame [OF x(1) w(4) disk_okD(1) [OF assms(1)] x(2)]
    show ?thesis
      using ff that(1) meta_cong [OF grownD(4) [OF w(4)]] by (simp add: inode_ok_def)
  qed
  ultimately show ?thesis
    using w(1,2,3,5) c by (intro exI [of _ ?i] exI [of _ "f\<lparr>fd_pos := fd_pos f + count\<rparr>"] exI [of _ fs']) simp
qed

definition ex_file :: open_file where
  "ex_file = \<lparr>fd_pos = 0, fd_flag = 0, fd_inode = Some 7, f_count = 1, f_op = No_op\<rparr>"

theorem ext2_write_read_witness:
  "\<exists>ino' f' fs'. ext2_file_write 7 (replicate 1024 0) ex_inode ex_file [104, 105, 33] 3 ex_fs = Some (3, ino', f', fs') \<and>
    contents fs' ino' = [104, 105, 33] \<and> (\<exists>n. ext2_file_read ino' ex_file 3 fs' = Some (3, [104, 105, 33], f', fs'\<lparr>events := n\<rparr>))"
proof -
  have "\<exists>ino' f' fs'. ext2_file_write 7 (replicate 1024 0) ex_inode ex_file [104, 105, 33] 3 ex_fs = Some (sint (3::u32), ino', f', fs') \<and>
      disk_ok fs' \<and> inode_ok fs' ino' \<and>
      contents fs' ino' = overlay (contents ex_fs ex_inode) (unat (fd_pos ex_file)) (take (unat (3::u32)) [104, 105, 33]) \<and>
      (\<exists>n. ext2_file_read ino' ex_file 3 fs' = Some (sint (3::u32), take (unat (3::u32)) [104, 105, 33], f', fs'\<lparr>events := n\<rparr>)) \<and>
      (\<exists>y. ext2_read_inode ex_inode fs' = Some y \<and> contents fs' y = contents fs' ino') \<and>
      (\<forall>x. inode_ok ex_fs x \<and> ino_blocks ex_fs x \<inter> ino_blocks ex_fs ex_inode = {} \<longrightarrow> inode_ok fs' x \<and> contents fs' x = contents ex_fs x)"
  proof (rule ext2_write_read [OF ex_disk_ok ex_inode_ok(1)])
    show "unat (fd_pos ex_file) + unat (3::u32) \<le> max_blocks ex_fs * bsz ex_fs"
      by (simp add: ex_file_def ex_geometry max_blocks_def ppb_def)
    show "5 * (nblocks ex_fs (unat (fd_pos ex_file) + unat (3::u32)) - nblocks ex_fs (unat (i_size ex_inode))) \<le> card (free_blocks ex_fs)"
      by (simp add: ex_file_def ex_inode_def nblocks_def ex_geometry ex_free_set)
  qed (simp_all add: ex_file_def ex_geometry)
  then show ?thesis
    by (auto simp: ex_inode_ok(2) ex_file_def overlay_def)
qed

text \<open>
  C35. The loop of \<^verbatim>\<open>ext2_file_read\<close>, which counts the bytes read up and the bytes left down in two variables, ends: on every
  file system with a valid block size it computes what the loop of \<^verbatim>\<open>ext2_inode_read_data\<close> computes, which
  is total, with the position moved by the bytes read. It stops the machine only where that loop does.
\<close>

theorem ext2_read_loop_ends:
  assumes "bs_ok (sb fs)"
  shows "file_read_loop ino n 0 n f [] fs = do {
    (k, dst, fs) \<leftarrow> read_data_loop ino n 0 (fd_pos f) [] fs;
    Some (k, dst, f\<lparr>fd_pos := fd_pos f + k\<rparr>, fs)
  }"
  using file_read_loop_eq [OF assms, of 0 n ino f "[]"] by simp

theorem ext2_read_loop_ends_witness: "\<exists>r. file_read_loop ex_inode 2 0 2 ex_file [] ex_fs = Some r"
proof -
  have "span_ok ex_fs ex_inode (unat (fd_pos ex_file)) (unat (fd_pos ex_file) + (unat (2::u32) - unat (0::u32)))"
  proof -
    have "hole_ok ex_fs ex_inode 0"
      using next_hole_ok [of 0 ex_fs ex_inode] disk_okD(9) [OF ex_disk_ok] by (simp add: ppb_def ex_geometry)
    moreover have "i * 1024 < Suc (Suc 0) \<longleftrightarrow> i = 0" for i :: nat
      by arith
    ultimately show ?thesis
      by (simp add: span_ok_def max_blocks_def ppb_def ex_file_def ex_geometry)
  qed
  then obtain r where "read_data_loop ex_inode 2 0 (fd_pos ex_file) [] ex_fs = Some r"
    using read_data_loop_spec [OF ex_blocks_ok, of ex_inode 0 2 "fd_pos ex_file" "[]"] ex_inode_ok(1)
    unfolding inode_ok_def file_ok_def by fastforce
  then show ?thesis
    using ext2_read_loop_ends [OF ex_geometry(3), of ex_inode 2 ex_file] by (cases r) simp
qed

section \<open>Allocation and the map of blocks\<close>

text \<open>
  C13. Allocating an inode number or a block takes one that was free and marks exactly that one, keeps both counters equal to
  what the bitmaps say, and writes no block but bitmaps; \<open>- 1\<close> is returned only when nothing is free. Freeing
  the number again restores the free numbers of both kinds.
\<close>

theorem ext2_alloc_free:
  assumes "geom_ok fs" "\<forall>t. counts_ok fs t" "\<forall>n. kmem fs n" "unat start_group + ngroups fs \<le> 2 ^ 32"
  shows "if free_set fs type = {} then ext2_resource_alloc start_group type fs = Some (- 1, fs\<lparr>events := Suc (events fs)\<rparr>)
    else \<exists>r fs' fs''. ext2_resource_alloc start_group type fs = Some (of_nat r, fs') \<and> r \<in> free_set fs type \<and>
      (\<forall>t. free_set fs' t = (if t = type then free_set fs t - {r} else free_set fs t) \<and> counts_ok fs' t) \<and>
      same_but (bitmap_blks fs) fs fs' \<and>
      ext2_resource_free (of_nat r) type fs' = Some fs'' \<and> (\<forall>t. free_set fs'' t = free_set fs t \<and> counts_ok fs'' t)"
proof (cases "free_set fs type = {}")
  case True
  then show ?thesis
    using ext2_resource_alloc_spec [OF assms(1) _ _ assms(4), of type] assms(2,3) by simp
next
  case False
  then obtain r fs' where r: "ext2_resource_alloc start_group type fs = Some (of_nat r, fs')" "taken type r fs fs'"
    using ext2_resource_alloc_spec [OF assms(1) _ _ assms(4), of type] assms(2,3) by auto
  have s: "same_but (bitmap_blks fs) fs fs'" and rf: "r \<in> free_set fs type" "r \<notin> free_set fs' type"
    using r(2) by (auto simp: taken_def)
  have "geom_ok fs'" "kmem fs' (events fs')" "in_range fs' type r"
    using assms(1,3) geom_ok_cong [OF s] same_but_geom(10) [OF s] free_set_in_range [OF assms(1) rf(1)] meta_cong(7) [OF s] by simp_all
  then obtain fs'' where "ext2_resource_free (of_nat r) type fs' = Some fs''" "released type r fs' fs''"
    using ext2_resource_free_spec [of fs' type r] rf(2) by auto
  then show ?thesis
    using False r s rf assms(2) by (auto simp: taken_def released_def)
qed

theorem ext2_alloc_free_witness:
  "\<exists>r fs' fs''. ext2_resource_alloc 0 EXT2_INODE_BITMAP ex_fs = Some (of_nat r, fs') \<and> r \<in> {4..<9} \<and>
    free_set fs' EXT2_INODE_BITMAP = {4..<9} - {r} \<and> ext2_resource_free (of_nat r) EXT2_INODE_BITMAP fs' = Some fs'' \<and>
    free_set fs'' EXT2_INODE_BITMAP = {4..<9}"
proof -
  obtain r fs' fs'' where r: "ext2_resource_alloc 0 EXT2_INODE_BITMAP ex_fs = Some (of_nat r, fs')" "r \<in> {4..<9}"
      "\<forall>t. free_set fs' t = (if t = EXT2_INODE_BITMAP then free_set ex_fs t - {r} else free_set ex_fs t) \<and> counts_ok fs' t"
      "ext2_resource_free (of_nat r) EXT2_INODE_BITMAP fs' = Some fs''" "\<forall>t. free_set fs'' t = free_set ex_fs t \<and> counts_ok fs'' t"
    using ext2_alloc_free [of ex_fs 0 EXT2_INODE_BITMAP] blocks_okD(1,2,3) [OF ex_blocks_ok] by (auto simp: ex_free_set ex_geometry)
  show ?thesis
    using r by (intro exI [of _ r] exI [of _ fs'] exI [of _ fs'']) (simp add: ex_free_set)
qed

text \<open>
  C23. The three branches of \<^verbatim>\<open>ext2_append_block_to_inode\<close> with their index arithmetic on 32-bit words are one recursive insertion into
  a tree of index blocks: a direct pointer below 12, and otherwise a descent through the tree of one, two or
  three levels whose entry and position the block number determines.
\<close>

theorem ext2_append_equivalence:
  assumes "bs_ok (sb fs)" "kmem fs (events fs)" "unat (i_size ino) div bsz fs < max_blocks fs"
    and "slot (ppb fs) (unat (i_size ino) div bsz fs) = (k, j)"
  shows "ext2_append_block_to_inode v ino fs = (if k < 12
      then Some (0, count_block fs (ino\<lparr>i_block := (i_block ino)[k := v]\<rparr>), fs\<lparr>events := Suc (events fs)\<rparr>)
      else append_at k j v ino (fs\<lparr>events := Suc (events fs)\<rparr>))"
  using append_unroll [OF assms(1,2,4,3)] .

theorem ext2_append_equivalence_witness:
  "ext2_append_block_to_inode 6 (ex_inode\<lparr>i_size := 300 * 1024\<rparr>) ex_fs =
    append_at 13 32 6 (ex_inode\<lparr>i_size := 300 * 1024\<rparr>) (ex_fs\<lparr>events := Suc (events ex_fs)\<rparr>)"
proof -
  have "slot (ppb ex_fs) (unat (i_size (ex_inode\<lparr>i_size := 300 * 1024\<rparr>)) div bsz ex_fs) = (13, 32)"
    "unat (i_size (ex_inode\<lparr>i_size := 300 * 1024\<rparr>)) div bsz ex_fs < max_blocks ex_fs" "kmem ex_fs (events ex_fs)"
    by (simp_all add: slot_def ppb_def max_blocks_def ex_geometry) (simp add: ex_fs_def)
  then show ?thesis
    using ext2_append_equivalence [OF ex_geometry(3)] by simp
qed

text \<open>
  C14. Appending a block in use to a file stores it as the next block of the file: afterwards \<^verbatim>\<open>ext2_bmap\<close> answers it there and
  the old block everywhere else. The call fails only with \<^verbatim>\<open>-ENOSPC\<close> and no free block left, the index blocks it
  made until then remain sound, and no block of data is written. In the doubly indirect range \<^verbatim>\<open>ext2_bmap\<close> needs
  zeros in block 0 for holes.
\<close>

theorem ext2_append_bmap:
  assumes "append_ready (unat (i_size ino) div bsz fs) v ino fs"
  shows "\<exists>status ino' fs'. ext2_append_block_to_inode v ino fs = Some (status, ino', fs') \<and>
    (status = 0 \<or> status = - ENOSPC \<and> free_blocks fs' = {}) \<and> blocks_ok fs' \<and> ino_ok fs' ino' \<and>
    (\<forall>i<max_blocks fs. hole_ok fs' ino' i \<longrightarrow> ext2_bmap ino' (of_nat i) fs' =
      Some (if status = 0 \<and> i = unat (i_size ino) div bsz fs then v else imap fs ino i, fs'\<lparr>events := Suc (events fs')\<rparr>)) \<and>
    (\<forall>b\<in>data_blocks fs ino. blk fs' b = blk fs b)"
proof -
  let ?L = "unat (i_size ino) div bsz fs"
  obtain N status ino' fs' where a: "ext2_append_block_to_inode v ino fs = Some (status, ino', fs')" "appended ?L v N status ino fs ino' fs'"
    using ext2_append_block_to_inode_spec [OF assms] by blast
  have g: "grown N (ino_blocks fs ino - data_blocks fs ino) fs fs'" "ino_ok fs' ino'"
      "\<forall>i<max_blocks fs. imap fs' ino' i = (if status = 0 \<and> i = ?L then v else imap fs ino i)"
      "status = 0 \<or> status = - ENOSPC \<and> free_blocks fs' = {}"
    using a(2) by (simp_all add: appended_def)
  note gd = grownD [OF g(1)]
  have "max_blocks fs' = max_blocks fs"
    using gd(6) by (simp add: max_blocks_def)
  then have "ext2_bmap ino' (of_nat i) fs' =
      Some (if status = 0 \<and> i = ?L then v else imap fs ino i, fs'\<lparr>events := Suc (events fs')\<rparr>)" if "i < max_blocks fs" "hole_ok fs' ino' i" for i
    using ext2_bmap_spec [OF gd(1) g(2), of i] that g(3) by simp
  moreover have "blk fs' b = blk fs b" if "b \<in> data_blocks fs ino" for b
  proof (rule same_but_blk [OF gd(4)])
    have "usable fs b"
      using assms that imap_block(2) by (auto simp: append_ready_def data_blocks_def)
    then show "b \<notin> bitmap_blks fs \<union> N \<union> (ino_blocks fs ino - data_blocks fs ino)"
      using that gd(2) by (auto simp: usable_def)
  qed
  ultimately show ?thesis
    using a(1) g(2,4) gd(1) by blast
qed

theorem ext2_append_bmap_witness:
  "\<exists>r fs1 ino' fs'. ext2_resource_alloc 0 EXT2_BLOCK_BITMAP ex_fs = Some (r, fs1) \<and>
    ext2_append_block_to_inode r ex_inode fs1 = Some (0, ino', fs') \<and> ext2_bmap ino' 0 fs' = Some (r, fs'\<lparr>events := Suc (events fs')\<rparr>)"
proof -
  obtain r f1 where r: "ext2_resource_alloc 0 EXT2_BLOCK_BITMAP ex_fs = Some (of_nat r, f1)" "taken EXT2_BLOCK_BITMAP r ex_fs f1"
    using ext2_resource_alloc_spec [of ex_fs EXT2_BLOCK_BITMAP 0] blocks_okD(1,2,3) [OF ex_blocks_ok] by (auto simp: ex_free_set ex_geometry)
  have rf: "r \<in> free_blocks ex_fs"
    using r(2) by (simp add: taken_def)
  note w = free_block_word [OF ex_blocks_ok rf]
  have g: "grown {r} {} ex_fs f1"
    by (rule taken_grown [OF ex_blocks_ok r(2)])
  have f: "file_ok ex_fs ex_inode" "ino_blocks ex_fs ex_inode \<inter> {} = {}"
    using ex_inode_ok(1) by (simp_all add: inode_ok_def)
  note ff = file_frame [OF f(1) g ex_blocks_ok f(2)] and gd = grownD [OF g]
  have m: "max_blocks f1 = max_blocks ex_fs" "0 < max_blocks ex_fs" "unat (i_size ex_inode) div bsz f1 = 0"
    using gd(6,7) by (simp_all add: max_blocks_def ex_inode_def)
  have ib: "r \<notin> ino_blocks ex_fs ex_inode"
    using f(1) rf by (auto simp: file_ok_def ino_ok_def usable_def)
  have z: "imap f1 ex_inode 0 = 0"
    using ff(1,5) m by (simp add: file_ok_def ex_inode_def)
  have "append_ready (unat (i_size ex_inode) div bsz f1) (of_nat r) ex_inode f1"
    using ff(1,3) gd(1) m z w grown_usable(2) [OF g ex_blocks_ok] ib by (simp add: append_ready_def file_ok_def)
  from ext2_append_bmap [OF this] obtain st ino' fs' where a: "ext2_append_block_to_inode (of_nat r) ex_inode f1 = Some (st, ino', fs')"
      "st = 0 \<or> st = - ENOSPC \<and> free_blocks fs' = {}"
      "\<forall>i<max_blocks f1. hole_ok fs' ino' i \<longrightarrow> ext2_bmap ino' (of_nat i) fs' =
        Some (if st = 0 \<and> i = 0 then of_nat r else imap f1 ex_inode i, fs'\<lparr>events := Suc (events fs')\<rparr>)"
    using m(3) by auto
  have "i_size ex_inode div s_block_size (sb f1) = 0"
    by (simp add: ex_inode_def)
  then have st: "st = 0"
    using a(1) by (auto simp: ext2_append_block_to_inode_def kmalloc_def Let_def bind_Some_iff split: if_splits)
  moreover have "hole_ok fs' ino' 0"
    by (simp add: hole_ok_def slot_def)
  ultimately show ?thesis
    using r(1) a m by (intro exI [of _ "of_nat r"] exI [of _ f1] exI [of _ ino'] exI [of _ fs']) auto
qed

section \<open>Inodes\<close>

text \<open>
  C18. Writing an inode to its place in the inode table and reading the same number into any in-core inode gives the
  fields that were written, with the times the write set; reading any other inode gives what it gave before,
  and the disk stays sound.
\<close>

theorem ext2_inode_round_trip:
  assumes "disk_ok fs" "inode_no_ok fs (unat (i_no ino))" "length (i_block ino) = 15"
  shows "\<exists>fs' now. ext2_write_inode ino fs = Some (ino\<lparr>i_ctime := now\<rparr>, fs') \<and> disk_ok fs' \<and>
    (\<forall>x. i_no x = i_no ino \<longrightarrow> ext2_read_inode x fs' = Some (reread ino now x)) \<and>
    (\<forall>x. inode_no_ok fs (unat (i_no x)) \<and> i_no x \<noteq> i_no ino \<longrightarrow> ext2_read_inode x fs' = ext2_read_inode x fs)"
  using write_inode_disk [OF assms] by blast

theorem ext2_inode_round_trip_witness:
  "\<exists>fs' y. ext2_write_inode ex_inode ex_fs = Some (ex_inode\<lparr>i_ctime := i_ctime y\<rparr>, fs') \<and> ext2_read_inode ex_inode fs' = Some y \<and>
    i_type y = FT_REGULAR \<and> i_mode y = 0x81ff \<and> i_links_count y = 1"
proof -
  have "inode_no_ok ex_fs (unat (i_no ex_inode))" "length (i_block ex_inode) = 15"
    using ex_inode_ok(1) by (simp_all add: inode_ok_def ex_inode_def)
  from ext2_inode_round_trip [OF ex_disk_ok this] obtain fs' now where
      f: "ext2_write_inode ex_inode ex_fs = Some (ex_inode\<lparr>i_ctime := now\<rparr>, fs')" "ext2_read_inode ex_inode fs' = Some (reread ex_inode now ex_inode)"
    by blast
  have "decode_imode 0x81ff = FT_REGULAR"
    by code_simp
  then have "i_ctime (reread ex_inode now ex_inode) = now" "i_type (reread ex_inode now ex_inode) = FT_REGULAR"
      "i_mode (reread ex_inode now ex_inode) = 0x81ff" "i_links_count (reread ex_inode now ex_inode) = 1"
    by (simp_all add: reread_def ex_inode_def)
  then show ?thesis
    using f by (intro exI [of _ fs'] exI [of _ "reread ex_inode now ex_inode"]) simp
qed

section \<open>Directories\<close>

lemma map_of_middle:
  "name \<notin> fst ` set (u @ v) \<Longrightarrow> map_of (u @ (name, n) # v) = (map_of (u @ v))(name \<mapsto> n)"
  "distinct (map fst (u @ (name, n) # v)) \<Longrightarrow> map_of (u @ v) = (map_of (u @ (name, n) # v))(name := None)"
  by (induction u) (auto simp: map_of_eq_None_iff image_iff)

lemma other_files:
  assumes "inode_ok fs x" "disk_ok fs" "grown N X fs fs'" "ino_blocks fs x \<inter> X = {}"
  shows "inode_ok fs' x \<and> contents fs' x = contents fs x"
proof -
  have x: "file_ok fs x"
    using assms(1) by (simp add: inode_ok_def)
  note ff = file_frame [OF x assms(3) disk_okD(1) [OF assms(2)] assms(4)]
  show ?thesis
    using ff assms(1) meta_cong [OF grownD(4) [OF assms(3)]] by (simp add: inode_ok_def)
qed

text \<open>
  C7. Adding an entry for a name the directory does not have, with five free blocks in case it needs a new one, succeeds: looking up the
  name finds the number, looking up any other name gives what it gave before, disk and directory stay sound,
  and no other file changes.
\<close>

theorem ext2_dir_add:
  assumes "disk_ok fs" "dir_ok fs dir D" "name \<notin> fst ` set (entries D)" "length name < 256" "n \<noteq> 0"
    and "5 \<le> card (free_blocks fs)" "length D < max_blocks fs" "Suc (length D) * bsz fs < 2 ^ 31"
  shows "\<exists>dir' D' fs'. ext2_add_entry dir n name ft fs = Some (0, dir', fs') \<and> disk_ok fs' \<and> dir_ok fs' dir' D' \<and>
    (\<forall>x. \<exists>k. lookup_ino dir' x fs' = Some (case ((map_of (entries D))(name \<mapsto> n)) x of
      Some i \<Rightarrow> (0, i, fs'\<lparr>events := k\<rparr>) | None \<Rightarrow> (- ENOENT, 0, fs'\<lparr>events := k\<rparr>))) \<and>
    (\<forall>x. inode_ok fs x \<and> ino_blocks fs x \<inter> ino_blocks fs dir = {} \<longrightarrow> inode_ok fs' x \<and> contents fs' x = contents fs x)"
proof -
  note dk = disk_okD [OF assms(1)]
  obtain N dir' D' fs' where a: "ext2_add_entry dir n name ft fs = Some (0, dir', fs')" "added N name n dir D fs dir' D' fs'"
    using ext2_add_entry_spec [OF assms(2) dk(1,7) assms(4,5) dk(10) assms(6-8)] by blast
  then obtain u v where u: "entries D = u @ v" "entries D' = u @ (name, n) # v"
    by (auto simp: added_def)
  have ad: "dir_ok fs' dir' D'" "grown N (ino_blocks fs dir) fs fs'" "ent fs' 0 0 = ent fs 0 0"
    using a(2) by (simp_all add: added_def)
  have dk': "disk_ok fs'"
    using grown_disk_ok [OF assms(1) ad(2)] ad(3) dk(9) by simp
  have "map_of (entries D') = (map_of (entries D))(name \<mapsto> n)"
    using assms(3) map_of_middle(1) [of name u v n] unfolding u by simp
  then have "\<exists>k. lookup_ino dir' x fs' = Some (case ((map_of (entries D))(name \<mapsto> n)) x of
      Some i \<Rightarrow> (0, i, fs'\<lparr>events := k\<rparr>) | None \<Rightarrow> (- ENOENT, 0, fs'\<lparr>events := k\<rparr>))" for x
    using lookup_ino_spec [OF ad(1) disk_okD(1) [OF dk'], of x] by simp
  moreover have "inode_ok fs' x \<and> contents fs' x = contents fs x" if "inode_ok fs x" "ino_blocks fs x \<inter> ino_blocks fs dir = {}" for x
    using other_files [OF that(1) assms(1) ad(2) that(2)] .
  ultimately show ?thesis
    using a(1) ad(1) dk' by blast
qed

text \<open>The file of the small disk is a directory without entries as well.\<close>

lemma ex_dir_ok: "dir_ok ex_fs ex_inode []"
  using ex_inode_ok by (simp add: dir_ok_def) (simp add: ex_inode_def)

lemma ex_dir_room: "5 \<le> card (free_blocks ex_fs)" "0 < max_blocks ex_fs" "bsz ex_fs < 2 ^ 31"
  by (simp_all add: ex_free_set max_blocks_def ex_geometry)

theorem ext2_dir_add_witness:
  "\<exists>dir' fs' k k'. ext2_add_entry ex_inode 9 [97] 1 ex_fs = Some (0, dir', fs') \<and>
    lookup_ino dir' [97] fs' = Some (0, 9, fs'\<lparr>events := k\<rparr>) \<and> lookup_ino dir' [98] fs' = Some (- ENOENT, 0, fs'\<lparr>events := k'\<rparr>)"
proof -
  obtain dir' fs' where a: "ext2_add_entry ex_inode 9 [97] 1 ex_fs = Some (0, dir', fs')"
      "\<forall>x. \<exists>k. lookup_ino dir' x fs' = Some (case ((map_of (entries []))([97] \<mapsto> 9)) x of
        Some i \<Rightarrow> (0, i, fs'\<lparr>events := k\<rparr>) | None \<Rightarrow> (- ENOENT, 0, fs'\<lparr>events := k\<rparr>))"
    using ext2_dir_add [OF ex_disk_ok ex_dir_ok, of "[97]" 9 1] ex_dir_room by auto
  show ?thesis
    using a(1) a(2) [rule_format, of "[97]"] a(2) [rule_format, of "[98]"] by auto
qed

text \<open>
  C9. Removing a name from a directory in which no name occurs twice makes exactly this name disappear: its lookup fails and every
  other name looks up as before. A name that is not there makes the call return \<^verbatim>\<open>-1\<close> and write nothing. Disk and directory stay
  sound and no other file changes.
\<close>

theorem ext2_dir_remove:
  assumes "disk_ok fs" "dir_ok fs dir D" "distinct (map fst (entries D))"
  shows "if name \<in> fst ` set (entries D)
    then \<exists>dir' D' fs'. ext2_remove_entry dir name fs = Some (0, dir', fs') \<and> disk_ok fs' \<and> dir_ok fs' dir' D' \<and>
      (\<forall>x. \<exists>k. lookup_ino dir' x fs' = Some (case ((map_of (entries D))(name := None)) x of
        Some i \<Rightarrow> (0, i, fs'\<lparr>events := k\<rparr>) | None \<Rightarrow> (- ENOENT, 0, fs'\<lparr>events := k\<rparr>))) \<and>
      (\<forall>x. inode_ok fs x \<and> ino_blocks fs x \<inter> ino_blocks fs dir = {} \<longrightarrow> inode_ok fs' x \<and> contents fs' x = contents fs x)
    else \<exists>k. ext2_remove_entry dir name fs = Some (- 1, dir, fs\<lparr>events := k\<rparr>)"
proof (cases "name \<in> fst ` set (entries D)")
  case True
  then obtain D' fs' now where r: "ext2_remove_entry dir name fs = Some (0, dir\<lparr>i_ctime := now\<rparr>, fs')" "dir_ok fs' (dir\<lparr>i_ctime := now\<rparr>) D'"
      "removed name D D'" "grown {} (ino_blocks fs dir \<union> sys_blks fs) fs fs'" "disk_ok fs'"
    using ext2_remove_entry_spec [OF assms(2,1), of name] by auto
  obtain u n v where u: "entries D = u @ (name, n) # v" "entries D' = u @ v"
    using r(3) by (auto simp: removed_def)
  have "map_of (entries D') = (map_of (entries D))(name := None)"
    using assms(3) map_of_middle(2) [of u name n v] unfolding u by simp
  then have "\<exists>k. lookup_ino (dir\<lparr>i_ctime := now\<rparr>) x fs' = Some (case ((map_of (entries D))(name := None)) x of
      Some i \<Rightarrow> (0, i, fs'\<lparr>events := k\<rparr>) | None \<Rightarrow> (- ENOENT, 0, fs'\<lparr>events := k\<rparr>))" for x
    using lookup_ino_spec [OF r(2) disk_okD(1) [OF r(5)], of x] by simp
  moreover have "inode_ok fs' x \<and> contents fs' x = contents fs x" if "inode_ok fs x" "ino_blocks fs x \<inter> ino_blocks fs dir = {}" for x
    using that by (intro other_files [OF that(1) assms(1) r(4)]) (auto simp: inode_ok_def)
  ultimately show ?thesis
    using True r(1,2,5) by auto
next
  case False
  then show ?thesis
    using ext2_remove_entry_spec [OF assms(2,1), of name] by simp
qed

text \<open>The small disk with one entry in the directory.\<close>

lemma ex_added:
  obtains dir fs D where "ext2_add_entry ex_inode 9 [97] 1 ex_fs = Some (0, dir, fs)" "disk_ok fs" "dir_ok fs dir D" "entries D = [([97], 9)]"
proof -
  note dk = disk_okD [OF ex_disk_ok]
  have "\<exists>N dir D fs. ext2_add_entry ex_inode 9 [97] 1 ex_fs = Some (0, dir, fs) \<and> added N [97] 9 ex_inode [] ex_fs dir D fs"
    using ex_dir_room by (intro ext2_add_entry_spec [OF ex_dir_ok dk(1,7) _ _ dk(10)]) simp_all
  then obtain N dir D fs where a: "ext2_add_entry ex_inode 9 [97] 1 ex_fs = Some (0, dir, fs)" "added N [97] 9 ex_inode [] ex_fs dir D fs"
    by blast
  then have "disk_ok fs"
    using grown_disk_ok [OF ex_disk_ok, of N "ino_blocks ex_fs ex_inode" fs] dk(9) by (simp add: added_def)
  then show thesis
    using a that by (auto simp: added_def)
qed

theorem ext2_dir_remove_witness:
  "\<exists>dir fs dir' fs' k. ext2_add_entry ex_inode 9 [97] 1 ex_fs = Some (0, dir, fs) \<and> ext2_remove_entry dir [97] fs = Some (0, dir', fs') \<and>
    lookup_ino dir' [97] fs' = Some (- ENOENT, 0, fs'\<lparr>events := k\<rparr>)"
proof -
  obtain dir fs D where a: "ext2_add_entry ex_inode 9 [97] 1 ex_fs = Some (0, dir, fs)" "disk_ok fs" "dir_ok fs dir D" "entries D = [([97], 9)]"
    by (rule ex_added)
  have "distinct (map fst (entries D))" "[97] \<in> fst ` set (entries D)"
    by (simp_all add: a(4))
  with ext2_dir_remove [OF a(2,3), of "[97]"] obtain dir' fs' where r: "ext2_remove_entry dir [97] fs = Some (0, dir', fs')"
      "\<forall>x. \<exists>k. lookup_ino dir' x fs' = Some (case ((map_of (entries D))([97] := None)) x of
        Some i \<Rightarrow> (0, i, fs'\<lparr>events := k\<rparr>) | None \<Rightarrow> (- ENOENT, 0, fs'\<lparr>events := k\<rparr>))"
    by auto
  show ?thesis
    using a(1) r(1) r(2) [rule_format, of "[97]"] by auto
qed

text \<open>
  C29. A directory counts as empty exactly when all its names are \<^verbatim>\<open>.\<close> and \<^verbatim>\<open>..\<close> (or empty), whatever the memory behind the block buffer
  holds: the read beyond the buffer after the last entry does not change the answer.
\<close>

theorem ext2_is_dir_empty_correct:
  assumes "disk_ok fs" "dir_ok fs dir D" "\<forall>name\<in>fst ` set (entries D). 0 \<notin> set name" "6 \<le> length beyond"
  shows "\<exists>n. ext2_is_dir_empty beyond dir fs = Some (\<forall>name\<in>fst ` set (entries D). name \<in> {[], [46], [46, 46]}, fs\<lparr>events := n\<rparr>)"
  using ext2_is_dir_empty_spec [OF assms(2) disk_okD(1) [OF assms(1)] assms(3,4)] by (simp add: dots_def subset_eq)

theorem ext2_is_dir_empty_correct_witness:
  "\<exists>dir fs n. ext2_add_entry ex_inode 9 [97] 1 ex_fs = Some (0, dir, fs) \<and>
    ext2_is_dir_empty (replicate 6 255) dir fs = Some (False, fs\<lparr>events := n\<rparr>)"
proof -
  obtain dir fs D where a: "ext2_add_entry ex_inode 9 [97] 1 ex_fs = Some (0, dir, fs)" "disk_ok fs" "dir_ok fs dir D" "entries D = [([97], 9)]"
    by (rule ex_added)
  then show ?thesis
    using ext2_is_dir_empty_correct [OF a(2,3), of "replicate 6 255"] by simp
qed

end
