(* ===== verification/Partition_IO.thy ===== *)
theory Partition_IO
  imports Ide_Buffer_IO Ext2_Fs
begin

text \<open>
  The partition that the ext2 theories read and write as a store of bytes is reached through the buffer cache:
  \<^verbatim>\<open>partition_read\<close> and \<^verbatim>\<open>partition_write\<close> of \<^verbatim>\<open>include/magicbox/ide.h\<close> are \<^verbatim>\<open>bread_multi\<close> and
  \<^verbatim>\<open>bwrite_multi\<close> at the sectors of the partition. The cache implements the store.
\<close>

section \<open>A cache behind a store\<close>

text \<open>What readers of the cache see in the \<open>nsec\<close> sectors of the partition is what the store holds.\<close>

definition backs :: "u32 \<Rightarrow> u32 \<Rightarrow> nat \<Rightarrow> ide_buffer \<Rightarrow> ext2_fs \<Rightarrow> bool" where
  "backs dev start_lba nsec s fs \<longleftrightarrow> unat start_lba + nsec \<le> 2 ^ 32 \<and>
     (\<forall>l<nsec. view s dev (start_lba + of_nat l) = map (store fs) [l * SECTOR_SIZE..<(l + 1) * SECTOR_SIZE])"

lemma sector_eqI:
  assumes "length xs = length ys" "\<forall>j. sector xs j = sector ys j"
  shows "xs = ys"
proof (rule nth_equalityI [OF assms(1)])
  fix i assume i: "i < length xs"
  have z: "i mod SECTOR_SIZE < SECTOR_SIZE" "i div SECTOR_SIZE * SECTOR_SIZE + i mod SECTOR_SIZE = i"
    by (simp_all add: SECTOR_SIZE_def)
  have "sector zs (i div SECTOR_SIZE) ! (i mod SECTOR_SIZE) = zs ! i" if "i < length zs" for zs
  proof -
    have "i div SECTOR_SIZE * SECTOR_SIZE \<le> length zs"
      using that div_times_less_eq_dividend [of i SECTOR_SIZE] by linarith
    then have "drop (i div SECTOR_SIZE * SECTOR_SIZE) zs ! (i mod SECTOR_SIZE) = zs ! (i div SECTOR_SIZE * SECTOR_SIZE + i mod SECTOR_SIZE)"
      by (rule nth_drop)
    then show ?thesis
      using z(1) unfolding z(2) by (simp add: sector_def)
  qed
  then show "xs ! i = ys ! i"
    using i assms by metis
qed

lemma sector_partition_read:
  assumes "j < unat count"
  shows "sector (partition_read l count fs) j = map (store fs) [(unat l + j) * SECTOR_SIZE..<(unat l + j + 1) * SECTOR_SIZE]"
proof -
  have "(unat l + j + 1) * SECTOR_SIZE \<le> (unat l + unat count) * SECTOR_SIZE"
    using assms by (intro mult_le_mono1) simp
  then show ?thesis
    by (simp add: sector_def partition_read_def drop_map take_map algebra_simps)
qed

lemma backed_sector:
  assumes "backs dev start_lba nsec s fs" "unat l + unat count \<le> nsec" "j < unat count"
  shows "view s dev (start_lba + l + of_nat j) = map (store fs) [(unat l + j) * SECTOR_SIZE..<(unat l + j + 1) * SECTOR_SIZE]"
proof -
  have "start_lba + l + of_nat j = start_lba + of_nat (unat l + j)"
    by (simp add: add.assoc)
  then show ?thesis
    using assms unfolding backs_def by (metis add_less_cancel_left less_le_trans)
qed

lemma partition_read_backed:
  assumes "cache_inv {} s" "room s" "refs_ok s" "alloc_ok alloc env" "backs dev start_lba nsec s fs" "unat l + unat count \<le> nsec"
    and "length out = unat count * SECTOR_SIZE"
  shows "\<exists>s'. bread_multi alloc env dev (start_lba + l) out count s = Some (partition_read l count fs, s') \<and> cache_inv {} s' \<and> view s' = view s"
proof -
  obtain buf s' where b: "bread_multi_loop alloc env dev (start_lba + l) (unat count) 0 out s = Some (buf, s')" "quiet s s'" "length buf = length out"
      "\<forall>j. sector buf j = (if 0 \<le> j \<and> j < unat count then view s dev (start_lba + l + of_nat j) else sector out j)"
    using bread_multi_loop_spec [OF assms(1-4), of 0 "unat count" out dev "start_lba + l"] assms(7) by auto
  have "buf = partition_read l count fs"
  proof (rule sector_eqI)
    show "\<forall>j. sector buf j = sector (partition_read l count fs) j"
    proof
      fix j
      have "sector out j = []" "sector (partition_read l count fs) j = []" if "\<not> j < unat count"
        using that mult_le_mono1 [of "unat count" j SECTOR_SIZE] assms(7) by (simp_all add: sector_def partition_read_def algebra_simps)
      then show "sector buf j = sector (partition_read l count fs) j"
        using b(4) backed_sector [OF assms(5,6)] sector_partition_read [of j count l fs] by (cases "j < unat count") simp_all
    qed
  qed (simp add: b(3) assms(7) partition_read_def algebra_simps)
  then show ?thesis
    using b(1,2) by (auto simp: bread_multi_def quiet_def)
qed

lemma partition_write_backed:
  assumes "cache_inv {} s" "room s" "refs_ok s" "alloc_ok alloc env" "backs dev start_lba nsec s fs" "unat l + unat count \<le> nsec"
    and "unat count * SECTOR_SIZE \<le> length buf"
  shows "\<exists>s' fs'. bwrite_multi alloc env dev (start_lba + l) buf count s = Some s' \<and> partition_write l buf count fs = Some fs' \<and>
    cache_inv {} s' \<and> backs dev start_lba nsec s' fs' \<and> (\<forall>d. d \<noteq> dev \<longrightarrow> view s' d = view s d)"
proof -
  have "(i + 1) * SECTOR_SIZE \<le> length buf \<and> i < 2 ^ 32" if "i < unat count" for i
    using that assms(7) mult_le_mono1 [of "i + 1" "unat count" SECTOR_SIZE] less_trans [OF that unat_u32_bound] by simp
  then have "\<forall>i\<in>set [0..<unat count]. (i + 1) * SECTOR_SIZE \<le> length buf \<and> i < 2 ^ 32"
    by simp
  from bwrite_multi_loop_spec [OF assms(1-4) this, of dev "start_lba + l"] obtain s' where
    w: "bwrite_multi alloc env dev (start_lba + l) buf count s = Some s'" "cache_inv {} s'"
      "\<forall>i<unat count. view s' dev (start_lba + l + of_nat i) = sector buf i"
      "\<forall>d k. d \<noteq> dev \<or> k \<notin> (\<lambda>i. start_lba + l + of_nat i) ` {..<unat count} \<longrightarrow> view s' d k = view s d k"
    by (auto simp: bwrite_multi_def lessThan_atLeast0)
  obtain fs' where p: "partition_write l buf count fs = Some fs'"
      "store fs' = (\<lambda>i. if unat l * SECTOR_SIZE \<le> i \<and> i < (unat l + unat count) * SECTOR_SIZE then buf ! (i - unat l * SECTOR_SIZE) else store fs i)"
    using assms(7) by (auto simp: partition_write_def)
  have v: "view s' dev (start_lba + of_nat k) = map (store fs') [k * SECTOR_SIZE..<(k + 1) * SECTOR_SIZE]" if k: "k < nsec" for k
  proof (cases "unat l \<le> k \<and> k < unat l + unat count")
    case True
    then obtain j where j: "k = unat l + j" "j < unat count"
      by (metis add_less_cancel_left le_Suc_ex)
    have "(j + 1) * SECTOR_SIZE \<le> unat count * SECTOR_SIZE" "(k + 1) * SECTOR_SIZE \<le> (unat l + unat count) * SECTOR_SIZE"
      using j by (intro mult_le_mono1, simp)+
    then have "sector buf j = map (store fs') [k * SECTOR_SIZE..<(k + 1) * SECTOR_SIZE]"
      using assms(7) j(1) by (intro nth_equalityI) (auto simp: sector_def p(2) algebra_simps)
    then show ?thesis
      using w(3) j by (simp add: add.assoc)
  next
    case False
    have "start_lba + of_nat k \<noteq> start_lba + l + of_nat i" if "i < unat count" for i
    proof
      assume "start_lba + of_nat k = start_lba + l + of_nat i"
      then have "(of_nat k :: u32) = of_nat (unat l + i)"
        by (simp add: add.assoc)
      moreover have "k < 2 ^ 32" "unat l + i < 2 ^ 32"
        using k that assms(5,6) by (auto simp: backs_def)
      ultimately have "k = unat l + i"
        by (metis unat_of_nat_small)
      then show False
        using False that by simp
    qed
    then have "view s' dev (start_lba + of_nat k) = view s dev (start_lba + of_nat k)"
      using w(4) by blast
    also have "\<dots> = map (store fs) [k * SECTOR_SIZE..<(k + 1) * SECTOR_SIZE]"
      using k assms(5) by (simp add: backs_def)
    also have "\<dots> = map (store fs') [k * SECTOR_SIZE..<(k + 1) * SECTOR_SIZE]"
    proof -
      have "k * SECTOR_SIZE + SECTOR_SIZE \<le> unat l * SECTOR_SIZE \<or> (unat l + unat count) * SECTOR_SIZE \<le> k * SECTOR_SIZE"
        using False mult_le_mono1 [of "Suc k" "unat l" SECTOR_SIZE] mult_le_mono1 [of "unat l + unat count" k SECTOR_SIZE] by (auto simp: not_le not_less)
      then have "\<not> (unat l * SECTOR_SIZE \<le> x \<and> x < (unat l + unat count) * SECTOR_SIZE)"
        if "k * SECTOR_SIZE \<le> x" "x < k * SECTOR_SIZE + SECTOR_SIZE" for x
        using that by linarith
      then show ?thesis
        unfolding p(2) by (intro map_cong refl) (simp add: if_not_P)
    qed
    finally show ?thesis .
  qed
  then have "backs dev start_lba nsec s' fs'"
    using assms(5) by (simp add: backs_def)
  then show ?thesis
    using w(1,2,4) p(1) by (auto simp: fun_eq_iff)
qed

section \<open>The refinement\<close>

text \<open>
  C10. While the cache shows the store in the sectors of a partition, reading sectors through the cache gives the bytes that
  \<open>partition_read\<close> takes from the store and leaves both as they were, and writing sectors into the cache makes it
  show the store that \<open>partition_write\<close> leaves, without a change on any other disk. Whatever the file system does in
  terms of the store, the cache does.
\<close>

theorem partition_io_refines:
  assumes "cache_inv {} s" "room s" "refs_ok s" "alloc_ok alloc env" "backs dev start_lba nsec s fs" "unat l + unat count \<le> nsec"
    and "length out = unat count * SECTOR_SIZE" "unat count * SECTOR_SIZE \<le> length buf"
  shows "(\<exists>s'. bread_multi alloc env dev (start_lba + l) out count s = Some (partition_read l count fs, s') \<and>
      cache_inv {} s' \<and> backs dev start_lba nsec s' fs) \<and>
    (\<exists>s' fs'. bwrite_multi alloc env dev (start_lba + l) buf count s = Some s' \<and> partition_write l buf count fs = Some fs' \<and>
      cache_inv {} s' \<and> backs dev start_lba nsec s' fs' \<and> (\<forall>d. d \<noteq> dev \<longrightarrow> view s' d = view s d))"
  using partition_read_backed [OF assms(1-7)] partition_write_backed [OF assms(1-6,8)] assms(5) by (auto simp: backs_def)

definition ex_store_fs :: ext2_fs where
  "ex_store_fs = ex_fs\<lparr>store := (\<lambda>i. view ex_cache 1 (of_nat (i div SECTOR_SIZE)) ! (i mod SECTOR_SIZE))\<rparr>"

lemma ex_backs: "backs 1 0 8 ex_cache ex_store_fs"
proof -
  have "length (view ex_cache 1 l) = SECTOR_SIZE" for l
    by (simp add: view_def head_view_def ex_cache_def ex_head_def)
  then have "view ex_cache 1 (of_nat k) = map (store ex_store_fs) [k * SECTOR_SIZE..<(k + 1) * SECTOR_SIZE]" for k
    by (intro nth_equalityI) (simp_all add: ex_store_fs_def SECTOR_SIZE_def)
  then show ?thesis
    by (simp add: backs_def)
qed

theorem partition_io_refines_witness:
  "\<exists>s' fs' s''. bwrite_multi ex_kmalloc id 1 (0 + 4) (replicate (2 * SECTOR_SIZE) 9) 2 ex_cache = Some s' \<and>
    partition_write 4 (replicate (2 * SECTOR_SIZE) 9) 2 ex_store_fs = Some fs' \<and> backs 1 0 8 s' fs' \<and>
    bread_multi ex_kmalloc id 1 (0 + 4) (replicate (2 * SECTOR_SIZE) 0) 2 ex_cache = Some (partition_read 4 2 ex_store_fs, s'')"
  using partition_io_refines [OF ex_cache_inv ex_cache_refs(2,1) ex_alloc_ok ex_backs, of 4 2 "replicate (2 * SECTOR_SIZE) 0" "replicate (2 * SECTOR_SIZE) 9"]
  by auto

end
