(* ===== verification/Spec2Isabelle.thy ===== *)
theory Spec2Isabelle
  imports Dlist Bitmap Ide_Buffer_IO Sys_Pipe Sync Signal Buddy Vma Ext2_Fs Partition_IO
begin

text \<open>
  A verification library for MagicBox, a 32-bit x86 operating system in C (sources under \<^verbatim>\<open>src/\<close>).

  \<^bold>\<open>The program.\<close> A kernel with preemptive threads, semaphores and locks, timers and signals (\<^verbatim>\<open>thread/\<close>,
  \<^verbatim>\<open>device/timer.c\<close>, \<^verbatim>\<open>kernel/signal.c\<close>); a page allocator and areas of virtual memory (\<^verbatim>\<open>mm/\<close>); disks behind a
  cache of sectors (\<^verbatim>\<open>device/block/\<close>); a virtual file system over an inode cache, an open file table, pipes, and
  the file systems ext2 and sifs (\<^verbatim>\<open>fs/\<close>). All of them are built on an intrusive list, a bitmap and a hash table
  (\<^verbatim>\<open>lib/kernel/\<close>). A thread blocks by leaving the ready list and is put back by whoever wakes it; the timer
  interrupt counts the running thread down and calls the scheduler. A file operation goes from the open file to
  the in-core inode, from there through \<^verbatim>\<open>ext2_bmap\<close> to a block of the partition, and through
  \<^verbatim>\<open>partition_read\<close> and \<^verbatim>\<open>partition_write\<close> to the buffer cache and the disk.

  \<^bold>\<open>Conventions.\<close> \<^verbatim>\<open>uint8_t\<close>, \<^verbatim>\<open>uint16_t\<close> and \<^verbatim>\<open>uint32_t\<close> are the words \<open>u8\<close>, \<open>u16\<close>, \<open>u32\<close>, and arithmetic wraps
  around; signed status codes are \<open>int\<close>. An address is a number and \<open>NULL\<close> is 0. \<open>'a halting\<close> is an option whose
  \<open>None\<close> means that the machine stops: a failed \<^verbatim>\<open>ASSERT\<close>, a \<^verbatim>\<open>PANIC\<close>, an access outside of an object, a division by
  zero. Theorems of the form \<open>\<exists>s'. f s = Some s' \<and> \<dots>\<close> therefore say that the call returns. Sections with interrupts
  off or under a lock run to completion; where the code gives up the processor, a step relation or a parameter
  \<open>env\<close> lets the others act. Answers from outside (memory, clock, disk) are parameters or oracle fields of the state.

  \<^bold>\<open>Theories.\<close> Each starts with the code, in the order of the source, followed by invariants and lemmas.

  \<^item> Kernel_Prelude: words, \<^verbatim>\<open>ASSERT\<close>, page arithmetic (\<^verbatim>\<open>include/arch/global.h\<close>), lists, the collections \<open>page_simps\<close> and others.
  \<^item> Dlist: \<^verbatim>\<open>lib/kernel/dlist.c\<close> on a heap of nodes. \<open>dl_rep\<close> relates the heap to the list it represents; the locale
    \<open>node_queue\<close> is the contract of a queue of nodes.
  \<^item> Bitmap: \<^verbatim>\<open>lib/kernel/bitmap.c\<close>; the locale \<open>number_pool\<close> is the contract of an allocator of numbers.
  \<^item> Hashtable: \<^verbatim>\<open>lib/kernel/hashtable.c\<close>; the locale \<open>keyed_nodes\<close> is interpreted by the buffer cache and the inode cache.
  \<^item> Ide_Buffer, Ide_Buffer_IO: \<^verbatim>\<open>device/block/ide_buffer.c\<close>. \<open>view\<close> is what a reader sees of a sector, \<open>cache_inv\<close> the
    invariant over table, LRU list, reference counts and dirty lists.
  \<^item> Ioqueue: \<^verbatim>\<open>device/ioqueue.c\<close>; the locale \<open>bounded_queue\<close> is its contract. Pipe: \<^verbatim>\<open>fs/pipe.c\<close> and \<^verbatim>\<open>fs/fifo.c\<close>, with a step
    relation that interleaves a reader, a writer, their wake-ups and alarms that strike them asleep. File_Table:
    \<^verbatim>\<open>fs/file_table.c\<close>. Sys_Pipe: \<^verbatim>\<open>sys_pipe\<close>, over the three and the inode cache.
  \<^item> Sched, Sched_Steps: \<^verbatim>\<open>thread/thread.c\<close>, with a step relation over all operations. Sync: \<^verbatim>\<open>thread/sync.c\<close>, with one
    over any number of tasks. Timer: \<^verbatim>\<open>device/timer.c\<close>. Signal: \<^verbatim>\<open>kernel/signal.c\<close>.
  \<^item> Buddy: \<^verbatim>\<open>mm/buddy.c\<close>. Vma: \<^verbatim>\<open>mm/vma.c\<close>, with the part of \<^verbatim>\<open>mm/swap.c\<close> that fills a new page.
  \<^item> Inode_Cache: \<^verbatim>\<open>fs/inode.c\<close>.
  \<^item> Ext2_Disk: the state of a mounted ext2 file system, as bytes of the partition. Ext2_Alloc: \<^verbatim>\<open>ext2_resource_alloc\<close> and
    \<^verbatim>\<open>ext2_resource_free\<close>. Ext2_Map: \<^verbatim>\<open>ext2_bmap\<close> and \<^verbatim>\<open>ext2_append_block_to_inode\<close>. Ext2_Super: \<^verbatim>\<open>fs/ext2/super.c\<close>.
    Ext2_File: reading, writing and seeking of \<^verbatim>\<open>fs/ext2/file.c\<close>. Ext2_Dir: directory entries. Ext2_Fs: the
    properties of the whole on a small disk. Partition_IO: the cache implements the store of bytes.

  \<^bold>\<open>What is shown.\<close>

  \<^item> Concurrency: the bytes read from a pipe are those written, in order, and no wake-up is lost; the ring inside is a
    queue of exactly 2047 characters; a lock has one holder, and its waiters are woken; the scheduler keeps its lists and the states of tasks consistent, and a ready task
    runs after finitely many ticks.
  \<^item> Memory: the page allocator hands out disjoint aligned blocks and merges what it gets back; the list of areas stays
    sorted and disjoint, and a new area changes what its own pages show and nothing else, unless it is joined to a
    mapping of the same file.
  \<^item> Disk: transfers through the cache read what was last written, whatever is evicted or written back, and a sync
    pass brings the disk up to date. The store of bytes that ext2 works on is implemented by the cache.
  \<^item> Ext2: \<open>disk_ok\<close> states that bitmaps, counters, descriptors and tables are consistent and apart, \<open>inode_ok\<close> that a file has
    its own blocks and a dense map, \<open>dir_ok\<close> that its bytes are blocks of directory entries. Allocation, the block map (as
    a tree of index blocks), inodes on disk, files (as lists of bytes) and directories (as maps from names to
    numbers) are related to these views, and every operation keeps them.
  \<^item> Timers and signals: a sleeper is woken at its tick and not before; a delivered signal runs its handler with the
    interrupted state saved, and returning restores it.
  \<^item> Files in use: opening a file counts exactly one reference to its only inode in memory and closing takes it back; a
    pipe gives its page back when its second end is closed.

  \<^bold>\<open>Defects that are part of theorems.\<close> A due alarm wakes tasks in uninterruptible waits and exited ones
  (\<open>timer_interrupt\<close>); one that strikes a task asleep in a pipe stops the machine (\<open>pipe_no_lost_wakeup\<close>), and one that
  strikes a task asleep in a semaphore breaks its list of waiters (\<open>push_front_steals\<close>), which the step relation for locks
  therefore leaves out. Mapping a file directly below a like mapping of it moves the older one
  (\<open>add_vma_correct\<close>), and so does cutting a file mapping in two (\<open>vma_split_moves\<close>). \<^verbatim>\<open>SIGKILL\<close> can be ignored
  (\<open>do_signal_delivers\<close>). The upward search for free addresses can return an address of the kernel
  (\<open>vma_find_gap_overrun\<close>).

  \<^bold>\<open>Bounds and fuel.\<close> No definition has fuel. Loops are structural recursion, recursion with a termination proof, or
  \<open>partial_function (option)\<close> where the code may loop for ever on a corrupted disk (\<open>file_read_loop\<close>, \<open>add_in_block\<close>,
  \<open>readdir_loop\<close>); for these the theorems state that they return. Hypotheses bound what the code leaves unchecked: block
  numbers below \<open>2 ^ 31\<close> and files within the triply indirect range, at most \<open>2 ^ 32 - 1\<close> references, five free blocks
  for every block a file grows by (one of data, three of index blocks, and one so that the last allocation leaves a
  free block), names below 256 bytes.

  \<^bold>\<open>Not modelled.\<close> Assembly, hardware registers and interrupt entry (\<^verbatim>\<open>boot/\<close>, \<^verbatim>\<open>kernel/kernel.s\<close>, \<^verbatim>\<open>device/pci/\<close>,
  \<^verbatim>\<open>device/char/\<close>, \<^verbatim>\<open>device/block/ide.c\<close>), because their behaviour is the hardware's. Page tables, swapping (but for the contents
  of a new page) and the process image (\<^verbatim>\<open>mm/memory.c\<close>, \<^verbatim>\<open>mm/swap.c\<close>, \<^verbatim>\<open>userprog/\<close>), which live in hardware structures seen through recursive mappings. The
  system call layer and path names (\<^verbatim>\<open>fs/fs.c\<close>, \<^verbatim>\<open>fs/namei.c\<close>), which check arguments and dispatch. The operations of ext2
  that combine the modelled ones with the inode cache (\<^verbatim>\<open>ext2_create\<close> to \<^verbatim>\<open>ext2_rename\<close>, \<^verbatim>\<open>ext2_truncate\<close>) and memory
  mapping. Sifs, an older file system behind the same interface. User-space libraries and programs (\<^verbatim>\<open>lib/user/\<close>,
  \<^verbatim>\<open>prog/\<close>). Blocking inside the buffer and inode caches: their critical sections are atomic.
\<close>

end
